(* ===== verification/Prelude.thy ===== *)
theory Prelude
  imports Main "HOL-Library.Word" "HOL-Library.Monad_Syntax"
begin

text \<open>
  What every component shares: the machine integers of the C code and their bit lemmas, checked
  reads of a byte buffer, C strings, and the outcome of the memory allocator.

  \<^item> C integer types are words of their width: \<open>u8\<close>, \<open>u16\<close>, \<open>u32\<close>, \<open>u64\<close>. A C \<open>int\<close>, \<open>i64\<close> that is
    only ever used as a small count is a \<open>nat\<close> or an \<open>int\<close>; where the source depends on its range
    the range is written out.
  \<^item> A buffer with a length is a byte list read through \<open>rd\<close>, so that a read outside it is
    \<open>None\<close> and not an unspecified value.
  \<^item> A NUL-terminated string is the list of the bytes before the terminator, read through
    \<open>zc\<close>: the byte at the length of the list is the terminator.
  \<^item> \<open>malloc\<close> may fail. The outcomes of the coming allocations are a list of booleans, consumed
    from the front; beyond its end every allocation succeeds. Theorems quantify over the list.
\<close>

unbundle bit_operations_syntax

type_synonym u8 = "8 word"
type_synonym u16 = "16 word"
type_synonym u32 = "32 word"
type_synonym u64 = "64 word"

named_theorems bitpos \<open>masks and single-bit tests, rewritten to conditions on bit positions\<close>

section \<open>Words and bits\<close>

lemma bit_byte_bound: "bit (b :: u8) n \<Longrightarrow> n < 8"
  using bit_imp_le_length [of b n] by simp

lemma byte_bit_out: "8 \<le> n \<Longrightarrow> \<not> bit (b :: u8) n"
  using bit_byte_bound by force

lemma mask_7_word [bitpos]: "(0x7f :: 'a :: len word) = mask 7"
  by (simp add: mask_eq_exp_minus_1)

lemma mask_8_word [bitpos]: "(0xff :: 'a :: len word) = mask 8"
  by (simp add: mask_eq_exp_minus_1)

lemma exp_7_word [bitpos]: "(0x80 :: 'a :: len word) = push_bit 7 1"
  by (simp add: push_bit_eq_mult)

lemma high_bit_test [bitpos]: "(w :: u32) AND 0x80 = 0 \<longleftrightarrow> \<not> bit w 7"
  using and_exp_eq_0_iff_not_bit [of w 7] by simp

lemma byte_80_bit_7: "bit (0x80 :: u8) 7"
  by code_simp

text \<open>
  Equality of two words of 64 or 32 bits, position by position: with every position a numeral,
  the simplifier decides the ranges of shifts and masks and compares single bits of the bytes.
\<close>

lemma upt_64: "[0..<64] =
  [0,1,2,3,4,5,6,7,8,9,10,11,12,13,14,15,16,17,18,19,20,21,22,23,24,25,26,27,28,29,30,31,
   32,33,34,35,36,37,38,39,40,41,42,43,44,45,46,47,48,49,50,51,52,53,54,55,56,57,58,59,60,61,62,63]"
  by code_simp

lemma eq64_by_bits: "list_all (\<lambda>n. bit x n = bit y n) [0..<64] \<Longrightarrow> x = (y :: u64)"
  by (rule bit_word_eqI) (simp add: list_all_iff)

lemma upt_32: "[0..<32] =
  [0,1,2,3,4,5,6,7,8,9,10,11,12,13,14,15,16,17,18,19,20,21,22,23,24,25,26,27,28,29,30,31]"
  by code_simp

lemma eq32_by_bits: "list_all (\<lambda>n. bit x n = bit y n) [0..<32] \<Longrightarrow> x = (y :: u32)"
  by (rule bit_word_eqI) (simp add: list_all_iff)

lemma word_split_low:
  "push_bit n (drop_bit n (v :: 'a :: len word)) OR (v AND mask n) = v"
  by (rule bit_word_eqI) (auto simp: bit_simps)

lemma drop_bit_less:
  assumes "v \<noteq> 0" and "0 < n"
  shows "unat (drop_bit n (v :: 'a :: len word)) < unat v"
proof -
  have "unat v > 0" using assms(1) by (simp add: unat_gt_0)
  moreover have "unat (drop_bit n v) = unat v div 2 ^ n"
    by (simp only: unat_drop_bit_eq drop_bit_eq_div [of n "unat v"])
  moreover have "1 < (2 :: nat) ^ n" using assms(2) one_less_power [of "2 :: nat" n] by simp
  ultimately show ?thesis by (simp add: div_less_dividend)
qed

lemma drop_bit_eq_0_iff: "drop_bit n (v :: 'a :: len word) = 0 \<longleftrightarrow> unat v < 2 ^ n"
proof -
  have "drop_bit n v = 0 \<longleftrightarrow> unat (drop_bit n v) = 0" by (simp only: unat_eq_zero)
  also have "unat (drop_bit n v) = unat v div 2 ^ n"
    by (simp only: unat_drop_bit_eq drop_bit_eq_div [of n "unat v"])
  finally show ?thesis by (simp add: div_eq_0_iff)
qed

lemma drop_bit_zero_mono: "drop_bit m (v :: 'a :: len word) = 0 \<Longrightarrow> m \<le> n \<Longrightarrow> drop_bit n v = 0"
  by (metis add_diff_inverse_nat drop_bit_drop_bit drop_bit_of_0 linorder_not_less add.commute)

lemma byte_less_80: "(b :: u8) < 0x80 \<longleftrightarrow> \<not> bit b 7"
proof -
  have "(b :: u8) < 0x80 \<longleftrightarrow> drop_bit 7 b = 0"
    unfolding drop_bit_eq_0_iff by (simp add: word_less_nat_alt)
  also have "\<dots> \<longleftrightarrow> \<not> bit b 7"
  proof
    assume "drop_bit 7 b = 0"
    then have "\<not> bit (drop_bit 7 b) 0" by simp
    then show "\<not> bit b 7" by (simp add: bit_simps)
  next
    assume "\<not> bit b 7"
    then show "drop_bit 7 b = 0"
    proof (intro bit_word_eqI)
      fix n
      show "bit (drop_bit 7 b) n = bit (0 :: u8) n"
        using \<open>\<not> bit b 7\<close> bit_byte_bound [of b "7 + n"] by (cases n) (auto simp: bit_simps)
    qed
  qed
  finally show ?thesis .
qed

text \<open>A property of all words below a bound, decided by evaluation.\<close>

lemma word_table:
  assumes "list_all (\<lambda>i. P (word_of_nat i)) [0..<n]" and "unat k < n"
  shows "P (k :: 'a :: len word)"
proof -
  have "unat k \<in> set [0..<n]" using assms(2) by simp
  with assms(1) have "P (word_of_nat (unat k))" unfolding list_all_iff by (rule bspec)
  then show ?thesis by simp
qed

lemma byte_table: "list_all (\<lambda>i. P (word_of_nat i)) [0..<256] \<Longrightarrow> P (b :: u8)"
  using unsigned_less [of b] by (auto intro: word_table)

section \<open>Checked reads, C strings\<close>

definition rd :: "'a list \<Rightarrow> nat \<Rightarrow> 'a option" where
  "rd p i = (if i < length p then Some (p ! i) else None)"

lemma rd_Nil [simp]: "rd [] i = None"
  by (simp add: rd_def)

lemma rd_Cons_0 [simp]: "rd (x # xs) 0 = Some x"
  by (simp add: rd_def)

lemma rd_Cons_Suc [simp]: "rd (x # xs) (Suc i) = rd xs i"
  by (simp add: rd_def)

lemma rd_Cons_numeral [simp]: "rd (x # xs) (numeral k) = rd xs (pred_numeral k)"
  by (simp add: numeral_eq_Suc)

lemma rd_Some_iff: "rd p i = Some x \<longleftrightarrow> i < length p \<and> x = p ! i"
  by (auto simp: rd_def)

lemma rd_drop [simp]: "rd (drop n p) i = rd p (n + i)"
  by (auto simp: rd_def)

text \<open>Checked writes: one byte, and a block of bytes.\<close>

definition wr :: "'a list \<Rightarrow> nat \<Rightarrow> 'a \<Rightarrow> 'a list option" where
  "wr p i x = (if i < length p then Some (p[i := x]) else None)"

definition wrs :: "'a list \<Rightarrow> nat \<Rightarrow> 'a list \<Rightarrow> 'a list option" where
  "wrs p i xs = (if i + length xs \<le> length p then Some (take i p @ xs @ drop (i + length xs) p) else None)"

lemma wr_Some [simp]: "i < length p \<Longrightarrow> wr p i x = Some (p[i := x])"
  by (simp add: wr_def)

lemma wrs_Some [simp]:
  "i + length xs \<le> length p \<Longrightarrow> wrs p i xs = Some (take i p @ xs @ drop (i + length xs) p)"
  by (simp add: wrs_def)

text \<open>Congruences that compare two chains of reads and tests branch by branch.\<close>

lemma bind_same: "m = m' \<Longrightarrow> (\<And>x. f x = g x) \<Longrightarrow> Option.bind m f = Option.bind m' g"
  by (cases m') auto

lemma if_same: "c = d \<Longrightarrow> (d \<Longrightarrow> a = a') \<Longrightarrow> b = b' \<Longrightarrow> (if c then a else b) = (if d then a' else b')"
  by auto

lemma some_pair_same: "x = y \<Longrightarrow> Some (x, n) = Some (y, n)"
  by simp

definition zc :: "u8 list \<Rightarrow> nat \<Rightarrow> u8" where
  "zc z i = (if i < length z then z ! i else 0)"

lemma zc_Nil [simp]: "zc [] i = 0"
  by (simp add: zc_def)

lemma zc_Cons_0 [simp]: "zc (x # xs) 0 = x"
  by (simp add: zc_def)

lemma zc_Cons_Suc [simp]: "zc (x # xs) (Suc i) = zc xs i"
  by (simp add: zc_def)

text \<open>A string that holds no NUL byte: what a C string can be.\<close>

definition cstring :: "u8 list \<Rightarrow> bool" where
  "cstring z \<longleftrightarrow> 0 \<notin> set z"

lemma zc_eq_0_iff: "cstring z \<Longrightarrow> zc z i = 0 \<longleftrightarrow> length z \<le> i"
  by (auto simp: zc_def cstring_def in_set_conv_nth)

lemma cstring_Nil [simp]: "cstring []"
  by (simp add: cstring_def)

lemma cstring_Cons [simp]: "cstring (x # xs) \<longleftrightarrow> x \<noteq> 0 \<and> cstring xs"
  by (auto simp: cstring_def)

section \<open>The outcome of malloc\<close>

type_synonym mem = "bool list"

fun malloc :: "mem \<Rightarrow> bool \<times> mem" where
  "malloc [] = (True, [])"
| "malloc (ok # m) = (ok, m)"

section \<open>Result codes\<close>

definition SQLITE_OK :: nat where "SQLITE_OK = 0"
definition SQLITE_NOMEM :: nat where "SQLITE_NOMEM = 7"
definition SQLITE_READONLY :: nat where "SQLITE_READONLY = 8"
definition SQLITE_CORRUPT :: nat where "SQLITE_CORRUPT = 11"
definition SQLITE_CANTOPEN :: nat where "SQLITE_CANTOPEN = 14"

lemmas result_codes = SQLITE_OK_def SQLITE_NOMEM_def SQLITE_READONLY_def SQLITE_CORRUPT_def SQLITE_CANTOPEN_def

end
