(* ===== verification/Interfaces.thy ===== *)
theory Interfaces
  imports Prelude
begin

text \<open>
  The contracts between components, as locales. Each locale fixes the operations a client calls
  and assumes the laws the provider promises; the client's lemmas are proved once inside it. The
  theory of the providing component interprets it on the model's own definitions.

  \<^item> \<open>byte_codec\<close>: a self-delimiting encoding of values as bytes (\<open>Varint\<close>).
  \<^item> \<open>char_codec\<close>: an encoding of characters that can be read one after another (\<open>UtfText\<close>).
  \<^item> \<open>assoc_map\<close>: a map whose keys are compared up to a normal form (\<open>HashRep\<close>).
\<close>

section \<open>Self-delimiting byte encodings\<close>

text \<open>Reading a given number of consecutive values from the front of a buffer.\<close>

fun get_seq :: "(u8 list \<Rightarrow> ('v \<times> nat) option) \<Rightarrow> nat \<Rightarrow> u8 list \<Rightarrow> ('v list \<times> u8 list) option" where
  "get_seq get 0 bs = Some ([], bs)"
| "get_seq get (Suc n) bs = do {
     (v, k) \<leftarrow> get bs;
     (vs, rest) \<leftarrow> get_seq get n (drop k bs);
     Some (v # vs, rest) }"

locale byte_codec =
  fixes put :: "'v \<Rightarrow> u8 list"
    and get :: "u8 list \<Rightarrow> ('v \<times> nat) option"
  assumes get_put: "get (put v @ rest) = Some (v, length (put v))"
begin

lemma put_inject: "put v = put w \<longleftrightarrow> v = w"
proof
  assume "put v = put w"
  then have "get (put v @ []) = get (put w @ [])" by simp
  then show "v = w" by (simp only: get_put option.inject prod.inject)
qed simp

lemma prefix_free:
  assumes "put v @ r = put w @ r'"
  shows "v = w \<and> r = r'"
proof -
  have "get (put v @ r) = get (put w @ r')" using assms by simp
  then have "v = w" by (simp only: get_put option.inject prod.inject)
  with assms show ?thesis by simp
qed

lemma get_seq_put:
  "get_seq get (length vs) (concat (map put vs) @ rest) = Some (vs, rest)"
  by (induction vs) (simp_all add: get_put)

lemma stream_inject:
  assumes "concat (map put vs) @ r = concat (map put ws) @ r'" and "length vs = length ws"
  shows "vs = ws \<and> r = r'"
proof -
  have "get_seq get (length vs) (concat (map put vs) @ r)
      = get_seq get (length ws) (concat (map put ws) @ r')"
    by (simp only: assms)
  then show ?thesis
    by (simp only: get_seq_put option.inject prod.inject)
qed

end

section \<open>Character encodings\<close>

text \<open>Reading characters until the reader stops.\<close>

function decode :: "(u8 list \<Rightarrow> ('c \<times> u8 list) option) \<Rightarrow> u8 list \<Rightarrow> 'c list" where
  "decode get z =
     (case get z of
        None \<Rightarrow> []
      | Some (c, r) \<Rightarrow> if length r < length z then c # decode get r else [])"
  by pat_completeness auto
termination
  by (relation "measure (\<lambda>(g, z). length z)") auto

declare decode.simps [simp del]

text \<open>
  A character is read back when what comes after it may follow a character: in UTF-8 a byte that
  continues a character may not.
\<close>

locale char_codec =
  fixes putc :: "'c \<Rightarrow> u8 list"
    and getc :: "u8 list \<Rightarrow> ('c \<times> u8 list) option"
    and char :: "'c \<Rightarrow> bool"
    and follows :: "u8 list \<Rightarrow> bool"
  assumes read_write: "char c \<Longrightarrow> follows z \<Longrightarrow> getc (putc c @ z) = Some (c, z)"
    and read_Nil: "getc [] = None"
    and follows_Nil: "follows []"
    and follows_write: "char c \<Longrightarrow> follows (putc c @ z)"
begin

lemma follows_text: "\<forall>c \<in> set cs. char c \<Longrightarrow> follows (concat (map putc cs))"
  by (cases cs) (simp_all add: follows_Nil follows_write)

lemma write_nonempty: "char c \<Longrightarrow> putc c \<noteq> []"
  using read_write [of c "[]"] by (auto simp: follows_Nil read_Nil)

lemma read_text:
  "char c \<Longrightarrow> \<forall>d \<in> set cs. char d \<Longrightarrow> getc (putc c @ concat (map putc cs)) = Some (c, concat (map putc cs))"
  by (intro read_write follows_text)

lemma decode_text: "\<forall>c \<in> set cs. char c \<Longrightarrow> decode getc (concat (map putc cs)) = cs"
proof (induction cs)
  case Nil
  then show ?case by (simp add: decode.simps [of _ "[]"] read_Nil)
next
  case (Cons c cs)
  then have "getc (putc c @ concat (map putc cs)) = Some (c, concat (map putc cs))"
    by (intro read_text) simp_all
  then show ?case
    using Cons write_nonempty [of c]
    by (simp add: decode.simps [of _ "putc c @ concat (map putc cs)"])
qed

lemma text_inject:
  assumes "\<forall>c \<in> set cs. char c" and "\<forall>d \<in> set ds. char d"
    and "concat (map putc cs) = concat (map putc ds)"
  shows "cs = ds"
  using decode_text [OF assms(1)] decode_text [OF assms(2)] unfolding assms(3) by simp

end

section \<open>Maps with normalised keys\<close>

text \<open>
  A store is a relation: the state it leads to may depend on what the allocator answers. \<open>stores\<close>
  is a sequence of stores, \<open>None\<close> deleting a key.
\<close>

inductive stores :: "('m \<Rightarrow> 'k \<Rightarrow> 'v option \<Rightarrow> 'm \<Rightarrow> bool) \<Rightarrow> 'm \<Rightarrow> ('k \<times> 'v option) list \<Rightarrow> 'm \<Rightarrow> bool"
  for store
where
  stores_none: "stores store m [] m"
| stores_more: "store m k v m1 \<Longrightarrow> stores store m1 ops m' \<Longrightarrow> stores store m ((k, v) # ops) m'"

inductive_simps stores_simps [simp]: "stores store m [] m'" "stores store m ((k, v) # ops) m'"

locale assoc_map =
  fixes inv :: "'m \<Rightarrow> bool"
    and key :: "'k \<Rightarrow> bool"
    and norm :: "'k \<Rightarrow> 'q"
    and find :: "'m \<Rightarrow> 'k \<Rightarrow> 'v option"
    and store :: "'m \<Rightarrow> 'k \<Rightarrow> 'v option \<Rightarrow> 'm \<Rightarrow> bool"
  assumes store_inv: "inv m \<Longrightarrow> store m k v m' \<Longrightarrow> inv m'"
    and find_store: "inv m \<Longrightarrow> store m k v m' \<Longrightarrow> key k' \<Longrightarrow>
      find m' k' = (if norm k' = norm k then v else find m k')"
begin

lemma stores_inv: "stores store m ops m' \<Longrightarrow> inv m \<Longrightarrow> inv m'"
  by (induction rule: stores.induct) (auto intro: store_inv)

lemma stores_last_write:
  "stores store m ops m' \<Longrightarrow> inv m \<Longrightarrow> key k' \<Longrightarrow>
     find m' k' = fold (\<lambda>(k, v) r. if norm k' = norm k then v else r) ops (find m k')"
proof (induction rule: stores.induct)
  case (stores_more m k v m1 ops m')
  then show ?case using store_inv find_store by simp
qed simp

lemma stores_commute:
  assumes "stores store m [(j, v), (k, w)] m1" and "stores store m [(k, w), (j, v)] m2"
    and "inv m" and "norm j \<noteq> norm k" and "key i"
  shows "find m1 i = find m2 i"
  using stores_last_write [OF assms(1,3,5)] stores_last_write [OF assms(2,3,5)] assms(4) by auto

end

end
