(* ===== verification/Varint.thy ===== *)
theory Varint
  imports Interfaces
begin

text \<open>
  The variable-length integers and the big-endian four-byte integers of the database file format
  (\<^verbatim>\<open>src/util.c\<close>): the writers, the hand-unrolled reader, the 32-bit reader with its macro,
  and the length function. Reads go through \<open>rd\<close>, so a truncated buffer is \<open>None\<close>. A writer
  returns the bytes it stores from \<^verbatim>\<open>p[0]\<close> on, and its return value.
  The portable branches are modelled, the ones the pod's compiler takes: Apple's clang reports a
  \<^verbatim>\<open>GCC_VERSION\<close> of 4002001, below every threshold of the file.

  \<open>vdec\<close> is the specification: seven bits a byte, most significant first, and all eight bits of a
  ninth byte. The lemmas show that the unrolled reader computes it on every buffer, that it inverts
  the writer, and what \<^verbatim>\<open>sqlite3VarintLen\<close> counts.
\<close>

section \<open>The code\<close>

subsection \<open>Writers\<close>

text \<open>The nine-byte case fills \<^verbatim>\<open>p[7]\<close> down to \<^verbatim>\<open>p[0]\<close>: these are the bytes in the order written.\<close>

fun putVarint64_digits :: "nat \<Rightarrow> u64 \<Rightarrow> u8 list" where
  "putVarint64_digits 0 v = []"
| "putVarint64_digits (Suc i) v = (ucast (v AND 0x7f) OR 0x80) # putVarint64_digits i (drop_bit 7 v)"

text \<open>The do-while loop that fills \<^verbatim>\<open>buf\<close>.\<close>

function putVarint64_buf :: "u64 \<Rightarrow> u8 list" where
  "putVarint64_buf v =
     (ucast (v AND 0x7f) OR 0x80) #
     (if drop_bit 7 v \<noteq> 0 then putVarint64_buf (drop_bit 7 v) else [])"
  by pat_completeness auto
termination
proof (relation "measure unat")
  fix v :: u64
  assume "drop_bit 7 v \<noteq> 0"
  then have "v \<noteq> 0" by auto
  then have "unat (drop_bit 7 v) < unat v" by (rule drop_bit_less) simp
  then show "(drop_bit 7 v, v) \<in> measure unat" by (simp only: in_measure)
qed simp

declare putVarint64_buf.simps [simp del]

definition putVarint64 :: "u64 \<Rightarrow> u8 list \<times> nat" where
  "putVarint64 v =
     (if v AND push_bit 32 0xff000000 \<noteq> 0
      then (rev (putVarint64_digits 8 (drop_bit 8 v)) @ [ucast v], 9)
      else let buf = putVarint64_buf v; n = length buf; buf = buf[0 := buf ! 0 AND 0x7f]
           in (rev buf, n))"

definition sqlite3PutVarint :: "u64 \<Rightarrow> u8 list \<times> nat" where
  "sqlite3PutVarint v =
     (if v \<le> 0x7f then ([ucast (v AND 0x7f)], 1)
      else if v \<le> 0x3fff then ([ucast (drop_bit 7 v AND 0x7f) OR 0x80, ucast (v AND 0x7f)], 2)
      else putVarint64 v)"

text \<open>The macro in front of the writer, for 32-bit values.\<close>

definition putVarint32 :: "u32 \<Rightarrow> u8 list \<times> nat" where
  "putVarint32 B = (if B < 0x80 then ([ucast B], 1) else sqlite3PutVarint (ucast B))"

subsection \<open>Readers\<close>

definition SLOT_2_0 :: u32 where
  "SLOT_2_0 = 0x001fc07f"

definition SLOT_4_2_0 :: u32 where
  "SLOT_4_2_0 = 0xf01fc07f"

definition sqlite3GetVarint :: "u8 list \<Rightarrow> (u64 \<times> nat) option" where
  "sqlite3GetVarint p = do {
     p0 \<leftarrow> rd p 0; let a = (ucast p0 :: u32);
     if a AND 0x80 = 0 then Some (ucast a, 1) else do {
     p1 \<leftarrow> rd p 1; let b = (ucast p1 :: u32);
     if b AND 0x80 = 0 then
       (let a = a AND 0x7f; a = push_bit 7 a; a = a OR b in Some (ucast a, 2)) else do {
     let a = push_bit 14 a;
     p2 \<leftarrow> rd p 2; let a = a OR ucast p2;
     if a AND 0x80 = 0 then
       (let a = a AND SLOT_2_0; b = b AND 0x7f; b = push_bit 7 b; a = a OR b
        in Some (ucast a, 3)) else do {
     let a = a AND SLOT_2_0;
     let b = push_bit 14 b;
     p3 \<leftarrow> rd p 3; let b = b OR ucast p3;
     if b AND 0x80 = 0 then
       (let b = b AND SLOT_2_0; a = push_bit 7 a; a = a OR b in Some (ucast a, 4)) else do {
     let b = b AND SLOT_2_0;
     let s = a;
     let a = push_bit 14 a;
     p4 \<leftarrow> rd p 4; let a = a OR ucast p4;
     if a AND 0x80 = 0 then
       (let b = push_bit 7 b; a = a OR b; s = drop_bit 18 s
        in Some (push_bit 32 (ucast s) OR ucast a, 5)) else do {
     let s = push_bit 7 s;
     let s = s OR b;
     let b = push_bit 14 b;
     p5 \<leftarrow> rd p 5; let b = b OR ucast p5;
     if b AND 0x80 = 0 then
       (let a = a AND SLOT_2_0; a = push_bit 7 a; a = a OR b; s = drop_bit 18 s
        in Some (push_bit 32 (ucast s) OR ucast a, 6)) else do {
     let a = push_bit 14 a;
     p6 \<leftarrow> rd p 6; let a = a OR ucast p6;
     if a AND 0x80 = 0 then
       (let a = a AND SLOT_4_2_0; b = b AND SLOT_2_0; b = push_bit 7 b; a = a OR b;
            s = drop_bit 11 s
        in Some (push_bit 32 (ucast s) OR ucast a, 7)) else do {
     let a = a AND SLOT_2_0;
     let b = push_bit 14 b;
     p7 \<leftarrow> rd p 7; let b = b OR ucast p7;
     if b AND 0x80 = 0 then
       (let b = b AND SLOT_4_2_0; a = push_bit 7 a; a = a OR b; s = drop_bit 4 s
        in Some (push_bit 32 (ucast s) OR ucast a, 8)) else do {
     let a = push_bit 15 a;
     p8 \<leftarrow> rd p 8; let a = a OR ucast p8;
     let b = b AND SLOT_2_0;
     let b = push_bit 8 b;
     let a = a OR b;
     let s = push_bit 4 s;
     let b = ucast p4;
     let b = b AND 0x7f;
     let b = drop_bit 3 b;
     let s = s OR b;
     Some (push_bit 32 (ucast s) OR ucast a, 9) }}}}}}}}}"

text \<open>
  The 32-bit reader and the macro that handles its one-byte case. The header defines the macro, so
  the one-byte case of the function itself is not compiled.
\<close>

definition sqlite3GetVarint32 :: "u8 list \<Rightarrow> (u32 \<times> nat) option" where
  "sqlite3GetVarint32 p = do {
     p0 \<leftarrow> rd p 0; let a = (ucast p0 :: u32);
     p1 \<leftarrow> rd p 1; let b = (ucast p1 :: u32);
     if b AND 0x80 = 0 then
       (let a = a AND 0x7f; a = push_bit 7 a in Some (a OR b, 2)) else do {
     let a = push_bit 14 a;
     p2 \<leftarrow> rd p 2; let a = a OR ucast p2;
     if a AND 0x80 = 0 then
       (let a = a AND (push_bit 14 0x7f OR 0x7f); b = b AND 0x7f; b = push_bit 7 b
        in Some (a OR b, 3)) else do {
     (v64, n) \<leftarrow> sqlite3GetVarint p;
     if v64 AND 0xffffffff \<noteq> v64 then Some (0xffffffff, n) else Some (ucast v64, n) }}}"

definition getVarint32 :: "u8 list \<Rightarrow> (u32 \<times> nat) option" where
  "getVarint32 A = do {
     A0 \<leftarrow> rd A 0;
     if A0 < 0x80 then Some (ucast A0, 1) else sqlite3GetVarint32 A }"

function sqlite3VarintLen_loop :: "nat \<Rightarrow> u64 \<Rightarrow> nat" where
  "sqlite3VarintLen_loop i v =
     (let v = drop_bit 7 v in if v \<noteq> 0 then sqlite3VarintLen_loop (i + 1) v else i)"
  by pat_completeness auto
termination
proof (relation "measure (unat \<circ> snd)")
  fix i :: nat and v x :: u64
  assume x: "x = drop_bit 7 v" and "x \<noteq> 0"
  then have "v \<noteq> 0" by auto
  then have "unat (drop_bit 7 v) < unat v" by (rule drop_bit_less) simp
  then show "((i + 1, x), i, v) \<in> measure (unat \<circ> snd)" by (simp only: in_measure o_apply snd_conv x)
qed simp

declare sqlite3VarintLen_loop.simps [simp del]

definition sqlite3VarintLen :: "u64 \<Rightarrow> nat" where
  "sqlite3VarintLen v = sqlite3VarintLen_loop 1 v"

subsection \<open>Big-endian four-byte integers\<close>

definition sqlite3Get4byte :: "u8 list \<Rightarrow> u32 option" where
  "sqlite3Get4byte p = do {
     p0 \<leftarrow> rd p 0; p1 \<leftarrow> rd p 1; p2 \<leftarrow> rd p 2; p3 \<leftarrow> rd p 3;
     Some (push_bit 24 (ucast p0) OR push_bit 16 (ucast p1) OR push_bit 8 (ucast p2) OR ucast p3) }"

definition sqlite3Put4byte :: "u32 \<Rightarrow> u8 list" where
  "sqlite3Put4byte v =
     [ucast (drop_bit 24 v), ucast (drop_bit 16 v), ucast (drop_bit 8 v), ucast v]"

section \<open>The specification of the format\<close>

text \<open>\<open>vdec k acc bs\<close>: \<open>k\<close> bytes have been read and hold the value \<open>acc\<close>.\<close>

fun vdec :: "nat \<Rightarrow> u64 \<Rightarrow> u8 list \<Rightarrow> (u64 \<times> nat) option" where
  "vdec k acc [] = None"
| "vdec k acc (b # bs) =
     (if k = 8 then Some (push_bit 8 acc OR ucast b, 9)
      else if bit b 7 then vdec (Suc k) (push_bit 7 acc OR (ucast b AND 0x7f)) bs
      else Some (push_bit 7 acc OR ucast b, Suc k))"

lemma vdec_step: "k < 8 \<Longrightarrow> k' = Suc k \<Longrightarrow> vdec k acc (drop k p) = do {
    b \<leftarrow> rd p k;
    if \<not> bit b 7 then Some (push_bit 7 acc OR ucast b, k')
    else vdec k' (push_bit 7 acc OR (ucast b AND 0x7f)) (drop k' p) }"
  by (cases "k < length p") (simp_all add: rd_def flip: Cons_nth_drop_Suc)

lemma vdec_last: "vdec 8 acc (drop 8 p) = do { b \<leftarrow> rd p 8; Some (push_bit 8 acc OR ucast b, 9) }"
  by (cases "8 < length p") (simp_all add: rd_def flip: Cons_nth_drop_Suc)

lemma vdec_bounds: "vdec k acc bs = Some (v, n) \<Longrightarrow> k \<le> 8 \<Longrightarrow> k < n \<and> n \<le> 9 \<and> n \<le> k + length bs"
  by (induction k acc bs rule: vdec.induct) (fastforce split: if_splits)+

section \<open>The unrolled reader computes the specification\<close>

lemma slot_2_0 [bitpos]: "SLOT_2_0 = push_bit 14 (mask 7) OR mask 7"
  by (simp add: SLOT_2_0_def mask_eq_exp_minus_1 push_bit_eq_mult)

lemma slot_4_2_0 [bitpos]: "SLOT_4_2_0 = push_bit 28 (mask 4) OR push_bit 14 (mask 7) OR mask 7"
  by (simp add: SLOT_4_2_0_def mask_eq_exp_minus_1 push_bit_eq_mult)

text \<open>
  Branch by branch: the tests of the high bit agree, and where both return, the two values agree in
  every bit position.
\<close>

lemma sqlite3GetVarint_vdec: "sqlite3GetVarint p = vdec 0 0 p"
proof -
  have "sqlite3GetVarint p = vdec 0 0 (drop 0 p)"
    unfolding sqlite3GetVarint_def Let_def
    apply (subst vdec_step [of 0 1], simp, simp)
    apply (subst vdec_step [of 1 2], simp, simp)
    apply (subst vdec_step [of 2 3], simp, simp)
    apply (subst vdec_step [of 3 4], simp, simp)
    apply (subst vdec_step [of 4 5], simp, simp)
    apply (subst vdec_step [of 5 6], simp, simp)
    apply (subst vdec_step [of 6 7], simp, simp)
    apply (subst vdec_step [of 7 8], simp, simp)
    apply (subst vdec_last)
    apply (intro bind_same if_same some_pair_same refl;
        ((simp add: high_bit_test bit_simps byte_bit_out slot_2_0 slot_4_2_0; fail)
        | (unfold bitpos, rule eq64_by_bits, simp add: bit_simps upt_64 byte_bit_out; fail)
        | (rule bit_word_eqI, auto simp: bit_simps dest: bit_byte_bound; fail)))
    done
  then show ?thesis by simp
qed

section \<open>The reader inverts the writer\<close>

lemma vdec_digits:
  "j + k \<le> 8 \<Longrightarrow> vdec k (drop_bit (7 * j) v) (rev (putVarint64_digits j v) @ bs) = vdec (k + j) v bs"
proof (induction j arbitrary: k v bs)
  case 0
  then show ?case by simp
next
  case (Suc j)
  let ?b = "ucast (v AND 0x7f) OR 0x80 :: u8"
  have e: "7 * Suc j = 7 * j + 7" by simp
  have d: "drop_bit (7 * Suc j) v = drop_bit (7 * j) (drop_bit 7 v)"
    by (simp only: drop_bit_drop_bit e)
  have "vdec k (drop_bit (7 * Suc j) v) (rev (putVarint64_digits (Suc j) v) @ bs)
      = vdec k (drop_bit (7 * j) (drop_bit 7 v))
          (rev (putVarint64_digits j (drop_bit 7 v)) @ ?b # bs)"
    by (simp only: d putVarint64_digits.simps rev.simps append_assoc append_Cons append_Nil)
  also have "\<dots> = vdec (k + j) (drop_bit 7 v) (?b # bs)"
    using Suc.prems by (intro Suc.IH) simp
  also have "\<dots> = vdec (k + Suc j) v bs"
  proof -
    have b: "bit ?b 7" by (simp only: bit_or_iff byte_80_bit_7 simp_thms)
    have w: "push_bit 7 (drop_bit 7 v) OR (ucast ?b AND 0x7f) = v"
      unfolding bitpos by (rule eq64_by_bits) (simp add: bit_simps upt_64)
    have n: "k + j \<noteq> 8" using Suc.prems by simp
    show ?thesis by (simp only: vdec.simps n b w if_True if_False add_Suc_right)
  qed
  finally show ?case .
qed

lemma length_digits [simp]: "length (putVarint64_digits j v) = j"
  by (induction j v rule: putVarint64_digits.induct) auto

lemma vdec_nine:
  "vdec 0 0 (rev (putVarint64_digits 8 (drop_bit 8 v)) @ ucast v # bs) = Some (v, 9)"
proof -
  have z: "drop_bit (7 * 8) (drop_bit 8 v) = 0"
    by (rule bit_word_eqI) (simp add: bit_simps)
  have w: "push_bit 8 (drop_bit 8 v) OR ucast (ucast v :: u8) = v"
    by (rule bit_word_eqI) (auto simp: bit_simps)
  have "vdec 0 (drop_bit (7 * 8) (drop_bit 8 v))
          (rev (putVarint64_digits 8 (drop_bit 8 v)) @ ucast v # bs)
      = vdec (0 + 8) (drop_bit 8 v) (ucast v # bs)"
    by (rule vdec_digits) simp
  then show ?thesis unfolding z by (simp add: w)
qed

text \<open>The loop of the general case emits as many digits as the value has groups of seven bits.\<close>

lemma buf_digits:
  "\<exists>n. putVarint64_buf v = putVarint64_digits (Suc n) v \<and> drop_bit (7 * Suc n) v = 0
     \<and> (n = 0 \<or> drop_bit (7 * n) v \<noteq> 0)"
proof (induction v rule: putVarint64_buf.induct)
  case (1 v)
  show ?case
  proof (cases "drop_bit 7 v = 0")
    case True
    then show ?thesis by (intro exI [of _ 0]) (simp add: putVarint64_buf.simps [of v])
  next
    case False
    with 1 obtain n where "putVarint64_buf (drop_bit 7 v) = putVarint64_digits (Suc n) (drop_bit 7 v)"
      and "drop_bit (7 * Suc n) (drop_bit 7 v) = 0"
      and "n = 0 \<or> drop_bit (7 * n) (drop_bit 7 v) \<noteq> 0"
      by blast
    with False show ?thesis
      by (intro exI [of _ "Suc n"]) (auto simp: putVarint64_buf.simps [of v] algebra_simps)
  qed
qed

lemma high_mask: "(v :: u64) AND push_bit 32 0xff000000 = 0 \<longleftrightarrow> drop_bit 56 v = 0"
proof -
  have m: "push_bit 32 0xff000000 = push_bit 56 (mask 8 :: u64)"
    by (simp add: mask_eq_exp_minus_1 push_bit_eq_mult)
  have "v AND push_bit 56 (mask 8) = push_bit 56 (drop_bit 56 v)"
    by (rule bit_word_eqI) (auto simp: bit_simps)
  moreover have "drop_bit 56 (push_bit 56 (drop_bit 56 v)) = drop_bit 56 v"
    by (rule bit_word_eqI) (auto simp: bit_simps dest: bit_imp_le_length)
  ultimately show ?thesis unfolding m by (metis drop_bit_of_0 push_bit_of_0)
qed

lemma vdec_low:
  assumes "n \<le> 7"
  shows "vdec n (drop_bit 7 v) (ucast (v AND 0x7f) # bs) = Some (v, Suc n)"
proof -
  have b: "\<not> bit (ucast (v AND 0x7f) :: u8) 7"
    unfolding bitpos by (simp add: bit_simps)
  have w: "push_bit 7 (drop_bit 7 v) OR ucast (ucast (v AND 0x7f) :: u8) = v"
    unfolding bitpos by (rule eq64_by_bits) (simp add: bit_simps upt_64)
  have n: "n \<noteq> 8" using assms by simp
  show ?thesis by (simp only: vdec.simps n b w if_False)
qed

lemma low_byte: "(ucast (v AND 0x7f) OR 0x80 :: u8) AND 0x7f = ucast ((v :: u64) AND 0x7f)"
proof -
  have z: "(0x80 :: u8) AND 0x7f = 0" by code_simp
  have l: "(ucast (v AND 0x7f) :: u8) AND 0x7f = ucast (v AND 0x7f)"
    unfolding mask_7_word by (rule bit_word_eqI) (auto simp: bit_simps)
  show ?thesis by (simp only: bit.conj_disj_distrib2 z l or.right_neutral)
qed

lemmas high_mask_num = high_mask [simplified]

lemma putVarint64_small:
  assumes "drop_bit 56 v = 0"
  shows "\<exists>n \<le> 7. putVarint64 v = (rev (putVarint64_digits n (drop_bit 7 v)) @ [ucast (v AND 0x7f)], Suc n)
     \<and> drop_bit (7 * Suc n) v = 0 \<and> (n = 0 \<or> drop_bit (7 * n) v \<noteq> 0)"
proof -
  obtain n where buf: "putVarint64_buf v = putVarint64_digits (Suc n) v"
    and z: "drop_bit (7 * Suc n) v = 0" and nz: "n = 0 \<or> drop_bit (7 * n) v \<noteq> 0"
    using buf_digits by blast
  have "n \<le> 7"
  proof (rule ccontr)
    assume "\<not> n \<le> 7"
    then have "drop_bit (7 * n) v = 0" by (intro drop_bit_zero_mono [OF assms]) simp
    with nz \<open>\<not> n \<le> 7\<close> show False by simp
  qed
  moreover have "putVarint64 v = (rev (putVarint64_digits n (drop_bit 7 v)) @ [ucast (v AND 0x7f)], Suc n)"
    using assms by (simp add: putVarint64_def high_mask_num buf low_byte Let_def)
  ultimately show ?thesis using z nz by blast
qed

lemma vdec_putVarint64:
  "vdec 0 0 (fst (putVarint64 v) @ bs) = Some (v, snd (putVarint64 v))"
proof (cases "drop_bit 56 v = 0")
  case True
  then obtain n where n: "n \<le> 7" and z: "drop_bit (7 * Suc n) v = 0"
    and p: "putVarint64 v = (rev (putVarint64_digits n (drop_bit 7 v)) @ [ucast (v AND 0x7f)], Suc n)"
    using putVarint64_small by blast
  have e: "7 * n + 7 = 7 * Suc n" by simp
  have z': "drop_bit (7 * n) (drop_bit 7 v) = 0" using z by (simp only: drop_bit_drop_bit e)
  have "vdec 0 (drop_bit (7 * n) (drop_bit 7 v)) (rev (putVarint64_digits n (drop_bit 7 v)) @ ucast (v AND 0x7f) # bs)
     = vdec (0 + n) (drop_bit 7 v) (ucast (v AND 0x7f) # bs)"
    using n by (intro vdec_digits) simp
  then show ?thesis by (simp only: z' p fst_conv snd_conv append_assoc append_Cons append_Nil vdec_low [OF n] add_0)
next
  case False
  then show ?thesis by (simp add: putVarint64_def high_mask_num vdec_nine del: vdec.simps)
qed

lemma le_7f: "(v :: u64) \<le> 0x7f \<longleftrightarrow> drop_bit 7 v = 0"
  unfolding drop_bit_eq_0_iff by (simp add: word_le_nat_alt) linarith

lemma le_3fff: "(v :: u64) \<le> 0x3fff \<longleftrightarrow> drop_bit 14 v = 0"
  unfolding drop_bit_eq_0_iff by (simp add: word_le_nat_alt) linarith

lemma vdec_put: "vdec 0 0 (fst (sqlite3PutVarint v) @ bs) = Some (v, snd (sqlite3PutVarint v))"
proof -
  consider (1) "drop_bit 7 v = 0" | (2) "drop_bit 7 v \<noteq> 0" "drop_bit 14 v = 0" | (3) "drop_bit 7 v \<noteq> 0" "drop_bit 14 v \<noteq> 0"
    by blast
  then show ?thesis
  proof cases
    case 1
    have "vdec 0 (drop_bit 7 v) (ucast (v AND 0x7f) # bs) = Some (v, Suc 0)"
      by (rule vdec_low) simp
    then show ?thesis using 1 by (simp only: sqlite3PutVarint_def le_7f simp_thms if_True fst_conv snd_conv append_Cons append_Nil One_nat_def)
  next
    case 2
    let ?b = "ucast (drop_bit 7 v AND 0x7f) OR 0x80 :: u8"
    have "vdec 0 (drop_bit (7 * 1) (drop_bit 7 v)) (rev (putVarint64_digits 1 (drop_bit 7 v)) @ ucast (v AND 0x7f) # bs)
        = vdec (0 + 1) (drop_bit 7 v) (ucast (v AND 0x7f) # bs)"
      by (rule vdec_digits) simp
    also have "\<dots> = Some (v, Suc 1)" by (simp only: add_0 vdec_low [of 1])
    finally show ?thesis using 2
      by (simp only: sqlite3PutVarint_def le_7f le_3fff if_True if_False fst_conv snd_conv append_Cons append_Nil One_nat_def)
        (simp del: vdec.simps)
  next
    case 3
    then show ?thesis by (simp only: sqlite3PutVarint_def le_7f le_3fff if_False vdec_putVarint64)
  qed
qed

lemma length_put: "length (fst (sqlite3PutVarint v)) = snd (sqlite3PutVarint v)"
proof (cases "drop_bit 56 v = 0")
  case True
  then obtain n where "putVarint64 v = (rev (putVarint64_digits n (drop_bit 7 v)) @ [ucast (v AND 0x7f)], Suc n)"
    using putVarint64_small by blast
  then show ?thesis by (simp add: sqlite3PutVarint_def)
next
  case False
  then show ?thesis by (simp add: sqlite3PutVarint_def putVarint64_def high_mask_num)
qed

interpretation varint: byte_codec "\<lambda>v. fst (sqlite3PutVarint v)" sqlite3GetVarint
  by unfold_locales (simp add: sqlite3GetVarint_vdec vdec_put length_put)


lemma get4_put4: "sqlite3Get4byte (sqlite3Put4byte v @ rest) = Some v"
proof -
  have "push_bit 24 (ucast (ucast (drop_bit 24 v) :: u8)) OR push_bit 16 (ucast (ucast (drop_bit 16 v) :: u8))
      OR push_bit 8 (ucast (ucast (drop_bit 8 v) :: u8)) OR ucast (ucast v :: u8) = v"
    by (rule eq32_by_bits) (simp add: bit_simps upt_32)
  then show ?thesis by (simp add: sqlite3Get4byte_def sqlite3Put4byte_def numeral_eq_Suc del: drop_bit_numeral_minus_bit1)
qed

interpretation four_byte: byte_codec sqlite3Put4byte "\<lambda>p. map_option (\<lambda>v. (v, 4)) (sqlite3Get4byte p)"
  by unfold_locales (simp add: get4_put4, simp add: sqlite3Put4byte_def)

lemma fits_32: "(x :: u64) AND 0xffffffff = x \<longleftrightarrow> x \<le> 0xffffffff"
proof -
  have m: "(0xffffffff :: u64) = mask 32" by (simp add: mask_eq_exp_minus_1)
  have "x AND mask 32 = x \<longleftrightarrow> unat (take_bit 32 x) = unat x"
    by (simp only: take_bit_eq_mask word_unat_eq_iff)
  also have "\<dots> \<longleftrightarrow> unat x mod 2 ^ 32 = unat x"
    by (simp only: unsigned_take_bit_eq take_bit_eq_mod [of 32 "unat x"])
  also have "\<dots> \<longleftrightarrow> x \<le> 0xffffffff"
    by (simp add: mod_eq_self_iff_div_eq_0 div_eq_0_iff word_le_nat_alt) linarith
  finally show ?thesis by (simp only: m)
qed

lemma small_fits: "drop_bit 32 (x :: u64) = 0 \<Longrightarrow> x \<le> 0xffffffff"
  unfolding drop_bit_eq_0_iff by (simp add: word_le_nat_alt)


definition sat32 :: "u64 \<Rightarrow> u32" where
  "sat32 v = (if v \<le> 0xffffffff then ucast v else 0xffffffff)"

lemma sat32_small: "drop_bit 32 v = 0 \<Longrightarrow> sat32 v = ucast v"
  by (simp add: sat32_def small_fits)

lemma vdec_1: "\<not> bit b0 7 \<Longrightarrow> vdec 0 0 (b0 # p) = Some (ucast b0, 1)"
  by simp
lemma vdec_2: "bit b0 7 \<Longrightarrow> \<not> bit b1 7 \<Longrightarrow>
    vdec 0 0 (b0 # b1 # p) = Some (push_bit 7 (ucast b0 AND 0x7f) OR ucast b1, 2)"
  by simp
lemma vdec_3: "bit b0 7 \<Longrightarrow> bit b1 7 \<Longrightarrow> \<not> bit b2 7 \<Longrightarrow>
    vdec 0 0 (b0 # b1 # b2 # p) =
      Some (push_bit 7 (push_bit 7 (ucast b0 AND 0x7f) OR (ucast b1 AND 0x7f)) OR ucast b2, 3)"
  by simp

lemma sat_1: "sat32 (ucast (b0 :: u8)) = ucast b0"
proof -
  have "drop_bit 32 (ucast b0 :: u64) = 0"
    by (rule eq64_by_bits) (simp add: bit_simps upt_64 byte_bit_out)
  moreover have "ucast (ucast b0 :: u64) = (ucast b0 :: u32)"
    by (rule eq32_by_bits) (simp add: bit_simps upt_32 byte_bit_out)
  ultimately show ?thesis by (simp only: sat32_small)
qed

lemma sat_2: "sat32 (push_bit 7 (ucast b0 AND 0x7f) OR ucast (b1 :: u8)) = push_bit 7 (ucast (b0 :: u8) AND 0x7f) OR ucast b1"
proof -
  have "drop_bit 32 (push_bit 7 (ucast b0 AND 0x7f) OR ucast b1 :: u64) = 0"
    unfolding bitpos by (rule eq64_by_bits) (simp add: bit_simps upt_64 byte_bit_out)
  moreover have "ucast (push_bit 7 (ucast b0 AND 0x7f) OR ucast b1 :: u64) = (push_bit 7 (ucast b0 AND 0x7f) OR ucast b1 :: u32)"
    unfolding bitpos by (rule eq32_by_bits) (simp add: bit_simps upt_32 byte_bit_out)
  ultimately show ?thesis by (simp only: sat32_small)
qed

lemma sat_3:
  assumes "\<not> bit b2 7"
  shows "sat32 (push_bit 7 (push_bit 7 (ucast b0 AND 0x7f) OR (ucast b1 AND 0x7f)) OR ucast (b2 :: u8))
   = ((push_bit 14 (ucast (b0 :: u8)) OR ucast b2) AND (push_bit 14 0x7f OR 0x7f)) OR push_bit 7 (ucast (b1 :: u8) AND 0x7f)"
   (is "sat32 ?v = ?w")
proof -
  have "drop_bit 32 ?v = 0"
    unfolding bitpos by (rule eq64_by_bits) (simp add: bit_simps upt_64 byte_bit_out)
  moreover have "ucast ?v = ?w"
    unfolding bitpos by (rule eq32_by_bits) (simp add: bit_simps upt_32 byte_bit_out assms)
  ultimately show ?thesis by (simp only: sat32_small)
qed

lemma third_high: "(push_bit 14 (ucast b0 :: u32) OR ucast (b2 :: u8)) AND 0x80 = 0 \<longleftrightarrow> \<not> bit b2 7"
  unfolding high_bit_test by (simp add: bit_simps)

lemma byte_high: "(ucast (b :: u8) :: u32) AND 0x80 = 0 \<longleftrightarrow> \<not> bit b 7"
  unfolding high_bit_test by (simp add: bit_simps)

text \<open>The function itself, after a first byte with its high bit set.\<close>

lemma sqlite3GetVarint32_sat:
  assumes b0: "bit b0 7"
  shows "sqlite3GetVarint32 (b0 # p) = map_option (\<lambda>(v, n). (sat32 v, n)) (vdec 0 0 (b0 # p))"
proof (cases p)
  case Nil
  then show ?thesis using b0 by (simp add: sqlite3GetVarint32_def)
next
  case p: (Cons b1 p2)
  show ?thesis
  proof (cases "bit b1 7")
    case False
    have "sqlite3GetVarint32 (b0 # p) = Some (push_bit 7 (ucast b0 AND 0x7f) OR ucast b1, 2)"
      using False by (simp add: p sqlite3GetVarint32_def byte_high Let_def)
    then show ?thesis by (simp only: p vdec_2 [OF b0 False] option.map prod.case sat_2)
  next
    case b1: True
    show ?thesis
    proof (cases p2)
      case Nil
      then show ?thesis using b0 b1 by (simp add: p sqlite3GetVarint32_def byte_high Let_def)
    next
      case p2: (Cons b2 p3)
      show ?thesis
      proof (cases "bit b2 7")
        case False
        have "sqlite3GetVarint32 (b0 # p) =
            Some (((push_bit 14 (ucast b0) OR ucast b2) AND (push_bit 14 0x7f OR 0x7f))
                  OR push_bit 7 (ucast b1 AND 0x7f), 3)"
          using b1 False by (simp add: p p2 sqlite3GetVarint32_def byte_high third_high Let_def)
        then show ?thesis by (simp only: p p2 vdec_3 [OF b0 b1 False] option.map prod.case sat_3 [OF False])
      next
        case True
        have "sqlite3GetVarint32 (b0 # p) = do {
            (v64, n) \<leftarrow> sqlite3GetVarint (b0 # p);
            if v64 AND 0xffffffff \<noteq> v64 then Some (0xffffffff, n) else Some (ucast v64, n) }"
          using b1 True by (simp add: p p2 sqlite3GetVarint32_def byte_high third_high Let_def)
        then show ?thesis
          by (cases "vdec 0 0 (b0 # p)") (auto simp: sqlite3GetVarint_vdec fits_32 sat32_def)
      qed
    qed
  qed
qed

lemma getVarint32_sat: "getVarint32 p = map_option (\<lambda>(v, n). (sat32 v, n)) (sqlite3GetVarint p)"
proof (cases p)
  case Nil
  then show ?thesis by (simp add: getVarint32_def sqlite3GetVarint_vdec)
next
  case p: (Cons b0 p1)
  show ?thesis
  proof (cases "bit b0 7")
    case False
    have "getVarint32 (b0 # p1) = Some (ucast b0, 1)"
      using False by (simp add: getVarint32_def byte_less_80)
    then show ?thesis
      by (simp only: p sqlite3GetVarint_vdec vdec_1 [OF False] option.map prod.case sat_1)
  next
    case True
    then have "getVarint32 (b0 # p1) = sqlite3GetVarint32 (b0 # p1)"
      by (simp add: getVarint32_def byte_less_80)
    then show ?thesis
      by (simp only: p sqlite3GetVarint_vdec sqlite3GetVarint32_sat [OF True])
  qed
qed

section \<open>The length function\<close>

lemma VarintLen_buf: "sqlite3VarintLen_loop (Suc k) v = k + length (putVarint64_buf v)"
proof (induction v arbitrary: k rule: putVarint64_buf.induct)
  case (1 v)
  show ?case
  proof (cases "drop_bit 7 v = 0")
    case True
    then show ?thesis
      by (simp add: sqlite3VarintLen_loop.simps [of _ v] putVarint64_buf.simps [of v] Let_def)
  next
    case False
    then show ?thesis
      using 1 [OF False, of "Suc k"]
      by (subst sqlite3VarintLen_loop.simps, subst putVarint64_buf.simps) (simp add: Let_def)
  qed
qed

lemma put_count:
  "snd (sqlite3PutVarint v) = (if drop_bit 56 v = 0 then length (putVarint64_buf v) else 9)"
proof -
  have two: "drop_bit 7 (drop_bit 7 v) = drop_bit 14 v"
    by (simp only: drop_bit_drop_bit) simp
  have mono: "drop_bit 56 v \<noteq> 0 \<Longrightarrow> drop_bit 14 v \<noteq> 0" "drop_bit 14 v \<noteq> 0 \<Longrightarrow> drop_bit 7 v \<noteq> 0"
    using drop_bit_zero_mono [of 14 v 56] drop_bit_zero_mono [of 7 v 14] by auto
  consider (1) "drop_bit 7 v = 0" | (2) "drop_bit 7 v \<noteq> 0" "drop_bit 14 v = 0"
    | (3) "drop_bit 7 v \<noteq> 0" "drop_bit 14 v \<noteq> 0"
    by blast
  then show ?thesis
  proof cases
    case 1
    then have "length (putVarint64_buf v) = 1" by (simp add: putVarint64_buf.simps [of v])
    then show ?thesis using 1 mono by (auto simp: sqlite3PutVarint_def le_7f)
  next
    case 2
    then have "length (putVarint64_buf v) = 2"
      by (simp add: putVarint64_buf.simps [of v] putVarint64_buf.simps [of "drop_bit 7 v"] two
          del: drop_bit_drop_bit)
    then show ?thesis using 2 mono by (auto simp: sqlite3PutVarint_def le_7f le_3fff)
  next
    case 3
    then show ?thesis
      by (auto simp: sqlite3PutVarint_def le_7f le_3fff putVarint64_def high_mask_num Let_def)
  qed
qed

lemma buf_count_long:
  assumes "drop_bit 56 v \<noteq> 0"
  shows "length (putVarint64_buf v) = (if drop_bit 63 v = 0 then 9 else 10)"
proof -
  obtain n where l: "length (putVarint64_buf v) = Suc n"
    and z: "drop_bit (7 * Suc n) v = 0" and nz: "n = 0 \<or> drop_bit (7 * n) v \<noteq> 0"
    using buf_digits [of v] by auto
  have "56 < 7 * Suc n" using assms z drop_bit_zero_mono [of "7 * Suc n" v 56] by (meson not_le)
  then have "8 \<le> n" and nz': "drop_bit (7 * n) v \<noteq> 0" using nz by auto
  have "drop_bit 64 v = 0" by (rule bit_word_eqI) (simp add: bit_simps)
  then have "7 * n < 64" using nz' drop_bit_zero_mono [of 64 v "7 * n"] by (meson not_le)
  show ?thesis
  proof (cases "drop_bit 63 v = 0")
    case True
    then have "7 * n < 63" using nz' drop_bit_zero_mono [of 63 v "7 * n"] by (meson not_le)
    with \<open>8 \<le> n\<close> have "n = 8" by simp
    with True l show ?thesis by simp
  next
    case False
    then have "63 < 7 * Suc n" using z drop_bit_zero_mono [of "7 * Suc n" v 63] by (meson not_le)
    with \<open>7 * n < 64\<close> have "n = 9" by simp
    with False l show ?thesis by simp
  qed
qed

lemma VarintLen_put:
  "sqlite3VarintLen v = (if v < 0x8000000000000000 then snd (sqlite3PutVarint v) else 10)"
proof -
  have "sqlite3VarintLen v = length (putVarint64_buf v)"
    using VarintLen_buf [of 0 v] by (simp add: sqlite3VarintLen_def)
  moreover have "v < 0x8000000000000000 \<longleftrightarrow> drop_bit 63 v = 0"
    unfolding drop_bit_eq_0_iff by (simp add: word_less_nat_alt)
  moreover have "drop_bit 56 v = 0 \<Longrightarrow> drop_bit 63 v = 0"
    by (erule drop_bit_zero_mono) simp
  ultimately show ?thesis by (auto simp: put_count buf_count_long)
qed

section \<open>Properties\<close>

text \<open>
  C9: on every buffer, truncated ones included, the unrolled 32-bit reader computes what the format
  says: seven bits a byte, most significant first, eight bits of a ninth byte, and a failed read
  where the buffer ends inside the integer.
\<close>

theorem varint_reader_meets_format: "sqlite3GetVarint p = vdec 0 0 p"
  by (rule sqlite3GetVarint_vdec)

text \<open>
  C8: whatever follows it in the buffer, a written integer is read back, with the number of bytes
  the writer returned, which is the number it stored, from 1 to 9.
\<close>

theorem varint_roundtrip:
  "sqlite3GetVarint (fst (sqlite3PutVarint v) @ rest) = Some (v, snd (sqlite3PutVarint v))
   \<and> length (fst (sqlite3PutVarint v)) = snd (sqlite3PutVarint v)
   \<and> snd (sqlite3PutVarint v) \<in> {1..9}"
proof -
  have "vdec 0 0 (fst (sqlite3PutVarint v) @ []) = Some (v, snd (sqlite3PutVarint v))"
    by (rule vdec_put)
  then show ?thesis
    using vdec_bounds [of 0 0 "fst (sqlite3PutVarint v) @ []"]
    by (simp add: varint.get_put length_put)
qed

text \<open>
  A sequence of integers written one after another is read back as that sequence, and the bytes
  after it are left.
\<close>

lemma varint_sequence_roundtrip:
  "get_seq sqlite3GetVarint (length vs) (concat (map (\<lambda>v. fst (sqlite3PutVarint v)) vs) @ rest)
   = Some (vs, rest)"
  by (rule varint.get_seq_put)

text \<open>
  The 32-bit reader with its macro reads the same number of bytes as the 64-bit reader and the
  same value, replaced by the largest 32-bit value where it does not fit.
\<close>

lemma varint32_saturates:
  "getVarint32 p = map_option (\<lambda>(v, n). (if v \<le> 0xffffffff then ucast v else 0xffffffff, n))
     (sqlite3GetVarint p)"
  by (simp add: getVarint32_sat sat32_def)

text \<open>
  \<^verbatim>\<open>sqlite3VarintLen\<close> is the number of bytes the writer stores for values below \<open>2 ^ 63\<close>. From
  there on it counts ten groups of seven bits, where the writer stores nine bytes.
\<close>

lemma varint_len_counts:
  "sqlite3VarintLen v =
    (if v < 0x8000000000000000 then snd (sqlite3PutVarint v) else snd (sqlite3PutVarint v) + 1)"
proof -
  have "drop_bit 56 v \<noteq> 0" if "\<not> v < 0x8000000000000000"
  proof
    assume "drop_bit 56 v = 0"
    then have "unat v < 2 ^ 56" by (simp only: drop_bit_eq_0_iff)
    with that show False by (simp add: word_less_nat_alt)
  qed
  then show ?thesis by (simp add: VarintLen_put put_count)
qed

end
