(* ===== verification/CType.thy ===== *)
theory CType
  imports Interfaces
begin

text \<open>
  Character classes and case-insensitive strings: the tables of \<^verbatim>\<open>src/global.c\<close>, the character
  macros of \<^verbatim>\<open>src/sqliteInt.h\<close>, and the string routines of \<^verbatim>\<open>src/util.c\<close> that use them
  (comparison, dequoting, hexadecimal literals). A C string is the list of its bytes without the
  terminator, and a pointer that walks it is the rest of the list.

  The lemmas describe the tables on all 256 bytes, show that \<^verbatim>\<open>sqlite3StrICmp\<close> is a comparison of
  the strings folded to lower case (zero exactly on equal foldings, antisymmetric), and that dequoting
  inverts quoting.
\<close>

section \<open>Tables\<close>

definition sqlite3UpperToLower :: "u8 list" where
  "sqlite3UpperToLower = [
     0, 1, 2, 3, 4, 5, 6, 7, 8, 9, 10, 11, 12, 13, 14, 15, 16, 17,
     18, 19, 20, 21, 22, 23, 24, 25, 26, 27, 28, 29, 30, 31, 32, 33, 34, 35,
     36, 37, 38, 39, 40, 41, 42, 43, 44, 45, 46, 47, 48, 49, 50, 51, 52, 53,
     54, 55, 56, 57, 58, 59, 60, 61, 62, 63, 64, 97, 98, 99, 100, 101, 102, 103,
     104, 105, 106, 107, 108, 109, 110, 111, 112, 113, 114, 115, 116, 117, 118, 119, 120, 121,
     122, 91, 92, 93, 94, 95, 96, 97, 98, 99, 100, 101, 102, 103, 104, 105, 106, 107,
     108, 109, 110, 111, 112, 113, 114, 115, 116, 117, 118, 119, 120, 121, 122, 123, 124, 125,
     126, 127, 128, 129, 130, 131, 132, 133, 134, 135, 136, 137, 138, 139, 140, 141, 142, 143,
     144, 145, 146, 147, 148, 149, 150, 151, 152, 153, 154, 155, 156, 157, 158, 159, 160, 161,
     162, 163, 164, 165, 166, 167, 168, 169, 170, 171, 172, 173, 174, 175, 176, 177, 178, 179,
     180, 181, 182, 183, 184, 185, 186, 187, 188, 189, 190, 191, 192, 193, 194, 195, 196, 197,
     198, 199, 200, 201, 202, 203, 204, 205, 206, 207, 208, 209, 210, 211, 212, 213, 214, 215,
     216, 217, 218, 219, 220, 221, 222, 223, 224, 225, 226, 227, 228, 229, 230, 231, 232, 233,
     234, 235, 236, 237, 238, 239, 240, 241, 242, 243, 244, 245, 246, 247, 248, 249, 250, 251,
     252, 253, 254, 255]"

definition sqlite3CtypeMap :: "u8 list" where
  "sqlite3CtypeMap = [
     0x00, 0x00, 0x00, 0x00, 0x00, 0x00, 0x00, 0x00,
     0x00, 0x01, 0x01, 0x01, 0x01, 0x01, 0x00, 0x00,
     0x00, 0x00, 0x00, 0x00, 0x00, 0x00, 0x00, 0x00,
     0x00, 0x00, 0x00, 0x00, 0x00, 0x00, 0x00, 0x00,
     0x01, 0x00, 0x80, 0x00, 0x40, 0x00, 0x00, 0x80,
     0x00, 0x00, 0x00, 0x00, 0x00, 0x00, 0x00, 0x00,
     0x0c, 0x0c, 0x0c, 0x0c, 0x0c, 0x0c, 0x0c, 0x0c,
     0x0c, 0x0c, 0x00, 0x00, 0x00, 0x00, 0x00, 0x00,
     0x00, 0x0a, 0x0a, 0x0a, 0x0a, 0x0a, 0x0a, 0x02,
     0x02, 0x02, 0x02, 0x02, 0x02, 0x02, 0x02, 0x02,
     0x02, 0x02, 0x02, 0x02, 0x02, 0x02, 0x02, 0x02,
     0x02, 0x02, 0x02, 0x80, 0x00, 0x00, 0x00, 0x40,
     0x80, 0x2a, 0x2a, 0x2a, 0x2a, 0x2a, 0x2a, 0x22,
     0x22, 0x22, 0x22, 0x22, 0x22, 0x22, 0x22, 0x22,
     0x22, 0x22, 0x22, 0x22, 0x22, 0x22, 0x22, 0x22,
     0x22, 0x22, 0x22, 0x00, 0x00, 0x00, 0x00, 0x00,
     0x40, 0x40, 0x40, 0x40, 0x40, 0x40, 0x40, 0x40,
     0x40, 0x40, 0x40, 0x40, 0x40, 0x40, 0x40, 0x40,
     0x40, 0x40, 0x40, 0x40, 0x40, 0x40, 0x40, 0x40,
     0x40, 0x40, 0x40, 0x40, 0x40, 0x40, 0x40, 0x40,
     0x40, 0x40, 0x40, 0x40, 0x40, 0x40, 0x40, 0x40,
     0x40, 0x40, 0x40, 0x40, 0x40, 0x40, 0x40, 0x40,
     0x40, 0x40, 0x40, 0x40, 0x40, 0x40, 0x40, 0x40,
     0x40, 0x40, 0x40, 0x40, 0x40, 0x40, 0x40, 0x40,
     0x40, 0x40, 0x40, 0x40, 0x40, 0x40, 0x40, 0x40,
     0x40, 0x40, 0x40, 0x40, 0x40, 0x40, 0x40, 0x40,
     0x40, 0x40, 0x40, 0x40, 0x40, 0x40, 0x40, 0x40,
     0x40, 0x40, 0x40, 0x40, 0x40, 0x40, 0x40, 0x40,
     0x40, 0x40, 0x40, 0x40, 0x40, 0x40, 0x40, 0x40,
     0x40, 0x40, 0x40, 0x40, 0x40, 0x40, 0x40, 0x40,
     0x40, 0x40, 0x40, 0x40, 0x40, 0x40, 0x40, 0x40,
     0x40, 0x40, 0x40, 0x40, 0x40, 0x40, 0x40, 0x40]"

text \<open>The short-hand and the character macros.\<close>

definition UpperToLower :: "u8 \<Rightarrow> u8" where
  "UpperToLower c = sqlite3UpperToLower ! unat c"

definition ctype :: "u8 \<Rightarrow> u8 \<Rightarrow> bool" where
  "ctype c m \<longleftrightarrow> sqlite3CtypeMap ! unat c AND m \<noteq> 0"

definition sqlite3Isspace :: "u8 \<Rightarrow> bool" where
  "sqlite3Isspace c = ctype c 0x01"

definition sqlite3Isdigit :: "u8 \<Rightarrow> bool" where
  "sqlite3Isdigit c = ctype c 0x04"

definition sqlite3Isxdigit :: "u8 \<Rightarrow> bool" where
  "sqlite3Isxdigit c = ctype c 0x08"

definition sqlite3Isquote :: "u8 \<Rightarrow> bool" where
  "sqlite3Isquote c = ctype c 0x80"

definition IdChar :: "u8 \<Rightarrow> bool" where
  "IdChar c = ctype c 0x46"

section \<open>Comparison\<close>

text \<open>The difference of two folded bytes, as the C \<^verbatim>\<open>int\<close> the code computes.\<close>

definition fold_diff :: "u8 \<Rightarrow> u8 \<Rightarrow> int" where
  "fold_diff a b = uint (UpperToLower a) - uint (UpperToLower b)"

function sqlite3StrICmp :: "u8 list \<Rightarrow> u8 list \<Rightarrow> int" where
  "sqlite3StrICmp a b =
     (let c = fold_diff (zc a 0) (zc b 0)
      in if c \<noteq> 0 \<or> zc a 0 = 0 then c else sqlite3StrICmp (tl a) (tl b))"
  by pat_completeness auto
termination
  by (relation "measure (\<lambda>(a, b). length a)") (auto simp: zc_def split: if_splits)

declare sqlite3StrICmp.simps [simp del]

text \<open>The API routine, where either pointer may be NULL.\<close>

definition sqlite3_stricmp :: "u8 list option \<Rightarrow> u8 list option \<Rightarrow> int" where
  "sqlite3_stricmp zLeft zRight =
     (case zLeft of
        None \<Rightarrow> (case zRight of Some _ \<Rightarrow> -1 | None \<Rightarrow> 0)
      | Some l \<Rightarrow> (case zRight of None \<Rightarrow> 1 | Some r \<Rightarrow> sqlite3StrICmp l r))"

function strnicmp_loop :: "u8 list \<Rightarrow> u8 list \<Rightarrow> int \<Rightarrow> int" where
  "strnicmp_loop a b N =
     (if N > 0 \<and> zc a 0 \<noteq> 0 \<and> UpperToLower (zc a 0) = UpperToLower (zc b 0)
      then strnicmp_loop (tl a) (tl b) (N - 1)
      else if N - 1 < 0 then 0 else fold_diff (zc a 0) (zc b 0))"
  by pat_completeness auto
termination
  by (relation "measure (\<lambda>(a, b, N). length a)") (auto simp: zc_def split: if_splits)

declare strnicmp_loop.simps [simp del]

definition sqlite3_strnicmp :: "u8 list option \<Rightarrow> u8 list option \<Rightarrow> int \<Rightarrow> int" where
  "sqlite3_strnicmp zLeft zRight N =
     (case zLeft of
        None \<Rightarrow> (case zRight of Some _ \<Rightarrow> -1 | None \<Rightarrow> 0)
      | Some l \<Rightarrow> (case zRight of None \<Rightarrow> 1 | Some r \<Rightarrow> strnicmp_loop l r N))"

section \<open>Dequoting\<close>

text \<open>
  The loop from \<^verbatim>\<open>i = 1\<close> on: the bytes it stores, in order. The source asserts that the terminator
  is never reached; in a build without assertions the loop would run past the string, which is
  \<open>None\<close> here.
\<close>

fun dequote_loop :: "u8 \<Rightarrow> u8 list \<Rightarrow> u8 list option" where
  "dequote_loop quote [] = None"
| "dequote_loop quote (c # z) =
     (if c = quote then
        (case z of
           d # z' \<Rightarrow> if d = quote then map_option ((#) quote) (dequote_loop quote z') else Some []
         | [] \<Rightarrow> Some [])
      else map_option ((#) c) (dequote_loop quote z))"

definition sqlite3Dequote :: "u8 list \<Rightarrow> u8 list option" where
  "sqlite3Dequote z =
     (let quote = zc z 0
      in if \<not> sqlite3Isquote quote then Some z
         else let quote = (if quote = 0x5b then 0x5d else quote) in dequote_loop quote (tl z))"

section \<open>Hexadecimal\<close>

text \<open>\<^verbatim>\<open>h\<close> is a C \<^verbatim>\<open>int\<close>; the routine is only called on hexadecimal digits.\<close>

definition sqlite3HexToInt :: "u32 \<Rightarrow> u8" where
  "sqlite3HexToInt h =
     (let h = h + 9 * (1 AND drop_bit 6 h) in ucast (h AND 0xf))"

text \<open>
  The loop over pairs of digits, with \<^verbatim>\<open>n\<close> already decremented: it runs while \<^verbatim>\<open>i < n\<close>. The result
  is the blob without its terminator, \<open>None\<close> where the allocation failed.
\<close>

function HexToBlob_loop :: "u8 list \<Rightarrow> nat \<Rightarrow> int \<Rightarrow> u8 list" where
  "HexToBlob_loop z i n =
     (if int i < n
      then (push_bit 4 (sqlite3HexToInt (ucast (zc z i))) OR sqlite3HexToInt (ucast (zc z (i + 1))))
           # HexToBlob_loop z (i + 2) n
      else [])"
  by pat_completeness auto
termination
  by (relation "measure (\<lambda>(z, i, n). nat (n - int i))") auto

declare HexToBlob_loop.simps [simp del]

definition sqlite3HexToBlob :: "mem \<Rightarrow> u8 list \<Rightarrow> int \<Rightarrow> u8 list option \<times> mem" where
  "sqlite3HexToBlob m z n =
     (let (ok, m) = malloc m
      in if ok then (Some (HexToBlob_loop z 0 (n - 1)), m) else (None, m))"

section \<open>The tables, byte by byte\<close>

lemma table_nth:
  assumes "map (\<lambda>n. f (word_of_nat n :: u8)) [0..<256] = t"
  shows "t ! unat c = f c"
proof -
  have "unat c < 2 ^ LENGTH(8)" by (rule unsigned_less)
  then have "map (\<lambda>n. f (word_of_nat n :: u8)) [0..<256] ! unat c = f c" by simp
  then show ?thesis by (simp only: assms)
qed

lemma UpperToLower_eq: "UpperToLower c = (if 0x41 \<le> c \<and> c \<le> 0x5a then c + 0x20 else c)"
  unfolding UpperToLower_def by (rule table_nth) code_simp

lemma ctype_iff:
  assumes "map (\<lambda>n. P (word_of_nat n)) [0..<256] = map (\<lambda>x. x AND m \<noteq> 0) sqlite3CtypeMap"
  shows "ctype c m \<longleftrightarrow> P c"
proof -
  have "unat c < 2 ^ LENGTH(8)" by (rule unsigned_less)
  moreover have "length sqlite3CtypeMap = 256" by (simp add: sqlite3CtypeMap_def)
  ultimately have "map (\<lambda>x. x AND m \<noteq> 0) sqlite3CtypeMap ! unat c = ctype c m"
    by (simp add: ctype_def)
  with table_nth [OF assms, of c] show ?thesis by simp
qed

lemma sqlite3Isspace_iff: "sqlite3Isspace c \<longleftrightarrow> c = 0x20 \<or> 0x09 \<le> c \<and> c \<le> 0x0d"
  unfolding sqlite3Isspace_def by (rule ctype_iff) code_simp

lemma sqlite3Isdigit_iff: "sqlite3Isdigit c \<longleftrightarrow> 0x30 \<le> c \<and> c \<le> 0x39"
  unfolding sqlite3Isdigit_def by (rule ctype_iff) code_simp

lemma sqlite3Isxdigit_iff:
  "sqlite3Isxdigit c \<longleftrightarrow> 0x30 \<le> c \<and> c \<le> 0x39 \<or> 0x41 \<le> c \<and> c \<le> 0x46 \<or> 0x61 \<le> c \<and> c \<le> 0x66"
  unfolding sqlite3Isxdigit_def by (rule ctype_iff) code_simp

lemma sqlite3Isquote_iff: "sqlite3Isquote c \<longleftrightarrow> c = 0x22 \<or> c = 0x27 \<or> c = 0x5b \<or> c = 0x60"
  unfolding sqlite3Isquote_def by (rule ctype_iff) code_simp

lemma IdChar_iff:
  "IdChar c \<longleftrightarrow> 0x30 \<le> c \<and> c \<le> 0x39 \<or> 0x41 \<le> c \<and> c \<le> 0x5a \<or> 0x61 \<le> c \<and> c \<le> 0x7a
     \<or> c = 0x24 \<or> c = 0x5f \<or> 0x80 \<le> c"
  unfolding IdChar_def by (rule ctype_iff) code_simp

lemma UpperToLower_idem [simp]: "UpperToLower (UpperToLower c) = UpperToLower c"
proof -
  have "unat (c + 0x20) = unat c + 32" if "unat c \<le> 90"
    using that by (simp add: unat_word_ariths)
  then show ?thesis by (auto simp: UpperToLower_eq word_le_nat_alt)
qed

lemma UpperToLower_0_iff [simp]: "UpperToLower c = 0 \<longleftrightarrow> c = 0"
proof
  assume *: "UpperToLower c = 0"
  have "c = - 0x20" if "c + 0x20 = 0" using that by (simp only: eq_neg_iff_add_eq_0)
  with * show "c = 0" by (auto simp: UpperToLower_eq word_le_nat_alt split: if_splits)
qed (simp add: UpperToLower_eq word_le_nat_alt)

lemma UpperToLower_0 [simp]: "UpperToLower 0 = 0" "0 = UpperToLower c \<longleftrightarrow> c = 0"
  using UpperToLower_0_iff [of 0] UpperToLower_0_iff [of c] by (auto simp del: UpperToLower_0_iff)

section \<open>Comparison compares the folded strings\<close>

lemma fold_diff_0_iff: "fold_diff a b = 0 \<longleftrightarrow> UpperToLower a = UpperToLower b"
  by (simp add: fold_diff_def word_uint_eq_iff)

lemma fold_diff_less_iff: "fold_diff a b < 0 \<longleftrightarrow> UpperToLower a < UpperToLower b"
  by (simp add: fold_diff_def word_less_def)

lemma fold_diff_swap: "fold_diff b a = - fold_diff a b"
  by (simp add: fold_diff_def)

lemma StrICmp_Nil: "sqlite3StrICmp [] b = fold_diff 0 (zc b 0)"
  by (subst sqlite3StrICmp.simps) simp

lemma StrICmp_Cons:
  "a \<noteq> 0 \<Longrightarrow> sqlite3StrICmp (a # as) b =
     (if UpperToLower a = UpperToLower (zc b 0) then sqlite3StrICmp as (tl b) else fold_diff a (zc b 0))"
  by (subst sqlite3StrICmp.simps) (simp add: fold_diff_0_iff Let_def)

lemma StrICmp_antisym: "sqlite3StrICmp b a = - sqlite3StrICmp a b"
proof (induction a b rule: sqlite3StrICmp.induct)
  case (1 a b)
  show ?case
  proof (cases "fold_diff (zc a 0) (zc b 0) \<noteq> 0 \<or> zc a 0 = 0")
    case True
    then have "fold_diff (zc b 0) (zc a 0) \<noteq> 0 \<or> zc b 0 = 0"
      by (auto simp: fold_diff_0_iff)
    with True show ?thesis
      by (subst (1 2) sqlite3StrICmp.simps) (simp add: fold_diff_swap [of "zc b 0"])
  next
    case False
    then have "\<not> (fold_diff (zc b 0) (zc a 0) \<noteq> 0 \<or> zc b 0 = 0)"
      by (auto simp: fold_diff_0_iff)
    with False 1 show ?thesis
      by (subst (1 2) sqlite3StrICmp.simps) (simp add: Let_def)
  qed
qed

lemma StrICmp_0_iff:
  "cstring a \<Longrightarrow> cstring b \<Longrightarrow> sqlite3StrICmp a b = 0 \<longleftrightarrow> map UpperToLower a = map UpperToLower b"
proof (induction a arbitrary: b)
  case Nil
  then show ?case by (cases b) (auto simp: StrICmp_Nil fold_diff_0_iff)
next
  case (Cons x a)
  then show ?case by (cases b) (auto simp: StrICmp_Cons fold_diff_0_iff)
qed

lemma StrICmp_less_iff:
  "cstring a \<Longrightarrow> cstring b \<Longrightarrow>
     sqlite3StrICmp a b < 0 \<longleftrightarrow> ord_class.lexordp (map UpperToLower a) (map UpperToLower b)"
proof (induction a arbitrary: b)
  case Nil
  then show ?case by (cases b) (auto simp: StrICmp_Nil fold_diff_less_iff word_gt_0)
next
  case (Cons x a)
  then show ?case by (cases b) (auto simp: StrICmp_Cons fold_diff_less_iff)
qed

lemma strnicmp_0_iff:
  "cstring a \<Longrightarrow> cstring b \<Longrightarrow>
   strnicmp_loop a b (int n) = 0 \<longleftrightarrow> map UpperToLower (take n a) = map UpperToLower (take n b)"
proof (induction n arbitrary: a b)
  case 0
  then show ?case by (simp add: strnicmp_loop.simps)
next
  case (Suc n)
  have step: "strnicmp_loop a b (int (Suc n)) =
    (if zc a 0 \<noteq> 0 \<and> UpperToLower (zc a 0) = UpperToLower (zc b 0) then strnicmp_loop (tl a) (tl b) (int n)
     else fold_diff (zc a 0) (zc b 0))"
    by (subst strnicmp_loop.simps) simp
  from Suc show ?case
    unfolding step by (cases a; cases b) (auto simp: fold_diff_0_iff)
qed

section \<open>Dequoting inverts quoting\<close>

text \<open>The quoted form of a string, closed by \<open>q\<close>.\<close>
definition quoted :: "u8 \<Rightarrow> u8 list \<Rightarrow> u8 list" where
  "quoted q s = concat (map (\<lambda>c. if c = q then [q, q] else [c]) s) @ [q]"

lemma dequote_loop_quoted:
  "zc rest 0 \<noteq> q \<Longrightarrow> dequote_loop q (quoted q s @ rest) = Some s"
  unfolding quoted_def
  by (induction s) (auto split: list.split)

lemma sqlite3Dequote_quoted:
  assumes "q = 0x22 \<or> q = 0x27 \<or> q = 0x60" and "zc rest 0 \<noteq> q"
  shows "sqlite3Dequote (q # quoted q s @ rest) = Some s"
  using assms by (auto simp: sqlite3Dequote_def sqlite3Isquote_iff Let_def dequote_loop_quoted)

lemma sqlite3Dequote_bracket:
  "zc rest 0 \<noteq> 0x5d \<Longrightarrow> sqlite3Dequote (0x5b # quoted 0x5d s @ rest) = Some s"
  by (simp add: sqlite3Dequote_def sqlite3Isquote_iff Let_def dequote_loop_quoted)

section \<open>Properties\<close>

text \<open>
  The case-insensitive comparison is the lexicographic comparison of the two strings folded to
  lower case: zero exactly where the foldings are equal, negative exactly where the left one comes
  first, and it changes sign when the strings are swapped.
\<close>

lemma stricmp_is_folded_order:
  assumes "cstring a" and "cstring b"
  shows "(sqlite3StrICmp a b = 0 \<longleftrightarrow> map UpperToLower a = map UpperToLower b)
    \<and> (sqlite3StrICmp a b < 0 \<longleftrightarrow> ord_class.lexordp (map UpperToLower a) (map UpperToLower b))
    \<and> sqlite3StrICmp b a = - sqlite3StrICmp a b"
  using StrICmp_0_iff [OF assms] StrICmp_less_iff [OF assms] StrICmp_antisym [of b a] by blast

text \<open>
  The comparison of at most \<open>n\<close> bytes is zero exactly where the first \<open>n\<close> bytes of both strings
  fold to the same string; a bound that is not positive makes every two strings equal.
\<close>

lemma strnicmp_compares_prefixes:
  assumes "cstring a" and "cstring b"
  shows "sqlite3_strnicmp (Some a) (Some b) N = 0
    \<longleftrightarrow> map UpperToLower (take (nat N) a) = map UpperToLower (take (nat N) b)"
proof (cases "0 < N")
  case True
  then show ?thesis
    using strnicmp_0_iff [OF assms, of "nat N"] by (simp add: sqlite3_strnicmp_def)
next
  case False
  then show ?thesis by (simp add: sqlite3_strnicmp_def strnicmp_loop.simps)
qed

end
