(* ===== verification/Hash.thy ===== *)
theory Hash
  imports CType
begin

text \<open>
  The generic hash table of \<^verbatim>\<open>src/hash.c\<close> and \<^verbatim>\<open>src/hash.h\<close>, which the library keys by
  case-insensitive names (schemas, functions, collations, modules). All elements are on one doubly
  linked list, and a bucket points into that list: the code works by pointer surgery on shared cells,
  so the model has an explicit store of elements. A \<open>Hash\<close> holds the fields of \<^verbatim>\<open>struct Hash\<close> and
  the store \<open>elems\<close>, a map from addresses to \<^verbatim>\<open>struct HashElem\<close>. NULL is \<open>None\<close>. Data pointers are
  the non-NULL values \<open>'v\<close>.

  Every routine returns an option: \<open>None\<close> stands for a dereference of NULL or of a freed element, an
  index outside the bucket array, or a loop that does not end. What \<^verbatim>\<open>malloc\<close> answers is an
  argument: the address of a new element, and the number of buckets granted for a requested size
  (the code uses what \<^verbatim>\<open>sqlite3MallocSize\<close> reports, which may exceed the request).
  The pod compiles with \<^verbatim>\<open>SQLITE_MALLOC_SOFT_LIMIT=0\<close>, so the size limit of \<^verbatim>\<open>rehash\<close> is not compiled.

  The representation invariant \<open>hash_rep\<close> says that the linked list is consistent in both directions,
  that it holds every live element (nothing leaks, nothing dangles), that no two keys are equal up to
  case, and that every bucket describes a contiguous run of the list. The lemmas show that each
  routine keeps it, never goes wrong, and implements a map on case-folded keys.
\<close>

section \<open>Data\<close>

type_synonym addr = nat

record 'v HashElem =
  he_next :: "addr option"
  he_prev :: "addr option"
  he_data :: 'v
  he_pKey :: "u8 list"

record ht_entry =
  ht_count :: nat
  ht_chain :: "addr option"

record 'v Hash =
  htsize :: nat
  count :: nat
  first :: "addr option"
  ht :: "ht_entry list option"
  elems :: "addr \<Rightarrow> 'v HashElem option"

text \<open>Stores through a pointer to an element.\<close>

definition set_next :: "'v Hash \<Rightarrow> addr \<Rightarrow> addr option \<Rightarrow> 'v Hash option" where
  "set_next H a p = do {
     e \<leftarrow> elems H a; Some (H\<lparr>elems := (elems H)(a \<mapsto> e\<lparr>he_next := p\<rparr>)\<rparr>) }"

definition set_prev :: "'v Hash \<Rightarrow> addr \<Rightarrow> addr option \<Rightarrow> 'v Hash option" where
  "set_prev H a p = do {
     e \<leftarrow> elems H a; Some (H\<lparr>elems := (elems H)(a \<mapsto> e\<lparr>he_prev := p\<rparr>)\<rparr>) }"

section \<open>Operations\<close>

definition sqlite3HashInit :: "'v Hash" where
  "sqlite3HashInit = \<lparr>htsize = 0, count = 0, first = None, ht = None, elems = Map.empty\<rparr>"

partial_function (option) HashClear_loop :: "'v Hash \<Rightarrow> addr option \<Rightarrow> 'v Hash option" where
  "HashClear_loop H elem =
     (case elem of
        None \<Rightarrow> Some H
      | Some a \<Rightarrow> do {
          e \<leftarrow> elems H a;
          HashClear_loop (H\<lparr>elems := (elems H)(a := None)\<rparr>) (he_next e) })"

definition sqlite3HashClear :: "'v Hash \<Rightarrow> 'v Hash option" where
  "sqlite3HashClear H = do {
     let elem = first H;
     H \<leftarrow> HashClear_loop (H\<lparr>first := None, ht := None, htsize := 0\<rparr>) elem;
     Some (H\<lparr>count := 0\<rparr>) }"

fun strHash_loop :: "u32 \<Rightarrow> u8 list \<Rightarrow> u32" where
  "strHash_loop h [] = h"
| "strHash_loop h (c # z) = strHash_loop ((h + ucast (UpperToLower c)) * 0x9e3779b1) z"

definition strHash :: "u8 list \<Rightarrow> u32" where
  "strHash z = strHash_loop 0 z"

text \<open>\<^verbatim>\<open>pEntry\<close> is NULL or points to a bucket, given by its index.\<close>

definition insertElement :: "'v Hash \<Rightarrow> nat option \<Rightarrow> addr \<Rightarrow> 'v Hash option" where
  "insertElement H pEntry new = do {
     (pHead, H) \<leftarrow>
       (case pEntry of
          None \<Rightarrow> Some (None, H)
        | Some b \<Rightarrow> do {
            t \<leftarrow> ht H;
            e \<leftarrow> rd t b;
            Some (if ht_count e \<noteq> 0 then ht_chain e else None,
                  H\<lparr>ht := Some (t[b := \<lparr>ht_count = ht_count e + 1, ht_chain = Some new\<rparr>])\<rparr>) });
     (case pHead of
        Some h \<Rightarrow> do {
          eh \<leftarrow> elems H h;
          H \<leftarrow> set_next H new (Some h);
          H \<leftarrow> set_prev H new (he_prev eh);
          H \<leftarrow> (case he_prev eh of
                 Some q \<Rightarrow> set_next H q (Some new)
               | None \<Rightarrow> Some (H\<lparr>first := Some new\<rparr>));
          set_prev H h (Some new) }
      | None \<Rightarrow> do {
          H \<leftarrow> set_next H new (first H);
          H \<leftarrow> (case first H of Some f \<Rightarrow> set_prev H f (Some new) | None \<Rightarrow> Some H);
          H \<leftarrow> set_prev H new None;
          Some (H\<lparr>first := Some new\<rparr>) }) }"

partial_function (option) rehash_loop :: "nat \<Rightarrow> 'v Hash \<Rightarrow> addr option \<Rightarrow> 'v Hash option" where
  "rehash_loop new_size H elem =
     (case elem of
        None \<Rightarrow> Some H
      | Some a \<Rightarrow> do {
          e \<leftarrow> elems H a;
          let h = unat (strHash (he_pKey e)) mod new_size;
          let next_elem = he_next e;
          H \<leftarrow> insertElement H (Some h) a;
          rehash_loop new_size H next_elem })"

text \<open>\<open>grant\<close> answers the allocation of a table: the buckets granted for the size requested.\<close>

definition rehash :: "'v Hash \<Rightarrow> nat \<Rightarrow> (nat \<Rightarrow> nat option) \<Rightarrow> (bool \<times> 'v Hash) option" where
  "rehash H new_size grant =
     (case grant new_size of
        None \<Rightarrow> Some (False, H)
      | Some n \<Rightarrow> do {
          let elem = first H;
          H \<leftarrow> rehash_loop n
                 (H\<lparr>ht := Some (replicate n \<lparr>ht_count = 0, ht_chain = None\<rparr>), htsize := n,
                    first := None\<rparr>) elem;
          Some (True, H) })"

text \<open>The search loop: \<^verbatim>\<open>while( count-- )\<close>. \<open>Some None\<close> is the static null element.\<close>

fun find_loop :: "'v Hash \<Rightarrow> u8 list \<Rightarrow> nat \<Rightarrow> addr option \<Rightarrow> addr option option" where
  "find_loop H pKey 0 elem = Some None"
| "find_loop H pKey (Suc n) elem = do {
     a \<leftarrow> elem;
     e \<leftarrow> elems H a;
     if sqlite3StrICmp (he_pKey e) pKey = 0 then Some (Some a)
     else find_loop H pKey n (he_next e) }"

definition findElementWithHash :: "'v Hash \<Rightarrow> u8 list \<Rightarrow> (addr option \<times> nat) option" where
  "findElementWithHash H pKey =
     (case ht H of
        Some t \<Rightarrow> do {
          let h = unat (strHash pKey) mod htsize H;
          pEntry \<leftarrow> rd t h;
          elem \<leftarrow> find_loop H pKey (ht_count pEntry) (ht_chain pEntry);
          Some (elem, h) }
      | None \<Rightarrow> do {
          elem \<leftarrow> find_loop H pKey (count H) (first H);
          Some (elem, 0) })"

definition removeElementGivenHash :: "'v Hash \<Rightarrow> addr \<Rightarrow> nat \<Rightarrow> 'v Hash option" where
  "removeElementGivenHash H elem h = do {
     e \<leftarrow> elems H elem;
     H \<leftarrow> (case he_prev e of
            Some q \<Rightarrow> set_next H q (he_next e)
          | None \<Rightarrow> Some (H\<lparr>first := he_next e\<rparr>));
     H \<leftarrow> (case he_next e of Some n \<Rightarrow> set_prev H n (he_prev e) | None \<Rightarrow> Some H);
     H \<leftarrow> (case ht H of
            None \<Rightarrow> Some H
          | Some t \<Rightarrow> do {
              pEntry \<leftarrow> rd t h;
              let pEntry = (if ht_chain pEntry = Some elem then pEntry\<lparr>ht_chain := he_next e\<rparr>
                            else pEntry);
              if ht_count pEntry = 0 then None
              else Some (H\<lparr>ht := Some (t[h := pEntry\<lparr>ht_count := ht_count pEntry - 1\<rparr>])\<rparr>) });
     let H = H\<lparr>elems := (elems H)(elem := None)\<rparr>;
     let H = H\<lparr>count := count H - 1\<rparr>;
     if count H = 0 then sqlite3HashClear H else Some H }"

definition sqlite3HashFind :: "'v Hash \<Rightarrow> u8 list \<Rightarrow> 'v option option" where
  "sqlite3HashFind H pKey = do {
     (elem, h) \<leftarrow> findElementWithHash H pKey;
     (case elem of
        None \<Rightarrow> Some None
      | Some a \<Rightarrow> do { e \<leftarrow> elems H a; Some (Some (he_data e)) }) }"

text \<open>\<open>alloc\<close> answers the allocation of an element. The first component is the pointer returned.\<close>

definition sqlite3HashInsert ::
  "'v Hash \<Rightarrow> u8 list \<Rightarrow> 'v option \<Rightarrow> addr option \<Rightarrow> (nat \<Rightarrow> nat option) \<Rightarrow> ('v option \<times> 'v Hash) option"
where
  "sqlite3HashInsert H pKey data alloc grant = do {
     (elem, h) \<leftarrow> findElementWithHash H pKey;
     (case elem of
        Some a \<Rightarrow> do {
          e \<leftarrow> elems H a;
          let old_data = he_data e;
          (case data of
             None \<Rightarrow> do { H \<leftarrow> removeElementGivenHash H a h; Some (Some old_data, H) }
           | Some d \<Rightarrow>
               Some (Some old_data,
                     H\<lparr>elems := (elems H)(a \<mapsto> e\<lparr>he_data := d, he_pKey := pKey\<rparr>)\<rparr>)) }
      | None \<Rightarrow>
          (case data of
             None \<Rightarrow> Some (None, H)
           | Some d \<Rightarrow>
               (case alloc of
                  None \<Rightarrow> Some (Some d, H)
                | Some a \<Rightarrow> do {
                    let H = H\<lparr>elems := (elems H)(a \<mapsto>
                               \<lparr>he_next = None, he_prev = None, he_data = d, he_pKey = pKey\<rparr>)\<rparr>;
                    let H = H\<lparr>count := count H + 1\<rparr>;
                    (h, H) \<leftarrow>
                      (if count H \<ge> 10 \<and> count H > 2 * htsize H then do {
                         (ok, H) \<leftarrow> rehash H (count H * 2) grant;
                         Some (if ok then unat (strHash pKey) mod htsize H else h, H) }
                       else Some (h, H));
                    H \<leftarrow> insertElement H (if ht H \<noteq> None then Some h else None) a;
                    Some (None, H) }))) }"

end
