(* ===== verification/HashRep.thy ===== *)
theory HashRep
  imports Hash
begin

text \<open>
  The correctness of the hash table of \<open>Hash\<close>. \<open>hash_rep H ps\<close> is the representation invariant: the
  addresses \<open>ps\<close> form the linked list (\<open>links\<close>), they are exactly the live elements, \<open>count\<close> is
  their number, no two keys are equal up to case (\<open>keys_ok\<close>), and each bucket counts, and points to
  the head of, a contiguous run of \<open>ps\<close> (\<open>table_rep\<close>). The sections follow the code: linking an
  element (\<open>insertElement\<close>), searching, resizing, unlinking, inserting. The contract
  \<open>assoc_map\<close> of \<open>Interfaces\<close> is interpreted on the operations at the end.
\<close>

section \<open>Segments of the linked list\<close>

definition hdo :: "addr option \<Rightarrow> addr list \<Rightarrow> addr option" where
  "hdo q xs = (case xs of [] \<Rightarrow> q | x # _ \<Rightarrow> Some x)"

definition lasto :: "addr option \<Rightarrow> addr list \<Rightarrow> addr option" where
  "lasto p xs = (if xs = [] then p else Some (last xs))"

lemma hdo_simps [simp]: "hdo q [] = q" "hdo q (x # xs) = Some x"
  by (simp_all add: hdo_def)

lemma lasto_simps [simp]: "lasto p [] = p" "lasto p (xs @ [x]) = Some x" "lasto p (x # xs) = lasto (Some x) xs"
  by (simp_all add: lasto_def)

lemma hdo_append [simp]: "hdo q (xs @ ys) = hdo (hdo q ys) xs"
  by (cases xs) simp_all

text \<open>\<open>dll m p xs q\<close>: the addresses \<open>xs\<close> are linked in both directions, after \<open>p\<close> and before \<open>q\<close>.\<close>

fun dll :: "(addr \<Rightarrow> 'v HashElem option) \<Rightarrow> addr option \<Rightarrow> addr list \<Rightarrow> addr option \<Rightarrow> bool" where
  "dll m p [] q = True"
| "dll m p (a # as) q =
     ((case m a of None \<Rightarrow> False | Some e \<Rightarrow> he_prev e = p \<and> he_next e = hdo q as)
      \<and> dll m (Some a) as q)"

lemma dll_append [simp]:
  "dll m p (xs @ ys) q \<longleftrightarrow> dll m p xs (hdo q ys) \<and> dll m (lasto p xs) ys q"
  by (induction xs arbitrary: p) (auto split: option.splits)

lemma dll_frame: "(\<And>a. a \<in> set xs \<Longrightarrow> m' a = m a) \<Longrightarrow> dll m' p xs q = dll m p xs q"
  by (induction xs arbitrary: p) auto

lemma dll_upd [simp]: "a \<notin> set xs \<Longrightarrow> dll (m(a := v)) p xs q = dll m p xs q"
  by (rule dll_frame) auto

lemma dll_dom: "dll m p xs q \<Longrightarrow> a \<in> set xs \<Longrightarrow> \<exists>e. m a = Some e"
  by (induction xs arbitrary: p) (auto split: option.splits)

text \<open>What a store holds at an address apart from the links.\<close>

definition view :: "(addr \<Rightarrow> 'v HashElem option) \<Rightarrow> addr \<Rightarrow> (u8 list \<times> 'v) option" where
  "view m a = map_option (\<lambda>e. (he_pKey e, he_data e)) (m a)"

definition links :: "'v Hash \<Rightarrow> addr list \<Rightarrow> bool" where
  "links H ps \<longleftrightarrow> dll (elems H) None ps None \<and> first H = hdo None ps \<and> distinct ps"

text \<open>What linking a new element leaves as it was.\<close>

definition only_links :: "'v Hash \<Rightarrow> 'v Hash \<Rightarrow> addr set \<Rightarrow> bool" where
  "only_links H H' A \<longleftrightarrow> view (elems H') = view (elems H) \<and> count H' = count H \<and> htsize H' = htsize H
     \<and> (\<forall>a. a \<notin> A \<longrightarrow> elems H' a = elems H a)"

lemma set_next_Some [simp]:
  "elems H a = Some e \<Longrightarrow> set_next H a p = Some (H\<lparr>elems := (elems H)(a \<mapsto> e\<lparr>he_next := p\<rparr>)\<rparr>)"
  by (simp add: set_next_def)

lemma set_prev_Some [simp]:
  "elems H a = Some e \<Longrightarrow> set_prev H a p = Some (H\<lparr>elems := (elems H)(a \<mapsto> e\<lparr>he_prev := p\<rparr>)\<rparr>)"
  by (simp add: set_prev_def)

lemma insert_front:
  assumes "links H ps" and new: "elems H new = Some en" and "new \<notin> set ps"
  shows "\<exists>H'. (do {
          H1 \<leftarrow> set_next H new (first H);
          H1 \<leftarrow> (case first H1 of Some f \<Rightarrow> set_prev H1 f (Some new) | None \<Rightarrow> Some H1);
          H1 \<leftarrow> set_prev H1 new None;
          Some (H1\<lparr>first := Some new\<rparr>) }) = Some H'
     \<and> links H' (new # ps) \<and> only_links H H' (set (new # ps)) \<and> ht H' = ht H"
proof (cases ps)
  case Nil
  then show ?thesis using assms
    by (simp add: links_def only_links_def view_def fun_eq_iff)
next
  case (Cons y ys)
  with assms obtain ey where "elems H y = Some ey" by (auto simp: links_def split: option.splits)
  with Cons assms show ?thesis
    by (simp add: links_def only_links_def view_def fun_eq_iff)
qed

lemma insert_before:
  assumes "links H (xs @ y # ys)" and "elems H new = Some en" and "new \<notin> set (xs @ y # ys)"
  shows "\<exists>H'. (do {
          eh \<leftarrow> elems H y;
          H1 \<leftarrow> set_next H new (Some y);
          H1 \<leftarrow> set_prev H1 new (he_prev eh);
          H1 \<leftarrow> (case he_prev eh of
                 Some q \<Rightarrow> set_next H1 q (Some new)
               | None \<Rightarrow> Some (H1\<lparr>first := Some new\<rparr>));
          set_prev H1 y (Some new) }) = Some H'
     \<and> links H' (xs @ new # y # ys) \<and> only_links H H' (set (xs @ new # y # ys)) \<and> ht H' = ht H"
proof -
  obtain ey where y: "elems H y = Some ey" "he_prev ey = lasto None xs"
    using assms(1) by (auto simp: links_def split: option.splits)
  show ?thesis
  proof (cases xs rule: rev_cases)
    case Nil
    then show ?thesis using assms y
      by (simp add: links_def only_links_def view_def fun_eq_iff)
  next
    case (snoc us u)
    with assms obtain eu where "elems H u = Some eu" by (auto simp: links_def split: option.splits)
    with snoc assms y show ?thesis
      by (simp add: links_def only_links_def view_def fun_eq_iff)
  qed
qed

section \<open>Buckets are contiguous runs of the list\<close>

fun contig :: "('a \<Rightarrow> bool) \<Rightarrow> 'a list \<Rightarrow> bool" where
  "contig Q [] = True"
| "contig Q (x # xs) = (if Q x then filter Q (dropWhile Q xs) = [] else contig Q xs)"

lemma filter_empty_contig: "filter Q xs = [] \<Longrightarrow> contig Q xs"
  by (induction xs) (auto split: if_splits)

lemma filter_dropWhile_cons: "filter Q (dropWhile Q xs) = [] \<Longrightarrow> contig Q xs"
  by (induction xs) (auto split: if_splits intro: filter_empty_contig)

lemma contig_split: "contig Q ps \<Longrightarrow> \<exists>xs zs. ps = xs @ filter Q ps @ zs"
proof (induction ps)
  case (Cons p ps)
  show ?case
  proof (cases "Q p")
    case True
    then have d: "filter Q (dropWhile Q ps) = []" using Cons.prems by simp
    have "filter Q ps = filter Q (takeWhile Q ps @ dropWhile Q ps)" by simp
    also have "\<dots> = takeWhile Q ps"
      unfolding filter_append d by (auto simp: filter_id_conv dest: set_takeWhileD)
    finally have "ps = filter Q ps @ dropWhile Q ps" by simp
    then have "p # ps = [] @ filter Q (p # ps) @ dropWhile Q ps" using True by simp
    then show ?thesis by blast
  next
    case False
    then obtain xs zs where "ps = xs @ filter Q ps @ zs" using Cons by auto
    then have "p # ps = (p # xs) @ filter Q (p # ps) @ zs" using False by simp
    then show ?thesis by blast
  qed
qed simp

lemma filter_dropWhile_insert:
  "filter Q (dropWhile Q (us @ y # vs)) = [] \<Longrightarrow> \<not> Q n \<Longrightarrow> \<not> Q y \<Longrightarrow>
   filter Q (dropWhile Q (us @ n # y # vs)) = []"
  by (induction us) (auto split: if_splits)

lemma filter_dropWhile_insert_in:
  "filter Q (dropWhile Q (us @ y # vs)) = [] \<Longrightarrow> Q n \<Longrightarrow> Q y \<Longrightarrow>
   filter Q (dropWhile Q (us @ n # y # vs)) = []"
  by (induction us) (auto split: if_splits)

lemma contig_insert_other:
  "contig Q (us @ y # vs) \<Longrightarrow> \<not> Q n \<Longrightarrow> \<not> Q y \<Longrightarrow> contig Q (us @ n # y # vs)"
proof (induction us)
  case (Cons u us)
  then show ?case
    using filter_dropWhile_insert [of Q us y vs n] by (cases "Q u") simp_all
qed simp

lemma contig_insert_same:
  "contig Q (us @ y # vs) \<Longrightarrow> Q n \<Longrightarrow> Q y \<Longrightarrow> contig Q (us @ n # y # vs)"
proof (induction us)
  case (Cons u us)
  then show ?case
    using filter_dropWhile_insert_in [of Q us y vs n] by (cases "Q u") simp_all
qed simp

lemma contig_cong:
  "(\<And>x. x \<in> set xs \<Longrightarrow> P x = Q x) \<Longrightarrow> contig P xs = contig Q xs"
proof (induction xs)
  case (Cons x xs)
  have d: "dropWhile P xs = dropWhile Q xs"
    by (rule dropWhile_cong) (simp_all add: Cons.prems)
  have "filter P (dropWhile Q xs) = filter Q (dropWhile Q xs)"
    by (rule filter_cong) (auto simp: Cons.prems dest: set_dropWhileD)
  with Cons show ?case by (simp add: d)
qed simp

lemma filter_dropWhile_empty: "filter Q vs = [] \<Longrightarrow> filter Q (dropWhile Q vs) = []"
  by (induction vs) (simp_all split: if_splits)

lemma filter_dropWhile_remove:
  "filter Q (dropWhile Q (us @ y # vs)) = [] \<Longrightarrow> filter Q (dropWhile Q (us @ vs)) = []"
  by (induction us) (simp_all add: filter_dropWhile_empty split: if_splits)

lemma contig_remove: "contig Q (us @ y # vs) \<Longrightarrow> contig Q (us @ vs)"
  by (induction us) (auto simp: filter_dropWhile_remove filter_dropWhile_cons split: if_splits)

text \<open>
  \<open>f\<close> gives the bucket index of an address. Each bucket counts its elements and points to the
  first of them.
\<close>

definition table_ok :: "(addr \<Rightarrow> nat) \<Rightarrow> nat \<Rightarrow> ht_entry list \<Rightarrow> addr list \<Rightarrow> bool" where
  "table_ok f n t ps \<longleftrightarrow> length t = n \<and> (\<forall>b < n.
     contig (\<lambda>a. f a = b) ps
     \<and> ht_count (t ! b) = length (filter (\<lambda>a. f a = b) ps)
     \<and> (filter (\<lambda>a. f a = b) ps \<noteq> [] \<longrightarrow> ht_chain (t ! b) = Some (hd (filter (\<lambda>a. f a = b) ps))))"

lemma table_ok_cong: "(\<And>a. a \<in> set ps \<Longrightarrow> f a = g a) \<Longrightarrow> table_ok f n t ps = table_ok g n t ps"
proof -
  assume *: "\<And>a. a \<in> set ps \<Longrightarrow> f a = g a"
  have f: "filter (\<lambda>a. f a = b) ps = filter (\<lambda>a. g a = b) ps" for b
    by (rule filter_cong) (simp_all add: *)
  have "contig (\<lambda>a. f a = b) ps = contig (\<lambda>a. g a = b) ps" for b
    by (rule contig_cong) (simp add: *)
  with f show ?thesis by (simp add: table_ok_def)
qed

lemma table_ok_empty: "table_ok f n (replicate n \<lparr>ht_count = 0, ht_chain = None\<rparr>) []"
  by (simp add: table_ok_def)

lemma table_ok_front:
  assumes "table_ok f n t ps" and "f new < n" and "filter (\<lambda>a. f a = f new) ps = []"
  shows "table_ok f n (t[f new := \<lparr>ht_count = ht_count (t ! f new) + 1, ht_chain = Some new\<rparr>]) (new # ps)"
  using assms by (auto simp: table_ok_def nth_list_update filter_empty_conv dest: set_dropWhileD)

lemma table_ok_before:
  assumes ok: "table_ok f n t (xs @ y # ys)" and n: "f new < n" and y: "f y = f new"
    and h: "hd (filter (\<lambda>a. f a = f new) (xs @ y # ys)) = y"
    and d: "distinct (xs @ y # ys)"
  shows "table_ok f n (t[f new := \<lparr>ht_count = ht_count (t ! f new) + 1, ht_chain = Some new\<rparr>])
           (xs @ new # y # ys)"
proof -
  have "filter (\<lambda>a. f a = f new) xs = []"
  proof (rule ccontr)
    assume *: "filter (\<lambda>a. f a = f new) xs \<noteq> []"
    then have "hd (filter (\<lambda>a. f a = f new) (xs @ y # ys)) \<in> set xs"
      by (simp add: hd_append) (metis filter_is_subset hd_in_set subsetD)
    with h d show False by auto
  qed
  then show ?thesis
    using ok n y
    by (auto simp: table_ok_def nth_list_update contig_insert_other contig_insert_same)
qed

text \<open>Linking an element into its bucket.\<close>

lemma insertElement_ok:
  assumes l: "links H ps" and t: "ht H = Some t" and ok: "table_ok f n t ps"
    and e: "elems H new = Some en" and new: "new \<notin> set ps" and n: "f new < n"
  shows "\<exists>H' ps' t'. insertElement H (Some (f new)) new = Some H' \<and> links H' ps' \<and> ht H' = Some t'
     \<and> table_ok f n t' ps' \<and> set ps' = insert new (set ps) \<and> length ps' = Suc (length ps)
     \<and> only_links H H' (insert new (set ps))"
proof -
  let ?b = "f new"
  let ?t = "t[?b := \<lparr>ht_count = ht_count (t ! ?b) + 1, ht_chain = Some new\<rparr>]"
  let ?H = "H\<lparr>ht := Some ?t\<rparr>"
  have len: "length t = n" using ok by (simp add: table_ok_def)
  have l': "links ?H ps" using l by (simp add: links_def)
  have e': "elems ?H new = Some en" using e by simp
  show ?thesis
  proof (cases "filter (\<lambda>a. f a = ?b) ps = []")
    case True
    then have c: "ht_count (t ! ?b) = 0" using ok n by (simp add: table_ok_def)
    obtain H' where H': "links H' (new # ps)" "only_links ?H H' (set (new # ps))" "ht H' = ht ?H"
      and run: "do {
          H1 \<leftarrow> set_next ?H new (first ?H);
          H1 \<leftarrow> (case first H1 of Some f \<Rightarrow> set_prev H1 f (Some new) | None \<Rightarrow> Some H1);
          H1 \<leftarrow> set_prev H1 new None;
          Some (H1\<lparr>first := Some new\<rparr>) } = Some H'"
      using insert_front [OF l' e' new] by blast
    have "insertElement H (Some ?b) new = Some H'"
      using run by (simp add: insertElement_def t rd_def len n c)
    moreover note H'
    moreover have "table_ok f n ?t (new # ps)" by (rule table_ok_front [OF ok n True])
    moreover have "only_links H H' (insert new (set ps))"
      using H'(2) by (simp add: only_links_def)
    ultimately show ?thesis
      by (intro exI [of _ H'] exI [of _ "new # ps"] exI [of _ ?t]) simp
  next
    case False
    define y where "y = hd (filter (\<lambda>a. f a = ?b) ps)"
    have c: "ht_count (t ! ?b) \<noteq> 0" "ht_chain (t ! ?b) = Some y"
      using ok n False by (auto simp: table_ok_def y_def)
    have y: "y \<in> set ps" "f y = ?b" using hd_in_set [OF False] by (auto simp: y_def)
    then obtain xs ys where ps: "ps = xs @ y # ys" by (meson split_list)
    have l'': "links ?H (xs @ y # ys)" using l' ps by simp
    have new': "new \<notin> set (xs @ y # ys)" using new ps by simp
    obtain H' where H': "links H' (xs @ new # y # ys)"
        "only_links ?H H' (set (xs @ new # y # ys))" "ht H' = ht ?H"
      and run: "do {
          eh \<leftarrow> elems ?H y;
          H1 \<leftarrow> set_next ?H new (Some y);
          H1 \<leftarrow> set_prev H1 new (he_prev eh);
          H1 \<leftarrow> (case he_prev eh of
                 Some q \<Rightarrow> set_next H1 q (Some new)
               | None \<Rightarrow> Some (H1\<lparr>first := Some new\<rparr>));
          set_prev H1 y (Some new) } = Some H'"
      using insert_before [OF l'' e' new'] by blast
    have "insertElement H (Some ?b) new = Some H'"
      using run by (simp add: insertElement_def t rd_def len n c)
    moreover note H'
    moreover have "table_ok f n ?t (xs @ new # y # ys)"
      using ok n y(2) l y_def unfolding ps links_def by (intro table_ok_before) simp_all
    moreover have s: "set (xs @ new # y # ys) = insert new (set ps)"
      using ps by auto
    moreover have "length (xs @ new # y # ys) = Suc (length ps)"
      using ps by simp
    moreover have "only_links H H' (insert new (set ps))"
      using H'(2) unfolding s by (simp add: only_links_def)
    moreover have "ht H' = Some ?t" using H'(3) by simp
    ultimately show ?thesis by blast
  qed
qed

section \<open>The representation invariant\<close>

abbreviation fold_key :: "u8 list \<Rightarrow> u8 list" where
  "fold_key k \<equiv> map UpperToLower k"

definition keyof :: "(addr \<Rightarrow> 'v HashElem option) \<Rightarrow> addr \<Rightarrow> u8 list" where
  "keyof m a = (case m a of None \<Rightarrow> [] | Some e \<Rightarrow> he_pKey e)"

definition bucket_of :: "(addr \<Rightarrow> 'v HashElem option) \<Rightarrow> nat \<Rightarrow> addr \<Rightarrow> nat" where
  "bucket_of m n a = unat (strHash (keyof m a)) mod n"

definition table_rep :: "'v Hash \<Rightarrow> addr list \<Rightarrow> bool" where
  "table_rep H ps = (case ht H of
     None \<Rightarrow> htsize H = 0
   | Some t \<Rightarrow> 0 < htsize H \<and> table_ok (bucket_of (elems H) (htsize H)) (htsize H) t ps)"

definition keys_ok :: "(addr \<Rightarrow> 'v HashElem option) \<Rightarrow> addr list \<Rightarrow> bool" where
  "keys_ok m ps \<longleftrightarrow> (\<forall>a \<in> set ps. cstring (keyof m a)) \<and> distinct (map (\<lambda>a. fold_key (keyof m a)) ps)"

definition hash_rep :: "'v Hash \<Rightarrow> addr list \<Rightarrow> bool" where
  "hash_rep H ps \<longleftrightarrow> links H ps \<and> dom (elems H) = set ps \<and> count H = length ps
     \<and> keys_ok (elems H) ps \<and> table_rep H ps"

lemma strHash_fold_loop: "strHash_loop h (fold_key k) = strHash_loop h k"
  by (induction k arbitrary: h) (simp_all add: UpperToLower_idem)

lemma strHash_fold: "fold_key k = fold_key k' \<Longrightarrow> strHash k = strHash k'"
  by (metis strHash_def strHash_fold_loop)

lemma keyof_eq_view: "keyof m a = (case view m a of None \<Rightarrow> [] | Some (k, d) \<Rightarrow> k)"
  by (simp add: keyof_def view_def split: option.splits)

lemma keyof_view: "view m' = view m \<Longrightarrow> keyof m' = keyof m"
  by (rule ext) (simp only: keyof_eq_view)

lemma bucket_of_view: "view m' = view m \<Longrightarrow> bucket_of m' = bucket_of m"
  by (intro ext) (simp only: bucket_of_def keyof_view [of m' m])

section \<open>Search\<close>

definition matches :: "(addr \<Rightarrow> 'v HashElem option) \<Rightarrow> u8 list \<Rightarrow> addr \<Rightarrow> bool" where
  "matches m k a \<longleftrightarrow> fold_key (keyof m a) = fold_key k"

lemma find_loop_segment:
  "dll (elems H) p ys q \<Longrightarrow> \<forall>a \<in> set ys. cstring (keyof (elems H) a) \<Longrightarrow> cstring k \<Longrightarrow>
     find_loop H k (length ys) (hdo q ys) = Some (find (matches (elems H) k) ys)"
proof (induction ys arbitrary: p)
  case (Cons y ys)
  then obtain e where "elems H y = Some e" "he_next e = hdo q ys" "dll (elems H) (Some y) ys q"
    by (auto split: option.splits)
  with Cons show ?case
    by (simp add: StrICmp_0_iff keyof_def matches_def)
qed simp

lemma find_filter:
  "(\<And>a. a \<in> set ps \<Longrightarrow> P a \<Longrightarrow> Q a) \<Longrightarrow> find P (filter Q ps) = find P ps"
  by (induction ps) auto

lemma findElement_rep:
  assumes l: "links H ps" and c: "count H = length ps" and k: "keys_ok (elems H) ps"
    and t: "table_rep H ps" and key: "cstring k"
  shows "findElementWithHash H k =
    Some (find (matches (elems H) k) ps,
          if ht H = None then 0 else unat (strHash k) mod htsize H)"
proof (cases "ht H")
  case None
  then show ?thesis
    using l find_loop_segment [of H None ps None k] k key c
    by (simp add: findElementWithHash_def links_def keys_ok_def)
next
  case (Some t)
  let ?h = "unat (strHash k) mod htsize H" and ?f = "bucket_of (elems H) (htsize H)"
  let ?B = "filter (\<lambda>a. ?f a = ?h) ps"
  from Some assms(4) have ok: "table_ok ?f (htsize H) t ps" and h: "?h < htsize H"
    by (simp_all add: table_rep_def)
  then have len: "length t = htsize H" and cnt: "ht_count (t ! ?h) = length ?B"
    and chain: "?B \<noteq> [] \<Longrightarrow> ht_chain (t ! ?h) = Some (hd ?B)"
    and "contig (\<lambda>a. ?f a = ?h) ps"
    by (simp_all add: table_ok_def)
  then obtain xs zs where ps: "ps = xs @ ?B @ zs" using contig_split by blast
  have "find_loop H k (length ?B) (ht_chain (t ! ?h)) = Some (find (matches (elems H) k) ?B)"
  proof (cases "?B = []")
    case True then show ?thesis by (simp only: list.size find_loop.simps List.find.simps)
  next
    case False
    have "dll (elems H) None (xs @ ?B @ zs) None" using l ps by (simp add: links_def)
    then have "dll (elems H) (lasto None xs) ?B (hdo None zs)" by (simp only: dll_append)
    moreover have "hdo (hdo None zs) ?B = ht_chain (t ! ?h)"
      using False chain by (cases ?B) auto
    ultimately show ?thesis
      using find_loop_segment [of H "lasto None xs" ?B "hdo None zs" k] k key by (simp add: keys_ok_def)
  qed
  also have "find (matches (elems H) k) ?B = find (matches (elems H) k) ps"
    by (rule find_filter) (auto simp: matches_def bucket_of_def dest: strHash_fold)
  finally show ?thesis
    using h by (simp add: findElementWithHash_def Some rd_def len cnt)
qed

lemma find_unique:
  assumes "keys_ok m ps"
  shows "find (matches m k) ps = Some a \<longleftrightarrow> a \<in> set ps \<and> matches m k a"
proof
  assume "find (matches m k) ps = Some a"
  then show "a \<in> set ps \<and> matches m k a" by (auto simp: find_Some_iff)
next
  assume a: "a \<in> set ps \<and> matches m k a"
  then obtain b where b: "find (matches m k) ps = Some b"
    by (cases "find (matches m k) ps") (auto simp: find_None_iff)
  then have "b \<in> set ps" "matches m k b" by (auto simp: find_Some_iff)
  with a assms have "a = b"
    by (simp add: keys_ok_def matches_def distinct_map inj_on_def)
  with b show "find (matches m k) ps = Some a" by simp
qed

text \<open>The map a table stands for, on keys up to case.\<close>

definition lookup :: "(addr \<Rightarrow> 'v HashElem option) \<Rightarrow> addr list \<Rightarrow> u8 list \<Rightarrow> 'v option" where
  "lookup m ps k = (case find (matches m k) ps of None \<Rightarrow> None | Some a \<Rightarrow> map_option he_data (m a))"

lemma HashFind_rep:
  assumes r: "hash_rep H ps" and k: "cstring k"
  shows "sqlite3HashFind H k = Some (lookup (elems H) ps k)"
proof -
  from r have "findElementWithHash H k =
    Some (find (matches (elems H) k) ps, if ht H = None then 0 else unat (strHash k) mod htsize H)"
    by (intro findElement_rep k) (simp_all add: hash_rep_def)
  moreover have "\<exists>e. elems H a = Some e" if "find (matches (elems H) k) ps = Some a" for a
  proof -
    from that have "a \<in> dom (elems H)" using r by (auto simp: hash_rep_def find_Some_iff)
    then show ?thesis by auto
  qed
  ultimately show ?thesis
    by (auto simp: sqlite3HashFind_def lookup_def split: option.splits)
qed

section \<open>Resizing\<close>

text \<open>The elements still to move are only reached forwards: their back links may be stale.\<close>

fun forward :: "(addr \<Rightarrow> 'v HashElem option) \<Rightarrow> addr option \<Rightarrow> addr list \<Rightarrow> bool" where
  "forward m p [] \<longleftrightarrow> p = None"
| "forward m p (a # as) \<longleftrightarrow> p = Some a \<and> (case m a of None \<Rightarrow> False | Some e \<Rightarrow> forward m (he_next e) as)"

lemma dll_forward: "dll m p xs None \<Longrightarrow> forward m (hdo None xs) xs"
  by (induction xs arbitrary: p) (auto split: option.splits)

lemma forward_frame: "(\<And>a. a \<in> set xs \<Longrightarrow> m' a = m a) \<Longrightarrow> forward m' p xs = forward m p xs"
proof (induction xs arbitrary: p)
  case (Cons x xs)
  then show ?case by (auto split: option.splits)
qed simp

lemma bucket_of_Some: "m a = Some e \<Longrightarrow> bucket_of m n a = unat (strHash (he_pKey e)) mod n"
  by (simp add: bucket_of_def keyof_def)

lemma rehash_loop_ok:
  assumes "links H ps" and "ht H = Some t" and "table_ok (bucket_of (elems H) n) n t ps"
    and "forward (elems H) p rs" and "distinct rs" and "set rs \<inter> set ps = {}" and "0 < n"
  shows "\<exists>H' ps' t'. rehash_loop n H p = Some H' \<and> links H' ps' \<and> ht H' = Some t'
    \<and> table_ok (bucket_of (elems H) n) n t' ps' \<and> set ps' = set ps \<union> set rs
    \<and> length ps' = length ps + length rs \<and> view (elems H') = view (elems H)
    \<and> count H' = count H \<and> htsize H' = htsize H"
  using assms
proof (induction rs arbitrary: H ps t p)
  case Nil
  then show ?case by (intro exI [of _ H] exI [of _ ps] exI [of _ t]) (simp add: rehash_loop.simps)
next
  case (Cons r rs)
  then obtain e where e: "elems H r = Some e" and p: "p = Some r"
    and fw: "forward (elems H) (he_next e) rs" by (auto split: option.splits)
  let ?f = "bucket_of (elems H) n"
  have "r \<notin> set ps" and "?f r < n" using Cons.prems by (auto simp: bucket_of_def)
  then obtain H1 ps1 t1 where 1: "insertElement H (Some (?f r)) r = Some H1" "links H1 ps1"
      "ht H1 = Some t1" "table_ok ?f n t1 ps1" "set ps1 = insert r (set ps)"
      "length ps1 = Suc (length ps)" "only_links H H1 (insert r (set ps))"
    using insertElement_ok [OF Cons.prems(1-3) e] by blast
  have f: "bucket_of (elems H1) n = ?f"
    using 1(7) bucket_of_view [of "elems H1" "elems H"] by (simp add: only_links_def)
  have fw1: "forward (elems H1) (he_next e) rs"
    using fw 1(7) Cons.prems(5,6) forward_frame [of rs "elems H1" "elems H"]
    by (fastforce simp: only_links_def)
  have dj: "set rs \<inter> set ps1 = {}" "distinct rs" using 1(5) Cons.prems(5,6) by auto
  obtain H' ps' t' where 2: "rehash_loop n H1 (he_next e) = Some H'" "links H' ps'" "ht H' = Some t'"
    "table_ok ?f n t' ps'" "set ps' = set ps1 \<union> set rs" "length ps' = length ps1 + length rs"
    "view (elems H') = view (elems H1)" "count H' = count H1" "htsize H' = htsize H1"
    using Cons.IH [OF 1(2,3) _ fw1 dj(2,1) Cons.prems(7)] 1(4) unfolding f by blast
  have "rehash_loop n H p = Some H'"
    using 1(1) 2(1) by (simp add: rehash_loop.simps [of n H "Some r"] p e bucket_of_Some [of "elems H" r e])
  then show ?case
    using 1(5-7) 2 by (intro exI [of _ H'] exI [of _ ps'] exI [of _ t']) (auto simp: only_links_def)
qed

lemma rehash_ok:
  assumes l: "links H ps" and g: "\<forall>k m. grant k = Some m \<longrightarrow> k \<le> m" and s: "0 < sz"
  shows "\<exists>ok H' ps'. rehash H sz grant = Some (ok, H') \<and> links H' ps' \<and> set ps' = set ps
     \<and> length ps' = length ps \<and> view (elems H') = view (elems H) \<and> count H' = count H
     \<and> (if ok then table_rep H' ps' \<and> ht H' \<noteq> None else H' = H \<and> ps' = ps)
     \<and> ok = (grant sz \<noteq> None) \<and> (ok \<longrightarrow> htsize H' = the (grant sz))"
proof (cases "grant sz")
  case None
  with l show ?thesis by (intro exI [of _ False] exI [of _ H] exI [of _ ps]) (simp add: rehash_def)
next
  case (Some n)
  then have n: "0 < n" using g s by fastforce
  let ?t = "replicate n \<lparr>ht_count = 0, ht_chain = None\<rparr>"
  let ?H = "H\<lparr>ht := Some ?t, htsize := n, first := None\<rparr>"
  have f: "forward (elems ?H) (first H) ps" and d: "distinct ps"
    using l dll_forward [of "elems H" None ps] by (simp_all add: links_def)
  have 0: "links ?H []" "ht ?H = Some ?t" "table_ok (bucket_of (elems ?H) n) n ?t []"
    by (simp_all add: links_def table_ok_empty)
  obtain H' ps' t' where 1: "rehash_loop n ?H (first H) = Some H'" "links H' ps'" "ht H' = Some t'"
    "table_ok (bucket_of (elems ?H) n) n t' ps'" "set ps' = set [] \<union> set ps"
    "length ps' = length [] + length ps" "view (elems H') = view (elems ?H)"
    "count H' = count ?H" "htsize H' = htsize ?H"
    using rehash_loop_ok [OF 0 f d _ n] by auto
  have "bucket_of (elems H') = bucket_of (elems H)"
    using 1(7) by (intro bucket_of_view) simp
  then have "table_rep H' ps'" using 1(3,4,9) n by (simp add: table_rep_def)
  moreover have "rehash H sz grant = Some (True, H')"
    using 1(1) Some by (simp add: rehash_def)
  ultimately show ?thesis
    using 1 Some by (intro exI [of _ True] exI [of _ H'] exI [of _ ps']) simp
qed

section \<open>Unlinking\<close>

lemma contig_head: "contig Q (xs @ y # ys) \<Longrightarrow> filter Q xs = [] \<Longrightarrow> Q y \<Longrightarrow> filter Q (dropWhile Q ys) = []"
  by (induction xs) (auto split: if_splits)

lemma next_in_run:
  assumes "filter Q (dropWhile Q ys) = []" and "filter Q ys \<noteq> []"
  shows "hdo q ys = Some (hd (filter Q ys))"
proof (cases ys)
  case (Cons z zs)
  with assms show ?thesis by (cases "Q z") auto
qed (use assms in simp)

lemma table_ok_remove:
  assumes ok: "table_ok f n t (xs @ y # ys)" and d: "distinct (xs @ y # ys)" and h: "f y < n"
  shows "ht_count (t ! f y) \<noteq> 0"
    "table_ok f n (t[f y := \<lparr>ht_count = ht_count (t ! f y) - 1,
        ht_chain = (if ht_chain (t ! f y) = Some y then hdo None ys else ht_chain (t ! f y))\<rparr>]) (xs @ ys)"
proof -
  let ?Q = "\<lambda>a. f a = f y"
  have len: "length t = n" using ok by (simp add: table_ok_def)
  have b: "contig ?Q (xs @ y # ys)" "ht_count (t ! f y) = Suc (length (filter ?Q (xs @ ys)))"
    "ht_chain (t ! f y) = Some (hd (filter ?Q (xs @ y # ys)))"
    using ok h by (auto simp: table_ok_def)
  show "ht_count (t ! f y) \<noteq> 0" using b(2) by simp
  let ?c = "if ht_chain (t ! f y) = Some y then hdo None ys else ht_chain (t ! f y)"
  have chain: "?c = Some (hd (filter ?Q (xs @ ys)))" if ne: "filter ?Q (xs @ ys) \<noteq> []"
  proof (cases "filter ?Q xs")
    case Nil
    then have "filter ?Q (dropWhile ?Q ys) = []" by (intro contig_head [OF b(1)]) simp_all
    then show ?thesis using next_in_run [of ?Q ys None] Nil ne b(3) by simp
  next
    case (Cons z zs)
    then have "z \<in> set xs" by (metis filter_is_subset list.set_intros(1) subsetD)
    then have "z \<noteq> y" using d by auto
    then show ?thesis using Cons b(3) by simp
  qed
  show "table_ok f n (t[f y := \<lparr>ht_count = ht_count (t ! f y) - 1, ht_chain = ?c\<rparr>]) (xs @ ys)"
    unfolding table_ok_def
  proof (intro conjI allI impI)
    show "length (t[f y := \<lparr>ht_count = ht_count (t ! f y) - 1, ht_chain = ?c\<rparr>]) = n" using len by simp
  next
    fix k assume k: "k < n"
    then have "contig (\<lambda>a. f a = k) (xs @ y # ys)" using ok by (simp add: table_ok_def)
    then show "contig (\<lambda>a. f a = k) (xs @ ys)" by (rule contig_remove)
    show "ht_count (t[f y := \<lparr>ht_count = ht_count (t ! f y) - 1, ht_chain = ?c\<rparr>] ! k)
        = length (filter (\<lambda>a. f a = k) (xs @ ys))"
      using ok k b(2) len by (cases "k = f y") (auto simp: table_ok_def)
    assume "filter (\<lambda>a. f a = k) (xs @ ys) \<noteq> []"
    then show "ht_chain (t[f y := \<lparr>ht_count = ht_count (t ! f y) - 1, ht_chain = ?c\<rparr>] ! k)
        = Some (hd (filter (\<lambda>a. f a = k) (xs @ ys)))"
      using ok k chain len by (cases "k = f y") (auto simp: table_ok_def)
  qed
qed

lemma unlink_ok:
  assumes "links H (xs @ y # ys)" and "elems H y = Some e"
  shows "\<exists>H'. (do {
     H1 \<leftarrow> (case he_prev e of
            Some q \<Rightarrow> set_next H q (he_next e)
          | None \<Rightarrow> Some (H\<lparr>first := he_next e\<rparr>));
     (case he_next e of Some n \<Rightarrow> set_prev H1 n (he_prev e) | None \<Rightarrow> Some H1) }) = Some H'
   \<and> links H' (xs @ ys) \<and> view (elems H') = view (elems H) \<and> elems H' y = Some e
   \<and> ht H' = ht H \<and> count H' = count H \<and> htsize H' = htsize H"
proof -
  have e: "he_prev e = lasto None xs" "he_next e = hdo None ys" "dll (elems H) None xs (Some y)"
    "dll (elems H) (Some y) ys None" "first H = hdo (Some y) xs" "distinct (xs @ y # ys)"
    using assms by (auto simp: links_def)
  show ?thesis
  proof (cases xs rule: rev_cases)
    case Nil
    show ?thesis
    proof (cases ys)
      case Nil
      with \<open>xs = []\<close> assms e show ?thesis by (simp add: links_def)
    next
      case (Cons z zs)
      with e(4) obtain ez where "elems H z = Some ez" by (auto split: option.splits)
      with \<open>xs = []\<close> Cons assms e show ?thesis by (simp add: links_def view_def fun_eq_iff)
    qed
  next
    case (snoc us u)
    with e(3) obtain eu where u: "elems H u = Some eu" by (auto split: option.splits)
    show ?thesis
    proof (cases ys)
      case Nil
      with snoc u assms e show ?thesis by (simp add: links_def view_def fun_eq_iff)
    next
      case (Cons z zs)
      with e(4) obtain ez where "elems H z = Some ez" by (auto split: option.splits)
      with snoc u Cons assms e show ?thesis by (simp add: links_def view_def fun_eq_iff)
    qed
  qed
qed

lemma keys_ok_set:
  "distinct ps \<Longrightarrow> keys_ok m ps \<longleftrightarrow>
     (\<forall>a \<in> set ps. cstring (keyof m a)) \<and> inj_on (\<lambda>a. fold_key (keyof m a)) (set ps)"
  by (simp add: keys_ok_def distinct_map)


lemma view_upd [simp]: "view (m(a \<mapsto> e)) = (view m)(a \<mapsto> (he_pKey e, he_data e))"
  by (auto simp: view_def)

lemma view_del [simp]: "view (m(a := None)) = (view m)(a := None)"
  by (auto simp: view_def)

lemma dom_view [simp]: "dom (view m) = dom m"
  by (auto simp: view_def)

lemma view_dom: "view m' = view m \<Longrightarrow> dom m' = dom m"
  by (metis dom_view)

lemma bind_chain:
  "Option.bind A B = Some x \<Longrightarrow> Option.bind A (\<lambda>a. Option.bind (B a) C) = C x"
  by (cases A) auto

text \<open>The contents of a table, in terms of keys and data only.\<close>

lemma lookup_iff:
  assumes "hash_rep H ps"
  shows "lookup (elems H) ps k = Some d
    \<longleftrightarrow> (\<exists>a key. view (elems H) a = Some (key, d) \<and> fold_key key = fold_key k)"
proof -
  have ko: "keys_ok (elems H) ps" and dm: "dom (elems H) = set ps"
    using assms by (simp_all add: hash_rep_def)
  have "lookup (elems H) ps k = Some d \<longleftrightarrow>
      (\<exists>a. find (matches (elems H) k) ps = Some a \<and> map_option he_data (elems H a) = Some d)"
    by (auto simp: lookup_def split: option.splits)
  also have "\<dots> \<longleftrightarrow> (\<exists>a. a \<in> set ps \<and> matches (elems H) k a \<and> map_option he_data (elems H a) = Some d)"
    unfolding find_unique [OF ko] by blast
  also have "\<dots> \<longleftrightarrow> (\<exists>a key. view (elems H) a = Some (key, d) \<and> fold_key key = fold_key k)"
    unfolding dm [symmetric] by (fastforce simp: matches_def keyof_def view_def)
  finally show ?thesis .
qed

lemma hash_rep_transfer:
  assumes "links H' ps'" "table_rep H' ps'" "dom (elems H') = set ps'" "count H' = length ps'"
    and "\<forall>a \<in> set ps'. cstring (keyof (elems H') a)"
    and "inj_on (\<lambda>a. fold_key (keyof (elems H') a)) (set ps')"
  shows "hash_rep H' ps'"
  using assms by (simp add: hash_rep_def keys_ok_set links_def)

lemma removeElement_ok:
  assumes r: "hash_rep H ps" and y: "y \<in> set ps"
    and h: "ht H \<noteq> None \<Longrightarrow> h = bucket_of (elems H) (htsize H) y"
  shows "\<exists>H' ps'. removeElementGivenHash H y h = Some H' \<and> hash_rep H' ps'
    \<and> view (elems H') = (view (elems H))(y := None)"
proof -
  obtain xs ys where ps: "ps = xs @ y # ys" using y by (meson split_list)
  have l: "links H (xs @ y # ys)" and dm: "dom (elems H) = set ps" and c: "count H = length ps"
    and ko: "keys_ok (elems H) ps" and tr: "table_rep H ps" and d: "distinct (xs @ y # ys)"
    using r ps by (simp_all add: hash_rep_def links_def)
  have "y \<in> dom (elems H)" using y dm by simp
  then obtain e where e: "elems H y = Some e" by (auto simp: dom_def)
  obtain H1 where un: "(do {
     H1 \<leftarrow> (case he_prev e of
            Some q \<Rightarrow> set_next H q (he_next e)
          | None \<Rightarrow> Some (H\<lparr>first := he_next e\<rparr>));
     (case he_next e of Some n \<Rightarrow> set_prev H1 n (he_prev e) | None \<Rightarrow> Some H1) }) = Some H1"
    and 1: "links H1 (xs @ ys)" "view (elems H1) = view (elems H)" "elems H1 y = Some e"
     "ht H1 = ht H" "count H1 = count H" "htsize H1 = htsize H"
    using unlink_ok [OF l e] by blast
  have ne: "he_next e = hdo None ys" using l e by (simp add: links_def)
  let ?f = "bucket_of (elems H) (htsize H)"
  let ?m = "(elems H1)(y := None)"
  have ko': "keyof ?m a = keyof (elems H) a" if "a \<noteq> y" for a
    using that 1(2) by (simp add: keyof_eq_view)
  define t' where "t' = (case ht H of None \<Rightarrow> None | Some t \<Rightarrow>
     Some (t[h := \<lparr>ht_count = ht_count (t ! h) - 1,
        ht_chain = (if ht_chain (t ! h) = Some y then hdo None ys else ht_chain (t ! h))\<rparr>]))"
  let ?H2 = "H1\<lparr>ht := t', elems := ?m, count := count H - 1\<rparr>"
  have unfold: "removeElementGivenHash H y h = do {
     H \<leftarrow> (case ht H1 of
            None \<Rightarrow> Some H1
          | Some t \<Rightarrow> do {
              pEntry \<leftarrow> rd t h;
              let pEntry = (if ht_chain pEntry = Some y then pEntry\<lparr>ht_chain := he_next e\<rparr>
                            else pEntry);
              if ht_count pEntry = 0 then None
              else Some (H1\<lparr>ht := Some (t[h := pEntry\<lparr>ht_count := ht_count pEntry - 1\<rparr>])\<rparr>) });
     let H = H\<lparr>elems := (elems H)(y := None)\<rparr>;
     let H = H\<lparr>count := count H - 1\<rparr>;
     if count H = 0 then sqlite3HashClear H else Some H }"
    unfolding removeElementGivenHash_def e bind.simps bind_chain [OF un] ..
  have rm: "removeElementGivenHash H y h = (if count H - 1 = 0 then sqlite3HashClear ?H2 else Some ?H2)"
  proof (cases "ht H")
    case None
    with 1 show ?thesis by (cases H1) (simp add: unfold t'_def)
  next
    case (Some t)
    then have "h = ?f y" "table_ok ?f (htsize H) t (xs @ y # ys)" "?f y < htsize H"
      using h tr ps by (simp_all add: table_rep_def bucket_of_def)
    then have "ht_count (t ! h) \<noteq> 0" "h < length t"
      using table_ok_remove(1) [OF _ d] by (simp_all add: table_ok_def)
    with 1 Some ne show ?thesis
      by (cases "t ! h") (simp add: unfold t'_def rd_def Let_def)
  qed
  have tr2: "table_rep ?H2 (xs @ ys)"
  proof (cases "ht H")
    case None
    with tr 1(6) show ?thesis by (simp add: table_rep_def t'_def)
  next
    case (Some t)
    then have hf: "h = ?f y" and "table_ok ?f (htsize H) t (xs @ y # ys)" "?f y < htsize H" "0 < htsize H"
      using h tr ps by (simp_all add: table_rep_def bucket_of_def)
    then have ok: "table_ok ?f (htsize H) (the t') (xs @ ys)"
      unfolding t'_def Some option.case option.sel hf using table_ok_remove(2) [OF _ d] by blast
    have "table_ok (bucket_of ?m (htsize H)) (htsize H) (the t') (xs @ ys)"
    proof (rule iffD1 [OF table_ok_cong ok])
      fix a assume "a \<in> set (xs @ ys)"
      then have "a \<noteq> y" using d by auto
      then show "?f a = bucket_of ?m (htsize H) a" by (simp add: bucket_of_def ko')
    qed
    then show ?thesis using \<open>0 < htsize H\<close> 1(6) by (simp add: table_rep_def t'_def Some)
  qed
  have rep2: "hash_rep ?H2 (xs @ ys)"
  proof (rule hash_rep_transfer [OF _ tr2])
    show "links ?H2 (xs @ ys)" using 1(1) d by (simp add: links_def)
    show "dom (elems ?H2) = set (xs @ ys)"
      using view_dom [OF 1(2)] dm d by (auto simp: ps)
    show "count ?H2 = length (xs @ ys)" using c ps by simp
    have kb: "a \<in> set ps \<and> keyof (elems ?H2) a = keyof (elems H) a" if "a \<in> set (xs @ ys)" for a
    proof -
      have "a \<noteq> y" "a \<in> set ps" using that d ps by auto
      then show ?thesis using ko' [of a] by simp
    qed
    show "\<forall>a\<in>set (xs @ ys). cstring (keyof (elems ?H2) a)"
      using kb ko unfolding keys_ok_def by metis
    have "inj_on (\<lambda>a. fold_key (keyof (elems H) a)) (set ps)"
      using ko d unfolding ps keys_ok_set [OF d] by blast
    then have inj: "inj_on (\<lambda>a. fold_key (keyof (elems H) a)) (set (xs @ ys))"
      by (rule inj_on_subset) (use kb in blast)
    show "inj_on (\<lambda>a. fold_key (keyof (elems ?H2) a)) (set (xs @ ys))"
    proof (rule inj_onI)
      fix a b assume ab: "a \<in> set (xs @ ys)" "b \<in> set (xs @ ys)"
        "fold_key (keyof (elems ?H2) a) = fold_key (keyof (elems ?H2) b)"
      then have "fold_key (keyof (elems H) a) = fold_key (keyof (elems H) b)"
        using kb [OF ab(1)] kb [OF ab(2)] by metis
      then show "a = b" using inj_onD [OF inj] ab(1,2) by metis
    qed
  qed
  show ?thesis
  proof (cases "count H - 1 = 0")
    case True
    then have nil: "xs = []" "ys = []" using c ps by simp_all
    then have m: "first H1 = None" "?m = Map.empty"
      using 1(1) rep2 by (simp_all add: links_def hash_rep_def dom_eq_empty_conv del: dom_fun_upd)
    have "sqlite3HashClear ?H2 = Some (sqlite3HashInit)"
      unfolding m(2) by (simp add: sqlite3HashClear_def HashClear_loop.simps sqlite3HashInit_def m(1))
    moreover have "hash_rep sqlite3HashInit ([] :: addr list)"
      by (simp add: hash_rep_def sqlite3HashInit_def links_def keys_ok_def table_rep_def)
    moreover have "(view (elems H))(y := None) = view Map.empty"
      using 1(2) m(2) view_del [of "elems H1" y] by simp
    ultimately show ?thesis using rm True
      by (intro exI [of _ sqlite3HashInit] exI [of _ "[]"]) (simp add: sqlite3HashInit_def)
  next
    case False
    with rm rep2 1(2) show ?thesis by (intro exI [of _ ?H2] exI [of _ "xs @ ys"]) simp
  qed
qed

section \<open>Insertion\<close>

lemma insert_any_ok:
  assumes l: "links H ps" and tr: "table_rep H ps" and e: "elems H new = Some en" and new: "new \<notin> set ps"
  shows "\<exists>H' ps'. insertElement H (if ht H \<noteq> None then Some (bucket_of (elems H) (htsize H) new) else None) new
      = Some H' \<and> links H' ps' \<and> table_rep H' ps' \<and> set ps' = insert new (set ps)
    \<and> length ps' = Suc (length ps) \<and> view (elems H') = view (elems H) \<and> count H' = count H"
proof (cases "ht H")
  case None
  from insert_front [OF l e new] obtain H' where
    1: "links H' (new # ps)" "only_links H H' (set (new # ps))" "ht H' = ht H" and
    run: "do {
          H1 \<leftarrow> set_next H new (first H);
          H1 \<leftarrow> (case first H1 of Some f \<Rightarrow> set_prev H1 f (Some new) | None \<Rightarrow> Some H1);
          H1 \<leftarrow> set_prev H1 new None;
          Some (H1\<lparr>first := Some new\<rparr>) } = Some H'" by blast
  have "insertElement H None new = Some H'" using run e by (simp add: insertElement_def)
  moreover have "table_rep H' (new # ps)"
    using 1 None tr by (simp add: table_rep_def only_links_def)
  ultimately show ?thesis
    using 1 None by (intro exI [of _ H'] exI [of _ "new # ps"]) (simp add: only_links_def)
next
  case (Some t)
  let ?f = "bucket_of (elems H) (htsize H)"
  have ok: "table_ok ?f (htsize H) t ps" and n: "0 < htsize H" "?f new < htsize H"
    using tr Some by (simp_all add: table_rep_def bucket_of_def)
  obtain H' ps' t' where 1: "insertElement H (Some (?f new)) new = Some H'" "links H' ps'"
      "ht H' = Some t'" "table_ok ?f (htsize H) t' ps'" "set ps' = insert new (set ps)"
      "length ps' = Suc (length ps)" "only_links H H' (insert new (set ps))"
    using insertElement_ok [OF l Some ok e new n(2)] by blast
  have "bucket_of (elems H') = bucket_of (elems H)"
    using 1(7) by (intro bucket_of_view) (simp add: only_links_def)
  then have "table_rep H' ps'"
    using 1(3,4,7) n by (simp add: table_rep_def only_links_def)
  then show ?thesis
    using 1 Some by (intro exI [of _ H'] exI [of _ ps']) (simp add: only_links_def)
qed

text \<open>What \<^verbatim>\<open>malloc\<close> is required to do: no live address again, no less than asked for.\<close>

definition malloc_ok :: "'v Hash \<Rightarrow> addr option \<Rightarrow> (nat \<Rightarrow> nat option) \<Rightarrow> bool" where
  "malloc_ok H alloc grant \<longleftrightarrow> (\<forall>a. alloc = Some a \<longrightarrow> elems H a = None)
     \<and> (\<forall>k m. grant k = Some m \<longrightarrow> k \<le> m)"

lemma findElement_cases:
  assumes r: "hash_rep H ps" and k: "cstring k"
  obtains (found) a e h where "findElementWithHash H k = Some (Some a, h)" "elems H a = Some e"
      "fold_key (he_pKey e) = fold_key k" "ht H \<noteq> None \<Longrightarrow> h = bucket_of (elems H) (htsize H) a"
      "sqlite3HashFind H k = Some (Some (he_data e))"
  | (absent) "findElementWithHash H k = Some (None, if ht H = None then 0 else unat (strHash k) mod htsize H)"
      "\<And>a e. elems H a = Some e \<Longrightarrow> fold_key (he_pKey e) \<noteq> fold_key k"
      "sqlite3HashFind H k = Some None"
proof -
  let ?h = "if ht H = None then 0 else unat (strHash k) mod htsize H"
  have ko: "keys_ok (elems H) ps" and dm: "dom (elems H) = set ps"
    using r by (simp_all add: hash_rep_def)
  have f: "findElementWithHash H k = Some (find (matches (elems H) k) ps, ?h)"
    using r by (intro findElement_rep k) (simp_all add: hash_rep_def)
  show thesis
  proof (cases "find (matches (elems H) k) ps")
    case None
    then have n: "\<not> matches (elems H) k a" if "a \<in> set ps" for a
      using that by (simp add: find_None_iff)
    have 2: "fold_key (he_pKey e) \<noteq> fold_key k" if "elems H a = Some e" for a e
      using n [of a] that dm by (auto simp: matches_def keyof_def)
    have 1: "findElementWithHash H k = Some (None, ?h)" using f None by simp
    have 3: "sqlite3HashFind H k = Some None" using 1 by (simp add: sqlite3HashFind_def)
    show thesis using absent 1 2 3 by blast
  next
    case (Some a)
    then have a: "a \<in> set ps" "matches (elems H) k a" by (auto simp: find_Some_iff)
    then obtain e where e: "elems H a = Some e" using dm by (auto simp: dom_def)
    have 1: "findElementWithHash H k = Some (Some a, ?h)" using f Some by simp
    have 2: "fold_key (he_pKey e) = fold_key k" using a(2) e by (simp add: matches_def keyof_def)
    have 3: "?h = bucket_of (elems H) (htsize H) a" if "ht H \<noteq> None"
      using that strHash_fold [OF 2] e by (cases "ht H") (simp_all add: bucket_of_def keyof_def)
    have 4: "sqlite3HashFind H k = Some (Some (he_data e))"
      using 1 e by (simp add: sqlite3HashFind_def)
    show thesis using found 1 2 3 4 e by blast
  qed
qed

lemma rep_same_elem:
  assumes r: "hash_rep H ps" and e: "elems H a = Some e"
    and k: "fold_key k = fold_key (he_pKey e)" "cstring k"
  shows "hash_rep (H\<lparr>elems := (elems H)(a \<mapsto> e\<lparr>he_data := d, he_pKey := k\<rparr>)\<rparr>) ps"
proof -
  let ?m = "(elems H)(a \<mapsto> e\<lparr>he_data := d, he_pKey := k\<rparr>)"
  let ?H = "H\<lparr>elems := ?m\<rparr>"
  have fk: "fold_key (keyof ?m b) = fold_key (keyof (elems H) b)" for b
    using e k by (simp add: keyof_def)
  have dll: "dll ?m p xs q = dll (elems H) p xs q" for p xs q
    using e by (induction xs arbitrary: p) (auto split: option.splits)
  have "bucket_of ?m n b = bucket_of (elems H) n b" for n b
    using strHash_fold [OF fk [of b]] by (simp add: bucket_of_def)
  then have "bucket_of ?m = bucket_of (elems H)" by (intro ext)
  moreover have "dom ?m = dom (elems H)" using e by auto
  moreover have "cstring (keyof ?m b)" if "cstring (keyof (elems H) b)" for b
    using that k e by (simp add: keyof_def)
  ultimately show ?thesis
    using r dll fk by (simp add: hash_rep_def links_def table_rep_def keys_ok_def split: option.splits)
qed

text \<open>Adding an absent key: the element is counted, the table may be resized, the element is linked.\<close>

lemma insert_new_ok:
  fixes d :: 'v
  assumes r: "hash_rep H ps" and a: "elems H a = None" and k: "cstring k"
    and absent: "\<And>b e. elems H b = Some e \<Longrightarrow> fold_key (he_pKey e) \<noteq> fold_key k"
    and g: "\<forall>k m. grant k = Some m \<longrightarrow> k \<le> m"
    and h: "h = (if ht H = None then 0 else unat (strHash k) mod htsize H)"
  defines "H1 \<equiv> H\<lparr>elems := (elems H)(a \<mapsto> \<lparr>he_next = None, he_prev = None, he_data = d, he_pKey = k\<rparr>),
                   count := count H + 1\<rparr>"
  shows "\<exists>H' ps'. (do {
      (h, H2) \<leftarrow> (if count H1 \<ge> 10 \<and> count H1 > 2 * htsize H1 then do {
                     (ok, H2) \<leftarrow> rehash H1 (count H1 * 2) grant;
                     Some (if ok then unat (strHash k) mod htsize H2 else h, H2) }
                   else Some (h, H1));
      H3 \<leftarrow> insertElement H2 (if ht H2 \<noteq> None then Some h else None) a;
      Some (None :: 'v option, H3) }) = Some (None, H')
    \<and> hash_rep H' ps' \<and> view (elems H') = (view (elems H))(a \<mapsto> (k, d))"
proof -
  have dm: "dom (elems H) = set ps" and c: "count H = length ps" and l: "links H ps"
    and tr: "table_rep H ps" and ko: "keys_ok (elems H) ps"
    using r by (simp_all add: hash_rep_def)
  have na: "a \<notin> set ps" using a dm by auto
  have v1: "view (elems H1) = (view (elems H))(a \<mapsto> (k, d))" by (simp add: H1_def)
  have l1: "links H1 ps" using l na by (simp add: links_def H1_def)
  have b1: "bucket_of (elems H1) n b = bucket_of (elems H) n b" if "b \<in> set ps" for b n
    using that na by (auto simp: bucket_of_def keyof_def H1_def)
  have tr1: "table_rep H1 ps"
  proof (cases "ht H")
    case (Some t)
    then have "table_ok (bucket_of (elems H) (htsize H)) (htsize H) t ps" "0 < htsize H"
      using tr by (simp_all add: table_rep_def)
    moreover have "ht H1 = Some t" "htsize H1 = htsize H" using Some by (simp_all add: H1_def)
    ultimately show ?thesis
      using table_ok_cong [of ps "bucket_of (elems H1) (htsize H)" "bucket_of (elems H) (htsize H)"] b1
      by (simp add: table_rep_def)
  qed (use tr in \<open>simp add: table_rep_def H1_def\<close>)
  obtain h2 H2 ps2 where mid: "(if count H1 \<ge> 10 \<and> count H1 > 2 * htsize H1 then do {
                     (ok, H2) \<leftarrow> rehash H1 (count H1 * 2) grant;
                     Some (if ok then unat (strHash k) mod htsize H2 else h, H2) }
                   else Some (h, H1)) = Some (h2, H2)"
    and 2: "links H2 ps2" "table_rep H2 ps2" "set ps2 = set ps" "length ps2 = length ps"
      "view (elems H2) = view (elems H1)" "count H2 = count H1"
      "ht H2 \<noteq> None \<longrightarrow> h2 = unat (strHash k) mod htsize H2"
  proof (cases "count H1 \<ge> 10 \<and> count H1 > 2 * htsize H1")
    case False
    show thesis
    proof (rule that [of h H1 ps])
      show "ht H1 \<noteq> None \<longrightarrow> h = unat (strHash k) mod htsize H1" using h by (auto simp: H1_def)
    qed (use False l1 tr1 in \<open>simp_all only: if_False\<close>)
  next
    case True
    then have "0 < count H1 * 2" by simp
    then obtain ok H2 ps2 where 3: "rehash H1 (count H1 * 2) grant = Some (ok, H2)" "links H2 ps2"
      "set ps2 = set ps" "length ps2 = length ps" "view (elems H2) = view (elems H1)"
      "count H2 = count H1"
      "if ok then table_rep H2 ps2 \<and> ht H2 \<noteq> None else H2 = H1 \<and> ps2 = ps"
      using rehash_ok [OF l1 g, of "count H1 * 2"] by blast
    have "table_rep H2 ps2" using 3(7) tr1 by (auto split: if_splits)
    moreover have "ht H2 \<noteq> None \<longrightarrow>
        (if ok then unat (strHash k) mod htsize H2 else h) = unat (strHash k) mod htsize H2"
      using 3(7) h by (auto simp: H1_def)
    ultimately show thesis
      using that [of "if ok then unat (strHash k) mod htsize H2 else h" H2 ps2] 3(1-6) True by simp
  qed
  have "a \<in> dom (elems H2)" using view_dom [OF 2(5)] by (simp add: H1_def)
  then obtain en where en: "elems H2 a = Some en" by (auto simp: dom_def)
  have "keyof (elems H2) a = k" using 2(5) v1 by (simp add: keyof_eq_view)
  then have bk: "(if ht H2 \<noteq> None then Some h2 else None)
      = (if ht H2 \<noteq> None then Some (bucket_of (elems H2) (htsize H2) a) else None)"
    using 2(7) by (simp add: bucket_of_def)
  obtain H' ps' where 4: "insertElement H2 (if ht H2 \<noteq> None then Some h2 else None) a = Some H'"
    "links H' ps'" "table_rep H' ps'" "set ps' = insert a (set ps2)"
    "length ps' = Suc (length ps2)" "view (elems H') = view (elems H2)" "count H' = count H2"
    using insert_any_ok [OF 2(1,2) en] na 2(3) unfolding bk by auto
  have v: "view (elems H') = (view (elems H))(a \<mapsto> (k, d))" using 4(6) 2(5) v1 by simp
  have kf: "keyof (elems H') b = (if b = a then k else keyof (elems H) b)" for b
    by (simp add: keyof_eq_view v)
  have fresh: "fold_key (keyof (elems H) b) \<noteq> fold_key k" if "b \<in> set ps" for b
    using that absent dm by (force simp: keyof_def dom_def split: option.splits)
  have "hash_rep H' ps'"
  proof (rule hash_rep_transfer [OF 4(2,3)])
    show "dom (elems H') = set ps'"
      using dom_view [of "elems H'"] dom_view [of "elems H"] v dm 4(4) 2(3) by simp
    show "count H' = length ps'" using 4(5,7) 2(4,6) c by (simp add: H1_def)
    show "\<forall>b\<in>set ps'. cstring (keyof (elems H') b)"
      using 4(4) 2(3) k ko by (simp add: kf keys_ok_def)
    have "inj_on (\<lambda>b. fold_key (keyof (elems H) b)) (set ps)"
      using ko l by (simp add: keys_ok_set links_def)
    then have "inj_on (\<lambda>b. fold_key (keyof (elems H') b)) (set ps)"
      using na by (auto simp: kf inj_on_def)
    moreover have "fold_key (keyof (elems H') a) \<notin> (\<lambda>b. fold_key (keyof (elems H') b)) ` set ps"
    proof
      assume "fold_key (keyof (elems H') a) \<in> (\<lambda>b. fold_key (keyof (elems H') b)) ` set ps"
      then obtain b where b: "b \<in> set ps"
        "fold_key (keyof (elems H') a) = fold_key (keyof (elems H') b)" by blast
      then have "b \<noteq> a" using na by auto
      with b fresh [OF b(1)] kf [of a] kf [of b] show False by metis
    qed
    ultimately show "inj_on (\<lambda>b. fold_key (keyof (elems H') b)) (set ps')"
      using na unfolding 4(4) 2(3) by simp
  qed
  then show ?thesis
    unfolding mid using 4(1) v by auto
qed

section \<open>Behaviour of the operations\<close>

definition hash_inv :: "'v Hash \<Rightarrow> bool" where
  "hash_inv H \<longleftrightarrow> (\<exists>ps. hash_rep H ps)"

lemma hash_inv_init: "hash_inv sqlite3HashInit"
  unfolding hash_inv_def
  by (rule exI [of _ "[]"])
     (simp add: hash_rep_def sqlite3HashInit_def links_def keys_ok_def table_rep_def)

lemma HashFind_iff:
  assumes "hash_rep H ps" and "cstring k"
  shows "sqlite3HashFind H k = Some (Some d)
    \<longleftrightarrow> (\<exists>a key. view (elems H) a = Some (key, d) \<and> fold_key key = fold_key k)"
  using HashFind_rep [OF assms] lookup_iff [OF assms(1)] by simp

text \<open>A table whose contents differ at one address, as seen through the search.\<close>

lemma HashFind_update:
  assumes H: "hash_rep H ps" and H': "hash_rep H' ps'" and k': "cstring k'"
    and v: "view (elems H') = (view (elems H))(a := map_option (Pair k) d)"
    and a: "\<And>b key e. view (elems H) b = Some (key, e) \<Longrightarrow> fold_key key = fold_key k \<Longrightarrow> b = a"
      "\<And>key e. view (elems H) a = Some (key, e) \<Longrightarrow> fold_key key = fold_key k"
  shows "sqlite3HashFind H' k' = (if fold_key k' = fold_key k then Some d else sqlite3HashFind H k')"
proof -
  have iff: "lookup (elems H') ps' k' = Some x
      \<longleftrightarrow> (if fold_key k' = fold_key k then d = Some x else lookup (elems H) ps k' = Some x)" for x
  proof -
    have "lookup (elems H') ps' k' = Some x
        \<longleftrightarrow> (\<exists>b key. view (elems H') b = Some (key, x) \<and> fold_key key = fold_key k')"
      by (rule lookup_iff [OF H'])
    also have "\<dots> \<longleftrightarrow> (fold_key k = fold_key k' \<and> d = Some x)
        \<or> (\<exists>b key. b \<noteq> a \<and> view (elems H) b = Some (key, x) \<and> fold_key key = fold_key k')"
      unfolding v by (auto split: if_splits)
    also have "\<dots> \<longleftrightarrow> (if fold_key k' = fold_key k then d = Some x else lookup (elems H) ps k' = Some x)"
    proof (cases "fold_key k' = fold_key k")
      case True
      then show ?thesis using a(1) by metis
    next
      case False
      have "(\<exists>b key. b \<noteq> a \<and> view (elems H) b = Some (key, x) \<and> fold_key key = fold_key k')
          \<longleftrightarrow> (\<exists>b key. view (elems H) b = Some (key, x) \<and> fold_key key = fold_key k')"
        using False a(2) by metis
      with False show ?thesis unfolding lookup_iff [OF H] by simp
    qed
    finally show ?thesis .
  qed
  have "lookup (elems H') ps' k' = (if fold_key k' = fold_key k then d else lookup (elems H) ps k')"
  proof (cases "lookup (elems H') ps' k'")
    case None
    have "(if fold_key k' = fold_key k then d else lookup (elems H) ps k') \<noteq> Some x" for x
      using iff [of x] None by auto
    with None show ?thesis by (metis not_Some_eq)
  next
    case (Some x)
    with iff [of x] show ?thesis by (auto split: if_splits)
  qed
  then show ?thesis by (simp add: HashFind_rep [OF H k'] HashFind_rep [OF H' k'])
qed

lemma found_unique:
  assumes "hash_rep H ps" and "elems H a = Some e" and "fold_key (he_pKey e) = fold_key k"
    and "view (elems H) b = Some (key, d)" and "fold_key key = fold_key k"
  shows "b = a"
proof -
  have "a \<in> set ps" "b \<in> set ps"
    using assms(1,2,4) by (auto simp: hash_rep_def view_def)
  moreover have "fold_key (keyof (elems H) b) = fold_key (keyof (elems H) a)"
    using assms(2-5) by (auto simp: keyof_def view_def)
  ultimately show ?thesis
    using assms(1) by (auto simp: hash_rep_def keys_ok_def distinct_map inj_on_def)
qed

definition updated :: "'v Hash \<Rightarrow> u8 list \<Rightarrow> 'v option \<Rightarrow> 'v Hash \<Rightarrow> bool" where
  "updated H k d H' \<longleftrightarrow> hash_inv H' \<and> (\<forall>k'. cstring k' \<longrightarrow>
     sqlite3HashFind H' k' = (if fold_key k' = fold_key k then Some d else sqlite3HashFind H k'))"

lemma HashFind_fold:
  assumes "hash_rep H ps" and "cstring k" and "cstring k'" and "fold_key k' = fold_key k"
  shows "sqlite3HashFind H k' = sqlite3HashFind H k"
proof -
  have "matches (elems H) k' = matches (elems H) k" using assms(4) by (auto simp: matches_def)
  then show ?thesis by (simp add: HashFind_rep [OF assms(1)] assms(2,3) lookup_def)
qed

lemma updated_same:
  assumes "hash_rep H ps" and "cstring k" and "sqlite3HashFind H k = Some d"
  shows "updated H k d H"
proof -
  have "sqlite3HashFind H k' = (if fold_key k' = fold_key k then Some d else sqlite3HashFind H k')"
    if "cstring k'" for k'
    using HashFind_fold [OF assms(1,2) that] assms(3) by (cases "fold_key k' = fold_key k") simp_all
  then show ?thesis unfolding updated_def hash_inv_def using assms(1) by blast
qed

lemma HashInsert_delete:
  assumes r: "hash_rep H ps" and k: "cstring k"
  shows "\<exists>old H'. sqlite3HashFind H k = Some old
    \<and> sqlite3HashInsert H k None alloc grant = Some (old, H') \<and> updated H k None H'"
  using r k
proof (cases rule: findElement_cases)
  case (found a e h)
  have "a \<in> dom (elems H)" using found(2) by auto
  then have a: "a \<in> set ps" using r by (simp add: hash_rep_def)
  obtain H' ps' where 1: "removeElementGivenHash H a h = Some H'" "hash_rep H' ps'"
    "view (elems H') = (view (elems H))(a := None)"
    using removeElement_ok [OF r a found(4)] by blast
  have "view (elems H') = (view (elems H))(a := map_option (Pair k) None)" using 1(3) by simp
  then have "sqlite3HashFind H' k' = (if fold_key k' = fold_key k then Some None else sqlite3HashFind H k')"
    if "cstring k'" for k'
    using found_unique [OF r found(2,3)] found(2,3)
    by (intro HashFind_update [OF r 1(2) that]) (auto simp: view_def)
  then have "updated H k None H'" using 1(2) by (auto simp: updated_def hash_inv_def)
  moreover have "sqlite3HashInsert H k None alloc grant = Some (Some (he_data e), H')"
    using found 1(1) by (simp add: sqlite3HashInsert_def)
  ultimately show ?thesis using found(5) by blast
next
  case absent
  then have "sqlite3HashInsert H k None alloc grant = Some (None, H)"
    by (simp add: sqlite3HashInsert_def)
  then show ?thesis using updated_same [OF r k absent(3)] absent(3) by blast
qed

lemma HashInsert_set:
  assumes r: "hash_rep H ps" and k: "cstring k" and m: "malloc_ok H (Some a) grant"
  shows "\<exists>old H'. sqlite3HashFind H k = Some old
    \<and> sqlite3HashInsert H k (Some d) (Some a) grant = Some (old, H') \<and> updated H k (Some d) H'"
  using r k
proof (cases rule: findElement_cases)
  case (found b e h)
  let ?H = "H\<lparr>elems := (elems H)(b \<mapsto> e\<lparr>he_data := d, he_pKey := k\<rparr>)\<rparr>"
  have 1: "hash_rep ?H ps" using rep_same_elem [OF r found(2) found(3) [symmetric] k] .
  have "view (elems ?H) = (view (elems H))(b := map_option (Pair k) (Some d))" by simp
  then have "sqlite3HashFind ?H k' = (if fold_key k' = fold_key k then Some (Some d) else sqlite3HashFind H k')"
    if "cstring k'" for k'
    using found_unique [OF r found(2,3)] found(2,3)
    by (intro HashFind_update [OF r 1 that]) (auto simp: view_def)
  then have "updated H k (Some d) ?H" using 1 by (auto simp: updated_def hash_inv_def)
  moreover have "sqlite3HashInsert H k (Some d) (Some a) grant = Some (Some (he_data e), ?H)"
    using found by (simp add: sqlite3HashInsert_def)
  ultimately show ?thesis using found(5) by blast
next
  case absent
  have a: "elems H a = None" and g: "\<forall>k m. grant k = Some m \<longrightarrow> k \<le> m"
    using m by (auto simp: malloc_ok_def)
  have cnt: "count (H\<lparr>elems := m\<rparr>) = count H" for m by simp
  have "\<exists>H' ps'. sqlite3HashInsert H k (Some d) (Some a) grant = Some (None, H')
      \<and> hash_rep H' ps' \<and> view (elems H') = (view (elems H))(a \<mapsto> (k, d))"
    unfolding sqlite3HashInsert_def absent(1) bind.simps prod.case option.case Let_def cnt
    by (rule insert_new_ok [OF r a k absent(2) g refl])
  then obtain H' ps' where 1: "sqlite3HashInsert H k (Some d) (Some a) grant = Some (None, H')"
    "hash_rep H' ps'" "view (elems H') = (view (elems H))(a \<mapsto> (k, d))"
    by blast
  have "view (elems H') = (view (elems H))(a := map_option (Pair k) (Some d))" using 1(3) by simp
  then have "sqlite3HashFind H' k' = (if fold_key k' = fold_key k then Some (Some d) else sqlite3HashFind H k')"
    if "cstring k'" for k'
    using a absent(2) by (intro HashFind_update [OF r 1(2) that]) (auto simp: view_def)
  then have "updated H k (Some d) H'" using 1(2) by (auto simp: updated_def hash_inv_def)
  then show ?thesis using absent(3) 1(1) by blast
qed

lemma HashInsert_oom:
  assumes r: "hash_rep H ps" and k: "cstring k" and n: "sqlite3HashFind H k = Some None"
  shows "sqlite3HashInsert H k (Some d) None grant = Some (Some d, H)"
  using r k
  by (cases rule: findElement_cases) (use n in \<open>simp_all add: sqlite3HashInsert_def\<close>)

lemma HashClear_loop_ok:
  "dll (elems H) p xs None \<Longrightarrow> distinct xs \<Longrightarrow>
   HashClear_loop H (hdo None xs) = Some (H\<lparr>elems := (\<lambda>a. if a \<in> set xs then None else elems H a)\<rparr>)"
proof (induction xs arbitrary: H p)
  case (Cons x xs)
  then obtain e where e: "elems H x = Some e" "he_next e = hdo None xs" "dll (elems H) (Some x) xs None"
    by (auto split: option.splits)
  let ?H = "H\<lparr>elems := (elems H)(x := None)\<rparr>"
  have "dll (elems ?H) (Some x) xs None" using e(3) Cons.prems by simp
  then have "HashClear_loop ?H (hdo None xs)
      = Some (?H\<lparr>elems := (\<lambda>a. if a \<in> set xs then None else elems ?H a)\<rparr>)"
    using Cons.IH [of ?H "Some x"] Cons.prems(2) by (simp only: distinct.simps simp_thms)
  moreover have "(\<lambda>a. if a \<in> set xs then None else elems ?H a)
      = (\<lambda>a. if a \<in> set (x # xs) then None else elems H a)"
    by auto
  ultimately show ?case
    by (simp add: HashClear_loop.simps [of H] e cong: if_cong)
qed (simp add: HashClear_loop.simps)

lemma HashClear_ok:
  assumes "hash_rep H ps"
  shows "sqlite3HashClear H = Some sqlite3HashInit"
proof -
  have l: "dll (elems H) None ps None" "first H = hdo None ps" "distinct ps" "dom (elems H) = set ps"
    using assms by (simp_all add: hash_rep_def links_def)
  have m: "(\<lambda>a. if a \<in> set ps then None else elems H a) = Map.empty"
    unfolding l(4) [symmetric] by (auto simp: dom_def)
  show ?thesis
    using HashClear_loop_ok [of "H\<lparr>first := None, ht := None, htsize := 0\<rparr>" None ps] l(1-3) m
    by (simp add: sqlite3HashClear_def sqlite3HashInit_def cong: if_cong)
qed

lemma rehash_rep:
  assumes r: "hash_rep H ps" and g: "\<forall>k m. grant k = Some m \<longrightarrow> k \<le> m" and s: "0 < sz"
  shows "\<exists>ok H'. rehash H sz grant = Some (ok, H') \<and> (\<exists>ps'. hash_rep H' ps') \<and> ok = (grant sz \<noteq> None)
     \<and> (\<forall>k. cstring k \<longrightarrow> sqlite3HashFind H' k = sqlite3HashFind H k)
     \<and> (if ok then htsize H' = the (grant sz) else H' = H)"
proof -
  have l: "links H ps" "dom (elems H) = set ps" "count H = length ps" "keys_ok (elems H) ps" "table_rep H ps"
    using r by (simp_all add: hash_rep_def)
  obtain ok H' ps' where 1: "rehash H sz grant = Some (ok, H')" "links H' ps'" "set ps' = set ps"
    "length ps' = length ps" "view (elems H') = view (elems H)" "count H' = count H"
    "if ok then table_rep H' ps' \<and> ht H' \<noteq> None else H' = H \<and> ps' = ps"
    "ok = (grant sz \<noteq> None)" "ok \<longrightarrow> htsize H' = the (grant sz)"
    using rehash_ok [OF l(1) g s] by blast
  have "hash_rep H' ps'"
  proof (rule hash_rep_transfer [OF 1(2)])
    show "table_rep H' ps'" using 1(7) l(5) by (auto split: if_splits)
    show "dom (elems H') = set ps'" using view_dom [OF 1(5)] l(2) 1(3) by simp
    show "count H' = length ps'" using 1(4,6) l(3) by simp
    have k: "keyof (elems H') = keyof (elems H)" using 1(5) by (rule keyof_view)
    have "distinct ps" using l(1) by (simp add: links_def)
    then have ko: "\<forall>a \<in> set ps. cstring (keyof (elems H) a)"
      "inj_on (\<lambda>a. fold_key (keyof (elems H) a)) (set ps)"
      using l(4) by (simp_all add: keys_ok_set)
    show "\<forall>a\<in>set ps'. cstring (keyof (elems H') a)" unfolding k 1(3) by (rule ko(1))
    show "inj_on (\<lambda>a. fold_key (keyof (elems H') a)) (set ps')" unfolding k 1(3) by (rule ko(2))
  qed
  moreover have "sqlite3HashFind H' k = sqlite3HashFind H k" if "cstring k" for k
  proof -
    have "lookup (elems H') ps' k = Some d \<longleftrightarrow> lookup (elems H) ps k = Some d" for d
      unfolding lookup_iff [OF r] lookup_iff [OF \<open>hash_rep H' ps'\<close>] 1(5) ..
    then have "lookup (elems H') ps' k = lookup (elems H) ps k" by (metis not_None_eq)
    then show ?thesis by (simp add: HashFind_rep [OF r that] HashFind_rep [OF \<open>hash_rep H' ps'\<close> that])
  qed
  ultimately show ?thesis using 1(1,7,8,9) by (intro exI [of _ ok] exI [of _ H']) auto
qed

definition hash_find :: "'v Hash \<Rightarrow> u8 list \<Rightarrow> 'v option" where
  "hash_find H k = (case sqlite3HashFind H k of Some r \<Rightarrow> r | None \<Rightarrow> None)"

text \<open>\<open>hash_store H k d H'\<close>: some call of \<^verbatim>\<open>sqlite3HashInsert\<close> that gets its memory goes from \<open>H\<close> to \<open>H'\<close>.\<close>

definition hash_store :: "'v Hash \<Rightarrow> u8 list \<Rightarrow> 'v option \<Rightarrow> 'v Hash \<Rightarrow> bool" where
  "hash_store H k d H' \<longleftrightarrow> cstring k \<and> (\<exists>a grant old. malloc_ok H (Some a) grant
     \<and> sqlite3HashInsert H k d (Some a) grant = Some (old, H'))"

lemma hash_store_updated:
  assumes "hash_inv H" and "hash_store H k d H'"
  shows "updated H k d H'"
proof -
  obtain ps where r: "hash_rep H ps" using assms(1) by (auto simp: hash_inv_def)
  obtain a grant old where 1: "cstring k" "malloc_ok H (Some a) grant"
    "sqlite3HashInsert H k d (Some a) grant = Some (old, H')"
    using assms(2) by (auto simp: hash_store_def)
  show ?thesis
  proof (cases d)
    case None
    with HashInsert_delete [OF r 1(1), of "Some a" grant] 1(3) show ?thesis by auto
  next
    case (Some x)
    with HashInsert_set [OF r 1(1,2), of x] 1(3) show ?thesis by auto
  qed
qed

interpretation hash: assoc_map hash_inv cstring "map UpperToLower" hash_find hash_store
proof
  show "hash_inv m \<Longrightarrow> hash_store m k v m' \<Longrightarrow> hash_inv m'" for m m' :: "'v Hash" and k v
    using hash_store_updated by (auto simp: updated_def)
  show "hash_find m' k' = (if fold_key k' = fold_key k then v else hash_find m k')"
    if "hash_inv m" "hash_store m k v m'" "cstring k'" for m m' :: "'v Hash" and k k' v
    using hash_store_updated [OF that(1,2)] that(3) by (simp add: updated_def hash_find_def)
qed

lemma hash_store_possible:
  assumes "hash_inv H" and "cstring k"
  shows "\<exists>H'. hash_store H k d H'"
proof -
  obtain ps where r: "hash_rep H ps" using assms(1) by (auto simp: hash_inv_def)
  then have "finite (dom (elems H))" by (simp add: hash_rep_def)
  then obtain a where "a \<notin> dom (elems H)" using ex_new_if_finite [OF infinite_UNIV_nat] by blast
  then have m: "malloc_ok H (Some a) Some" by (simp add: malloc_ok_def dom_def)
  show ?thesis
  proof (cases d)
    case None
    then show ?thesis using HashInsert_delete [OF r assms(2), of "Some a" Some] m assms(2)
      unfolding hash_store_def by blast
  next
    case (Some x)
    then show ?thesis using HashInsert_set [OF r assms(2) m, of x] m assms(2)
      unfolding hash_store_def by blast
  qed
qed

section \<open>Properties\<close>

text \<open>
  C10: \<^verbatim>\<open>sqlite3HashInsert\<close> with data, on any well-formed table and any answers of the allocator that
  grant the element, ends without a wild access, returns what was stored under the key before (up
  to case), keeps the representation invariant, and afterwards every lookup gives the new data for
  that key and is unchanged for all others, whether or not the table was resized.
\<close>

theorem hash_insert_updates_map:
  assumes "hash_inv H" and "cstring k" and "malloc_ok H (Some a) grant"
  shows "\<exists>old H'. sqlite3HashFind H k = Some old
    \<and> sqlite3HashInsert H k (Some d) (Some a) grant = Some (old, H') \<and> hash_inv H'
    \<and> (\<forall>k'. cstring k' \<longrightarrow> sqlite3HashFind H' k'
          = (if map UpperToLower k' = map UpperToLower k then Some (Some d) else sqlite3HashFind H k'))"
proof -
  obtain ps where r: "hash_rep H ps" using assms(1) by (auto simp: hash_inv_def)
  show ?thesis using HashInsert_set [OF r assms(2,3), of d] unfolding updated_def .
qed

theorem hash_insert_updates_map_witness:
  "\<exists>H' :: nat Hash. sqlite3HashInsert sqlite3HashInit [0x54, 0x31] (Some 7) (Some 1) Some = Some (None, H')
     \<and> hash_inv H' \<and> sqlite3HashFind H' [0x74, 0x31] = Some (Some 7)"
proof -
  have "malloc_ok (sqlite3HashInit :: nat Hash) (Some 1) Some"
    by (simp add: malloc_ok_def sqlite3HashInit_def)
  moreover have "sqlite3HashFind (sqlite3HashInit :: nat Hash) [0x54, 0x31] = Some None"
    by (simp add: sqlite3HashFind_def findElementWithHash_def sqlite3HashInit_def)
  moreover have "map UpperToLower [0x74, 0x31] = map UpperToLower [0x54, 0x31]"
    by (simp add: UpperToLower_eq word_le_nat_alt)
  moreover have "cstring [0x54 :: u8, 0x31]" "cstring [0x74 :: u8, 0x31]" by simp_all
  ultimately show ?thesis
    using hash_insert_updates_map [OF hash_inv_init, of "[0x54, 0x31]" 1 Some "7 :: nat"]
    by (metis option.inject)
qed

text \<open>
  C11: \<^verbatim>\<open>sqlite3HashInsert\<close> with NULL data deletes: it never fails and needs no memory, returns the
  data that was stored, keeps the invariant (the element is unlinked in both directions, its
  bucket shrinks, the last deletion resets the table), and only that key is gone.
\<close>

theorem hash_delete_removes_key:
  assumes "hash_inv H" and "cstring k"
  shows "\<exists>old H'. sqlite3HashFind H k = Some old
    \<and> sqlite3HashInsert H k None alloc grant = Some (old, H') \<and> hash_inv H'
    \<and> (\<forall>k'. cstring k' \<longrightarrow> sqlite3HashFind H' k'
          = (if map UpperToLower k' = map UpperToLower k then Some None else sqlite3HashFind H k'))"
proof -
  obtain ps where r: "hash_rep H ps" using assms(1) by (auto simp: hash_inv_def)
  show ?thesis using HashInsert_delete [OF r assms(2), of alloc grant] unfolding updated_def .
qed

text \<open>A table with data under \<open>A\<close>, deleted as \<open>a\<close>.\<close>

theorem hash_delete_removes_key_witness:
  "\<exists>(H :: nat Hash) H'. sqlite3HashFind H [0x41] = Some (Some 1)
     \<and> sqlite3HashInsert H [0x61] None None (\<lambda>_. None) = Some (Some 1, H') \<and> sqlite3HashFind H' [0x41] = Some None"
proof -
  have c: "cstring [0x41 :: u8]" "cstring [0x61 :: u8]" by simp_all
  have f: "map UpperToLower [0x41] = map UpperToLower [0x61]" by (simp add: UpperToLower_eq word_le_nat_alt)
  obtain H :: "nat Hash" where "hash_store sqlite3HashInit [0x41] (Some 1) H"
    using hash_store_possible [OF hash_inv_init c(1)] by blast
  then have "updated sqlite3HashInit [0x41] (Some 1) H" by (rule hash_store_updated [OF hash_inv_init])
  then have u: "hash_inv H" "cstring k \<Longrightarrow> sqlite3HashFind H k
      = (if map UpperToLower k = map UpperToLower [0x41] then Some (Some 1) else sqlite3HashFind sqlite3HashInit k)" for k
    unfolding updated_def by blast+
  have H: "hash_inv H" "sqlite3HashFind H [0x41] = Some (Some 1)" "sqlite3HashFind H [0x61] = Some (Some 1)"
    using u(1) u(2) [OF c(1)] u(2) [OF c(2)] by (simp_all only: f if_True simp_thms)
  obtain old H' where "sqlite3HashFind H [0x61] = Some old" "sqlite3HashInsert H [0x61] None None (\<lambda>_. None) = Some (old, H')"
    "sqlite3HashFind H' [0x41] = (if map UpperToLower [0x41] = map UpperToLower [0x61] then Some None else sqlite3HashFind H [0x41])"
    using hash_delete_removes_key [OF H(1) c(2), of None "\<lambda>_. None"] c(1) by blast
  then show ?thesis using H(2,3) by (intro exI [of _ H] exI [of _ H']) (simp only: f simp_thms if_True option.inject)
qed

text \<open>
  When the element cannot be allocated, \<^verbatim>\<open>sqlite3HashInsert\<close> of a key that is not there returns
  the data it was given and leaves the table as it was.
\<close>

lemma hash_insert_out_of_memory:
  assumes "hash_inv H" and "cstring k" and "sqlite3HashFind H k = Some None"
  shows "sqlite3HashInsert H k (Some d) None grant = Some (Some d, H)"
proof -
  obtain ps where r: "hash_rep H ps" using assms(1) by (auto simp: hash_inv_def)
  show ?thesis by (rule HashInsert_oom [OF r assms(2,3)])
qed

text \<open>
  C12: after any sequence of insertions and deletions on an initialised table, a lookup gives what
  the last operation on that key, up to case, left there, and NULL when there was none.
\<close>

theorem hash_find_last_write:
  fixes H :: "'v Hash"
  assumes "stores hash_store sqlite3HashInit ops H" and "cstring k"
  shows "sqlite3HashFind H k
    = Some (fold (\<lambda>(k', v) r. if map UpperToLower k = map UpperToLower k' then v else r) ops None)"
proof -
  have "hash_inv H" using hash.stores_inv [OF assms(1) hash_inv_init] .
  then obtain ps where "hash_rep H ps" by (auto simp: hash_inv_def)
  then have "sqlite3HashFind H k = Some (hash_find H k)"
    using HashFind_rep [OF _ assms(2), of H ps] by (simp add: hash_find_def)
  moreover have "hash_find (sqlite3HashInit :: 'v Hash) k = None"
    by (simp add: hash_find_def sqlite3HashFind_def findElementWithHash_def sqlite3HashInit_def)
  ultimately show ?thesis
    using hash.stores_last_write [OF assms(1) hash_inv_init assms(2)] by simp
qed

theorem hash_find_last_write_witness:
  "\<exists>H :: nat Hash. stores hash_store sqlite3HashInit [([0x41], Some 1), ([0x42], Some 2), ([0x61], Some 3)] H
     \<and> sqlite3HashFind H [0x41] = Some (Some 3)"
proof -
  obtain H1 :: "nat Hash" where 1: "hash_store sqlite3HashInit [0x41] (Some 1) H1"
    using hash_store_possible [OF hash_inv_init, of "[0x41]"] by fastforce
  then have i1: "hash_inv H1" using hash_store_updated [OF hash_inv_init] by (auto simp: updated_def)
  then obtain H2 where 2: "hash_store H1 [0x42] (Some 2) H2"
    using hash_store_possible [of H1 "[0x42]"] by fastforce
  then have "hash_inv H2" using hash_store_updated [OF i1] by (auto simp: updated_def)
  then obtain H3 where 3: "hash_store H2 [0x61] (Some 3) H3"
    using hash_store_possible [of H2 "[0x61]"] by fastforce
  with 1 2 have s: "stores hash_store sqlite3HashInit [([0x41], Some 1), ([0x42], Some 2), ([0x61], Some 3)] H3"
    by auto
  show ?thesis
    using hash_find_last_write [OF s, of "[0x41]"] s by (auto simp: UpperToLower_eq word_le_nat_alt)
qed

text \<open>
  \<^verbatim>\<open>rehash\<close> always ends; it keeps the invariant and every lookup, and reports failure exactly
  when the allocator refuses the bucket array, leaving the table as it was.
\<close>

lemma rehash_keeps_contents:
  assumes "hash_inv H" and "0 < sz" and "\<forall>k m. grant k = Some m \<longrightarrow> k \<le> m"
  shows "\<exists>ok H'. rehash H sz grant = Some (ok, H') \<and> hash_inv H' \<and> ok = (grant sz \<noteq> None)
     \<and> (\<forall>k. cstring k \<longrightarrow> sqlite3HashFind H' k = sqlite3HashFind H k)
     \<and> (if ok then htsize H' = the (grant sz) else H' = H)"
proof -
  obtain ps where r: "hash_rep H ps" using assms(1) by (auto simp: hash_inv_def)
  show ?thesis using rehash_rep [OF r assms(3,2)] unfolding hash_inv_def by blast
qed

text \<open>
  \<^verbatim>\<open>sqlite3HashClear\<close> frees every element of a well-formed table exactly once and leaves the
  state of a new table.
\<close>

lemma hash_clear_frees_all:
  assumes "hash_inv H"
  shows "sqlite3HashClear H = Some sqlite3HashInit"
  using assms HashClear_ok unfolding hash_inv_def by blast

end
