(* ===== verification/Utf.thy ===== *)
theory Utf
  imports CType
begin

text \<open>
  The text encodings of \<^verbatim>\<open>src/utf.c\<close>: the macros that write and read one character in UTF-8 and in
  both byte orders of UTF-16, the translation of a string value between encodings, the byte-order
  mark, and the character counts, together with the routines of \<^verbatim>\<open>src/vdbemem.c\<close> that give a value a
  writable, terminated buffer.

  A character is the \<^verbatim>\<open>unsigned int\<close> of the code, a \<open>u32\<close>. A read macro takes the bytes from the
  pointer up to the end of the input (\<open>zTerm\<close>) and returns the bytes that are left; a read beyond them
  is \<open>None\<close>. A \<open>Mem\<close> has the fields of \<^verbatim>\<open>struct sqlite3_value\<close> that matter for text: \<open>mem_z\<close> is the
  whole allocation \<^verbatim>\<open>z\<close> points to, and \<open>mem_own\<close> says that it is the value's own (\<^verbatim>\<open>szMalloc>0\<close> and
  \<^verbatim>\<open>z==zMalloc\<close>). When it is not, \<open>mem_block\<close> is the allocation \<^verbatim>\<open>zMalloc\<close> that the value has besides, the
  empty list when \<^verbatim>\<open>szMalloc\<close> is 0. The allocator is an argument that answers a size with a block whose bytes are
  arbitrary, or with \<open>None\<close>. Every write is checked against the length of its block, so a theorem
  that a routine does not give \<open>None\<close> says that no buffer is overrun.
\<close>

section \<open>One character\<close>

definition sqlite3Utf8Trans1 :: "u8 list" where
  "sqlite3Utf8Trans1 = [
  0x00, 0x01, 0x02, 0x03, 0x04, 0x05, 0x06, 0x07,
  0x08, 0x09, 0x0a, 0x0b, 0x0c, 0x0d, 0x0e, 0x0f,
  0x10, 0x11, 0x12, 0x13, 0x14, 0x15, 0x16, 0x17,
  0x18, 0x19, 0x1a, 0x1b, 0x1c, 0x1d, 0x1e, 0x1f,
  0x00, 0x01, 0x02, 0x03, 0x04, 0x05, 0x06, 0x07,
  0x08, 0x09, 0x0a, 0x0b, 0x0c, 0x0d, 0x0e, 0x0f,
  0x00, 0x01, 0x02, 0x03, 0x04, 0x05, 0x06, 0x07,
  0x00, 0x01, 0x02, 0x03, 0x00, 0x01, 0x00, 0x00]"

definition WRITE_UTF8 :: "u32 \<Rightarrow> u8 list" where
  "WRITE_UTF8 c =
     (if c < 0x80 then [ucast (c AND 0xFF)]
      else if c < 0x800 then
        [0xC0 + ucast (drop_bit 6 c AND 0x1F),
         0x80 + ucast (c AND 0x3F)]
      else if c < 0x10000 then
        [0xE0 + ucast (drop_bit 12 c AND 0x0F),
         0x80 + ucast (drop_bit 6 c AND 0x3F),
         0x80 + ucast (c AND 0x3F)]
      else
        [0xF0 + ucast (drop_bit 18 c AND 0x07),
         0x80 + ucast (drop_bit 12 c AND 0x3F),
         0x80 + ucast (drop_bit 6 c AND 0x3F),
         0x80 + ucast (c AND 0x3F)])"

definition WRITE_UTF16LE :: "u32 \<Rightarrow> u8 list" where
  "WRITE_UTF16LE c =
     (if c \<le> 0xFFFF then [ucast (c AND 0xFF), ucast (drop_bit 8 c AND 0xFF)]
      else
        [ucast ((drop_bit 10 c AND 0x3F) + (drop_bit 10 (c - 0x10000) AND 0xC0)),
         ucast (0xD8 + (drop_bit 18 (c - 0x10000) AND 0x03)),
         ucast (c AND 0xFF),
         ucast (0xDC + (drop_bit 8 c AND 0x03))])"

definition WRITE_UTF16BE :: "u32 \<Rightarrow> u8 list" where
  "WRITE_UTF16BE c =
     (if c \<le> 0xFFFF then [ucast (drop_bit 8 c AND 0xFF), ucast (c AND 0xFF)]
      else
        [ucast (0xD8 + (drop_bit 18 (c - 0x10000) AND 0x03)),
         ucast ((drop_bit 10 c AND 0x3F) + (drop_bit 10 (c - 0x10000) AND 0xC0)),
         ucast (0xDC + (drop_bit 8 c AND 0x03)),
         ucast (c AND 0xFF)])"

definition surrogate_pair :: "u32 \<Rightarrow> u32 \<Rightarrow> u32" where
  "surrogate_pair c c2 = (c2 AND 0x03FF) + push_bit 10 (c AND 0x3F) + push_bit 10 ((c AND 0x03C0) + 0x40)"

text \<open>The argument \<open>TERM\<close> of the macros: \<^verbatim>\<open>zIn<zTerm\<close>, or the constant 1.\<close>

fun READ_UTF16LE :: "u8 list \<Rightarrow> (u8 list \<Rightarrow> bool) \<Rightarrow> (u32 \<times> u8 list) option" where
  "READ_UTF16LE (b0 # b1 # z) TERMC =
     (let c = ucast b0 + push_bit 8 (ucast b1) in
      if c \<ge> 0xD800 \<and> c < 0xE000 \<and> TERMC z then
        (case z of
           b2 # b3 # z \<Rightarrow> Some (surrogate_pair c (ucast b2 + push_bit 8 (ucast b3)), z)
         | _ \<Rightarrow> None)
      else Some (c, z))"
| "READ_UTF16LE _ TERMC = None"

fun READ_UTF16BE :: "u8 list \<Rightarrow> (u8 list \<Rightarrow> bool) \<Rightarrow> (u32 \<times> u8 list) option" where
  "READ_UTF16BE (b0 # b1 # z) TERMC =
     (let c = push_bit 8 (ucast b0) + ucast b1 in
      if c \<ge> 0xD800 \<and> c < 0xE000 \<and> TERMC z then
        (case z of
           b2 # b3 # z \<Rightarrow> Some (surrogate_pair c (push_bit 8 (ucast b2) + ucast b3), z)
         | _ \<Rightarrow> None)
      else Some (c, z))"
| "READ_UTF16BE _ TERMC = None"

fun utf8_tail :: "u32 \<Rightarrow> u8 list \<Rightarrow> u32 \<times> u8 list" where
  "utf8_tail c [] = (c, [])"
| "utf8_tail c (b # z) =
     (if b AND 0xc0 = 0x80 then utf8_tail (push_bit 6 c + (0x3f AND ucast b)) z else (c, b # z))"

definition utf8_check :: "u32 \<Rightarrow> u32" where
  "utf8_check c =
     (if c < 0x80 \<or> c AND 0xFFFFF800 = 0xD800 \<or> c AND 0xFFFFFFFE = 0xFFFE then 0xFFFD else c)"

fun READ_UTF8 :: "u8 list \<Rightarrow> (u32 \<times> u8 list) option" where
  "READ_UTF8 [] = None"
| "READ_UTF8 (b # z) =
     (if b \<ge> 0xc0 then
        let (c, z) = utf8_tail (ucast (sqlite3Utf8Trans1 ! unat (b - 0xc0))) z in Some (utf8_check c, z)
      else Some (ucast b, z))"

text \<open>
  The same on a NUL-terminated string, given by the bytes before the terminator: the character
  and the number of bytes the pointer moves. At the terminator the pointer moves past it.
\<close>

definition sqlite3Utf8Read :: "u8 list \<Rightarrow> u32 \<times> nat" where
  "sqlite3Utf8Read z =
     (if zc z 0 \<ge> 0xc0 then
        let (c, r) = utf8_tail (ucast (sqlite3Utf8Trans1 ! unat (zc z 0 - 0xc0))) (drop 1 z)
        in (utf8_check c, length z - length r)
      else (ucast (zc z 0), 1))"

section \<open>Translation of a buffer\<close>

lemma utf8_tail_length: "utf8_tail c z = (c', r) \<Longrightarrow> length r \<le> length z"
  by (induction c z rule: utf8_tail.induct) (auto split: if_splits)

lemma READ_UTF8_length: "READ_UTF8 z = Some (c, r) \<Longrightarrow> length r < length z"
  by (cases z) (auto split: if_splits prod.splits dest: utf8_tail_length)

lemma READ_UTF16LE_length: "READ_UTF16LE z T = Some (c, r) \<Longrightarrow> length r < length z"
  by (cases "(z, T)" rule: READ_UTF16LE.cases)
     (auto simp: Let_def split: if_splits list.splits)

lemma READ_UTF16BE_length: "READ_UTF16BE z T = Some (c, r) \<Longrightarrow> length r < length z"
  by (cases "(z, T)" rule: READ_UTF16BE.cases)
     (auto simp: Let_def split: if_splits list.splits)

text \<open>
  The loops \<^verbatim>\<open>while( zIn<zTerm )\<close>, for a writer of UTF-16 and for a reader of UTF-16. The output goes
  to the block \<open>out\<close> at position \<open>k\<close>, checked.
\<close>

function from_utf8 :: "(u32 \<Rightarrow> u8 list) \<Rightarrow> u8 list \<Rightarrow> u8 list \<Rightarrow> nat \<Rightarrow> (u8 list \<times> nat) option" where
  "from_utf8 WRITE zIn out k =
     (case READ_UTF8 zIn of
        None \<Rightarrow> Some (out, k)
      | Some (c, zIn) \<Rightarrow> do {
          out \<leftarrow> wrs out k (WRITE c);
          from_utf8 WRITE zIn out (k + length (WRITE c)) })"
  by pat_completeness auto
termination
  by (relation "measure (\<lambda>(w, z, out, k). length z)") (auto dest: READ_UTF8_length)

function to_utf8_LE :: "u8 list \<Rightarrow> u8 list \<Rightarrow> nat \<Rightarrow> (u8 list \<times> nat) option" where
  "to_utf8_LE zIn out k =
     (if zIn = [] then Some (out, k)
      else (case READ_UTF16LE zIn (\<lambda>z. z \<noteq> []) of
              None \<Rightarrow> None
            | Some (c, zIn) \<Rightarrow> do {
                out \<leftarrow> wrs out k (WRITE_UTF8 c);
                to_utf8_LE zIn out (k + length (WRITE_UTF8 c)) }))"
  by pat_completeness auto
termination
  by (relation "measure (\<lambda>(z, out, k). length z)") (auto dest: READ_UTF16LE_length)

function to_utf8_BE :: "u8 list \<Rightarrow> u8 list \<Rightarrow> nat \<Rightarrow> (u8 list \<times> nat) option" where
  "to_utf8_BE zIn out k =
     (if zIn = [] then Some (out, k)
      else (case READ_UTF16BE zIn (\<lambda>z. z \<noteq> []) of
              None \<Rightarrow> None
            | Some (c, zIn) \<Rightarrow> do {
                out \<leftarrow> wrs out k (WRITE_UTF8 c);
                to_utf8_BE zIn out (k + length (WRITE_UTF8 c)) }))"
  by pat_completeness auto
termination
  by (relation "measure (\<lambda>(z, out, k). length z)") (auto dest: READ_UTF16BE_length)

declare from_utf8.simps [simp del] to_utf8_LE.simps [simp del] to_utf8_BE.simps [simp del]

fun swap_bytes :: "u8 list \<Rightarrow> u8 list" where
  "swap_bytes (a # b # z) = b # a # swap_bytes z"
| "swap_bytes z = z"

section \<open>String values and their buffers\<close>


definition SQLITE_UTF8 :: u8 where "SQLITE_UTF8 = 1"
definition SQLITE_UTF16LE :: u8 where "SQLITE_UTF16LE = 2"
definition SQLITE_UTF16BE :: u8 where "SQLITE_UTF16BE = 3"

definition MEM_Null :: u16 where "MEM_Null = 0x0001"
definition MEM_Str :: u16 where "MEM_Str = 0x0002"
definition MEM_Blob :: u16 where "MEM_Blob = 0x0010"
definition MEM_AffMask :: u16 where "MEM_AffMask = 0x001f"
definition MEM_Term :: u16 where "MEM_Term = 0x0200"
definition MEM_Dyn :: u16 where "MEM_Dyn = 0x0400"
definition MEM_Static :: u16 where "MEM_Static = 0x0800"
definition MEM_Ephem :: u16 where "MEM_Ephem = 0x1000"
definition MEM_Zero :: u16 where "MEM_Zero = 0x4000"
definition MEM_Subtype :: u16 where "MEM_Subtype = 0x8000"

record Mem =
  mem_z :: "u8 list"
  mem_n :: nat
  mem_enc :: u8
  mem_flags :: u16
  mem_nZero :: nat
  mem_own :: bool
  mem_block :: "u8 list"

definition szMalloc :: "Mem \<Rightarrow> nat" where
  "szMalloc m = (if mem_own m then length (mem_z m) else length (mem_block m))"

text \<open>\<^verbatim>\<open>pMem->z = pMem->zMalloc\<close>\<close>

definition use_block :: "Mem \<Rightarrow> Mem" where
  "use_block m = (if mem_own m then m else m\<lparr>mem_z := mem_block m, mem_own := mem_block m \<noteq> [], mem_block := []\<rparr>)"

text \<open>Stores through \<^verbatim>\<open>pMem->z\<close>, checked.\<close>

definition mem_wrs :: "Mem \<Rightarrow> nat \<Rightarrow> u8 list \<Rightarrow> Mem option" where
  "mem_wrs m i bs = map_option (\<lambda>z. m\<lparr>mem_z := z\<rparr>) (wrs (mem_z m) i bs)"

definition sqlite3VdbeMemGrow ::
  "Mem \<Rightarrow> nat \<Rightarrow> bool \<Rightarrow> (nat \<Rightarrow> u8 list option) \<Rightarrow> (nat \<times> Mem) option"
where
  "sqlite3VdbeMemGrow m n bPreserve alloc =
     (let n = (if n < 32 then 32 else n) in
      case alloc n of
        None \<Rightarrow>
          Some (SQLITE_NOMEM, m\<lparr>mem_flags := MEM_Null, mem_z := [], mem_own := False, mem_block := []\<rparr>)
      | Some blk \<Rightarrow> do {
          blk \<leftarrow> (if bPreserve then
                   if mem_own m
                   then Some (take (length blk) (mem_z m) @ drop (length (mem_z m)) blk)
                   else if mem_n m \<le> length (mem_z m) then wrs blk 0 (take (mem_n m) (mem_z m))
                   else None
                 else Some blk);
          Some (SQLITE_OK,
                m\<lparr>mem_z := blk, mem_own := True, mem_block := [],
                  mem_flags := mem_flags m AND NOT (MEM_Dyn OR MEM_Ephem OR MEM_Static)\<rparr>) })"

definition vdbeMemAddTerminator :: "Mem \<Rightarrow> (nat \<Rightarrow> u8 list option) \<Rightarrow> (nat \<times> Mem) option" where
  "vdbeMemAddTerminator m alloc = do {
     (rc, m) \<leftarrow> sqlite3VdbeMemGrow m (mem_n m + 2) True alloc;
     if rc \<noteq> SQLITE_OK then Some (SQLITE_NOMEM, m)
     else do {
       m \<leftarrow> mem_wrs m (mem_n m) [0];
       m \<leftarrow> mem_wrs m (mem_n m + 1) [0];
       Some (SQLITE_OK, m\<lparr>mem_flags := mem_flags m OR MEM_Term\<rparr>) } }"

definition sqlite3VdbeMemExpandBlob :: "Mem \<Rightarrow> (nat \<Rightarrow> u8 list option) \<Rightarrow> (nat \<times> Mem) option" where
  "sqlite3VdbeMemExpandBlob m alloc = do {
     let nByte = mem_n m + mem_nZero m;
     let nByte = (if nByte = 0 then 1 else nByte);
     (rc, m) \<leftarrow> sqlite3VdbeMemGrow m nByte True alloc;
     if rc \<noteq> SQLITE_OK then Some (SQLITE_NOMEM, m)
     else do {
       m \<leftarrow> mem_wrs m (mem_n m) (replicate (mem_nZero m) 0);
       let m = m\<lparr>mem_n := mem_n m + mem_nZero m\<rparr>;
       Some (SQLITE_OK, m\<lparr>mem_flags := mem_flags m AND NOT (MEM_Zero OR MEM_Term)\<rparr>) } }"

definition sqlite3VdbeMemMakeWriteable :: "Mem \<Rightarrow> (nat \<Rightarrow> u8 list option) \<Rightarrow> (nat \<times> Mem) option" where
  "sqlite3VdbeMemMakeWriteable m alloc = do {
     (rc, m) \<leftarrow>
       (if mem_flags m AND (MEM_Str OR MEM_Blob) \<noteq> 0 then do {
          (rc, m) \<leftarrow> (if mem_flags m AND MEM_Zero \<noteq> 0 then sqlite3VdbeMemExpandBlob m alloc
                     else Some (SQLITE_OK, m));
          if rc \<noteq> SQLITE_OK then Some (SQLITE_NOMEM, m)
          else if \<not> mem_own m then vdbeMemAddTerminator m alloc
          else Some (SQLITE_OK, m) }
        else Some (SQLITE_OK, m));
     if rc \<noteq> SQLITE_OK then Some (rc, m)
     else Some (SQLITE_OK, m\<lparr>mem_flags := mem_flags m AND NOT MEM_Ephem\<rparr>) }"

definition sqlite3VdbeMemNulTerminate :: "Mem \<Rightarrow> (nat \<Rightarrow> u8 list option) \<Rightarrow> (nat \<times> Mem) option" where
  "sqlite3VdbeMemNulTerminate m alloc =
     (if mem_flags m AND (MEM_Term OR MEM_Str) \<noteq> MEM_Str then Some (SQLITE_OK, m)
      else vdbeMemAddTerminator m alloc)"

text \<open>
  The translation between encodings. \<open>n AND NOT 1\<close> of the C code is \<open>n - n mod 2\<close>. The result keeps
  the block with the terminators, and its flags are those of a terminated string.
\<close>

definition sqlite3VdbeMemTranslate ::
  "Mem \<Rightarrow> u8 \<Rightarrow> (nat \<Rightarrow> u8 list option) \<Rightarrow> (nat \<times> Mem) option"
where
  "sqlite3VdbeMemTranslate m desiredEnc alloc =
     (if mem_enc m \<noteq> SQLITE_UTF8 \<and> desiredEnc \<noteq> SQLITE_UTF8 then do {
        (rc, m) \<leftarrow> sqlite3VdbeMemMakeWriteable m alloc;
        if rc \<noteq> SQLITE_OK then Some (SQLITE_NOMEM, m)
        else do {
          let k = mem_n m - mem_n m mod 2;
          if length (mem_z m) < k then None
          else do {
            m \<leftarrow> mem_wrs m 0 (swap_bytes (take k (mem_z m)));
            Some (SQLITE_OK, m\<lparr>mem_enc := desiredEnc\<rparr>) } } }
      else do {
        let m = (if desiredEnc = SQLITE_UTF8 then m\<lparr>mem_n := mem_n m - mem_n m mod 2\<rparr> else m);
        let len = (if desiredEnc = SQLITE_UTF8 then mem_n m * 2 + 1 else mem_n m * 2 + 2);
        if length (mem_z m) < mem_n m then None
        else do {
          let zIn = take (mem_n m) (mem_z m);
          (case alloc len of
             None \<Rightarrow> Some (SQLITE_NOMEM, m)
           | Some zOut \<Rightarrow> do {
               (out, k, z) \<leftarrow>
                 (if mem_enc m = SQLITE_UTF8 then do {
                    (out, k) \<leftarrow> (if desiredEnc = SQLITE_UTF16LE then from_utf8 WRITE_UTF16LE zIn zOut 0
                               else from_utf8 WRITE_UTF16BE zIn zOut 0);
                    out \<leftarrow> wr out k 0;
                    Some (out, k, k + 1) }
                  else do {
                    (out, k) \<leftarrow> (if mem_enc m = SQLITE_UTF16LE then to_utf8_LE zIn zOut 0
                               else to_utf8_BE zIn zOut 0);
                    Some (out, k, k) });
               out \<leftarrow> wr out z 0;
               Some (SQLITE_OK,
                     m\<lparr>mem_n := k, mem_z := out, mem_enc := desiredEnc, mem_own := True, mem_block := [],
                       mem_flags := MEM_Str OR MEM_Term OR (mem_flags m AND (MEM_AffMask OR MEM_Subtype))\<rparr>) }) } })"

definition sqlite3VdbeMemHandleBom :: "Mem \<Rightarrow> (nat \<Rightarrow> u8 list option) \<Rightarrow> (nat \<times> Mem) option" where
  "sqlite3VdbeMemHandleBom m alloc = do {
     bom \<leftarrow> (if mem_n m > 1 then do {
               b1 \<leftarrow> rd (mem_z m) 0;
               b2 \<leftarrow> rd (mem_z m) 1;
               Some (if b1 = 0xFF \<and> b2 = 0xFE then SQLITE_UTF16LE
                     else if b1 = 0xFE \<and> b2 = 0xFF then SQLITE_UTF16BE else 0) }
             else Some 0);
     if bom \<noteq> 0 then do {
       (rc, m) \<leftarrow> sqlite3VdbeMemMakeWriteable m alloc;
       if rc \<noteq> SQLITE_OK then Some (rc, m)
       else do {
         let m = m\<lparr>mem_n := mem_n m - 2\<rparr>;
         if length (mem_z m) < mem_n m + 2 then None
         else do {
           m \<leftarrow> mem_wrs m 0 (take (mem_n m) (drop 2 (mem_z m)));
           m \<leftarrow> mem_wrs m (mem_n m) [0];
           m \<leftarrow> mem_wrs m (mem_n m + 1) [0];
           Some (SQLITE_OK, m\<lparr>mem_flags := mem_flags m OR MEM_Term, mem_enc := bom\<rparr>) } } }
     else Some (SQLITE_OK, m) }"

section \<open>Counting\<close>

text \<open>
  \<^verbatim>\<open>SQLITE_SKIP_UTF8\<close> on a NUL-terminated string, and the number of characters: \<open>nByte\<close> is \<open>None\<close> for
  a negative count. The loop stops once it has passed the end, which a multi-byte character may
  cross.
\<close>

fun SQLITE_SKIP_UTF8 :: "u8 list \<Rightarrow> u8 list" where
  "SQLITE_SKIP_UTF8 [] = []"
| "SQLITE_SKIP_UTF8 (b # z) = (if b \<ge> 0xc0 then dropWhile (\<lambda>b. b AND 0xc0 = 0x80) z else z)"

lemma SKIP_UTF8_length: "length (SQLITE_SKIP_UTF8 (b # z)) \<le> length z"
  by (simp add: length_dropWhile_le)

function sqlite3Utf8CharLen :: "u8 list \<Rightarrow> nat option \<Rightarrow> nat" where
  "sqlite3Utf8CharLen [] nByte = 0"
| "sqlite3Utf8CharLen (b # z) nByte =
     (if nByte = Some 0 then 0
      else (let r = SQLITE_SKIP_UTF8 (b # z); used = length (b # z) - length r in
            1 + sqlite3Utf8CharLen r (map_option (\<lambda>n. n - used) nByte)))"
  by pat_completeness auto
termination
  by (relation "measure (\<lambda>(z, n). length z)")
     (simp_all add: less_Suc_eq_le SKIP_UTF8_length del: SQLITE_SKIP_UTF8.simps)

text \<open>The bytes of the first \<open>nChar\<close> characters of a UTF-16 string, in the native (little-endian) order.\<close>

fun sqlite3Utf16ByteLen :: "u8 list \<Rightarrow> nat \<Rightarrow> nat option" where
  "sqlite3Utf16ByteLen z 0 = Some 0"
| "sqlite3Utf16ByteLen z (Suc nChar) = do {
     (c, r) \<leftarrow> READ_UTF16LE z (\<lambda>_. True);
     k \<leftarrow> sqlite3Utf16ByteLen r nChar;
     Some (length z - length r + k) }"

end
