(* ===== verification/UtfText.thy ===== *)
theory UtfText
  imports Utf Interfaces
begin

text \<open>
  The correctness of the text encodings of \<open>Utf\<close>. The first sections show, on the words, that each
  reader undoes its writer; the contract \<open>char_codec\<close> of \<open>Interfaces\<close> is interpreted on the three
  encodings. Then the translation loops are shown to stay inside their buffers on every input,
  well-formed or not, and the translation of a value is reduced to \<open>translated\<close>, what it does to the
  bytes of the text. \<open>text_char\<close> are the codes every encoding represents: not above 0x10FFFF, no
  surrogate, and not 0xFFFE or 0xFFFF, which the UTF-8 reader replaces.
\<close>

section \<open>UTF-8: what is written is read back\<close>

lemma unat_and_mask: "unat (x AND mask n :: 'a :: len word) < 2 ^ n"
  by (metis drop_bit_eq_0_iff drop_bit_take_bit diff_self_eq_0 take_bit_0 take_bit_eq_mask)

definition ascii_at :: "u32 \<Rightarrow> bool" where
  "ascii_at c \<longleftrightarrow> \<not> 0xc0 \<le> (ucast c :: u8) \<and> ucast (ucast c :: u8) = c \<and> c AND 0xFF = c
     \<and> (ucast c :: u8) AND 0xc0 \<noteq> 0x80"

lemma ascii_table: "list_all (\<lambda>i. ascii_at (word_of_nat i)) [0..<128]"
  by code_simp

definition lead_at :: "u8 \<Rightarrow> u32 \<Rightarrow> bool" where
  "lead_at base k \<longleftrightarrow> base + ucast k \<ge> 0xc0
     \<and> ucast (sqlite3Utf8Trans1 ! unat (base + ucast k - 0xc0)) = k
     \<and> (base + ucast k) AND 0xc0 \<noteq> 0x80"

lemma lead_tables:
  "list_all (\<lambda>i. lead_at 0xC0 (word_of_nat i)) [0..<32]"
  "list_all (\<lambda>i. lead_at 0xE0 (word_of_nat i)) [0..<16]"
  "list_all (\<lambda>i. lead_at 0xF0 (word_of_nat i)) [0..<8]"
  by code_simp+

definition cont :: "u32 \<Rightarrow> u8" where
  "cont x = 0x80 + ucast (x AND 0x3F)"

definition cont_at :: "u32 \<Rightarrow> bool" where
  "cont_at k \<longleftrightarrow> (0x80 + ucast k :: u8) AND 0xc0 = 0x80 \<and> 0x3f AND ucast (0x80 + ucast k :: u8) = k"

lemma cont_table: "list_all (\<lambda>i. cont_at (word_of_nat i)) [0..<64]"
  by code_simp

lemma cont_byte: "cont x AND 0xc0 = 0x80" "0x3f AND ucast (cont x) = x AND 0x3F"
proof -
  have "unat (x AND 0x3F) < 64" using unat_and_mask [of x 6] by (simp add: mask_eq_exp_minus_1)
  then have "cont_at (x AND 0x3F)" by (rule word_table [OF cont_table])
  then show "cont x AND 0xc0 = 0x80" "0x3f AND ucast (cont x) = x AND 0x3F"
    by (simp_all add: cont_def cont_at_def)
qed

lemma word_split_sum: "push_bit n (drop_bit n (v :: 'a :: len word)) + (v AND mask n) = v"
proof -
  have "push_bit n (drop_bit n v) AND (v AND mask n) = 0"
    by (rule bit_word_eqI) (auto simp: bit_simps)
  then show ?thesis by (simp add: disjunctive_add_eq_or word_split_low)
qed

lemma high_zero: "unat (c :: u32) < 2 ^ (n + m) \<Longrightarrow> drop_bit n c AND mask m = drop_bit n c"
  by (metis drop_bit_eq_0_iff drop_bit_drop_bit add.commute take_bit_eq_mask take_bit_eq_self_iff_drop_bit_eq_0)

lemma utf8_value:
  "push_bit 6 (drop_bit 6 c) + (c AND 0x3F) = (c :: u32)"
  "push_bit 6 (drop_bit 12 c) + (drop_bit 6 c AND 0x3F) = (drop_bit 6 c :: u32)"
  "push_bit 6 (drop_bit 18 c) + (drop_bit 12 c AND 0x3F) = (drop_bit 12 c :: u32)"
  using word_split_sum [of 6 c] word_split_sum [of 6 "drop_bit 6 c"] word_split_sum [of 6 "drop_bit 12 c"]
  by (simp_all add: mask_eq_exp_minus_1)

definition starts_char :: "u8 list \<Rightarrow> bool" where
  "starts_char z \<longleftrightarrow> (case z of [] \<Rightarrow> True | b # _ \<Rightarrow> b AND 0xc0 \<noteq> 0x80)"

lemma utf8_tail_stop: "starts_char z \<Longrightarrow> utf8_tail c z = (c, z)"
  by (cases z) (simp_all add: starts_char_def)

lemma utf8_tail_cont: "utf8_tail c (cont x # z) = utf8_tail (push_bit 6 c + (x AND 0x3F)) z"
  by (simp add: cont_byte)

text \<open>What the reader makes of a code: surrogates and the two noncharacters are replaced.\<close>

definition utf8_norm :: "u32 \<Rightarrow> u32" where
  "utf8_norm c = (if c < 0x80 then c else utf8_check c)"

lemma READ_WRITE_UTF8:
  assumes "c < 0x110000" and z: "starts_char z"
  shows "READ_UTF8 (WRITE_UTF8 c @ z) = Some (utf8_norm c, z) \<and> starts_char (WRITE_UTF8 c @ y)"
proof -
  have u: "c < n \<longleftrightarrow> unat c < unat n" for n by (rule word_less_nat_alt)
  consider "c < 0x80" | "0x80 \<le> c" "c < 0x800" | "0x800 \<le> c" "c < 0x10000" | "0x10000 \<le> c"
    by force
  then show ?thesis
  proof cases
    case 1
    then have "unat c < 128" by (simp add: u)
    then have "ascii_at c" by (rule word_table [OF ascii_table])
    then show ?thesis using 1 by (simp add: WRITE_UTF8_def utf8_norm_def ascii_at_def starts_char_def)
  next
    case 2
    let ?k = "drop_bit 6 c"
    have "unat c < 2 ^ (6 + 5)" using 2 by (simp add: u)
    then have k: "?k AND 0x1F = ?k" using high_zero [of c 6 5] by (simp add: mask_eq_exp_minus_1)
    then have "unat ?k < 32" using unat_and_mask [of ?k 5] by (simp add: mask_eq_exp_minus_1)
    then have "lead_at 0xC0 ?k" by (rule word_table [OF lead_tables(1)])
    moreover have n: "\<not> c < 0x80" using 2 by simp
    ultimately show ?thesis
      using 2 k z by (simp add: n WRITE_UTF8_def cont_def [symmetric] lead_at_def cont_byte
        utf8_value utf8_tail_stop utf8_norm_def not_less starts_char_def [of "_ # _"])
  next
    case 3
    let ?k = "drop_bit 12 c"
    have "unat c < 2 ^ (12 + 4)" using 3 by (simp add: u)
    then have k: "?k AND 0x0F = ?k" using high_zero [of c 12 4] by (simp add: mask_eq_exp_minus_1)
    then have "unat ?k < 16" using unat_and_mask [of ?k 4] by (simp add: mask_eq_exp_minus_1)
    then have "lead_at 0xE0 ?k" by (rule word_table [OF lead_tables(2)])
    moreover have n: "\<not> c < 0x80" "\<not> c < 0x800" using 3 by (auto simp: word_less_nat_alt word_le_nat_alt)
    ultimately show ?thesis
      using 3 k z by (simp add: n WRITE_UTF8_def cont_def [symmetric] lead_at_def cont_byte
        utf8_value utf8_tail_stop utf8_norm_def not_less starts_char_def [of "_ # _"])
  next
    case 4
    let ?k = "drop_bit 18 c"
    have "unat c < 2 ^ (18 + 3)" using assms(1) by (simp add: u)
    then have k: "?k AND 0x07 = ?k" using high_zero [of c 18 3] by (simp add: mask_eq_exp_minus_1)
    then have "unat ?k < 8" using unat_and_mask [of ?k 3] by (simp add: mask_eq_exp_minus_1)
    then have "lead_at 0xF0 ?k" by (rule word_table [OF lead_tables(3)])
    moreover have n: "\<not> c < 0x80" "\<not> c < 0x800" "\<not> c < 0x10000" using 4 by (auto simp: word_less_nat_alt word_le_nat_alt)
    ultimately show ?thesis
      using 4 k z by (simp add: n WRITE_UTF8_def cont_def [symmetric] lead_at_def cont_byte
        utf8_value utf8_tail_stop utf8_norm_def not_less starts_char_def [of "_ # _"])
  qed
qed


section \<open>UTF-16\<close>

definition valid_char :: "u32 \<Rightarrow> bool" where
  "valid_char c \<longleftrightarrow> c < 0x110000 \<and> \<not> (0xD800 \<le> c \<and> c < 0xE000)"

lemma ucast_byte: "ucast (ucast (x AND 0xFF :: u32) :: u8) = (x AND 0xFF)"
proof -
  have "bit (ucast (ucast (x AND mask 8) :: u8) :: u32) n = bit (x AND mask 8) n" for n
    by (auto simp: bit_simps)
  then show ?thesis by (simp add: bit_eq_iff mask_8_word)
qed

lemma utf16_unit:
  assumes "unat c < 65536"
  shows "ucast (ucast (c AND 0xFF) :: u8) + push_bit 8 (ucast (ucast (drop_bit 8 c AND 0xFF) :: u8)) = (c :: u32)"
proof -
  have "drop_bit 8 c AND 0xFF = drop_bit 8 c"
    using assms high_zero [of c 8 8] by (simp add: mask_8_word)
  then show ?thesis
    using word_split_sum [of 8 c] ucast_byte [of c] ucast_byte [of "drop_bit 8 c"]
    by (simp add: mask_8_word add.commute)
qed

lemma and_split_sum: "a AND b = 0 \<Longrightarrow> (x AND a) + (x AND b) = x AND (a OR b :: 'a :: len word)"
proof -
  assume "a AND b = 0"
  then have "(x AND a) AND (x AND b) = 0"
    by (metis and.left_commute and_zero_eq and.commute)
  then show ?thesis by (simp add: disjunctive_add_eq_or bit.conj_disj_distrib)
qed

definition lead_unit :: "u32 \<Rightarrow> u32" where
  "lead_unit e = ucast (ucast ((e AND 0x3F) + (e AND 0xC0)) :: u8)
     + push_bit 8 (ucast (ucast (0xD8 + (drop_bit 8 e AND 0x03)) :: u8))"

definition trail_unit :: "u32 \<Rightarrow> u32" where
  "trail_unit g = ucast (ucast (g AND 0xFF) :: u8) + push_bit 8 (ucast (ucast (0xDC + (drop_bit 8 g AND 0x03)) :: u8))"

lemma unit_tables:
  "list_all (\<lambda>i. ucast (ucast (0xD8 + word_of_nat i :: u32) :: u8) = (0xD8 + word_of_nat i :: u32)) [0..<4]"
  "list_all (\<lambda>i. ucast (ucast (0xDC + word_of_nat i :: u32) :: u8) = (0xDC + word_of_nat i :: u32)) [0..<4]"
  by code_simp+

lemma unit_high:
  assumes "unat (e :: u32) < 1024"
  shows "push_bit 8 (ucast (ucast (0xD8 + (drop_bit 8 e AND 0x03)) :: u8)) = 0xD800 + push_bit 8 (drop_bit 8 e)"
    "push_bit 8 (ucast (ucast (0xDC + (drop_bit 8 e AND 0x03)) :: u8)) = 0xDC00 + push_bit 8 (drop_bit 8 e)"
proof -
  have k: "drop_bit 8 e AND 0x03 = drop_bit 8 e"
    using assms high_zero [of e 8 2] by (simp add: mask_eq_exp_minus_1)
  then have "unat (drop_bit 8 e) < 4"
    using unat_and_mask [of "drop_bit 8 e" 2] by (simp add: mask_eq_exp_minus_1)
  then have "ucast (ucast (0xD8 + drop_bit 8 e) :: u8) = 0xD8 + drop_bit 8 e"
    "ucast (ucast (0xDC + drop_bit 8 e) :: u8) = 0xDC + drop_bit 8 e"
    by (rule word_table [OF unit_tables(1)], rule word_table [OF unit_tables(2)])
  with k show "push_bit 8 (ucast (ucast (0xD8 + (drop_bit 8 e AND 0x03)) :: u8)) = 0xD800 + push_bit 8 (drop_bit 8 e)"
    "push_bit 8 (ucast (ucast (0xDC + (drop_bit 8 e AND 0x03)) :: u8)) = 0xDC00 + push_bit 8 (drop_bit 8 e)"
    by (simp_all add: push_bit_add)
qed

lemmas ucast_byte_mask = ucast_byte [unfolded mask_8_word]

lemma lead_unit_eq: "unat e < 1024 \<Longrightarrow> lead_unit e = 0xD800 + e"
  using and_split_sum [of "0x3F" "0xC0" e] word_split_sum [of 8 e]
  by (simp add: lead_unit_def unit_high ucast_byte_mask mask_8_word add.commute add.left_commute)

lemma trail_unit_eq: "unat g < 1024 \<Longrightarrow> trail_unit g = 0xDC00 + g"
  using word_split_sum [of 8 g]
  by (simp add: trail_unit_def unit_high ucast_byte_mask mask_8_word add.commute add.left_commute)

lemma and_mask_add: "(push_bit n a + e) AND mask n = (e AND mask n :: 'a :: len word)"
proof -
  let ?h = "push_bit n (a + drop_bit n e)" and ?l = "e AND mask n"
  have "push_bit n a + e = ?h + ?l"
    using word_split_sum [of n e] by (metis add.assoc push_bit_add)
  also have "?h AND ?l = 0" by (rule bit_word_eqI) (auto simp: bit_simps)
  then have "?h + ?l = ?h OR ?l" by (rule disjunctive_add_eq_or)
  finally show ?thesis by (simp add: bit_eq_iff) (auto simp: bit_simps)
qed

lemma pair_value:
  assumes e: "unat e < 1024" and g: "unat g < 1024"
  shows "surrogate_pair (0xD800 + e) (0xDC00 + g) = g + push_bit 10 e + 0x10000"
    "0xD800 \<le> 0xD800 + e" "0xD800 + e < 0xE000"
proof -
  have m: "x AND mask 10 = x" if "unat x < 1024" for x :: u32
    using that high_zero [of x 0 10] by simp
  have "(0xDC00 + g) AND 0x03FF = g"
    using and_mask_add [of 10 "0x37" g] m [OF g] by (simp add: mask_eq_exp_minus_1)
  moreover have "(0xD800 + e) AND 0x3F = e AND 0x3F"
    using and_mask_add [of 6 "0x360" e] by (simp add: mask_eq_exp_minus_1)
  moreover have "(0xD800 + e) AND 0x03C0 = e AND 0x03C0"
  proof -
    have "(0xD800 + e) AND 0x03C0 = ((0xD800 + e) AND mask 10) AND 0x03C0"
      by (simp add: and.assoc mask_eq_exp_minus_1)
    also have "(0xD800 + e) AND mask 10 = e"
      using and_mask_add [of 10 "0x36" e] m [OF e] by simp
    finally show ?thesis .
  qed
  moreover have "(e AND 0x3F) + (e AND 0x03C0) = e"
    using and_split_sum [of "0x3F" "0x03C0" e] m [OF e] by (simp add: mask_eq_exp_minus_1)
  then have "push_bit 10 (e AND 0x3F) + push_bit 10 (e AND 0x03C0) = push_bit 10 e"
    by (simp only: push_bit_add [symmetric])
  ultimately show "surrogate_pair (0xD800 + e) (0xDC00 + g) = g + push_bit 10 e + 0x10000"
    by (simp only: surrogate_pair_def push_bit_add add.assoc) simp
  have "unat (0xD800 + e) = 0xD800 + unat e"
    using e by (simp add: unat_word_ariths)
  then show "0xD800 \<le> 0xD800 + e" "0xD800 + e < 0xE000"
    using e by (simp_all add: word_le_nat_alt word_less_nat_alt)
qed

lemma field: "drop_bit n x AND mask m = drop_bit n (x AND mask (n + m) :: 'a :: len word)"
  by (simp flip: take_bit_eq_mask add: drop_bit_take_bit)

lemma high_char:
  fixes c :: u32
  assumes "0x10000 \<le> c" and "c < 0x110000"
  defines "e \<equiv> drop_bit 10 (c - 0x10000)" and "g \<equiv> c AND 0x03FF"
  shows "unat e < 1024" "unat g < 1024" "g + push_bit 10 e + 0x10000 = c"
    "drop_bit 10 c AND 0x3F = e AND 0x3F" "drop_bit 18 (c - 0x10000) = drop_bit 8 e"
    "c AND 0xFF = g AND 0xFF" "drop_bit 8 c AND 0x03 = drop_bit 8 g AND 0x03"
proof -
  let ?d = "c - 0x10000"
  have "unat ?d = unat c - 0x10000" using assms(1) by (simp add: unat_sub)
  then have d: "unat ?d < 2 ^ (10 + 10)" using assms(2) by (simp add: word_less_nat_alt)
  then have "e AND mask 10 = e" unfolding e_def by (rule high_zero)
  then show "unat e < 1024" using unat_and_mask [of e 10] by simp
  show "unat g < 1024" using unat_and_mask [of c 10] by (simp add: g_def mask_eq_exp_minus_1)
  have lo: "c AND mask n = ?d AND mask n" if "n \<le> 16" for n
  proof -
    have "push_bit n (push_bit (16 - n) 1) = push_bit (n + (16 - n)) (1 :: u32)"
      by (simp only: push_bit_push_bit)
    also have "\<dots> = push_bit 16 1" using that by simp
    finally have "c = push_bit n (push_bit (16 - n) 1) + ?d" by simp
    then show ?thesis using and_mask_add [of n "push_bit (16 - n) 1" ?d] by metis
  qed
  show "g + push_bit 10 e + 0x10000 = c"
    using word_split_sum [of 10 ?d] lo [of 10] by (simp add: e_def g_def mask_eq_exp_minus_1 algebra_simps)
  show "drop_bit 10 c AND 0x3F = e AND 0x3F"
  proof -
    have "drop_bit 10 c AND mask 6 = drop_bit 10 ?d AND mask 6"
      using lo [of "10 + 6"] by (simp only: field)
    then show ?thesis by (simp add: e_def mask_eq_exp_minus_1)
  qed
  show "drop_bit 18 ?d = drop_bit 8 e" by (simp add: e_def)
  show "c AND 0xFF = g AND 0xFF" by (simp add: g_def and.assoc)
  show "drop_bit 8 c AND 0x03 = drop_bit 8 g AND 0x03"
    using field [of 8 c 2] field [of 8 g 2] by (simp add: g_def mask_eq_exp_minus_1 and.assoc)
qed


lemma WRITE_UTF16_high:
  assumes "0x10000 \<le> c" and "c < 0x110000"
  obtains e g where "unat e < 1024" "unat g < 1024" "c = g + push_bit 10 e + 0x10000"
    "\<exists>b0 b1 b2 b3. WRITE_UTF16LE c = [b0, b1, b2, b3] \<and> WRITE_UTF16BE c = [b1, b0, b3, b2]
      \<and> ucast b0 + push_bit 8 (ucast b1) = 0xD800 + e \<and> ucast b2 + push_bit 8 (ucast b3) = 0xDC00 + g"
proof -
  let ?e = "drop_bit 10 (c - 0x10000)" and ?g = "c AND 0x03FF"
  note h = high_char [OF assms]
  have n: "(c \<le> 0xFFFF) = False" using assms(1) by (simp add: word_le_nat_alt)
  let ?b0 = "ucast ((?e AND 0x3F) + (?e AND 0xC0)) :: u8" and ?b1 = "ucast (0xD8 + (drop_bit 8 ?e AND 0x03)) :: u8"
  let ?b2 = "ucast (?g AND 0xFF) :: u8" and ?b3 = "ucast (0xDC + (drop_bit 8 ?g AND 0x03)) :: u8"
  have "WRITE_UTF16LE c = [?b0, ?b1, ?b2, ?b3]" "WRITE_UTF16BE c = [?b1, ?b0, ?b3, ?b2]"
    by (simp_all only: WRITE_UTF16LE_def WRITE_UTF16BE_def n if_False h(4-7))
  moreover have "ucast ?b0 + push_bit 8 (ucast ?b1) = 0xD800 + ?e"
    using lead_unit_eq [OF h(1)] unfolding lead_unit_def .
  moreover have "ucast ?b2 + push_bit 8 (ucast ?b3) = 0xDC00 + ?g"
    using trail_unit_eq [OF h(2)] unfolding trail_unit_def .
  ultimately show thesis by (intro that [OF h(1,2) h(3) [symmetric]] exI conjI)
qed

lemma READ_WRITE_UTF16:
  assumes v: "valid_char c" and m: "0x10000 \<le> c \<Longrightarrow> \<forall>z. z \<noteq> [] \<longrightarrow> TERMC z"
  shows "READ_UTF16LE (WRITE_UTF16LE c @ z) TERMC = Some (c, z)"
    "READ_UTF16BE (WRITE_UTF16BE c @ z) TERMC = Some (c, z)"
proof -
  have "READ_UTF16LE (WRITE_UTF16LE c @ z) TERMC = Some (c, z) \<and> READ_UTF16BE (WRITE_UTF16BE c @ z) TERMC = Some (c, z)"
  proof (cases "c \<le> 0xFFFF")
    case True
    then have "unat c < 65536" by (simp add: word_le_nat_alt)
    from utf16_unit [OF this] True v show ?thesis
      by (auto simp: WRITE_UTF16LE_def WRITE_UTF16BE_def valid_char_def Let_def add.commute)
  next
    case False
    then have 1: "0x10000 \<le> c" "c < 0x110000" using v by (simp_all add: word_le_nat_alt valid_char_def)
    obtain e g where 2: "unat e < 1024" "unat g < 1024" "c = g + push_bit 10 e + 0x10000"
      "\<exists>b0 b1 b2 b3. WRITE_UTF16LE c = [b0, b1, b2, b3] \<and> WRITE_UTF16BE c = [b1, b0, b3, b2]
      \<and> ucast b0 + push_bit 8 (ucast b1) = 0xD800 + e \<and> ucast b2 + push_bit 8 (ucast b3) = 0xDC00 + g"
      by (rule WRITE_UTF16_high [OF 1])
    then obtain b0 b1 b2 b3 where 3: "WRITE_UTF16LE c = [b0, b1, b2, b3]" "WRITE_UTF16BE c = [b1, b0, b3, b2]"
      "ucast b0 + push_bit 8 (ucast b1) = 0xD800 + e" "ucast b2 + push_bit 8 (ucast b3) = 0xDC00 + g"
      by blast
    note 4 = 3(3) 3(4) 3(3) [unfolded add.commute [of "ucast b0"]] 3(4) [unfolded add.commute [of "ucast b2"]]
    have "TERMC (b2 # b3 # z)" "TERMC (b3 # b2 # z)" using m 1 by simp_all
    then show ?thesis
      unfolding 3(1,2) append.simps READ_UTF16LE.simps READ_UTF16BE.simps Let_def list.case 4
      using pair_value [OF 2(1,2)] 2(3) by simp
  qed
  then show "READ_UTF16LE (WRITE_UTF16LE c @ z) TERMC = Some (c, z)"
    "READ_UTF16BE (WRITE_UTF16BE c @ z) TERMC = Some (c, z)" by simp_all
qed

section \<open>The translation loops\<close>

definition written :: "(u32 \<Rightarrow> u8 list) \<Rightarrow> u32 list \<Rightarrow> u8 list \<Rightarrow> nat \<Rightarrow> u8 list" where
  "written W cs out k = take k out @ concat (map W cs) @ drop (k + length (concat (map W cs))) out"

lemma written_Nil [simp]: "written W [] out k = out"
  by (simp add: written_def)

lemma written_Cons:
  assumes "k + length (W c) + length (concat (map W cs)) \<le> length out"
  shows "written W cs (take k out @ W c @ drop (k + length (W c)) out) (k + length (W c)) = written W (c # cs) out k"
proof -
  have "min (length out) k = k" using assms by simp
  then show ?thesis using assms by (simp add: written_def add.assoc add.commute add.left_commute)
qed

lemma utf8_tail_same_start: "utf8_tail c z = (c', r) \<Longrightarrow> length r = length z \<Longrightarrow> c' = c"
proof (induction c z rule: utf8_tail.induct)
  case (2 c b z)
  then show ?case by (auto split: if_splits dest: utf8_tail_length)
qed simp

lemma Trans1_small: "list_all (\<lambda>b. b < 0x40) sqlite3Utf8Trans1"
  by code_simp

lemma unat_byte_less: "unat (b :: u8) < 256"
  using unsigned_less [of b] by simp

lemma unat_ucast_byte [simp]: "unat (ucast (b :: u8) :: u32) = unat b"
  using unat_byte_less [of b] by (simp add: unsigned_ucast_eq take_bit_nat_eq_self)

lemma byte_below_c0: "\<not> (b :: u8) \<ge> 0xc0 \<Longrightarrow> (ucast b :: u32) < 0xc0"
  by (simp add: word_less_nat_alt word_le_nat_alt)

lemma READ_UTF8_wide:
  assumes "READ_UTF8 z = Some (c, r)" and "\<not> c \<le> 0xFFFF"
  shows "length r + 2 \<le> length z"
proof (cases z)
  case (Cons b y)
  show ?thesis
  proof (cases "b \<ge> 0xc0")
    case False
    then have "c = ucast b" using assms(1) Cons by simp
    with byte_below_c0 [OF False] assms(2) show ?thesis
      by (simp add: word_less_nat_alt word_le_nat_alt)
  next
    case True
    let ?t = "sqlite3Utf8Trans1 ! unat (b - 0xc0)"
    obtain c' where t: "utf8_tail (ucast ?t) y = (c', r)" "c = utf8_check c'"
      using assms(1) Cons True by (auto split: prod.splits)
    have "length r < length y"
    proof (rule ccontr)
      assume "\<not> length r < length y"
      then have "c' = ucast ?t"
        using utf8_tail_same_start [OF t(1)] utf8_tail_length [OF t(1)] by simp
      have "unat (b - 0xc0) < 64"
        using True by (simp add: unat_sub word_le_nat_alt) (use unat_byte_less [of b] in simp)
      then have "?t < 0x40" using Trans1_small
        by (simp add: list_all_length sqlite3Utf8Trans1_def)
      then have "c' < 0x80" unfolding \<open>c' = ucast ?t\<close> by (simp add: word_less_nat_alt)
      then have "c = 0xFFFD" using t(2) by (simp add: utf8_check_def)
      with assms(2) show False by simp
    qed
    then show ?thesis using Cons by simp
  qed
qed (use assms in simp)

lemma WRITE_UTF16_length: "length (WRITE_UTF16LE c) = (if c \<le> 0xFFFF then 2 else 4)"
  "length (WRITE_UTF16BE c) = (if c \<le> 0xFFFF then 2 else 4)"
  by (simp_all add: WRITE_UTF16LE_def WRITE_UTF16BE_def)

lemma from_utf8_ok:
  assumes "\<And>c. length (W c) = (if c \<le> 0xFFFF then 2 else 4)" and "k + 2 * length z \<le> length out"
  shows "from_utf8 W z out k
      = Some (written W (decode READ_UTF8 z) out k, k + length (concat (map W (decode READ_UTF8 z))))
    \<and> length (concat (map W (decode READ_UTF8 z))) \<le> 2 * length z"
  using assms(2)
proof (induction z arbitrary: out k rule: length_induct)
  case (1 z)
  show ?case
  proof (cases "READ_UTF8 z")
    case None
    then show ?thesis by (simp add: from_utf8.simps [of W z] decode.simps [of _ z])
  next
    case (Some p)
    obtain c r where p: "p = (c, r)" by force
    have r: "length r < length z" using READ_UTF8_length Some p by simp
    have w: "length (W c) + 2 * length r \<le> 2 * length z"
      using READ_UTF8_wide [of z c r] Some p r assms(1) [of c] by (cases "c \<le> 0xFFFF") auto
    let ?out = "take k out @ W c @ drop (k + length (W c)) out"
    have kl: "k + length (W c) \<le> length out" using w "1.prems" by linarith
    then have lo: "length ?out = length out" by simp
    have IH: "from_utf8 W r ?out (k + length (W c))
      = Some (written W (decode READ_UTF8 r) ?out (k + length (W c)),
          k + length (W c) + length (concat (map W (decode READ_UTF8 r))))
      \<and> length (concat (map W (decode READ_UTF8 r))) \<le> 2 * length r"
    proof (rule "1.IH" [rule_format, OF r])
      show "k + length (W c) + 2 * length r \<le> length ?out" using w "1.prems" lo by linarith
    qed
    have d: "decode READ_UTF8 z = c # decode READ_UTF8 r"
      using Some p r by (simp add: decode.simps [of _ z])
    have "written W (decode READ_UTF8 r) ?out (k + length (W c)) = written W (decode READ_UTF8 z) out k"
      unfolding d by (rule written_Cons) (use IH w "1.prems" in linarith)
    then show ?thesis
      using IH Some p kl w by (simp add: from_utf8.simps [of W z] d add.assoc)
  qed
qed

text \<open>Both readers of UTF-16 take two or four bytes, and never fail on an even number of them.\<close>

definition utf16_reader :: "(u8 list \<Rightarrow> (u32 \<times> u8 list) option) \<Rightarrow> bool" where
  "utf16_reader get \<longleftrightarrow> get [] = None \<and> (\<forall>z. z \<noteq> [] \<and> even (length z) \<longrightarrow>
     (\<exists>c r. get z = Some (c, r) \<and> even (length r) \<and> length r + 2 \<le> length z))"

abbreviation get_LE :: "u8 list \<Rightarrow> (u32 \<times> u8 list) option" where
  "get_LE z \<equiv> READ_UTF16LE z (\<lambda>z. z \<noteq> [])"

abbreviation get_BE :: "u8 list \<Rightarrow> (u32 \<times> u8 list) option" where
  "get_BE z \<equiv> READ_UTF16BE z (\<lambda>z. z \<noteq> [])"

lemma even_list_cases:
  assumes "even (length z)"
  obtains "z = []" | a b where "z = [a, b]" | a b c d y where "z = a # b # c # d # y" "even (length y)"
proof (cases z)
  case (Cons a y)
  show thesis
  proof (cases y)
    case (Cons b x)
    show thesis
    proof (cases x)
      case (Cons c w)
      with \<open>y = b # x\<close> \<open>z = a # y\<close> assms obtain d v where "w = d # v" by (cases w) auto
      then show thesis using that(3) Cons \<open>y = b # x\<close> \<open>z = a # y\<close> assms by simp
    qed (use that(2) Cons \<open>z = a # y\<close> in simp)
  qed (use assms Cons in simp)
qed (use that(1) in simp)

lemma utf16_readers: "utf16_reader get_LE" "utf16_reader get_BE"
proof -
  have "\<exists>c r. get_LE z = Some (c, r) \<and> even (length r) \<and> length r + 2 \<le> length z"
    "\<exists>c r. get_BE z = Some (c, r) \<and> even (length r) \<and> length r + 2 \<le> length z"
    if "z \<noteq> []" "even (length z)" for z
    using that(2)
    by (cases rule: even_list_cases; use that(1) in \<open>simp add: Let_def\<close>)+
  then show "utf16_reader get_LE" "utf16_reader get_BE" by (simp_all add: utf16_reader_def)
qed

lemma WRITE_UTF8_length: "length (WRITE_UTF8 c) \<le> 4"
  by (simp add: WRITE_UTF8_def)

lemma to_utf8_ok:
  assumes get: "utf16_reader get"
    and loop: "\<And>z out k. to_utf8 z out k = (if z = [] then Some (out, k)
      else (case get z of
              None \<Rightarrow> None
            | Some (c, z) \<Rightarrow> do {
                out \<leftarrow> wrs out k (WRITE_UTF8 c);
                to_utf8 z out (k + length (WRITE_UTF8 c)) }))"
    and "even (length z)" and "k + 2 * length z \<le> length out"
  shows "to_utf8 z out k
      = Some (written WRITE_UTF8 (decode get z) out k, k + length (concat (map WRITE_UTF8 (decode get z))))
    \<and> length (concat (map WRITE_UTF8 (decode get z))) \<le> 2 * length z"
  using assms(3,4)
proof (induction z arbitrary: out k rule: length_induct)
  case (1 z)
  show ?case
  proof (cases "z = []")
    case True
    then show ?thesis
      using get loop [of "[]"] by (simp add: decode.simps [of get "[]"] utf16_reader_def)
  next
    case False
    then obtain c r where get_z: "get z = Some (c, r)" and r: "even (length r)" "length r + 2 \<le> length z"
      using get "1.prems" by (auto simp: utf16_reader_def)
    let ?w = "WRITE_UTF8 c" let ?out = "take k out @ ?w @ drop (k + length ?w) out"
    have w: "length ?w + 2 * length r \<le> 2 * length z" using WRITE_UTF8_length [of c] r by linarith
    have kl: "k + length ?w \<le> length out" using w "1.prems" by linarith
    then have lo: "length ?out = length out" by simp
    have IH: "to_utf8 r ?out (k + length ?w)
      = Some (written WRITE_UTF8 (decode get r) ?out (k + length ?w),
          k + length ?w + length (concat (map WRITE_UTF8 (decode get r))))
      \<and> length (concat (map WRITE_UTF8 (decode get r))) \<le> 2 * length r"
    proof (rule "1.IH" [rule_format])
      show "length r < length z" "even (length r)" using r by simp_all
      show "k + length ?w + 2 * length r \<le> length ?out" using w "1.prems" lo by linarith
    qed
    have d: "decode get z = c # decode get r"
      using get_z r by (simp add: decode.simps [of _ z])
    have "written WRITE_UTF8 (decode get r) ?out (k + length ?w) = written WRITE_UTF8 (decode get z) out k"
      unfolding d by (rule written_Cons) (use IH w "1.prems" in linarith)
    then show ?thesis
      using IH get_z False kl w by (simp add: loop [of z] d add.assoc)
  qed
qed

lemmas to_utf8_LE_ok = to_utf8_ok [OF utf16_readers(1) to_utf8_LE.simps]
lemmas to_utf8_BE_ok = to_utf8_ok [OF utf16_readers(2) to_utf8_BE.simps]

lemma wrs_single: "wrs p i [x] = wr p i x"
  by (simp add: wrs_def wr_def upd_conv_take_nth_drop)

section \<open>Translation of a value\<close>

definition alloc_ok :: "(nat \<Rightarrow> u8 list option) \<Rightarrow> bool" where
  "alloc_ok alloc \<longleftrightarrow> (\<forall>n b. alloc n = Some b \<longrightarrow> n \<le> length b)"

definition mem_text :: "Mem \<Rightarrow> u8 list" where
  "mem_text m = take (mem_n m) (mem_z m)"

definition text_mem :: "Mem \<Rightarrow> bool" where
  "text_mem m \<longleftrightarrow> mem_n m \<le> length (mem_z m) \<and> mem_enc m \<in> {SQLITE_UTF8, SQLITE_UTF16LE, SQLITE_UTF16BE}
     \<and> mem_flags m AND MEM_Str \<noteq> 0 \<and> mem_flags m AND MEM_Zero = 0"

definition write_as :: "u8 \<Rightarrow> u32 \<Rightarrow> u8 list" where
  "write_as enc = (if enc = SQLITE_UTF8 then WRITE_UTF8
                   else if enc = SQLITE_UTF16LE then WRITE_UTF16LE else WRITE_UTF16BE)"

definition read_as :: "u8 \<Rightarrow> u8 list \<Rightarrow> (u32 \<times> u8 list) option" where
  "read_as enc = (if enc = SQLITE_UTF8 then READ_UTF8 else if enc = SQLITE_UTF16LE then get_LE else get_BE)"

definition even_part :: "u8 list \<Rightarrow> u8 list" where
  "even_part t = take (length t - length t mod 2) t"

definition translated :: "u8 \<Rightarrow> u8 \<Rightarrow> u8 list \<Rightarrow> u8 list" where
  "translated e d t =
     (if e \<noteq> SQLITE_UTF8 \<and> d \<noteq> SQLITE_UTF8 then swap_bytes t
      else concat (map (write_as d) (decode (read_as e) (if e = SQLITE_UTF8 then t else even_part t))))"

lemmas mem_consts = SQLITE_OK_def SQLITE_NOMEM_def SQLITE_UTF8_def SQLITE_UTF16LE_def SQLITE_UTF16BE_def

lemma length_swap [simp]: "length (swap_bytes t) = length t"
  by (induction t rule: swap_bytes.induct) simp_all

lemma swap_append: "even (length s) \<Longrightarrow> swap_bytes (s @ t) = swap_bytes s @ swap_bytes t"
  by (induction s rule: swap_bytes.induct) simp_all

lemma swap_even_part: "swap_bytes (even_part t) @ drop (length t - length t mod 2) t = swap_bytes t"
proof -
  let ?k = "length t - length t mod 2"
  have "even (length (take ?k t))" by simp
  then have "swap_bytes (take ?k t @ drop ?k t) = swap_bytes (take ?k t) @ swap_bytes (drop ?k t)"
    by (rule swap_append)
  moreover have "length (drop ?k t) = length t mod 2" by simp
  then have "swap_bytes (drop ?k t) = drop ?k t"
    by (cases "drop ?k t" rule: swap_bytes.cases) auto
  ultimately show ?thesis by (simp add: even_part_def)
qed

lemma grow_ok:
  assumes a: "alloc_ok alloc" and n: "mem_n m \<le> length (mem_z m)" "mem_n m \<le> sz"
  shows "\<exists>rc m'. sqlite3VdbeMemGrow m sz True alloc = Some (rc, m')
    \<and> mem_n m' = mem_n m \<and> mem_enc m' = mem_enc m \<and> mem_nZero m' = mem_nZero m
    \<and> (if rc = SQLITE_OK then sz \<le> length (mem_z m') \<and> mem_text m' = mem_text m \<and> mem_own m'
          \<and> mem_flags m' = mem_flags m AND NOT (MEM_Dyn OR MEM_Ephem OR MEM_Static)
       else rc = SQLITE_NOMEM \<and> mem_flags m' = MEM_Null)"
proof (cases "alloc (if sz < 32 then 32 else sz)")
  case None
  then show ?thesis by (simp add: sqlite3VdbeMemGrow_def mem_consts Let_def)
next
  case (Some blk)
  then have "(if sz < 32 then 32 else sz) \<le> length blk" using a unfolding alloc_ok_def by blast
  then have len: "sz \<le> length blk" by (cases "sz < 32") simp_all
  show ?thesis
  proof (cases "mem_own m")
    case True
    then show ?thesis
      using Some len n by (simp add: sqlite3VdbeMemGrow_def mem_consts Let_def mem_text_def)
  next
    case False
    then show ?thesis
      using Some len n by (simp add: sqlite3VdbeMemGrow_def mem_consts Let_def mem_text_def)
  qed
qed

lemma addTerminator_ok:
  assumes a: "alloc_ok alloc" and n: "mem_n m \<le> length (mem_z m)"
  shows "\<exists>rc m'. vdbeMemAddTerminator m alloc = Some (rc, m')
    \<and> mem_n m' = mem_n m \<and> mem_enc m' = mem_enc m
    \<and> (if rc = SQLITE_OK then mem_n m + 2 \<le> length (mem_z m') \<and> mem_text m' = mem_text m \<and> mem_own m'
          \<and> mem_z m' ! mem_n m = 0 \<and> mem_z m' ! (mem_n m + 1) = 0
          \<and> mem_flags m' = (mem_flags m AND NOT (MEM_Dyn OR MEM_Ephem OR MEM_Static)) OR MEM_Term
       else rc = SQLITE_NOMEM)"
proof -
  obtain rc m1 where g: "sqlite3VdbeMemGrow m (mem_n m + 2) True alloc = Some (rc, m1)"
    "mem_n m1 = mem_n m" "mem_enc m1 = mem_enc m"
    "if rc = SQLITE_OK then mem_n m + 2 \<le> length (mem_z m1) \<and> mem_text m1 = mem_text m \<and> mem_own m1
          \<and> mem_flags m1 = mem_flags m AND NOT (MEM_Dyn OR MEM_Ephem OR MEM_Static)
       else rc = SQLITE_NOMEM \<and> mem_flags m1 = MEM_Null"
    using grow_ok [OF a n, of "mem_n m + 2"] by auto
  show ?thesis
  proof (cases "rc = SQLITE_OK")
    case True
    then show ?thesis
      using g n by (simp add: vdbeMemAddTerminator_def mem_wrs_def mem_text_def wrs_single)
  next
    case False
    then show ?thesis using g by (simp add: vdbeMemAddTerminator_def mem_consts)
  qed
qed

lemma text_blob: "mem_flags m AND MEM_Str \<noteq> 0 \<Longrightarrow> mem_flags m AND (MEM_Str OR MEM_Blob) \<noteq> 0"
  by (metis and.assoc and_zero_eq bit.conj_disj_distrib or.right_neutral or_eq_0_iff)

lemma makeWriteable_ok:
  assumes a: "alloc_ok alloc" and t: "text_mem m"
  shows "\<exists>rc m'. sqlite3VdbeMemMakeWriteable m alloc = Some (rc, m')
    \<and> mem_n m' = mem_n m \<and> mem_enc m' = mem_enc m
    \<and> (if rc = SQLITE_OK then mem_text m' = mem_text m \<and> mem_own m' \<and> mem_n m' \<le> length (mem_z m')
       else rc = SQLITE_NOMEM)"
proof -
  have n: "mem_n m \<le> length (mem_z m)" and f: "mem_flags m AND (MEM_Str OR MEM_Blob) \<noteq> 0"
    "mem_flags m AND MEM_Zero = 0"
    using t text_blob [of m] unfolding text_mem_def by blast+
  show ?thesis
  proof (cases "mem_own m")
    case True
    then show ?thesis
      using n f by (simp add: sqlite3VdbeMemMakeWriteable_def mem_consts mem_text_def)
  next
    case False
    obtain rc m1 where g: "vdbeMemAddTerminator m alloc = Some (rc, m1)" "mem_n m1 = mem_n m"
      "mem_enc m1 = mem_enc m"
      "if rc = SQLITE_OK then mem_n m + 2 \<le> length (mem_z m1) \<and> mem_text m1 = mem_text m \<and> mem_own m1
          \<and> mem_z m1 ! mem_n m = 0 \<and> mem_z m1 ! (mem_n m + 1) = 0
          \<and> mem_flags m1 = (mem_flags m AND NOT (MEM_Dyn OR MEM_Ephem OR MEM_Static)) OR MEM_Term
       else rc = SQLITE_NOMEM"
      using addTerminator_ok [OF a n] by auto
    then show ?thesis
      using f False by (cases "rc = SQLITE_OK")
        (simp_all add: sqlite3VdbeMemMakeWriteable_def mem_consts mem_text_def)
  qed
qed

lemma mem_text_upd: "mem_text (m\<lparr>mem_z := z, mem_enc := d\<rparr>) = take (mem_n m) z"
  by (simp add: mem_text_def)

lemma rc_distinct [simp]: "SQLITE_NOMEM \<noteq> SQLITE_OK" "SQLITE_OK \<noteq> SQLITE_NOMEM"
  by (simp_all add: mem_consts)

lemma translate_ok:
  assumes t: "text_mem m" and a: "alloc_ok alloc"
    and d: "d \<in> {SQLITE_UTF8, SQLITE_UTF16LE, SQLITE_UTF16BE}" "d \<noteq> mem_enc m"
  shows "\<exists>rc m'. sqlite3VdbeMemTranslate m d alloc = Some (rc, m')
    \<and> (if rc = SQLITE_OK then mem_enc m' = d \<and> mem_own m' \<and> mem_n m' \<le> length (mem_z m')
          \<and> mem_text m' = translated (mem_enc m) d (mem_text m)
       else rc = SQLITE_NOMEM)"
proof -
  have n: "mem_n m \<le> length (mem_z m)" and e: "mem_enc m \<in> {SQLITE_UTF8, SQLITE_UTF16LE, SQLITE_UTF16BE}"
    using t by (simp_all add: text_mem_def)
  let ?t = "mem_text m"
  have lt: "length ?t = mem_n m" using n by (simp add: mem_text_def)
  consider (swap) "mem_enc m \<noteq> SQLITE_UTF8" "d \<noteq> SQLITE_UTF8"
    | (from8) "mem_enc m = SQLITE_UTF8" | (to8) "mem_enc m \<noteq> SQLITE_UTF8" "d = SQLITE_UTF8"
    by blast
  then show ?thesis
  proof cases
    case swap
    obtain rc m1 where w: "sqlite3VdbeMemMakeWriteable m alloc = Some (rc, m1)" "mem_n m1 = mem_n m"
      "mem_enc m1 = mem_enc m"
      "if rc = SQLITE_OK then mem_text m1 = mem_text m \<and> mem_own m1 \<and> mem_n m1 \<le> length (mem_z m1)
       else rc = SQLITE_NOMEM"
      using makeWriteable_ok [OF a t] by blast
    show ?thesis
    proof (cases "rc = SQLITE_OK")
      case False
      then show ?thesis using w swap by (simp add: sqlite3VdbeMemTranslate_def mem_consts)
    next
      case True
      let ?k = "mem_n m - mem_n m mod 2"
      let ?z = "swap_bytes (take ?k (mem_z m1)) @ drop ?k (mem_z m1)"
      have tk: "take ?k (mem_z m1) = even_part ?t"
      proof -
        have "take ?k (mem_z m1) = take ?k (mem_text m1)" using w(2) by (simp add: mem_text_def min_def)
        then show ?thesis using w True lt by (simp add: even_part_def)
      qed
      have dk: "take (mem_n m - ?k) (drop ?k (mem_z m1)) = drop ?k ?t"
      proof -
        have "take (mem_n m - ?k) (drop ?k (mem_z m1)) = drop ?k (mem_text m1)"
          unfolding mem_text_def w(2) drop_take ..
        then show ?thesis using w True by simp
      qed
      have kl: "?k \<le> length (mem_z m1)"
        using w True by (intro le_trans [OF diff_le_self]) simp
      have "take (mem_n m) ?z = swap_bytes (even_part ?t) @ drop ?k ?t"
        using kl dk by (simp add: tk) (simp add: even_part_def lt)
      then have "take (mem_n m) ?z = swap_bytes ?t"
        using swap_even_part [of ?t] lt by simp
      then have "mem_text (m1\<lparr>mem_z := ?z, mem_enc := d\<rparr>) = translated (mem_enc m) d ?t"
        unfolding mem_text_upd w(2) using swap by (simp add: translated_def)
      moreover have "length ?z = length (mem_z m1)" using kl by simp
      then have "mem_n m1 \<le> length ?z" using w True by simp
      moreover have "sqlite3VdbeMemTranslate m d alloc = Some (SQLITE_OK, m1\<lparr>mem_z := ?z, mem_enc := d\<rparr>)"
        using w True swap kl by (simp add: sqlite3VdbeMemTranslate_def mem_wrs_def not_less Let_def)
      ultimately show ?thesis using w True
        by (intro exI [of _ SQLITE_OK] exI [of _ "m1\<lparr>mem_z := ?z, mem_enc := d\<rparr>"])
           (simp del: length_append length_drop)
    qed
  next
    case from8
    let ?W = "if d = SQLITE_UTF16LE then WRITE_UTF16LE else WRITE_UTF16BE"
    have W: "length (?W c) = (if c \<le> 0xFFFF then 2 else 4)" for c by (simp add: WRITE_UTF16_length)
    have d8: "d \<noteq> SQLITE_UTF8" using from8 d by simp
    show ?thesis
    proof (cases "alloc (mem_n m * 2 + 2)")
      case None
      then show ?thesis
        using from8 d8 n by (simp add: sqlite3VdbeMemTranslate_def mem_consts)
    next
      case (Some zOut)
      then have len: "mem_n m * 2 + 2 \<le> length zOut" using a unfolding alloc_ok_def by blast
      let ?cs = "concat (map ?W (decode READ_UTF8 ?t))"
      have r: "from_utf8 ?W ?t zOut 0 = Some (written ?W (decode READ_UTF8 ?t) zOut 0, length ?cs)"
        "length ?cs \<le> 2 * mem_n m"
        using from_utf8_ok [of ?W 0 ?t zOut, OF W] len lt by simp_all
      let ?out = "written ?W (decode READ_UTF8 ?t) zOut 0"
      have o: "?out = ?cs @ drop (length ?cs) zOut" by (simp add: written_def)
      have lo: "length ?out = length zOut" using r(2) len unfolding o by simp
      have run: "(if d = SQLITE_UTF16LE then from_utf8 WRITE_UTF16LE ?t zOut 0 else from_utf8 WRITE_UTF16BE ?t zOut 0)
          = Some (?out, length ?cs)"
        using r(1) by (cases "d = SQLITE_UTF16LE") simp_all
      have "sqlite3VdbeMemTranslate m d alloc = Some (SQLITE_OK,
          m\<lparr>mem_n := length ?cs, mem_z := (?out[length ?cs := 0])[length ?cs + 1 := 0], mem_enc := d,
            mem_own := True, mem_block := [],
            mem_flags := MEM_Str OR MEM_Term OR (mem_flags m AND (MEM_AffMask OR MEM_Subtype))\<rparr>)"
        using from8 d8 n Some run r(2) len lo
        by (simp add: sqlite3VdbeMemTranslate_def mem_text_def [symmetric] not_less Let_def)
      moreover have "take (length ?cs) ((?out[length ?cs := 0])[length ?cs + 1 := 0]) = ?cs"
        unfolding o by simp
      moreover have "write_as d = ?W" using d8 by (auto simp: write_as_def)
      ultimately show ?thesis
        using from8 d8 r(2) len lo by (simp add: translated_def mem_text_def read_as_def)
    qed
  next
    case to8
    let ?k = "mem_n m - mem_n m mod 2"
    let ?g = "read_as (mem_enc m)" and ?z = "even_part ?t"
    have z: "take ?k (mem_z m) = ?z" using lt n
      by (simp add: even_part_def) (simp add: mem_text_def take_take min_def)
    have kz: "?k \<le> length (mem_z m)" using n by (intro le_trans [OF diff_le_self])
    have lz: "length ?z = ?k" using lt by (simp add: even_part_def)
    have ez: "even (length ?z)" unfolding lz by simp
    show ?thesis
    proof (cases "alloc (?k * 2 + 1)")
      case None
      then show ?thesis
        using to8 kz by (simp add: sqlite3VdbeMemTranslate_def Let_def not_less)
    next
      case (Some zOut)
      then have len: "?k * 2 + 1 \<le> length zOut" using a unfolding alloc_ok_def by blast
      let ?cs = "concat (map WRITE_UTF8 (decode ?g ?z))"
      let ?out = "written WRITE_UTF8 (decode ?g ?z) zOut 0"
      have "(if mem_enc m = SQLITE_UTF16LE then to_utf8_LE ?z zOut 0 else to_utf8_BE ?z zOut 0)
          = Some (?out, length ?cs) \<and> length ?cs \<le> 2 * ?k"
        using to_utf8_LE_ok [OF ez, of 0 zOut] to_utf8_BE_ok [OF ez, of 0 zOut] len lz to8(1)
        by (simp add: read_as_def)
      then have run: "(if mem_enc m = SQLITE_UTF16LE then to_utf8_LE ?z zOut 0 else to_utf8_BE ?z zOut 0)
          = Some (?out, length ?cs)" and r: "length ?cs \<le> 2 * ?k" by blast+
      have o: "?out = ?cs @ drop (length ?cs) zOut" by (simp add: written_def)
      have lo: "length ?out = length zOut" using r len unfolding o by simp
      have "sqlite3VdbeMemTranslate m d alloc = Some (SQLITE_OK,
          m\<lparr>mem_n := length ?cs, mem_z := ?out[length ?cs := 0], mem_enc := d, mem_own := True, mem_block := [],
            mem_flags := MEM_Str OR MEM_Term OR (mem_flags m AND (MEM_AffMask OR MEM_Subtype))\<rparr>)"
        using to8 kz Some run r len lo z
        by (simp add: sqlite3VdbeMemTranslate_def not_less Let_def)
      moreover have "take (length ?cs) (?out[length ?cs := 0]) = ?cs" unfolding o by simp
      moreover have "write_as d = WRITE_UTF8" using to8 by (auto simp: write_as_def)
      ultimately show ?thesis
        using to8 r len lo by (simp add: translated_def mem_text_def)
    qed
  qed
qed

text \<open>
  When memory runs out: the size of the block that a translation asks for, if it asks for any, decides. Between the two
  byte orders of UTF-16 only a value that does not own its buffer needs one.
\<close>

definition translate_asks :: "Mem \<Rightarrow> u8 \<Rightarrow> nat option" where
  "translate_asks m d =
     (if mem_enc m \<noteq> SQLITE_UTF8 \<and> d \<noteq> SQLITE_UTF8 then (if mem_own m then None else Some (max 32 (mem_n m + 2)))
      else if d = SQLITE_UTF8 then Some ((mem_n m - mem_n m mod 2) * 2 + 1)
      else Some (mem_n m * 2 + 2))"

definition refused :: "(nat \<Rightarrow> u8 list option) \<Rightarrow> nat option \<Rightarrow> bool" where
  "refused alloc k \<longleftrightarrow> (case k of None \<Rightarrow> False | Some k \<Rightarrow> alloc k = None)"

lemma grow_rc:
  "sqlite3VdbeMemGrow m sz b alloc = Some (rc, m') \<Longrightarrow> rc = (if alloc (max 32 sz) = None then SQLITE_NOMEM else SQLITE_OK)"
  by (cases "sz < 32") (auto simp: sqlite3VdbeMemGrow_def Let_def bind_eq_Some_conv split: option.splits)

lemma addTerminator_rc:
  "vdbeMemAddTerminator m alloc = Some (rc, m') \<Longrightarrow> rc = (if alloc (max 32 (mem_n m + 2)) = None then SQLITE_NOMEM else SQLITE_OK)"
  by (auto simp: vdbeMemAddTerminator_def bind_eq_Some_conv dest!: grow_rc split: if_splits)

lemma makeWriteable_rc:
  assumes "text_mem m" and "sqlite3VdbeMemMakeWriteable m alloc = Some (rc, m')"
  shows "rc = (if \<not> mem_own m \<and> alloc (max 32 (mem_n m + 2)) = None then SQLITE_NOMEM else SQLITE_OK)"
proof -
  have "mem_flags m AND (MEM_Str OR MEM_Blob) \<noteq> 0" "mem_flags m AND MEM_Zero = 0"
    using assms(1) text_blob [of m] unfolding text_mem_def by blast+
  then show ?thesis using assms(2)
    by (auto simp: sqlite3VdbeMemMakeWriteable_def bind_eq_Some_conv dest!: addTerminator_rc split: if_splits)
qed

lemma translate_rc:
  assumes t: "text_mem m" and d: "sqlite3VdbeMemTranslate m d alloc = Some (rc, m')"
  shows "rc = (if refused alloc (translate_asks m d) then SQLITE_NOMEM else SQLITE_OK)"
proof (cases "mem_enc m \<noteq> SQLITE_UTF8 \<and> d \<noteq> SQLITE_UTF8")
  case True
  then show ?thesis using d
    by (auto simp: sqlite3VdbeMemTranslate_def translate_asks_def refused_def bind_eq_Some_conv Let_def dest!: makeWriteable_rc [OF t] split: if_splits)
next
  case False
  then show ?thesis using d
    by (auto simp: sqlite3VdbeMemTranslate_def translate_asks_def refused_def bind_eq_Some_conv Let_def split: if_splits option.splits)
qed

section \<open>Codes that the reader changes\<close>

definition surrogate :: "u32 \<Rightarrow> bool" where
  "surrogate c \<longleftrightarrow> 0xD800 \<le> c \<and> c < 0xE000"

lemma and_not_mask: "x AND NOT (mask n) = push_bit n (drop_bit n (x :: 'a :: len word))"
  by (rule bit_word_eqI) (auto simp: bit_simps)

lemma len_u32: "LENGTH(32) = 32"
  by simp

lemma high_part_iff:
  assumes "unat (c :: u32) < 2 ^ 32" and k: "unat k * 2 ^ n < 2 ^ 32"
  shows "c AND NOT (mask n) = push_bit n k \<longleftrightarrow> unat c div 2 ^ n = unat k"
proof -
  have u: "unat (push_bit n x) = unat x * 2 ^ n" if "unat x * 2 ^ n < 2 ^ 32" for x :: u32
    using that take_bit_nat_eq_self [of "unat x * 2 ^ n" 32]
    by (simp only: unsigned_push_bit_eq push_bit_eq_mult [of n "unat x"] len_u32)
  have d: "unat (drop_bit n c) = unat c div 2 ^ n"
    by (simp only: unat_drop_bit_eq drop_bit_eq_div [of n "unat c"])
  have "unat c div 2 ^ n * 2 ^ n \<le> unat c" by simp
  then have "unat (drop_bit n c) * 2 ^ n < 2 ^ 32" unfolding d using assms(1) by linarith
  then have "unat (push_bit n (drop_bit n c)) = unat c div 2 ^ n * 2 ^ n"
    using u [of "drop_bit n c"] by (simp only: d)
  then have "c AND NOT (mask n) = push_bit n k \<longleftrightarrow> unat c div 2 ^ n * 2 ^ n = unat k * 2 ^ n"
    by (simp only: and_not_mask word_unat_eq_iff u [OF k])
  then show ?thesis by simp
qed

lemma surrogate_mask: "c AND 0xFFFFF800 = 0xD800 \<longleftrightarrow> surrogate c"
proof -
  have m: "(0xFFFFF800 :: u32) = NOT (mask 11)" "(0xD800 :: u32) = push_bit 11 0x1B"
    by (simp_all add: mask_eq_exp_minus_1)
  have "c AND 0xFFFFF800 = 0xD800 \<longleftrightarrow> unat c div 2 ^ 11 = unat (0x1B :: u32)"
    unfolding m by (rule high_part_iff) (use unsigned_less [of c] in simp_all)
  also have "\<dots> \<longleftrightarrow> 0xD800 \<le> unat c \<and> unat c < 0xE000" by auto
  finally show ?thesis by (simp add: surrogate_def word_le_nat_alt word_less_nat_alt)
qed

lemma nonchar_mask: "c AND 0xFFFFFFFE = 0xFFFE \<longleftrightarrow> c = 0xFFFE \<or> c = (0xFFFF :: u32)"
proof -
  have m: "(0xFFFFFFFE :: u32) = NOT (mask 1)" "(0xFFFE :: u32) = push_bit 1 0x7FFF"
    by (simp_all add: mask_eq_exp_minus_1)
  have "c AND 0xFFFFFFFE = 0xFFFE \<longleftrightarrow> unat c div 2 ^ 1 = unat (0x7FFF :: u32)"
    unfolding m by (rule high_part_iff) (use unsigned_less [of c] in simp_all)
  also have "\<dots> \<longleftrightarrow> unat c = 0xFFFE \<or> unat c = 0xFFFF" by auto
  finally show ?thesis by (simp add: word_unat_eq_iff)
qed

lemma utf8_check_eq:
  "utf8_check c = (if c < 0x80 \<or> surrogate c \<or> c = 0xFFFE \<or> c = 0xFFFF then 0xFFFD else c)"
  by (simp add: utf8_check_def surrogate_mask nonchar_mask)

text \<open>The characters of a text: those that every encoding represents.\<close>

definition text_char :: "u32 \<Rightarrow> bool" where
  "text_char c \<longleftrightarrow> c < 0x110000 \<and> \<not> surrogate c \<and> c \<noteq> 0xFFFE \<and> c \<noteq> 0xFFFF"

lemma text_char_norm: "text_char c \<Longrightarrow> utf8_norm c = c"
  by (simp add: text_char_def utf8_norm_def utf8_check_eq)

lemma text_char_valid: "text_char c \<Longrightarrow> valid_char c"
  by (simp add: text_char_def valid_char_def surrogate_def)

text \<open>The three encodings keep the contract of \<open>char_codec\<close>.\<close>

interpretation utf8: char_codec WRITE_UTF8 READ_UTF8 text_char starts_char
proof
  show "READ_UTF8 (WRITE_UTF8 c @ z) = Some (c, z)" if "text_char c" "starts_char z" for c z
    using READ_WRITE_UTF8 [of c z] that text_char_norm [of c] by (simp add: text_char_def)
  show "starts_char (WRITE_UTF8 c @ z)" if "text_char c" for c z
    using READ_WRITE_UTF8 [of c "[]" z] that by (simp add: text_char_def starts_char_def [of "[]"])
qed (simp_all add: starts_char_def)

interpretation utf16le: char_codec WRITE_UTF16LE get_LE text_char "\<lambda>_. True"
  by unfold_locales (simp_all add: READ_WRITE_UTF16 text_char_valid)

interpretation utf16be: char_codec WRITE_UTF16BE get_BE text_char "\<lambda>_. True"
  by unfold_locales (simp_all add: READ_WRITE_UTF16 text_char_valid)

lemma decode_write: "\<forall>c \<in> set cs. text_char c \<Longrightarrow> decode (read_as e) (concat (map (write_as e) cs)) = cs"
  by (simp add: read_as_def write_as_def utf8.decode_text utf16le.decode_text utf16be.decode_text)

lemma swap_write:
  "swap_bytes (WRITE_UTF16LE c @ z) = WRITE_UTF16BE c @ swap_bytes z"
  "swap_bytes (WRITE_UTF16BE c @ z) = WRITE_UTF16LE c @ swap_bytes z"
  by (simp_all add: WRITE_UTF16LE_def WRITE_UTF16BE_def)

lemma swap_text:
  "swap_bytes (concat (map WRITE_UTF16LE cs)) = concat (map WRITE_UTF16BE cs)"
  "swap_bytes (concat (map WRITE_UTF16BE cs)) = concat (map WRITE_UTF16LE cs)"
  by (induction cs) (simp_all add: swap_write)

lemma even_utf16_text: "e \<noteq> SQLITE_UTF8 \<Longrightarrow> even_part (concat (map (write_as e) cs)) = concat (map (write_as e) cs)"
proof -
  assume e: "e \<noteq> SQLITE_UTF8"
  have "even (length (concat (map (write_as e) cs)))"
    using e by (induction cs) (simp_all add: write_as_def WRITE_UTF16_length)
  then show ?thesis by (simp add: even_part_def)
qed

lemma translated_text:
  assumes "\<forall>c \<in> set cs. text_char c" and "e \<noteq> d"
    and "e \<in> {SQLITE_UTF8, SQLITE_UTF16LE, SQLITE_UTF16BE}" "d \<in> {SQLITE_UTF8, SQLITE_UTF16LE, SQLITE_UTF16BE}"
  shows "translated e d (concat (map (write_as e) cs)) = concat (map (write_as d) cs)"
proof (cases "e \<noteq> SQLITE_UTF8 \<and> d \<noteq> SQLITE_UTF8")
  case True
  then have "e = SQLITE_UTF16LE \<and> d = SQLITE_UTF16BE \<or> e = SQLITE_UTF16BE \<and> d = SQLITE_UTF16LE"
    using assms(2-4) by auto
  then show ?thesis using True swap_text by (auto simp: translated_def write_as_def mem_consts)
next
  case False
  then show ?thesis
    using decode_write [OF assms(1), of e] even_utf16_text [of e cs] by (auto simp: translated_def)
qed

section \<open>Counting\<close>

lemma dropWhile_tail: "snd (utf8_tail c z) = dropWhile (\<lambda>b. b AND 0xc0 = 0x80) z"
  by (induction c z rule: utf8_tail.induct) auto

lemma SKIP_READ: "READ_UTF8 z = Some (c, r) \<Longrightarrow> SQLITE_SKIP_UTF8 z = r"
  using dropWhile_tail by (cases z) (auto split: if_splits prod.splits, metis snd_conv)

lemma CharLen_text:
  "\<forall>c \<in> set cs. text_char c \<Longrightarrow> sqlite3Utf8CharLen (concat (map WRITE_UTF8 cs)) None = length cs"
proof (induction cs)
  case (Cons c cs)
  let ?r = "concat (map WRITE_UTF8 cs)"
  have "READ_UTF8 (WRITE_UTF8 c @ ?r) = Some (c, ?r)"
    using Cons.prems by (intro utf8.read_text) simp_all
  then have s: "SQLITE_SKIP_UTF8 (WRITE_UTF8 c @ ?r) = ?r" by (rule SKIP_READ)
  obtain b y where w: "WRITE_UTF8 c @ ?r = b # y"
    using utf8.write_nonempty [of c] Cons.prems by (cases "WRITE_UTF8 c") auto
  show ?case
    using Cons s by (simp add: w Let_def del: SQLITE_SKIP_UTF8.simps)
qed simp

lemma Utf16ByteLen_text:
  assumes "\<forall>c \<in> set cs. text_char c"
  shows "sqlite3Utf16ByteLen (concat (map WRITE_UTF16LE cs) @ z) (length cs)
    = Some (length (concat (map WRITE_UTF16LE cs)))"
  using assms
proof (induction cs)
  case (Cons c cs)
  have "READ_UTF16LE (WRITE_UTF16LE c @ y) (\<lambda>_. True) = Some (c, y)" for y
    using Cons.prems text_char_valid by (intro READ_WRITE_UTF16) auto
  with Cons show ?case by simp
qed simp

section \<open>Properties\<close>

text \<open>
  C13: what \<^verbatim>\<open>WRITE_UTF8\<close> writes for any code up to 0x10FFFF, \<^verbatim>\<open>READ_UTF8\<close> reads back, leaving exactly
  the bytes that follow, except that surrogates and the codes 0xFFFE and 0xFFFF come back as 0xFFFD.
  The bytes that follow must not continue a character.
\<close>

theorem utf8_char_roundtrip:
  assumes "c < 0x110000" and "starts_char z"
  shows "READ_UTF8 (WRITE_UTF8 c @ z)
    = Some (if (0xD800 \<le> c \<and> c < 0xE000) \<or> c = 0xFFFE \<or> c = 0xFFFF then 0xFFFD else c, z)"
proof -
  have "utf8_norm c = (if (0xD800 \<le> c \<and> c < 0xE000) \<or> c = 0xFFFE \<or> c = 0xFFFF then 0xFFFD else c)"
    by (auto simp: utf8_norm_def utf8_check_eq surrogate_def word_le_nat_alt word_less_nat_alt)
  then show ?thesis using READ_WRITE_UTF8 [OF assms] by simp
qed

theorem utf8_char_roundtrip_witness:
  "READ_UTF8 (WRITE_UTF8 0x1F600 @ [0x41]) = Some (0x1F600, [0x41])"
  using utf8_char_roundtrip [of "0x1F600" "[0x41]"] by (simp add: starts_char_def)

text \<open>
  C36: whatever bytes \<^verbatim>\<open>READ_UTF8\<close> is given, it never produces a surrogate or one of the codes 0xFFFE
  and 0xFFFF, and it produces a 7-bit code only from that one byte: no multi-byte form smuggles in
  a NUL, a quote or a slash.
\<close>

theorem utf8_reader_is_strict:
  assumes "READ_UTF8 z = Some (c, r)"
  shows "\<not> (0xD800 \<le> c \<and> c < 0xE000) \<and> c \<noteq> 0xFFFE \<and> c \<noteq> 0xFFFF \<and> (c < 0x80 \<longrightarrow> z = ucast c # r)"
proof (cases z)
  case (Cons b y)
  show ?thesis
  proof (cases "b \<ge> 0xc0")
    case True
    obtain c' where "c = utf8_check c'"
      using assms Cons True by (auto split: prod.splits)
    then show ?thesis
      by (auto simp: utf8_check_eq surrogate_def word_le_nat_alt word_less_nat_alt)
  next
    case False
    then have c: "c = ucast b" "r = y" using assms Cons by simp_all
    have "ucast (ucast b :: u32) = b"
      by (rule bit_word_eqI) (auto simp: bit_simps)
    with c byte_below_c0 [OF False] Cons show ?thesis
      by (auto simp: word_le_nat_alt word_less_nat_alt)
  qed
qed (use assms in simp)

theorem utf8_reader_is_strict_witness:
  "READ_UTF8 [0xC0, 0x80] = Some (0xFFFD, []) \<and> \<not> (0xFFFD :: u32) < 0x80"
proof -
  have r: "READ_UTF8 [0xC0, 0x80] = Some (0xFFFD, [])" by code_simp
  show ?thesis using utf8_reader_is_strict [OF r] r by simp
qed

text \<open>
  In both byte orders of UTF-16, what is written for a code up to 0x10FFFF that is no surrogate
  is read back, whatever follows: pairs are split and joined correctly.
\<close>

lemma utf16_char_roundtrip:
  assumes "c < 0x110000" and "\<not> (0xD800 \<le> c \<and> c < 0xE000)"
  shows "READ_UTF16LE (WRITE_UTF16LE c @ z) (\<lambda>z. z \<noteq> []) = Some (c, z)
    \<and> READ_UTF16BE (WRITE_UTF16BE c @ z) (\<lambda>z. z \<noteq> []) = Some (c, z)"
  using assms by (simp add: READ_WRITE_UTF16 valid_char_def)

text \<open>
  C14: \<^verbatim>\<open>sqlite3VdbeMemTranslate\<close> is memory-safe on every string value, however malformed its bytes: it
  reads only the \<open>n\<close> bytes of the value, and the output with its terminators fits into the block that was
  asked for, even when that is not larger than asked. The translation succeeds exactly when the allocator does not refuse that block;
  otherwise it answers that memory ran out.
\<close>

theorem translate_never_overruns:
  assumes "text_mem m" and "alloc_ok alloc"
    and "d \<in> {SQLITE_UTF8, SQLITE_UTF16LE, SQLITE_UTF16BE}" and "d \<noteq> mem_enc m"
  shows "\<exists>rc m'. sqlite3VdbeMemTranslate m d alloc = Some (rc, m')
    \<and> (if refused alloc (translate_asks m d) then rc = SQLITE_NOMEM
        else rc = SQLITE_OK \<and> mem_enc m' = d \<and> mem_own m' \<and> mem_n m' \<le> length (mem_z m'))"
proof -
  obtain rc m' where t: "sqlite3VdbeMemTranslate m d alloc = Some (rc, m')"
    "rc = SQLITE_OK \<Longrightarrow> mem_enc m' = d \<and> mem_own m' \<and> mem_n m' \<le> length (mem_z m')"
    using translate_ok [OF assms] by metis
  show ?thesis using translate_rc [OF assms(1) t(1)] t by (intro exI [of _ rc] exI [of _ m']) simp
qed

definition latin_mem :: Mem where
  "latin_mem = \<lparr>mem_z = [0x41, 0xC3, 0xA9, 0x00], mem_n = 3, mem_enc = 1, mem_flags = 0x0202, mem_nZero = 0, mem_own = False, mem_block = []\<rparr>"

lemma latin_mem_ok: "text_mem latin_mem"
  by (simp add: text_mem_def latin_mem_def mem_consts MEM_Str_def MEM_Zero_def)

lemma replicate_alloc_ok: "alloc_ok (\<lambda>n. Some (replicate n 0))"
  by (simp add: alloc_ok_def)

text \<open>An allocator that grants every block, and one that grants none.\<close>

theorem translate_never_overruns_witness:
  "(\<exists>m'. sqlite3VdbeMemTranslate latin_mem SQLITE_UTF16LE (\<lambda>n. Some (replicate n 0)) = Some (SQLITE_OK, m') \<and> mem_enc m' = SQLITE_UTF16LE)
    \<and> (\<exists>m'. sqlite3VdbeMemTranslate latin_mem SQLITE_UTF16LE (\<lambda>n. None) = Some (SQLITE_NOMEM, m'))"
proof -
  have d: "SQLITE_UTF16LE \<in> {SQLITE_UTF8, SQLITE_UTF16LE, SQLITE_UTF16BE}" "SQLITE_UTF16LE \<noteq> mem_enc latin_mem"
    by (simp_all add: mem_consts latin_mem_def)
  have n: "alloc_ok (\<lambda>n. None)" by (simp add: alloc_ok_def)
  have k: "translate_asks latin_mem SQLITE_UTF16LE = Some 8" by (simp add: translate_asks_def mem_consts latin_mem_def)
  show ?thesis
    using translate_never_overruns [OF latin_mem_ok replicate_alloc_ok d] translate_never_overruns [OF latin_mem_ok n d]
    by (auto simp: k refused_def)
qed

text \<open>
  C15: translating a value that holds a text, a sequence of characters, from any of the three
  encodings to another one gives the same characters in the new encoding.
\<close>

theorem translate_preserves_text:
  assumes "text_mem m" and "alloc_ok alloc"
    and "d \<in> {SQLITE_UTF8, SQLITE_UTF16LE, SQLITE_UTF16BE}" and "d \<noteq> mem_enc m"
    and "\<forall>c \<in> set cs. text_char c" and "mem_text m = concat (map (write_as (mem_enc m)) cs)"
    and "sqlite3VdbeMemTranslate m d alloc = Some (SQLITE_OK, m')"
  shows "mem_enc m' = d \<and> mem_text m' = concat (map (write_as d) cs)"
proof -
  have "mem_enc m' = d \<and> mem_text m' = translated (mem_enc m) d (mem_text m)"
    using translate_ok [OF assms(1-4)] assms(7) by auto
  moreover have "mem_enc m \<in> {SQLITE_UTF8, SQLITE_UTF16LE, SQLITE_UTF16BE}"
    using assms(1) by (simp add: text_mem_def)
  ultimately show ?thesis
    using translated_text [OF assms(5), of "mem_enc m" d] assms(3,4,6) by simp
qed

theorem translate_preserves_text_witness:
  "\<exists>m'. sqlite3VdbeMemTranslate latin_mem SQLITE_UTF16BE (\<lambda>n. Some (replicate n 0)) = Some (SQLITE_OK, m')
     \<and> mem_text m' = [0x00, 0x41, 0x00, 0xE9]"
proof -
  have d: "SQLITE_UTF16BE \<in> {SQLITE_UTF8, SQLITE_UTF16LE, SQLITE_UTF16BE}" "SQLITE_UTF16BE \<noteq> mem_enc latin_mem"
    by (simp_all add: mem_consts latin_mem_def)
  have c: "\<forall>c \<in> set [0x41, 0xE9]. text_char c"
    by (simp add: text_char_def surrogate_def)
  have e: "mem_text latin_mem = concat (map (write_as (mem_enc latin_mem)) [0x41, 0xE9])"
    by code_simp
  have "map_option fst (sqlite3VdbeMemTranslate latin_mem SQLITE_UTF16BE (\<lambda>n. Some (replicate n 0))) = Some SQLITE_OK"
    by code_simp
  then obtain m' where m': "sqlite3VdbeMemTranslate latin_mem SQLITE_UTF16BE (\<lambda>n. Some (replicate n 0)) = Some (SQLITE_OK, m')"
    by auto
  have "concat (map (write_as SQLITE_UTF16BE) [0x41, 0xE9]) = [0x00, 0x41, 0x00, 0xE9]" by code_simp
  with translate_preserves_text [OF latin_mem_ok replicate_alloc_ok d c e m'] m' show ?thesis by auto
qed

text \<open>
  On the UTF-8 bytes of a text, \<^verbatim>\<open>sqlite3Utf8CharLen\<close> counts its characters, and on the native
  UTF-16 bytes of at least as many characters \<^verbatim>\<open>sqlite3Utf16ByteLen\<close> gives the bytes they take.
\<close>

lemma utf_lengths_count_characters:
  assumes "\<forall>c \<in> set cs. text_char c"
  shows "sqlite3Utf8CharLen (concat (map WRITE_UTF8 cs)) None = length cs
    \<and> sqlite3Utf16ByteLen (concat (map WRITE_UTF16LE cs) @ z) (length cs)
        = Some (length (concat (map WRITE_UTF16LE cs)))"
  using CharLen_text [OF assms] Utf16ByteLen_text [OF assms] by simp

text \<open>
  \<^verbatim>\<open>sqlite3VdbeMemHandleBom\<close> removes a byte-order mark, and only that, from the text of a value and
  sets the encoding it announces; other values are left alone. It never leaves the buffer.
\<close>

lemma handle_bom:
  assumes "text_mem m" and "alloc_ok alloc"
  shows "\<exists>rc m'. sqlite3VdbeMemHandleBom m alloc = Some (rc, m') \<and> (rc = SQLITE_NOMEM \<or> rc = SQLITE_OK \<and>
    (if take 2 (mem_text m) = [0xFF, 0xFE]
     then mem_enc m' = SQLITE_UTF16LE \<and> mem_text m' = drop 2 (mem_text m)
     else if take 2 (mem_text m) = [0xFE, 0xFF]
     then mem_enc m' = SQLITE_UTF16BE \<and> mem_text m' = drop 2 (mem_text m)
     else m' = m))"
proof -
  have n: "mem_n m \<le> length (mem_z m)" using assms(1) by (simp add: text_mem_def)
  define bom where "bom = (if take 2 (mem_text m) = [0xFF, 0xFE] then SQLITE_UTF16LE
    else if take 2 (mem_text m) = [0xFE, 0xFF] then SQLITE_UTF16BE else 0)"
  have b: "(if mem_n m > 1 then do {
               b1 \<leftarrow> rd (mem_z m) 0;
               b2 \<leftarrow> rd (mem_z m) 1;
               Some (if b1 = 0xFF \<and> b2 = 0xFE then SQLITE_UTF16LE
                     else if b1 = 0xFE \<and> b2 = 0xFF then SQLITE_UTF16BE else 0) }
             else Some 0) = Some bom"
  proof (cases "mem_n m > 1")
    case True
    then obtain b1 b2 z where z: "mem_z m = b1 # b2 # z"
      using n by (cases "mem_z m"; cases "tl (mem_z m)") auto
    then have "take 2 (mem_text m) = [b1, b2]"
      using True by (simp add: mem_text_def take_Cons' numeral_2_eq_2)
    then show ?thesis using True z by (simp add: bom_def)
  next
    case False
    then have "length (take 2 (mem_text m)) \<noteq> 2" by (simp add: mem_text_def)
    then have "take 2 (mem_text m) \<noteq> [b1, b2]" for b1 b2 by auto
    then show ?thesis using False by (simp add: bom_def)
  qed
  obtain rc m1 where w: "sqlite3VdbeMemMakeWriteable m alloc = Some (rc, m1)" "mem_n m1 = mem_n m"
    "if rc = SQLITE_OK then mem_text m1 = mem_text m \<and> mem_own m1 \<and> mem_n m1 \<le> length (mem_z m1)
     else rc = SQLITE_NOMEM"
    using makeWriteable_ok [OF assms(2,1)] by blast
  show ?thesis
  proof (cases "bom = 0")
    case True
    then have "take 2 (mem_text m) \<noteq> [0xFF, 0xFE]" "take 2 (mem_text m) \<noteq> [0xFE, 0xFF]"
      by (auto simp: bom_def mem_consts split: if_splits)
    then show ?thesis using b True by (simp add: sqlite3VdbeMemHandleBom_def)
  next
    case False
    then have n2: "2 \<le> mem_n m" and enc: "take 2 (mem_text m) = [0xFF, 0xFE] \<and> bom = SQLITE_UTF16LE
      \<or> take 2 (mem_text m) = [0xFE, 0xFF] \<and> bom = SQLITE_UTF16BE"
      using b by (auto simp: bom_def split: if_splits)
    show ?thesis
    proof (cases "rc = SQLITE_OK")
      case rc: False
      then show ?thesis using b False w by (simp add: sqlite3VdbeMemHandleBom_def)
    next
      case True
      let ?z = "mem_z m1" and ?k = "mem_n m - 2"
      have "?k + 2 = mem_n m" using n2 by simp
      then have l: "?k + 2 \<le> length ?z" using w True by simp
      have "sqlite3VdbeMemHandleBom m alloc = Some (SQLITE_OK,
         m1\<lparr>mem_n := ?k, mem_z := ((take ?k (drop 2 ?z) @ drop ?k ?z)[?k := 0])[?k + 1 := 0],
           mem_flags := mem_flags m1 OR MEM_Term, mem_enc := bom\<rparr>)"
        using b False w True l
        by (simp add: sqlite3VdbeMemHandleBom_def mem_wrs_def wrs_single Let_def not_less)
      moreover have "take ?k (((take ?k (drop 2 ?z) @ drop ?k ?z)[?k := 0])[?k + 1 := 0]) = drop 2 (mem_text m1)"
        using l w(2) by (simp add: mem_text_def drop_take)
      ultimately show ?thesis
        using enc w True by (auto simp: mem_text_def)
    qed
  qed
qed

end
