(* ===== verification/UtilNum.thy ===== *)
theory UtilNum
  imports CType Utf "HOL-Library.Signed_Division"
begin

text \<open>
  The number routines of \<^verbatim>\<open>src/util.c\<close>: text to integer, 64-bit arithmetic that reports overflow, and
  the logarithmic estimates of the query planner.

  A signed C integer is an \<open>int\<close>. Where the code computes with signed integers, each operation goes
  through \<open>ck64\<close> or \<open>ck32\<close>, which is \<open>None\<close> when the exact result does not fit: signed overflow
  is undefined in C, so a theorem that a routine gives a value also says that none of its operations
  overflows. Unsigned values are words. The pod is compiled by clang, which reports itself as GCC
  4.2.1, so the portable branches are the ones compiled.
\<close>

section \<open>Signed arithmetic\<close>

definition LARGEST_INT64 :: int where "LARGEST_INT64 = 2 ^ 63 - 1"
definition SMALLEST_INT64 :: int where "SMALLEST_INT64 = - (2 ^ 63)"

definition i64 :: "int \<Rightarrow> bool" where
  "i64 x \<longleftrightarrow> SMALLEST_INT64 \<le> x \<and> x \<le> LARGEST_INT64"

definition i32 :: "int \<Rightarrow> bool" where
  "i32 x \<longleftrightarrow> - (2 ^ 31) \<le> x \<and> x \<le> 2 ^ 31 - 1"

definition ck64 :: "int \<Rightarrow> int option" where
  "ck64 x = (if i64 x then Some x else None)"

definition ck32 :: "int \<Rightarrow> int option" where
  "ck32 x = (if i32 x then Some x else None)"

definition div64 :: "int \<Rightarrow> int \<Rightarrow> int option" where
  "div64 a b = (if b = 0 then None else ck64 (a sdiv b))"

text \<open>The result code and the value left in \<^verbatim>\<open>*pA\<close>.\<close>

definition sqlite3AddInt64 :: "int \<Rightarrow> int \<Rightarrow> (nat \<times> int) option" where
  "sqlite3AddInt64 iA iB =
     (if iB \<ge> 0 then do {
        overflow \<leftarrow> (if iA > 0 then do { d \<leftarrow> ck64 (LARGEST_INT64 - iA); Some (d < iB) } else Some False);
        if overflow then Some (1, iA) else do { r \<leftarrow> ck64 (iA + iB); Some (0, r) } }
      else do {
        overflow \<leftarrow> (if iA < 0 then do {
                      s \<leftarrow> ck64 (iA + LARGEST_INT64);
                      n \<leftarrow> ck64 (- s);
                      t \<leftarrow> ck64 (iB + 1);
                      Some (n > t) } else Some False);
        if overflow then Some (1, iA) else do { r \<leftarrow> ck64 (iA + iB); Some (0, r) } })"

definition sqlite3SubInt64 :: "int \<Rightarrow> int \<Rightarrow> (nat \<times> int) option" where
  "sqlite3SubInt64 iA iB =
     (if iB = SMALLEST_INT64 then
        if iA \<ge> 0 then Some (1, iA) else do { r \<leftarrow> ck64 (iA - iB); Some (0, r) }
      else do { n \<leftarrow> ck64 (- iB); sqlite3AddInt64 iA n })"

definition sqlite3MulInt64 :: "int \<Rightarrow> int \<Rightarrow> (nat \<times> int) option" where
  "sqlite3MulInt64 iA iB = do {
     overflow \<leftarrow>
       (if iB > 0 then do {
          hi \<leftarrow> div64 LARGEST_INT64 iB;
          if iA > hi then Some True
          else do { lo \<leftarrow> div64 SMALLEST_INT64 iB; Some (iA < lo) } }
        else if iB < 0 then
          if iA > 0 then do { lo \<leftarrow> div64 SMALLEST_INT64 iA; Some (iB < lo) }
          else if iA < 0 then
            if iB = SMALLEST_INT64 then Some True
            else if iA = SMALLEST_INT64 then Some True
            else do {
              a \<leftarrow> ck64 (- iA);
              b \<leftarrow> ck64 (- iB);
              q \<leftarrow> div64 LARGEST_INT64 b;
              Some (a > q) }
          else Some False
        else Some False);
     if overflow then Some (1, iA) else do { r \<leftarrow> ck64 (iA * iB); Some (0, r) } }"

definition sqlite3AbsInt32 :: "int \<Rightarrow> int option" where
  "sqlite3AbsInt32 x =
     (if x \<ge> 0 then Some x
      else if x = - 0x80000000 then Some 0x7fffffff
      else ck32 (- x))"

section \<open>Text to integers\<close>

text \<open>
  \<open>compare2pow63\<close> on the nineteen bytes the loop visits. The bytes are digits, so their signedness
  does not matter.
\<close>

definition pow63 :: "u8 list" where
  "pow63 = [57, 50, 50, 51, 51, 55, 50, 48, 51, 54, 56, 53, 52, 55, 55, 53, 56, 48]"

fun compare_loop :: "u8 list \<Rightarrow> u8 list \<Rightarrow> int" where
  "compare_loop (z # zs) (p # ps) =
     (let c = (int (unat z) - int (unat p)) * 10 in if c = 0 then compare_loop zs ps else c)"
| "compare_loop zs ps = 0"

definition compare2pow63 :: "u8 list \<Rightarrow> int" where
  "compare2pow63 zNum =
     (let c = compare_loop (take 18 zNum) pow63 in
      if c = 0 then int (unat (zNum ! 18)) - 56 else c)"

text \<open>
  \<open>sqlite3Atoi64\<close> walks over the text with the step \<open>incr\<close>, one byte or, in UTF-16, the low byte of
  each unit up to the first one whose high byte is not zero. \<open>atoi64_bytes\<close> gives the bytes it
  visits and \<open>nonNum\<close>; the rest of the routine works on them. A UTF-16 text has an even length.
\<close>

fun every_other :: "u8 list \<Rightarrow> u8 list" where
  "every_other (a # b # z) = a # every_other z"
| "every_other z = z"

fun high_zero_units :: "u8 list \<Rightarrow> nat" where
  "high_zero_units [] = 0"
| "high_zero_units (h # hs) = (if h = 0 then 1 + high_zero_units hs else 0)"

definition atoi64_bytes :: "u8 list \<Rightarrow> u8 \<Rightarrow> (u8 list \<times> bool) option" where
  "atoi64_bytes z enc =
     (if enc = SQLITE_UTF8 then Some (z, False)
      else if odd (length z) then None
      else
        let high = every_other (drop (unat (3 - enc)) z);
            low = every_other (drop (unat (enc AND 1)) z);
            k = high_zero_units high
        in Some (take k low, k < length high))"

fun atoi64_tail :: "u8 list \<Rightarrow> bool" where
  "atoi64_tail [] = False"
| "atoi64_tail (c # z) = (if \<not> sqlite3Isspace c then True else atoi64_tail z)"

fun atoi64_digits :: "u64 \<Rightarrow> u8 list \<Rightarrow> nat \<Rightarrow> u64 \<times> nat" where
  "atoi64_digits u [] i = (u, i)"
| "atoi64_digits u (c # z) i =
     (if c \<ge> 0x30 \<and> c \<le> 0x39 then atoi64_digits (u * 10 + ucast c - 0x30) z (i + 1) else (u, i))"

definition sqlite3Atoi64 :: "u8 list \<Rightarrow> u8 \<Rightarrow> (nat \<times> int) option" where
  "sqlite3Atoi64 z enc = do {
     (zNum, nonNum) \<leftarrow> atoi64_bytes z enc;
     let zNum = dropWhile sqlite3Isspace zNum;
     let (neg, zNum) = (case zNum of
            [] \<Rightarrow> (False, [])
          | c # r \<Rightarrow> if c = 0x2d then (True, r) else if c = 0x2b then (False, r) else (False, zNum));
     let zStart = zNum;
     let zNum = dropWhile (\<lambda>c. c = 0x30) zNum;
     let (u, i) = atoi64_digits 0 zNum 0;
     pNum \<leftarrow> (if u > 0x7fffffffffffffff then Some (if neg then SMALLEST_INT64 else LARGEST_INT64)
             else if neg then ck64 (- uint u)
             else Some (uint u));
     let rc = (if (i = 0 \<and> length zStart = length zNum) \<or> nonNum then 1
               else if atoi64_tail (drop i zNum) then 1 else 0);
     if i < 19 then Some (rc, pNum)
     else
       let c = (if i > 19 then 1 else compare2pow63 zNum) in
       if c < 0 then Some (rc, pNum)
       else
         let pNum = (if neg then SMALLEST_INT64 else LARGEST_INT64) in
         Some (if c > 0 then 2 else if neg then rc else 3, pNum) }"

fun hex_digits64 :: "u64 \<Rightarrow> u8 list \<Rightarrow> nat \<Rightarrow> u64 \<times> nat" where
  "hex_digits64 u [] k = (u, k)"
| "hex_digits64 u (c # z) k =
     (if sqlite3Isxdigit c then hex_digits64 (u * 16 + ucast (sqlite3HexToInt (ucast c))) z (k + 1) else (u, k))"

definition sqlite3DecOrHexToI64 :: "u8 list \<Rightarrow> (nat \<times> int) option" where
  "sqlite3DecOrHexToI64 z =
     (if zc z 0 = 0x30 \<and> (zc z 1 = 0x78 \<or> zc z 1 = 0x58) then
        let z = dropWhile (\<lambda>c. c = 0x30) (drop 2 z);
            (u, k) = hex_digits64 0 z 0
        in Some (if zc z k = 0 \<and> k \<le> 16 then 0 else 2, sint u)
      else sqlite3Atoi64 z SQLITE_UTF8)"

fun hex_digits32 :: "u32 \<Rightarrow> u8 list \<Rightarrow> nat \<Rightarrow> u32 \<times> nat" where
  "hex_digits32 u [] i = (u, i)"
| "hex_digits32 u (c # z) i =
     (if sqlite3Isxdigit c \<and> i < 8 then hex_digits32 (u * 16 + ucast (sqlite3HexToInt (ucast c))) z (i + 1)
      else (u, i))"

fun int32_digits :: "int \<Rightarrow> u8 list \<Rightarrow> nat \<Rightarrow> (int \<times> nat) option" where
  "int32_digits v [] i = Some (v, i)"
| "int32_digits v (c # z) i =
     (if i < 11 \<and> c \<ge> 0x30 \<and> c \<le> 0x39 then do {
        m \<leftarrow> ck64 (v * 10);
        v \<leftarrow> ck64 (m + (uint c - 48));
        int32_digits v z (i + 1) }
      else Some (v, i))"

text \<open>
  \<open>sqlite3GetInt32\<close> on a NUL-terminated string; \<open>int32_decimal\<close> is its part after the sign. The
  outer option is the checked arithmetic, the inner one the value stored when the routine returns
  true.
\<close>

definition int32_decimal :: "bool \<Rightarrow> u8 list \<Rightarrow> int option option" where
  "int32_decimal neg zNum =
     (if \<not> sqlite3Isdigit (zc zNum 0) then Some None
      else do {
        (v, i) \<leftarrow> int32_digits 0 (dropWhile (\<lambda>c. c = 0x30) zNum) 0;
        if i > 10 then Some None
        else do {
          d \<leftarrow> ck64 (v - (if neg then 1 else 0));
          if d > 2147483647 then Some None
          else do {
            v \<leftarrow> (if neg then ck64 (- v) else Some v);
            v \<leftarrow> ck32 v;
            Some (Some v) } } })"

definition sqlite3GetInt32 :: "u8 list \<Rightarrow> int option option" where
  "sqlite3GetInt32 zNum =
     (if zc zNum 0 = 0x2d then int32_decimal True (drop 1 zNum)
      else if zc zNum 0 = 0x2b then int32_decimal False (drop 1 zNum)
      else if zc zNum 0 = 0x30 \<and> (zc zNum 1 = 0x78 \<or> zc zNum 1 = 0x58) \<and> sqlite3Isxdigit (zc zNum 2) then
        let z = dropWhile (\<lambda>c. c = 0x30) (drop 2 zNum);
            (u, i) = hex_digits32 0 z 0
        in if u AND 0x80000000 = 0 \<and> \<not> sqlite3Isxdigit (zc z i) then Some (Some (uint u))
           else Some None
      else int32_decimal False zNum)"

definition sqlite3Atoi :: "u8 list option \<Rightarrow> int option" where
  "sqlite3Atoi z =
     (case z of
        None \<Rightarrow> Some 0
      | Some z \<Rightarrow> do { r \<leftarrow> sqlite3GetInt32 z; Some (case r of None \<Rightarrow> 0 | Some x \<Rightarrow> x) })"

section \<open>Logarithmic estimates\<close>

text \<open>A \<^verbatim>\<open>LogEst\<close> is a 16-bit signed integer; the values below stay far inside.\<close>

definition logest_add_table :: "nat list" where
  "logest_add_table =
     [10, 10, 9, 9, 8, 8, 7, 7, 7, 6, 6, 6, 5, 5, 5, 4, 4, 4, 4, 3, 3, 3, 3, 3, 3, 2, 2, 2, 2, 2, 2, 2]"

definition sqlite3LogEstAdd :: "int \<Rightarrow> int \<Rightarrow> int option" where
  "sqlite3LogEstAdd a b =
     (if a \<ge> b then
        if a > b + 49 then Some a
        else if a > b + 31 then Some (a + 1)
        else map_option (\<lambda>x. a + int x) (rd logest_add_table (nat (a - b)))
      else
        if b > a + 49 then Some b
        else if b > a + 31 then Some (b + 1)
        else map_option (\<lambda>x. b + int x) (rd logest_add_table (nat (b - a))))"

definition logest_table :: "int list" where
  "logest_table = [0, 2, 3, 5, 6, 7, 8, 9]"

text \<open>The three loops. The first one is entered with \<open>x \<ge> 2\<close> only; it would not end for 0.\<close>

lemma double_less: "x < 8 \<and> x \<noteq> 0 \<Longrightarrow> 8 - unat (push_bit 1 (x :: u64)) < 8 - unat x"
proof -
  assume x: "x < 8 \<and> x \<noteq> 0"
  then have "unat x < 8" "0 < unat x" by (simp_all add: word_less_nat_alt unat_gt_0)
  moreover from this(1) have "unat (push_bit 1 x) = unat x * 2" by (simp add: unat_word_ariths)
  ultimately show ?thesis by simp
qed

function logest_up :: "u64 \<Rightarrow> int \<Rightarrow> u64 \<times> int" where
  "logest_up x y = (if x < 8 \<and> x \<noteq> 0 then logest_up (push_bit 1 x) (y - 10) else (x, y))"
  by pat_completeness auto
termination
  by (relation "measure (\<lambda>(x, y). 8 - unat x)") (simp, unfold in_measure case_prod_conv, rule double_less)

function logest_down4 :: "u64 \<Rightarrow> int \<Rightarrow> u64 \<times> int" where
  "logest_down4 x y = (if x > 255 then logest_down4 (drop_bit 4 x) (y + 40) else (x, y))"
  by pat_completeness auto
termination
  by (relation "measure (\<lambda>(x, y). unat x)") (auto intro!: drop_bit_less)

function logest_down1 :: "u64 \<Rightarrow> int \<Rightarrow> u64 \<times> int" where
  "logest_down1 x y = (if x > 15 then logest_down1 (drop_bit 1 x) (y + 10) else (x, y))"
  by pat_completeness auto
termination
  by (relation "measure (\<lambda>(x, y). unat x)") (auto intro!: drop_bit_less)

declare logest_up.simps [simp del] logest_down4.simps [simp del] logest_down1.simps [simp del]

definition sqlite3LogEst :: "u64 \<Rightarrow> int" where
  "sqlite3LogEst x =
     (if x < 8 \<and> x < 2 then 0
      else
        let (x, y) = (if x < 8 then logest_up x 40
                      else let (x, y) = logest_down4 x 40 in logest_down1 x y)
        in logest_table ! unat (x AND 7) + y - 10)"

end
