(* ===== verification/NumFacts.thy ===== *)
theory NumFacts
  imports UtilNum
begin

text \<open>
  The correctness of the number routines of \<open>UtilNum\<close>: signed arithmetic with overflow detection,
  decimal and hexadecimal text, and the logarithmic estimates. \<open>dval\<close> and \<open>hval\<close> are the values of
  digit strings, \<open>strip0\<close> drops the leading zeros as the routines do.
\<close>

section \<open>Signed arithmetic that reports overflow\<close>

lemmas i64_defs = i64_def LARGEST_INT64_def SMALLEST_INT64_def

lemma ck64_Some [simp]: "i64 x \<Longrightarrow> ck64 x = Some x"
  by (simp add: ck64_def)

lemma AddInt64_ok: "i64 a \<Longrightarrow> i64 b \<Longrightarrow> sqlite3AddInt64 a b = Some (if i64 (a + b) then (0, a + b) else (1, a))"
  by (auto simp: sqlite3AddInt64_def ck64_def i64_defs)

lemma SubInt64_ok: "i64 a \<Longrightarrow> i64 b \<Longrightarrow> sqlite3SubInt64 a b = Some (if i64 (a - b) then (0, a - b) else (1, a))"
proof -
  assume a: "i64 a" and b: "i64 b"
  show ?thesis
  proof (cases "b = SMALLEST_INT64")
    case True
    with a show ?thesis by (auto simp: sqlite3SubInt64_def ck64_def i64_defs)
  next
    case False
    then have nb: "i64 (- b)" using b by (auto simp: i64_defs)
    with False AddInt64_ok [OF a nb] show ?thesis by (simp add: sqlite3SubInt64_def)
  qed
qed

lemma le_div_iff: "0 < b \<Longrightarrow> a \<le> n div b \<longleftrightarrow> a * b \<le> (n :: int)"
proof
  assume b: "0 < b" and "a \<le> n div b"
  then have "a * b \<le> n div b * b" by simp
  also have "\<dots> \<le> n" using b by (simp add: minus_mod_eq_div_mult [symmetric])
  finally show "a * b \<le> n" .
next
  assume b: "0 < b" and "a * b \<le> n"
  then show "a \<le> n div b" using zdiv_mono1 [of "a * b" n b] by simp
qed

lemma div_range: "0 < b \<Longrightarrow> 0 \<le> n \<Longrightarrow> 0 \<le> n div b \<and> n div b \<le> (n :: int)"
  using le_div_iff [of b "n div b" n] mult_left_mono [of 1 b "n div b"]
  by (simp add: pos_imp_zdiv_nonneg_iff)

lemma div64_pos: "0 < b \<Longrightarrow> i64 b \<Longrightarrow> div64 LARGEST_INT64 b = Some (LARGEST_INT64 div b)"
proof -
  assume b: "0 < b" "i64 b"
  have "0 \<le> LARGEST_INT64 div b" "LARGEST_INT64 div b \<le> LARGEST_INT64"
    using b div_range [of b LARGEST_INT64] by (simp_all add: LARGEST_INT64_def)
  moreover have "LARGEST_INT64 sdiv b = LARGEST_INT64 div b"
    using b by (simp add: signed_divide_int_def LARGEST_INT64_def)
  ultimately show ?thesis using b by (simp add: div64_def ck64_def i64_defs)
qed

lemma div64_neg: "0 < b \<Longrightarrow> div64 SMALLEST_INT64 b = Some (- (2 ^ 63 div b))"
proof -
  assume b: "0 < b"
  have "0 \<le> (2 ^ 63 :: int) div b" "(2 ^ 63 :: int) div b \<le> 2 ^ 63"
    using b div_range [of b "2 ^ 63"] by simp_all
  moreover have "SMALLEST_INT64 sdiv b = - (2 ^ 63 div b)"
    using b by (simp add: signed_divide_int_def SMALLEST_INT64_def)
  ultimately show ?thesis using b by (simp add: div64_def ck64_def i64_defs)
qed

lemma mult_sign: "(a :: int) < 0 \<Longrightarrow> b > 0 \<Longrightarrow> a * b < 0"
  by (simp add: mult_neg_pos)

lemma MulInt64_pos:
  assumes a: "i64 a" and b: "i64 b" "0 < b"
  shows "sqlite3MulInt64 a b = Some (if i64 (a * b) then (0, a * b) else (1, a))"
proof -
  have hi: "a \<le> LARGEST_INT64 div b \<longleftrightarrow> a * b \<le> LARGEST_INT64" using b by (intro le_div_iff)
  have lo: "- a \<le> 2 ^ 63 div b \<longleftrightarrow> - a * b \<le> 2 ^ 63" using b by (intro le_div_iff)
  then have lo': "a < - (2 ^ 63 div b) \<longleftrightarrow> a * b < SMALLEST_INT64"
    by (auto simp: SMALLEST_INT64_def)
  show ?thesis
    using hi lo' b by (auto simp: sqlite3MulInt64_def div64_pos div64_neg ck64_def i64_def not_le not_less)
qed

lemma MulInt64_ok:
  assumes a: "i64 a" and b: "i64 b"
  shows "sqlite3MulInt64 a b = Some (if i64 (a * b) then (0, a * b) else (1, a))"
proof -
  consider "0 < b" | "b = 0" | "b < 0" "0 < a" | "b < 0" "a = 0" | "b < 0" "a < 0" by linarith
  then show ?thesis
  proof cases
    case 3
    have lo: "- b \<le> 2 ^ 63 div a \<longleftrightarrow> - b * a \<le> 2 ^ 63" using 3 by (intro le_div_iff)
    then have lo': "b < - (2 ^ 63 div a) \<longleftrightarrow> a * b < SMALLEST_INT64"
      by (auto simp: SMALLEST_INT64_def mult.commute)
    have "a * b < 0" using 3 by (simp add: mult_pos_neg)
    then show ?thesis
      using lo' 3 by (auto simp: sqlite3MulInt64_def div64_neg ck64_def i64_def LARGEST_INT64_def not_less)
  next
    case 5
    have pos: "a * b > 0" using 5 by (simp add: mult_neg_neg)
    have big: "\<not> i64 (a * b)" if "a = SMALLEST_INT64 \<or> b = SMALLEST_INT64"
    proof -
      have "- a \<ge> 1" "- b \<ge> 1" using 5 by simp_all
      then have "(- a) * (- b) \<ge> - a" "(- a) * (- b) \<ge> - b"
        using mult_left_mono [of 1 "- b" "- a"] mult_right_mono [of 1 "- a" "- b"] by simp_all
      then show ?thesis using that by (auto simp: i64_defs)
    qed
    have "- a \<le> LARGEST_INT64 div (- b) \<longleftrightarrow> - a * - b \<le> LARGEST_INT64" using 5 by (intro le_div_iff) simp
    moreover have "i64 (- a)" "i64 (- b)" "0 < - b" if "a \<noteq> SMALLEST_INT64" "b \<noteq> SMALLEST_INT64"
      using that a b 5 by (auto simp: i64_defs)
    ultimately show ?thesis
      using 5 big pos div64_pos [of "- b"]
      by (cases "a = SMALLEST_INT64 \<or> b = SMALLEST_INT64")
         (auto simp: sqlite3MulInt64_def ck64_def [of "a * b"] i64_def [of "a * b"] SMALLEST_INT64_def not_less not_le)
  qed (use a b MulInt64_pos in \<open>simp_all add: sqlite3MulInt64_def i64_defs\<close>)
qed

lemma AbsInt32_ok: "i32 x \<Longrightarrow> sqlite3AbsInt32 x = Some (min \<bar>x\<bar> 0x7fffffff)"
  by (auto simp: sqlite3AbsInt32_def ck32_def i32_def)

section \<open>Decimal text\<close>

definition digit :: "u8 \<Rightarrow> bool" where
  "digit c \<longleftrightarrow> c \<ge> 0x30 \<and> c \<le> 0x39"

fun dval :: "u8 list \<Rightarrow> nat" where
  "dval [] = 0"
| "dval (c # z) = (unat c - 48) * 10 ^ length z + dval z"

lemma digit_unat: "digit c \<longleftrightarrow> 48 \<le> unat c \<and> unat c \<le> 57"
  by (simp add: digit_def word_le_nat_alt)

lemma dval_less: "\<forall>c \<in> set z. digit c \<Longrightarrow> dval z < 10 ^ length z"
proof (induction z)
  case (Cons c z)
  then have "unat c \<le> 57" by (simp add: digit_unat)
  then have "unat c - 48 \<le> 9" by simp
  then have 1: "(unat c - 48) * 10 ^ length z \<le> 9 * 10 ^ length z" by (rule mult_right_mono) simp
  have "dval z < 10 ^ length z" using Cons by simp
  with 1 show ?case by (simp only: dval.simps list.size power_Suc add_0_right add_Suc_right)
qed simp

lemma dval_snoc: "dval (z @ [c]) = dval z * 10 + (unat c - 48)"
  by (induction z) (simp_all add: algebra_simps)

lemma dval_append: "dval (y @ z) = dval y * 10 ^ length z + dval z"
  by (induction y) (simp_all add: algebra_simps power_add)

lemma dval_zeros: "\<forall>c \<in> set y. c = 0x30 \<Longrightarrow> dval y = 0"
  by (induction y) simp_all

lemma len_u64: "LENGTH(64) = 64"
  by simp

lemma digit_step:
  assumes "digit c" and "unat u * 10 + (unat c - 48) < 2 ^ 64"
  shows "unat (u * 10 + ucast c - 0x30 :: u64) = unat u * 10 + (unat c - 48)"
proof -
  have c: "48 \<le> unat c" "unat c \<le> 57" using assms(1) by (simp_all add: digit_unat)
  have "(ucast c :: u64) = word_of_nat (unat c)"
    by (simp add: word_unat_eq_iff)
  also have "\<dots> = word_of_nat (unat c - 48 + 48)" using c by simp
  also have "\<dots> = word_of_nat (unat c - 48) + 0x30" by (simp only: of_nat_add of_nat_numeral)
  finally have "u * 10 + ucast c - 0x30 = u * 10 + word_of_nat (unat c - 48)" by simp
  also have "\<dots> = word_of_nat (unat u * 10 + (unat c - 48))" by (simp only: of_nat_add of_nat_mult) simp
  finally have "u * 10 + ucast c - 0x30 = word_of_nat (unat u * 10 + (unat c - 48))" .
  then show ?thesis using assms(2) by (simp only: unsigned_of_nat take_bit_nat_eq_self len_u64 of_nat_id)
qed

lemma atoi64_digits_ok:
  assumes "\<forall>c \<in> set ds. digit c" and "rest = [] \<or> \<not> digit (hd rest)"
  shows "\<exists>u'. atoi64_digits u (ds @ rest) i = (u', i + length ds)
    \<and> (unat u * 10 ^ length ds + dval ds < 2 ^ 64 \<longrightarrow> unat u' = unat u * 10 ^ length ds + dval ds)"
  using assms(1)
proof (induction ds arbitrary: u i)
  case Nil
  then show ?case using assms(2) by (cases rest) (auto simp: digit_def)
next
  case (Cons c ds)
  let ?u = "u * 10 + ucast c - 0x30"
  obtain u' where 1: "atoi64_digits ?u (ds @ rest) (i + 1) = (u', i + 1 + length ds)"
    "unat ?u * 10 ^ length ds + dval ds < 2 ^ 64 \<longrightarrow> unat u' = unat ?u * 10 ^ length ds + dval ds"
    using Cons.IH [of ?u "i + 1"] Cons.prems by auto
  have c: "digit c" using Cons.prems by simp
  have "unat u' = unat u * 10 ^ length (c # ds) + dval (c # ds)"
    if small: "unat u * 10 ^ length (c # ds) + dval (c # ds) < 2 ^ 64"
  proof -
    have eq: "(unat u * 10 + (unat c - 48)) * 10 ^ length ds + dval ds
        = unat u * 10 ^ length (c # ds) + dval (c # ds)"
      by (simp add: algebra_simps)
    have "(unat u * 10 + (unat c - 48)) * 1 \<le> (unat u * 10 + (unat c - 48)) * 10 ^ length ds"
      by (rule mult_left_mono) simp_all
    then have "unat u * 10 + (unat c - 48) \<le> (unat u * 10 + (unat c - 48)) * 10 ^ length ds + dval ds"
      unfolding mult_1_right by (rule trans_le_add1)
    also note eq
    also note small
    finally have "unat ?u = unat u * 10 + (unat c - 48)" by (rule digit_step [OF c])
    then show ?thesis using 1(2) small eq by (simp only: mp)
  qed
  moreover have "atoi64_digits u ((c # ds) @ rest) i = (u', i + length (c # ds))"
    using 1(1) c by (simp add: digit_def)
  ultimately show ?case by blast
qed

lemma compare_loop_ok:
  assumes "length z = length p" and "\<forall>c \<in> set z. digit c" and "\<forall>c \<in> set p. digit c"
  shows "(compare_loop z p = 0 \<longleftrightarrow> z = p)
    \<and> (compare_loop z p \<noteq> 0 \<longrightarrow> (compare_loop z p < 0 \<longleftrightarrow> dval z < dval p))
    \<and> (z \<noteq> p \<longrightarrow> dval z \<noteq> dval p)"
  using assms
proof (induction z p rule: compare_loop.induct)
  case (1 z zs p ps)
  let ?n = "length zs"
  have d: "digit z" "digit p" and b: "dval zs < 10 ^ ?n" "dval ps < 10 ^ ?n"
    using 1 dval_less [of zs] dval_less [of ps] by simp_all
  show ?case
  proof (cases "unat z = unat p")
    case True
    then have "z = p" by (simp add: word_unat_eq_iff)
    with 1 show ?thesis by simp
  next
    case False
    have less: "dval (a # as) < dval (b # bs)"
      if "unat a < unat b" "48 \<le> unat a" "dval as < 10 ^ ?n" "length as = ?n" "length bs = ?n" for a b :: u8 and as bs
    proof -
      have "unat a - 48 + 1 \<le> unat b - 48" using that by simp
      then have "(unat a - 48 + 1) * 10 ^ ?n \<le> (unat b - 48) * 10 ^ ?n" by (rule mult_right_mono) simp
      then have "(unat a - 48) * 10 ^ ?n + 10 ^ ?n \<le> (unat b - 48) * 10 ^ ?n"
        by (simp only: add_mult_distrib mult_1)
      then show ?thesis using that(3) by (simp only: dval.simps that(4,5))
    qed
    have l: "length ps = ?n" using 1 by simp
    show ?thesis
    proof (cases "unat z < unat p")
      case True
      then have "dval (z # zs) < dval (p # ps)" using d b l by (intro less) (simp_all add: digit_unat)
      moreover have "int (unat z) < int (unat p)" using True by (simp only: of_nat_less_iff)
      ultimately show ?thesis using \<open>unat z \<noteq> unat p\<close> by (auto simp: Let_def)
    next
      case False
      then have "unat p < unat z" using \<open>unat z \<noteq> unat p\<close> by simp
      moreover from this have "dval (p # ps) < dval (z # zs)" using d b l by (intro less) (simp_all add: digit_unat)
      moreover from calculation have "int (unat p) < int (unat z)" by (simp only: of_nat_less_iff)
      ultimately show ?thesis by (auto simp: Let_def)
    qed
  qed
qed simp_all

lemma compare2pow63_ok:
  assumes "length z = 19" and "\<forall>c \<in> set z. digit c"
  shows "(compare2pow63 z < 0 \<longleftrightarrow> dval z < 2 ^ 63) \<and> (compare2pow63 z = 0 \<longleftrightarrow> dval z = 2 ^ 63)"
proof -
  let ?y = "take 18 z" and ?c = "z ! 18"
  have z: "z = ?y @ [?c]" using assms(1) by (simp add: take_Suc_conv_app_nth [symmetric])
  have ly: "length ?y = 18" using assms(1) by simp
  have y: "\<forall>c \<in> set ?y. digit c" using assms(2) by (auto dest: in_set_takeD)
  have c: "digit ?c" using assms by simp
  have p: "length pow63 = 18" "\<forall>c \<in> set pow63. digit c" "dval pow63 = 922337203685477580"
    by (simp_all add: pow63_def digit_unat)
  define k where "k = unat ?c"
  have v: "dval z = dval ?y * 10 + (k - 48)" using dval_snoc [of ?y ?c] z by (simp add: k_def)
  have def: "compare2pow63 z = (if compare_loop ?y pow63 = 0 then int k - 56 else compare_loop ?y pow63)"
    by (simp only: compare2pow63_def Let_def k_def)
  note cl = compare_loop_ok [of ?y pow63, OF _ y p(2)]
  have c': "48 \<le> k" "k \<le> 57" using c by (simp_all add: digit_unat k_def)
  show ?thesis
  proof (cases "compare_loop ?y pow63 = 0")
    case True
    then have "dval ?y = 922337203685477580" using cl ly p by simp
    then show ?thesis using True c' unfolding v def by auto
  next
    case False
    then have ne: "dval ?y \<noteq> 922337203685477580" using cl ly p by auto
    have "compare_loop ?y pow63 < 0 \<longleftrightarrow> dval ?y < 922337203685477580" using False cl ly p by auto
    then show ?thesis using False ne c' unfolding v def by auto
  qed
qed

lemma dropWhile_prefix: "\<forall>c \<in> set xs. P c \<Longrightarrow> ys = [] \<or> \<not> P (hd ys) \<Longrightarrow> dropWhile P (xs @ ys) = ys"
  by (induction xs) (auto simp: dropWhile_eq_self_iff)

lemma atoi64_tail_iff: "atoi64_tail z \<longleftrightarrow> (\<exists>c \<in> set z. \<not> sqlite3Isspace c)"
  by (induction z) auto

text \<open>What the text denotes: the sign, the digits without the leading zeros.\<close>

definition strip0 :: "u8 list \<Rightarrow> u8 list" where
  "strip0 ds = dropWhile (\<lambda>c. c = 0x30) ds"

lemma strip0_split: "ds = takeWhile (\<lambda>c. c = 0x30) ds @ strip0 ds"
  by (simp add: strip0_def)

lemma dval_strip0: "dval (strip0 ds) = dval ds"
proof -
  have "dval ds = dval (takeWhile (\<lambda>c. c = 0x30) ds @ strip0 ds)" by (simp flip: strip0_split)
  also have "\<dots> = dval (strip0 ds)"
    using dval_zeros [of "takeWhile (\<lambda>c. c = 0x30) ds"] by (auto simp: dval_append dest: set_takeWhileD)
  finally show ?thesis by simp
qed

lemma dval_large:
  assumes "\<forall>c \<in> set ds. digit c" and "n < length (strip0 ds)"
  shows "10 ^ n \<le> dval ds"
proof -
  obtain c z where s: "strip0 ds = c # z" using assms(2) by (cases "strip0 ds") auto
  then have "c \<in> set ds" "c \<noteq> 0x30"
    using set_dropWhileD [of c "\<lambda>c. c = 0x30" ds] hd_dropWhile [of "\<lambda>c. c = 0x30" ds] by (auto simp: strip0_def)
  then have "1 \<le> unat c - 48"
    using assms(1) by (auto simp: digit_unat word_unat_eq_iff)
  then have "1 * 10 ^ length z \<le> (unat c - 48) * 10 ^ length z" by (rule mult_right_mono) simp
  also have "\<dots> \<le> dval (strip0 ds)" by (simp add: s)
  finally have "10 ^ length z \<le> dval ds" by (simp add: dval_strip0)
  moreover have "(10 :: nat) ^ n \<le> 10 ^ length z" using assms(2) s by (intro power_increasing) simp_all
  ultimately show ?thesis by linarith
qed

lemma strip0_digits: "\<forall>c \<in> set ds. digit c \<Longrightarrow> \<forall>c \<in> set (strip0 ds). digit c"
  by (auto simp: strip0_def dest: set_dropWhileD)

lemma strip0_append:
  assumes "rest = [] \<or> \<not> digit (hd rest)"
  shows "dropWhile (\<lambda>c. c = 0x30) (ds @ rest) = strip0 ds @ rest"
proof (cases "strip0 ds")
  case Nil
  then have "\<forall>c \<in> set ds. c = 0x30" by (simp add: strip0_def)
  moreover have "rest = [] \<or> hd rest \<noteq> 0x30" using assms by (auto simp: digit_def)
  ultimately show ?thesis using Nil by (cases rest) (simp_all add: dropWhile_prefix)
next
  case (Cons c z)
  then have "c \<noteq> 0x30" using hd_dropWhile [of "\<lambda>c. c = 0x30" ds] by (auto simp: strip0_def)
  have "dropWhile (\<lambda>c. c = 0x30) (takeWhile (\<lambda>c. c = 0x30) ds @ strip0 ds @ rest) = strip0 ds @ rest"
    using Cons \<open>c \<noteq> 0x30\<close> by (intro dropWhile_prefix) (auto dest: set_takeWhileD)
  then show ?thesis using strip0_split [of ds] by (metis append.assoc)
qed

definition clamp64 :: "int \<Rightarrow> int" where
  "clamp64 x = max SMALLEST_INT64 (min LARGEST_INT64 x)"

text \<open>The core of the routine after the sign.\<close>

lemma atoi64_core:
  fixes neg nonNum :: bool
  assumes ds: "\<forall>c \<in> set ds. digit c" "ds \<noteq> []" and rest: "rest = [] \<or> \<not> digit (hd rest)"
  defines "z \<equiv> strip0 ds @ rest" and "v \<equiv> (if neg then - int (dval ds) else int (dval ds))"
  shows "(do {
     let (u, i) = atoi64_digits 0 z 0;
     pNum \<leftarrow> (if u > 0x7fffffffffffffff then Some (if neg then SMALLEST_INT64 else LARGEST_INT64)
             else if neg then ck64 (- uint u)
             else Some (uint u));
     let rc = (if (i = 0 \<and> length (ds @ rest) = length z) \<or> nonNum then 1
               else if atoi64_tail (drop i z) then 1 else 0);
     if i < 19 then Some (rc, pNum)
     else
       let c = (if i > 19 then 1 else compare2pow63 z) in
       if c < 0 then Some (rc, pNum)
       else
         let pNum = (if neg then SMALLEST_INT64 else LARGEST_INT64) in
         Some (if c > 0 then 2 else if neg then rc else 3, pNum) })
    = Some (if i64 v then (if nonNum \<or> atoi64_tail rest then 1 else 0)
            else if v = 2 ^ 63 then 3 else (2 :: nat), clamp64 v)"
proof -
  let ?s = "strip0 ds" let ?n = "length ?s"
  have sd: "\<forall>c \<in> set ?s. digit c" using ds by (intro strip0_digits)
  obtain u where u: "atoi64_digits 0 z 0 = (u, ?n)" "dval ?s < 2 ^ 64 \<longrightarrow> unat u = dval ?s"
    using atoi64_digits_ok [OF sd rest, of 0 0] by (auto simp: z_def)
  have dv: "dval ?s = dval ds" by (rule dval_strip0)
  have rc0: "\<not> (?n = 0 \<and> length (ds @ rest) = length z)" using ds(2) by (simp add: z_def)
  have dr: "drop ?n z = rest" by (simp add: z_def)
  have b: "dval ds < 10 ^ ?n" using dval_less [OF sd] dv by simp
  have gt: "x > 0x7fffffffffffffff \<longleftrightarrow> uint x > 0x7fffffffffffffff" for x :: u64
    by (simp add: word_less_def)
  consider (short) "?n < 19" | (exact) "?n = 19" | (long) "19 < ?n" by linarith
  then show ?thesis
  proof cases
    case short
    then have "(10 :: nat) ^ ?n \<le> 10 ^ 18" by (intro power_increasing) simp_all
    then have small: "dval ds < 10 ^ 18" using b by linarith
    then have "unat u = dval ds" using u(2) dv by simp
    then have "int (unat u) = int (dval ds)" by (simp only: of_nat_eq_iff)
    then have uu: "uint u = int (dval ds)" by simp
    have "i64 v" "\<not> uint u > 0x7fffffffffffffff" "clamp64 v = v" "i64 (- uint u)"
      using small by (auto simp: v_def i64_defs uu clamp64_def)
    then show ?thesis
      using short rc0 by (simp add: u(1) gt dr Let_def) (auto simp: v_def uu)
  next
    case exact
    then have small: "dval ds < 10 ^ 19" using b by simp
    then have "unat u = dval ds" using u(2) dv by simp
    then have "int (unat u) = int (dval ds)" by (simp only: of_nat_eq_iff)
    then have uu: "uint u = int (dval ds)" by simp
    have "compare2pow63 ?s = compare2pow63 z"
      using exact by (simp add: compare2pow63_def z_def nth_append Let_def)
    then have cmp: "compare2pow63 z < 0 \<longleftrightarrow> dval ds < 2 ^ 63" "compare2pow63 z = 0 \<longleftrightarrow> dval ds = 2 ^ 63"
      using compare2pow63_ok [OF exact sd] dv by simp_all
    consider "dval ds < 2 ^ 63" | "dval ds = 2 ^ 63" | "dval ds > 2 ^ 63" by linarith
    then show ?thesis
    proof cases
      case 1
      then have "i64 v" "\<not> uint u > 0x7fffffffffffffff" "clamp64 v = v" "i64 (- uint u)" "compare2pow63 z < 0"
        using cmp by (auto simp: v_def i64_defs uu clamp64_def)
      then show ?thesis
        using exact rc0 dr by (simp add: u(1) gt dr Let_def) (auto simp: v_def uu)
    next
      case 2
      then have "uint u > 0x7fffffffffffffff" "compare2pow63 z = 0"
        using cmp by (auto simp: uu)
      then show ?thesis
        using exact rc0 2 dr by (simp add: u(1) gt dr Let_def v_def i64_defs clamp64_def)
    next
      case 3
      then have "uint u > 0x7fffffffffffffff" "\<not> compare2pow63 z < 0" "compare2pow63 z \<noteq> 0"
        using cmp by (auto simp: uu)
      moreover have "\<not> i64 v" "v \<noteq> 2 ^ 63" "clamp64 v = (if neg then SMALLEST_INT64 else LARGEST_INT64)"
        using 3 by (auto simp: v_def i64_defs clamp64_def)
      ultimately show ?thesis
        using exact rc0 dr by (simp add: u(1) gt dr Let_def)
    qed
  next
    case long
    then have "10 ^ 19 \<le> dval ds" using dval_large [OF ds(1)] by blast
    then have "\<not> i64 v" "v \<noteq> 2 ^ 63" "clamp64 v = (if neg then SMALLEST_INT64 else LARGEST_INT64)"
      by (auto simp: v_def i64_defs clamp64_def)
    moreover have "uint u \<le> 0x7fffffffffffffff \<Longrightarrow> i64 (- uint u)" by (simp add: i64_defs) (smt (verit) uint_ge_0 zero_le_numeral)
    ultimately show ?thesis
      using long rc0 by (simp add: u(1) gt dr Let_def not_less)
  qed
qed

text \<open>The three encodings of the same ASCII text show the routine the same bytes.\<close>

lemma every_other_interleave:
  "every_other (concat (map (\<lambda>c. [c, h c]) z)) = z"
  by (induction z) simp_all

lemma every_other_interleave':
  "every_other (drop 1 (concat (map (\<lambda>c. [h c, c]) z))) = z"
proof (induction z)
  case (Cons c z)
  then show ?case by (cases z) simp_all
qed simp

lemma every_other_high:
  "every_other (drop 1 (concat (map (\<lambda>c. [c, 0]) z))) = replicate (length z) 0"
  "every_other (concat (map (\<lambda>c. [0, c]) z)) = replicate (length z) 0"
proof -
  show "every_other (drop 1 (concat (map (\<lambda>c. [c, 0]) z))) = replicate (length z) 0"
  proof (induction z)
    case (Cons c z)
    then show ?case by (cases z) simp_all
  qed simp
  show "every_other (concat (map (\<lambda>c. [0, c]) z)) = replicate (length z) 0"
    by (induction z) simp_all
qed

lemma high_zero_replicate: "high_zero_units (replicate n 0) = n"
  by (induction n) simp_all

definition ascii_text :: "u8 \<Rightarrow> u8 list \<Rightarrow> u8 list" where
  "ascii_text enc z = (if enc = SQLITE_UTF8 then z
     else if enc = SQLITE_UTF16LE then concat (map (\<lambda>c. [c, 0]) z) else concat (map (\<lambda>c. [0, c]) z))"

lemma even_length_pairs: "even (length (concat (map (\<lambda>c. [f c, g c]) z)))"
  by (induction z) simp_all

lemma atoi64_bytes_ascii:
  "enc \<in> {SQLITE_UTF8, SQLITE_UTF16LE, SQLITE_UTF16BE} \<Longrightarrow> atoi64_bytes (ascii_text enc z) enc = Some (z, False)"
  using even_length_pairs [of "\<lambda>c. c" "\<lambda>c. 0" z] even_length_pairs [of "\<lambda>c. 0" "\<lambda>c. c" z]
  by (auto simp: atoi64_bytes_def ascii_text_def SQLITE_UTF8_def SQLITE_UTF16LE_def SQLITE_UTF16BE_def
      every_other_interleave [of "\<lambda>c. 0"] every_other_interleave' [of "\<lambda>c. 0", simplified] every_other_high [simplified]
      high_zero_replicate Let_def)

lemma Atoi64_ok:
  assumes enc: "enc \<in> {SQLITE_UTF8, SQLITE_UTF16LE, SQLITE_UTF16BE}"
    and sp: "\<forall>c \<in> set sp. sqlite3Isspace c" and sg: "sg = [] \<or> sg = [0x2d] \<or> sg = [0x2b]"
    and ds: "\<forall>c \<in> set ds. digit c" "ds \<noteq> []" and rest: "rest = [] \<or> \<not> digit (hd rest)"
  defines "v \<equiv> (if sg = [0x2d] then - int (dval ds) else int (dval ds))"
  shows "sqlite3Atoi64 (ascii_text enc (sp @ sg @ ds @ rest)) enc
    = Some (if i64 v then (if atoi64_tail rest then 1 else 0) else if v = 2 ^ 63 then 3 else 2, clamp64 v)"
proof -
  obtain d ds' where d: "ds = d # ds'" "digit d" using ds by (cases ds) auto
  have ns: "\<not> sqlite3Isspace (hd (sg @ ds @ rest))"
    using sg d by (auto simp: sqlite3Isspace_iff digit_unat word_le_nat_alt word_unat_eq_iff)
  have 1: "dropWhile sqlite3Isspace (sp @ sg @ ds @ rest) = sg @ ds @ rest"
    using sp ns by (intro dropWhile_prefix) simp_all
  have nd: "d \<noteq> 0x2d" "d \<noteq> 0x2b" using d by (auto simp: digit_unat)
  have 2: "(case sg @ ds @ rest of [] \<Rightarrow> (False, [])
      | c # r \<Rightarrow> if c = 0x2d then (True, r) else if c = 0x2b then (False, r) else (False, sg @ ds @ rest))
    = (sg = [0x2d], ds @ rest)"
    using sg nd by (auto simp: d)
  note core = atoi64_core [OF ds rest, of "sg = [0x2d]" False, folded v_def]
  show ?thesis
    unfolding sqlite3Atoi64_def atoi64_bytes_ascii [OF enc]
    using core by (simp only: bind.simps prod.case 1 2 Let_def strip0_append [OF rest] simp_thms)
qed

section \<open>32-bit integers\<close>

lemma int32_digits_ok:
  assumes "\<forall>c \<in> set ds. digit c" and "rest = [] \<or> \<not> digit (hd rest)"
    and "0 \<le> v" "v < 10 ^ i" "i \<le> 11"
  shows "\<exists>v'. int32_digits v (ds @ rest) i = Some (v', min 11 (i + length ds)) \<and> 0 \<le> v' \<and> v' < 10 ^ 11
    \<and> (i + length ds \<le> 11 \<longrightarrow> v' = v * 10 ^ length ds + int (dval ds))"
  using assms(1,3-5)
proof (induction ds arbitrary: v i)
  case Nil
  have "(10 :: int) ^ i \<le> 10 ^ 11" using Nil(4) by (intro power_increasing) simp_all
  then have "v < 10 ^ 11" using Nil(3) by linarith
  then show ?case using assms(2) Nil by (cases rest) (auto simp: digit_def)
next
  case (Cons c ds)
  show ?case
  proof (cases "i < 11")
    case False
    then have "i = 11" using Cons.prems by simp
    then show ?thesis using Cons.prems by simp
  next
    case True
    have c: "48 \<le> uint c" "uint c \<le> 57" using Cons.prems(1) by (simp_all add: digit_def word_le_def)
    have cn: "48 \<le> unat c" using Cons.prems(1) by (simp add: digit_unat)
    let ?w = "v * 10 + (uint c - 48)"
    have w: "0 \<le> ?w" "?w < 10 ^ (i + 1)" using c Cons.prems(2,3) by simp_all
    have "(10 :: int) ^ (i + 1) \<le> 10 ^ 11" using True by (intro power_increasing) simp_all
    then have "i64 (v * 10)" "i64 ?w" using w c Cons.prems(2) by (auto simp: i64_defs)
    then have step: "int32_digits v ((c # ds) @ rest) i = int32_digits ?w (ds @ rest) (i + 1)"
      using True Cons.prems(1) by (simp add: digit_def)
    have "int (dval (c # ds)) = (uint c - 48) * 10 ^ length ds + int (dval ds)"
      using cn by (simp add: of_nat_diff)
    then have eq: "v * 10 ^ length (c # ds) + int (dval (c # ds)) = ?w * 10 ^ length ds + int (dval ds)"
      by (simp add: algebra_simps)
    obtain v' where "int32_digits ?w (ds @ rest) (i + 1) = Some (v', min 11 (i + 1 + length ds))"
      "0 \<le> v'" "v' < 10 ^ 11" "i + 1 + length ds \<le> 11 \<longrightarrow> v' = ?w * 10 ^ length ds + int (dval ds)"
      using Cons.IH [of ?w "i + 1"] Cons.prems w True by auto
    then show ?thesis unfolding step eq by auto
  qed
qed

lemma GetInt32_ok:
  assumes sg: "sg = [] \<or> sg = [0x2d] \<or> sg = [0x2b]"
    and ds: "\<forall>c \<in> set ds. digit c" "ds \<noteq> []" and rest: "rest = [] \<or> \<not> digit (hd rest)"
    and nohex: "sg = [] \<Longrightarrow> ds = [0x30] \<Longrightarrow> \<not> (take 1 rest = [0x78] \<or> take 1 rest = [0x58])"
  defines "v \<equiv> (if sg = [0x2d] then - int (dval ds) else int (dval ds))"
  shows "sqlite3GetInt32 (sg @ ds @ rest) = Some (if i32 v then Some v else None)"
proof -
  let ?neg = "sg = [0x2d]" let ?s = "strip0 ds"
  obtain d ds' where d: "ds = d # ds'" "digit d" using ds by (cases ds) auto
  have nd: "d \<noteq> 0x2d" "d \<noteq> 0x2b" "sqlite3Isdigit d" using d by (auto simp: digit_unat sqlite3Isdigit_iff word_le_nat_alt)
  have sd: "\<forall>c \<in> set ?s. digit c" using ds by (intro strip0_digits)
  obtain w where w: "int32_digits 0 (?s @ rest) 0 = Some (w, min 11 (length ?s))" "0 \<le> w" "w < 10 ^ 11"
    "length ?s \<le> 11 \<longrightarrow> w = int (dval ds)"
    using int32_digits_ok [OF sd rest, of 0 0] by (auto simp: dval_strip0)
  have z1: "zc (ds @ rest) 0 = d" by (simp add: d)
  have dec: "int32_decimal ?neg (ds @ rest) = Some (if i32 v then Some v else None)"
  proof (cases "length ?s \<le> 10")
    case False
    then have "10 ^ 10 \<le> dval ds" using dval_large [OF ds(1), of 10] by simp
    then have "\<not> i32 v" by (auto simp: v_def i32_def)
    then show ?thesis using False w(1) nd(3) by (simp add: int32_decimal_def strip0_append [OF rest] z1)
  next
    case True
    then have "w = int (dval ds)" using w by simp
    moreover have "w < 10 ^ 11" using w by simp
    ultimately show ?thesis using True w(1) nd(3)
      by (auto simp: int32_decimal_def strip0_append [OF rest] z1 ck64_def ck32_def i64_defs i32_def v_def)
  qed
  have hex: "\<not> (zc (ds @ rest) 0 = 0x30 \<and> (zc (ds @ rest) 1 = 0x78 \<or> zc (ds @ rest) 1 = 0x58) \<and> sqlite3Isxdigit (zc (ds @ rest) 2))"
    if "sg = []"
  proof (cases ds')
    case Nil
    then show ?thesis using nohex [OF that] d by (cases rest) (auto simp: zc_def)
  next
    case (Cons e ds'')
    then have "digit e" using ds d by simp
    then have "e \<noteq> 0x78" "e \<noteq> 0x58" by (auto simp: digit_unat)
    then show ?thesis using d Cons by (simp add: zc_def)
  qed
  from sg show ?thesis
  proof (elim disjE)
    assume "sg = []"
    then show ?thesis using dec hex nd z1 by (auto simp add: sqlite3GetInt32_def simp del: One_nat_def)
  next
    assume "sg = [0x2d]"
    then show ?thesis using dec by (simp add: sqlite3GetInt32_def Let_def)
  next
    assume "sg = [0x2b]"
    then show ?thesis using dec by (simp add: sqlite3GetInt32_def Let_def)
  qed
qed

section \<open>Hexadecimal literals\<close>

fun hval :: "u8 list \<Rightarrow> nat" where
  "hval [] = 0"
| "hval (c # z) = unat (sqlite3HexToInt (ucast c)) * 16 ^ length z + hval z"

lemma hval_zeros: "hval (dropWhile (\<lambda>c. c = 0x30) z) = hval z"
proof (induction z)
  case (Cons c z)
  have "sqlite3HexToInt (ucast (0x30 :: u8)) = 0" by code_simp
  with Cons show ?case by simp
qed simp

lemma hex_digits64_ok:
  assumes "\<forall>c \<in> set hs. sqlite3Isxdigit c" and "rest = [] \<or> \<not> sqlite3Isxdigit (hd rest)"
  shows "hex_digits64 u (hs @ rest) k = (u * 16 ^ length hs + word_of_nat (hval hs), k + length hs)"
  using assms(1)
proof (induction hs arbitrary: u k)
  case Nil
  then show ?case using assms(2) by (cases rest) auto
next
  case (Cons c hs)
  have "(ucast (sqlite3HexToInt (ucast c)) :: u64) = word_of_nat (unat (sqlite3HexToInt (ucast c)))"
    by (simp add: word_unat_eq_iff)
  with Cons show ?case by (simp add: algebra_simps)
qed

lemma DecOrHex_hex:
  assumes hs: "\<forall>c \<in> set hs. sqlite3Isxdigit c" and rest: "rest = [] \<or> \<not> sqlite3Isxdigit (hd rest)"
    and x: "x = 0x78 \<or> x = 0x58" and c: "cstring rest"
  shows "sqlite3DecOrHexToI64 (0x30 # x # hs @ rest)
    = Some (if rest = [] \<and> length (strip0 hs) \<le> 16 then 0 else 2, sint (word_of_nat (hval hs) :: u64))"
proof -
  have s: "dropWhile (\<lambda>c. c = 0x30) (hs @ rest) = strip0 hs @ rest"
  proof (cases "strip0 hs")
    case Nil
    then have a: "\<forall>c \<in> set hs. c = 0x30" by (simp add: strip0_def)
    have "sqlite3Isxdigit 0x30" by (simp add: sqlite3Isxdigit_iff)
    then have "rest = [] \<or> hd rest \<noteq> 0x30" using rest by auto
    then show ?thesis using dropWhile_prefix [OF a, of rest] Nil by simp
  next
    case (Cons c z)
    then have "c \<noteq> 0x30" using hd_dropWhile [of "\<lambda>c. c = 0x30" hs] by (auto simp: strip0_def)
    have "dropWhile (\<lambda>c. c = 0x30) (takeWhile (\<lambda>c. c = 0x30) hs @ strip0 hs @ rest) = strip0 hs @ rest"
      using Cons \<open>c \<noteq> 0x30\<close> by (intro dropWhile_prefix) (auto dest: set_takeWhileD)
    then show ?thesis using strip0_split [of hs] by (metis append.assoc)
  qed
  have "\<forall>c \<in> set (strip0 hs). sqlite3Isxdigit c" using hs by (auto simp: strip0_def dest: set_dropWhileD)
  from hex_digits64_ok [OF this rest, of 0 0]
  have h: "hex_digits64 0 (strip0 hs @ rest) 0 = (word_of_nat (hval hs), length (strip0 hs))"
    by (simp add: strip0_def hval_zeros)
  have "zc (strip0 hs @ rest) (length (strip0 hs)) = 0 \<longleftrightarrow> rest = []"
    using c by (cases rest) (simp_all add: zc_def)
  then show ?thesis using x s h by (auto simp: sqlite3DecOrHexToI64_def zc_def numeral_2_eq_2 Let_def)
qed

section \<open>Logarithmic estimates\<close>

lemma LogEstAdd_ok:
  "\<exists>r. sqlite3LogEstAdd a b = Some r \<and> sqlite3LogEstAdd b a = Some r \<and> max a b \<le> r \<and> r \<le> max a b + 10"
proof -
  have t: "\<exists>x. rd logest_add_table n = Some x \<and> x \<le> 10" if "n \<le> 31" for n
  proof -
    have "\<forall>x \<in> set logest_add_table. x \<le> 10" "length logest_add_table = 32" by (simp_all add: logest_add_table_def)
    then show ?thesis using that by (simp add: rd_def)
  qed
  have less: "\<exists>r. sqlite3LogEstAdd a b = Some r \<and> sqlite3LogEstAdd b a = Some r \<and> a \<le> r \<and> r \<le> a + 10"
    if "b \<le> a" for a b :: int
  proof (cases "a > b + 31")
    case True
    then show ?thesis using that by (simp add: sqlite3LogEstAdd_def)
  next
    case False
    then have "nat (a - b) \<le> 31" using that by simp
    then obtain x where x: "rd logest_add_table (nat (a - b)) = Some x" "x \<le> 10" using t by blast
    then show ?thesis using False that by (cases "a = b") (auto simp: sqlite3LogEstAdd_def)
  qed
  show ?thesis
  proof (cases "b \<le> a")
    case True
    then show ?thesis using less [of b a] by (auto simp: max_def)
  next
    case False
    then show ?thesis using less [of a b] by (auto simp: max_def)
  qed
qed

lemma word_gt: "(x :: u64) > 255 \<longleftrightarrow> unat x > 255" "x > 15 \<longleftrightarrow> unat x > 15"
  by (simp_all add: word_less_nat_alt)

lemma unat_drop_bit: "unat (drop_bit n (x :: 'a :: len word)) = unat x div 2 ^ n"
  by (simp only: unat_drop_bit_eq drop_bit_eq_div [of n "unat x"])

lemma logest_down4_ok:
  "8 \<le> unat x \<Longrightarrow> \<exists>s. logest_down4 x y = (drop_bit s x, y + 10 * int s)
     \<and> 8 \<le> unat (drop_bit s x) \<and> unat (drop_bit s x) \<le> 255"
proof (induction x y rule: logest_down4.induct)
  case (1 x y)
  show ?case
  proof (cases "x > 255")
    case True
    then have "8 \<le> unat (drop_bit 4 x)" by (simp add: unat_drop_bit word_gt)
    then obtain s where "logest_down4 (drop_bit 4 x) (y + 40) = (drop_bit s (drop_bit 4 x), y + 40 + 10 * int s)"
      "8 \<le> unat (drop_bit s (drop_bit 4 x))" "unat (drop_bit s (drop_bit 4 x)) \<le> 255"
      using 1 True by blast
    then show ?thesis using True
      by (intro exI [of _ "s + 4"]) (simp add: logest_down4.simps [of x y])
  next
    case False
    then show ?thesis using 1 by (intro exI [of _ 0]) (simp add: logest_down4.simps [of x y] word_gt)
  qed
qed

lemma logest_down1_ok:
  "8 \<le> unat x \<Longrightarrow> \<exists>s. logest_down1 x y = (drop_bit s x, y + 10 * int s)
     \<and> 8 \<le> unat (drop_bit s x) \<and> unat (drop_bit s x) \<le> 15"
proof (induction x y rule: logest_down1.induct)
  case (1 x y)
  show ?case
  proof (cases "x > 15")
    case True
    then have "8 \<le> unat (drop_bit 1 x)" unfolding unat_drop_bit by (simp add: word_gt)
    then obtain s where "logest_down1 (drop_bit 1 x) (y + 10) = (drop_bit s (drop_bit 1 x), y + 10 + 10 * int s)"
      "8 \<le> unat (drop_bit s (drop_bit 1 x))" "unat (drop_bit s (drop_bit 1 x)) \<le> 15"
      using 1 True by blast
    then show ?thesis using True
      by (intro exI [of _ "s + 1"]) (simp add: logest_down1.simps [of x y])
  next
    case False
    then show ?thesis using 1 by (intro exI [of _ 0]) (simp add: logest_down1.simps [of x y] word_gt)
  qed
qed

lemma shift_unique:
  fixes v :: nat
  assumes "8 \<le> v div 2 ^ s" and "v div 2 ^ s \<le> 15" and "2 ^ k \<le> v" and "v < 2 ^ (k + 1)"
  shows "k = s + 3"
proof -
  have "8 * 2 ^ s \<le> v" using assms(1) by (simp add: less_eq_div_iff_mult_less_eq)
  then have lo: "2 ^ (s + 3) \<le> v" by (simp add: power_add)
  have "v < (v div 2 ^ s + 1) * 2 ^ s" using dividend_less_div_times [of "2 ^ s" v] by (simp add: algebra_simps)
  also have "\<dots> \<le> 16 * 2 ^ s" using assms(2) by (intro mult_right_mono) simp_all
  finally have hi: "v < 2 ^ (s + 4)" by (simp add: power_add)
  have "(2 :: nat) ^ (s + 3) < 2 ^ (k + 1)" "(2 :: nat) ^ k < 2 ^ (s + 4)" using lo hi assms(3,4) by linarith+
  then have "s + 3 < k + 1" "k < s + 4" by (simp_all only: power_strict_increasing_iff one_less_numeral_iff semiring_norm)
  then show ?thesis by simp
qed

lemma LogEst_ok:
  assumes "8 \<le> unat x" and "2 ^ k \<le> unat x" and "unat x < 2 ^ (k + 1)"
  shows "sqlite3LogEst x = 10 * int k + logest_table ! (unat x div 2 ^ (k - 3) mod 8)"
proof -
  have n8: "\<not> x < 8" using assms(1) by (simp add: word_less_nat_alt)
  obtain s where s: "logest_down4 x 40 = (drop_bit s x, 40 + 10 * int s)" "8 \<le> unat (drop_bit s x)"
    using logest_down4_ok [OF assms(1)] by blast
  obtain r where r: "logest_down1 (drop_bit s x) (40 + 10 * int s)
      = (drop_bit r (drop_bit s x), 40 + 10 * int s + 10 * int r)"
    "8 \<le> unat (drop_bit r (drop_bit s x))" "unat (drop_bit r (drop_bit s x)) \<le> 15"
    using logest_down1_ok [OF s(2)] by blast
  have d: "drop_bit r (drop_bit s x) = drop_bit (r + s) x" by simp
  have k: "k = (r + s) + 3"
    using r(2,3) assms(2,3) unfolding d unat_drop_bit by (rule shift_unique)
  have "unat (drop_bit (r + s) x AND 7) = unat x div 2 ^ (r + s) mod 8"
  proof -
    have "unat (drop_bit (r + s) x AND mask 3) = take_bit 3 (unat (drop_bit (r + s) x))"
      by (simp only: unsigned_take_bit_eq flip: take_bit_eq_mask)
    also have "\<dots> = unat x div 2 ^ (r + s) mod 8" unfolding unat_drop_bit by (simp add: take_bit_eq_mod)
    finally show ?thesis by (simp add: mask_eq_exp_minus_1)
  qed
  then show ?thesis
    using s(1) r(1) n8 by (simp add: sqlite3LogEst_def k)
qed

lemma floor_log2: "1 \<le> v \<Longrightarrow> \<exists>k. 2 ^ k \<le> v \<and> v < (2 :: nat) ^ (k + 1)"
proof (induction v rule: less_induct)
  case (less v)
  show ?case
  proof (cases "v = 1")
    case True
    then show ?thesis by (intro exI [of _ 0]) simp
  next
    case False
    then have "1 \<le> v div 2" "v div 2 < v" using less(2) by simp_all
    then obtain k where "2 ^ k \<le> v div 2" "v div 2 < 2 ^ (k + 1)" using less(1) by blast
    then show ?thesis by (intro exI [of _ "k + 1"]) auto
  qed
qed

lemma logest_table_sorted: "i \<le> j \<Longrightarrow> j < 8 \<Longrightarrow> logest_table ! i \<le> logest_table ! j"
  by (rule sorted_nth_mono) (simp_all add: logest_table_def)

lemma logest_table_range: "j < 8 \<Longrightarrow> 0 \<le> logest_table ! j \<and> logest_table ! j \<le> 9"
  using logest_table_sorted [of 0 j] logest_table_sorted [of j 7] by (simp add: logest_table_def)

lemma LogEst_small_table:
  "map (\<lambda>n. sqlite3LogEst (word_of_nat n)) [0..<8] = [0, 0, 10, 16, 20, 23, 26, 28]"
  by code_simp

lemma LogEst_small: "unat x < 8 \<Longrightarrow> sqlite3LogEst x = [0, 0, 10, 16, 20, 23, 26, 28] ! unat x"
proof -
  assume x: "unat x < 8"
  have "sqlite3LogEst (word_of_nat (unat x)) = map (\<lambda>n. sqlite3LogEst (word_of_nat n)) [0..<8] ! unat x"
    using x by simp
  then show ?thesis unfolding LogEst_small_table by simp
qed

lemma LogEst_mono:
  assumes "unat x \<le> unat y"
  shows "sqlite3LogEst x \<le> sqlite3LogEst y"
proof (cases "unat y < 8")
  case True
  have "sorted ([0, 0, 10, 16, 20, 23, 26, 28] :: int list)" by simp
  from sorted_nth_mono [OF this assms] show ?thesis
    using True assms LogEst_small [of x] LogEst_small [of y] by simp
next
  case False
  then obtain k where k: "2 ^ k \<le> unat y" "unat y < 2 ^ (k + 1)" using floor_log2 [of "unat y"] by auto
  have y: "sqlite3LogEst y = 10 * int k + logest_table ! (unat y div 2 ^ (k - 3) mod 8)"
    using LogEst_ok [of y k] False k by simp
  have "(2 :: nat) ^ 3 < 2 ^ (k + 1)" using False k(2) by simp
  then have k3: "3 \<le> k" by (simp only: power_strict_increasing_iff one_less_numeral_iff semiring_norm)
  have yr: "10 * int k \<le> sqlite3LogEst y" using logest_table_range y by simp
  show ?thesis
  proof (cases "unat x < 8")
    case True
    have "\<forall>v \<in> set ([0, 0, 10, 16, 20, 23, 26, 28] :: int list). v \<le> 30" by simp
    moreover have "([0, 0, 10, 16, 20, 23, 26, 28] :: int list) ! unat x \<in> set [0, 0, 10, 16, 20, 23, 26, 28]"
      by (rule nth_mem) (use True in simp)
    ultimately have "sqlite3LogEst x \<le> 30" unfolding LogEst_small [OF True] by blast
    then show ?thesis using k3 yr by simp
  next
    case x8: False
    then obtain j where j: "2 ^ j \<le> unat x" "unat x < 2 ^ (j + 1)" using floor_log2 [of "unat x"] by auto
    have x: "sqlite3LogEst x = 10 * int j + logest_table ! (unat x div 2 ^ (j - 3) mod 8)"
      using LogEst_ok [of x j] x8 j by simp
    have "(2 :: nat) ^ j < 2 ^ (k + 1)" using j(1) assms k(2) by linarith
    then have "j < k + 1" by (simp only: power_strict_increasing_iff one_less_numeral_iff semiring_norm)
    then have "j \<le> k" by simp
    show ?thesis
    proof (cases "j = k")
      case False
      then have "int j + 1 \<le> int k" using \<open>j \<le> k\<close> by simp
      then show ?thesis using x yr logest_table_range [of "unat x div 2 ^ (j - 3) mod 8"] by simp
    next
      case True
      have k': "(2 :: nat) ^ k = 8 * 2 ^ (k - 3)" using k3 power_add [of "2 :: nat" 3 "k - 3"] by simp
      have m: "unat z div 2 ^ (k - 3) mod 8 = unat z div 2 ^ (k - 3) - 8"
        if "2 ^ k \<le> unat z" "unat z < 2 ^ (k + 1)" for z :: u64
      proof -
        have "8 \<le> unat z div 2 ^ (k - 3)" using that(1) k' by (simp add: less_eq_div_iff_mult_less_eq)
        moreover have "unat z div 2 ^ (k - 3) < 16" using that(2) k' by (simp add: div_less_iff_less_mult)
        ultimately show ?thesis by (simp add: mod_if)
      qed
      have "unat x div 2 ^ (k - 3) - 8 \<le> unat y div 2 ^ (k - 3) - 8" using assms by (intro diff_le_mono div_le_mono)
      moreover have "unat y div 2 ^ (k - 3) - 8 < 8" using m [OF k] by (metis mod_less_divisor zero_less_numeral)
      ultimately have "logest_table ! (unat x div 2 ^ (k - 3) - 8) \<le> logest_table ! (unat y div 2 ^ (k - 3) - 8)"
        by (rule logest_table_sorted)
      then show ?thesis using x y m [OF k] m [of x] j True by simp
    qed
  qed
qed

section \<open>Properties\<close>

text \<open>
  C23: on any two 64-bit values \<^verbatim>\<open>sqlite3AddInt64\<close>, \<^verbatim>\<open>sqlite3SubInt64\<close> and \<^verbatim>\<open>sqlite3MulInt64\<close> store the
  exact result and return 0 when it fits in 64 bits, and otherwise return 1 and leave the operand as
  it was; none of the tests they make overflows itself or divides by zero.
\<close>

theorem int64_arith_detects_overflow:
  assumes "i64 a" and "i64 b"
  shows "sqlite3AddInt64 a b = Some (if i64 (a + b) then (0, a + b) else (1, a))
    \<and> sqlite3SubInt64 a b = Some (if i64 (a - b) then (0, a - b) else (1, a))
    \<and> sqlite3MulInt64 a b = Some (if i64 (a * b) then (0, a * b) else (1, a))"
  using assms AddInt64_ok SubInt64_ok MulInt64_ok by blast

theorem int64_arith_detects_overflow_witness:
  "sqlite3MulInt64 (- 9223372036854775808) (- 1) = Some (1, - 9223372036854775808)"
  using int64_arith_detects_overflow [of "- 9223372036854775808" "- 1"] by (simp add: i64_defs)

text \<open>
  C24: \<^verbatim>\<open>sqlite3Atoi64\<close> on an optional run of spaces, an optional sign, decimal digits and any rest, in any
  of the three encodings: the value is the number clamped to 64 bits; the code is 0 when it fits and
  only spaces follow, 1 when it fits and other text follows, 3 for +2^63 and 2 for anything larger.
\<close>

theorem atoi64_reads_decimal:
  assumes "enc \<in> {SQLITE_UTF8, SQLITE_UTF16LE, SQLITE_UTF16BE}"
    and "\<forall>c \<in> set sp. sqlite3Isspace c" and "sg = [] \<or> sg = [0x2d] \<or> sg = [0x2b]"
    and "\<forall>c \<in> set ds. digit c" and "ds \<noteq> []" and "rest = [] \<or> \<not> digit (hd rest)"
    and "v = (if sg = [0x2d] then - int (dval ds) else int (dval ds))"
  shows "sqlite3Atoi64 (ascii_text enc (sp @ sg @ ds @ rest)) enc
    = Some (if i64 v then (if \<exists>c \<in> set rest. \<not> sqlite3Isspace c then 1 else 0)
            else if v = 2 ^ 63 then 3 else 2, max (- (2 ^ 63)) (min (2 ^ 63 - 1) v))"
  using Atoi64_ok [OF assms(1-6)] assms(7)
  by (simp add: clamp64_def LARGEST_INT64_def SMALLEST_INT64_def atoi64_tail_iff)

theorem atoi64_reads_decimal_witness:
  "sqlite3Atoi64 [0x20, 0, 0x2d, 0, 0x34, 0, 0x32, 0, 0x78, 0] SQLITE_UTF16LE = Some (1, - 42)"
  using atoi64_reads_decimal [of SQLITE_UTF16LE "[0x20]" "[0x2d]" "[0x34, 0x32]" "[0x78]" "- 42"]
  by (simp add: digit_def sqlite3Isspace_iff ascii_text_def i64_defs
      SQLITE_UTF8_def SQLITE_UTF16LE_def SQLITE_UTF16BE_def)

text \<open>
  \<^verbatim>\<open>sqlite3GetInt32\<close> on an optional sign and decimal digits, whatever follows, gives the number when
  it fits in 32 bits, -2147483648 included, and otherwise fails; no intermediate value overflows.
\<close>

lemma getint32_reads_decimal:
  assumes "sg = [] \<or> sg = [0x2d] \<or> sg = [0x2b]"
    and "\<forall>c \<in> set ds. digit c" and "ds \<noteq> []" and "rest = [] \<or> \<not> digit (hd rest)"
    and "sg = [] \<and> ds = [0x30] \<longrightarrow> take 1 rest \<noteq> [0x78] \<and> take 1 rest \<noteq> [0x58]"
    and "v = (if sg = [0x2d] then - int (dval ds) else int (dval ds))"
  shows "sqlite3GetInt32 (sg @ ds @ rest)
    = Some (if - 2147483648 \<le> v \<and> v \<le> 2147483647 then Some v else None)"
  using GetInt32_ok [OF assms(1-4)] assms(5,6) by (simp add: i32_def)

text \<open>
  \<^verbatim>\<open>sqlite3DecOrHexToI64\<close> on a hexadecimal literal gives the digits modulo 2^64 as a two's complement
  number, and reports success exactly when the literal is the whole text and has at most sixteen
  significant digits.
\<close>

lemma hex_literal_value:
  assumes "\<forall>c \<in> set hs. sqlite3Isxdigit c" and "rest = [] \<or> \<not> sqlite3Isxdigit (hd rest)"
    and "x = 0x78 \<or> x = 0x58" and "cstring rest"
  shows "sqlite3DecOrHexToI64 (0x30 # x # hs @ rest)
    = Some (if rest = [] \<and> length (dropWhile (\<lambda>c. c = 0x30) hs) \<le> 16 then 0 else 2,
            sint (word_of_nat (hval hs) :: u64))"
  using DecOrHex_hex [OF assms] by (simp add: strip0_def)

text \<open>
  \<^verbatim>\<open>sqlite3LogEst\<close> is ten times the binary logarithm to within its table: for 2^k <= x < 2^(k+1) it
  is 10k plus the table entry of the next three bits, between 10k and 10k+9, and it never decreases
  as x grows. \<^verbatim>\<open>sqlite3LogEstAdd\<close> never reads outside its table, is commutative, and gives a value
  between the larger argument and ten more.
\<close>

lemma logest_approximates_logarithm:
  assumes "8 \<le> unat x" and "2 ^ k \<le> unat x" and "unat x < 2 ^ (k + 1)" and "unat x \<le> unat y"
  shows "sqlite3LogEst x = 10 * int k + logest_table ! (unat x div 2 ^ (k - 3) mod 8)
    \<and> 10 * int k \<le> sqlite3LogEst x \<and> sqlite3LogEst x \<le> 10 * int k + 9
    \<and> sqlite3LogEst x \<le> sqlite3LogEst y
    \<and> (\<exists>r. sqlite3LogEstAdd a b = Some r \<and> sqlite3LogEstAdd b a = Some r \<and> max a b \<le> r \<and> r \<le> max a b + 10)"
  using LogEst_ok [OF assms(1-3)] logest_table_range [of "unat x div 2 ^ (k - 3) mod 8"] LogEst_mono [OF assms(4)]
    LogEstAdd_ok [of a b] by simp

end
