(* ===== verification/Complete.thy ===== *)
theory Complete
  imports CType
begin

text \<open>
  When does an SQL text end a statement: \<^verbatim>\<open>sqlite3_complete\<close> of \<^verbatim>\<open>src/complete.c\<close>. The routine cuts the
  text into eight kinds of token and runs a table-driven machine with eight states over them.

  \<open>complete_token\<close> is one round of the loop up to the table lookup: it gives the token and the text
  that is left, or one of the early returns. The reads of the table are checked, so that a result is
  also a proof that state and token are in range.

  The lemmas give the machine a specification that does not mention it: the text is a sequence of
  statements, where a statement ends with its first semicolon, except that a trigger definition ends
  with its first \<^verbatim>\<open>;END;\<close>.
\<close>

section \<open>The routine\<close>

definition tkSEMI :: nat where "tkSEMI = 0"
definition tkWS :: nat where "tkWS = 1"
definition tkOTHER :: nat where "tkOTHER = 2"
definition tkEXPLAIN :: nat where "tkEXPLAIN = 3"
definition tkCREATE :: nat where "tkCREATE = 4"
definition tkTEMP :: nat where "tkTEMP = 5"
definition tkTRIGGER :: nat where "tkTRIGGER = 6"
definition tkEND :: nat where "tkEND = 7"

definition trans_table :: "nat list list" where
  "trans_table =
    [[1, 0, 2, 3, 4, 2, 2, 2],
     [1, 1, 2, 3, 4, 2, 2, 2],
     [1, 2, 2, 2, 2, 2, 2, 2],
     [1, 3, 3, 2, 4, 2, 2, 2],
     [1, 4, 2, 2, 2, 4, 5, 2],
     [6, 5, 5, 5, 5, 5, 5, 5],
     [6, 6, 5, 5, 5, 5, 5, 7],
     [1, 7, 5, 5, 5, 5, 5, 5]]"

text \<open>
  The kind of an identifier of which the characters are given. The comparison is with a bounded
  \<^verbatim>\<open>sqlite3StrNICmp\<close>; the length has been tested before.
\<close>

definition is_word :: "u8 list \<Rightarrow> u8 list \<Rightarrow> bool" where
  "is_word z kw \<longleftrightarrow> sqlite3_strnicmp (Some z) (Some kw) (int (length kw)) = 0"

definition kw_create :: "u8 list" where "kw_create = [0x63, 0x72, 0x65, 0x61, 0x74, 0x65]"
definition kw_trigger :: "u8 list" where "kw_trigger = [0x74, 0x72, 0x69, 0x67, 0x67, 0x65, 0x72]"
definition kw_temp :: "u8 list" where "kw_temp = [0x74, 0x65, 0x6d, 0x70]"
definition kw_temporary :: "u8 list" where
  "kw_temporary = [0x74, 0x65, 0x6d, 0x70, 0x6f, 0x72, 0x61, 0x72, 0x79]"
definition kw_end :: "u8 list" where "kw_end = [0x65, 0x6e, 0x64]"
definition kw_explain :: "u8 list" where "kw_explain = [0x65, 0x78, 0x70, 0x6c, 0x61, 0x69, 0x6e]"

definition word_token :: "u8 list \<Rightarrow> nat \<Rightarrow> nat" where
  "word_token z nId =
     (let c = zc z 0 in
      if c = 0x63 \<or> c = 0x43 then
        if nId = 6 \<and> is_word z kw_create then tkCREATE else tkOTHER
      else if c = 0x74 \<or> c = 0x54 then
        if nId = 7 \<and> is_word z kw_trigger then tkTRIGGER
        else if nId = 4 \<and> is_word z kw_temp then tkTEMP
        else if nId = 9 \<and> is_word z kw_temporary then tkTEMP
        else tkOTHER
      else if c = 0x65 \<or> c = 0x45 then
        if nId = 3 \<and> is_word z kw_end then tkEND
        else if nId = 7 \<and> is_word z kw_explain then tkEXPLAIN
        else tkOTHER
      else tkOTHER)"

text \<open>The text from the \<^verbatim>\<open>*/\<close> that closes a comment on, empty when there is none.\<close>

fun comment_end :: "u8 list \<Rightarrow> u8 list" where
  "comment_end [] = []"
| "comment_end (c # z) = (if c = 0x2a \<and> zc z 0 = 0x2f then c # z else comment_end z)"

datatype scanned =
    Token nat "u8 list"
  | Return_false
  | Return_whether_start

definition complete_token :: "u8 list \<Rightarrow> scanned" where
  "complete_token z =
     (let c = zc z 0 in
      if c = 0x3b then Token tkSEMI (drop 1 z)
      else if c = 0x20 \<or> c = 0x0d \<or> c = 0x09 \<or> c = 0x0a \<or> c = 0x0c then Token tkWS (drop 1 z)
      else if c = 0x2f then
        if zc z 1 \<noteq> 0x2a then Token tkOTHER (drop 1 z)
        else let r = comment_end (drop 2 z) in
          if r = [] then Return_false else Token tkWS (drop 2 r)
      else if c = 0x2d then
        if zc z 1 \<noteq> 0x2d then Token tkOTHER (drop 1 z)
        else let r = dropWhile (\<lambda>c. c \<noteq> 0x0a) z in
          if r = [] then Return_whether_start else Token tkWS (drop 1 r)
      else if c = 0x5b then
        let r = dropWhile (\<lambda>c. c \<noteq> 0x5d) (drop 1 z) in
          if r = [] then Return_false else Token tkOTHER (drop 1 r)
      else if c = 0x60 \<or> c = 0x22 \<or> c = 0x27 then
        let r = dropWhile (\<lambda>d. d \<noteq> c) (drop 1 z) in
          if r = [] then Return_false else Token tkOTHER (drop 1 r)
      else if IdChar c then
        let nId = length (takeWhile IdChar z) in Token (word_token z nId) (drop nId z)
      else Token tkOTHER (drop 1 z))"

lemma comment_end_length: "length (comment_end z) \<le> length z"
  by (induction z) auto

lemma complete_token_shorter:
  assumes "complete_token z = Token t r" and "z \<noteq> []"
  shows "length r < length z"
proof -
  obtain c y where z: "z = c # y" using assms(2) by (cases z) auto
  note l = comment_end_length [of "drop (Suc 0) y"]
  have d: "length (dropWhile P y) \<le> length y" for P :: "u8 \<Rightarrow> bool"
    by (rule length_dropWhile_le)
  show ?thesis
    using assms(1) l d [of "\<lambda>c. c \<noteq> 0x5d"] d [of "\<lambda>d. d \<noteq> c"] d [of "\<lambda>c. c \<noteq> 0x0a"]
    by (auto simp: complete_token_def z Let_def numeral_eq_Suc split: if_splits)
qed

function complete_loop :: "nat \<Rightarrow> u8 list \<Rightarrow> bool option" where
  "complete_loop state z =
     (if z = [] then Some (state = 1)
      else case complete_token z of
          Return_false \<Rightarrow> Some False
        | Return_whether_start \<Rightarrow> Some (state = 1)
        | Token token z \<Rightarrow> do {
            row \<leftarrow> rd trans_table state;
            state \<leftarrow> rd row token;
            complete_loop state z })"
  by pat_completeness auto
termination
  by (relation "measure (\<lambda>(s, z). length z)") (auto dest: complete_token_shorter)

declare complete_loop.simps [simp del]

definition sqlite3_complete :: "u8 list option \<Rightarrow> bool option" where
  "sqlite3_complete zSql = (case zSql of None \<Rightarrow> Some False | Some z \<Rightarrow> complete_loop 0 z)"

section \<open>What a complete text is\<close>

text \<open>
  The tokens of a text, and whether it was read to the end: it is not when it stops inside a block
  comment, a quoted string or a bracketed name. A line comment may be the last thing.
\<close>

function sql_tokens :: "u8 list \<Rightarrow> nat list \<times> bool" where
  "sql_tokens z =
     (if z = [] then ([], True)
      else case complete_token z of
          Return_false \<Rightarrow> ([], False)
        | Return_whether_start \<Rightarrow> ([], True)
        | Token t r \<Rightarrow> (let (ts, closed) = sql_tokens r in (t # ts, closed)))"
  by pat_completeness auto
termination
  by (relation "measure length") (auto dest: complete_token_shorter)

declare sql_tokens.simps [simp del]

definition significant :: "nat list \<Rightarrow> nat list" where
  "significant ts = filter (\<lambda>t. t \<noteq> tkWS) ts"

text \<open>
  The body of a trigger goes up to the first \<^verbatim>\<open>;END;\<close>. A trigger begins with CREATE TRIGGER, with TEMP
  or TEMPORARY between them, possibly after EXPLAIN and words that are no keyword here.
\<close>

fun trigger_body :: "nat list \<Rightarrow> bool" where
  "trigger_body [] = False"
| "trigger_body (t # ts) =
     (if take 3 (t # ts) = [tkSEMI, tkEND, tkSEMI] then length ts = 2 else trigger_body ts)"

definition after_create :: "nat list \<Rightarrow> nat list option" where
  "after_create ts =
     (case dropWhile (\<lambda>t. t = tkTEMP) ts of
        [] \<Rightarrow> None | t # r \<Rightarrow> if t = tkTRIGGER then Some r else None)"

definition trigger_rest :: "nat list \<Rightarrow> nat list option" where
  "trigger_rest ts =
     (case ts of [] \<Rightarrow> None
      | t # r \<Rightarrow>
          if t = tkCREATE then after_create r
          else if t = tkEXPLAIN then
            (case dropWhile (\<lambda>t. t = tkOTHER) r of
               [] \<Rightarrow> None | t # r \<Rightarrow> if t = tkCREATE then after_create r else None)
          else None)"

definition plain_statement :: "nat list \<Rightarrow> bool" where
  "plain_statement ts \<longleftrightarrow> ts \<noteq> [] \<and> last ts = tkSEMI \<and> tkSEMI \<notin> set (butlast ts)"

definition statement :: "nat list \<Rightarrow> bool" where
  "statement ts = (case trigger_rest ts of Some b \<Rightarrow> trigger_body b | None \<Rightarrow> plain_statement ts)"

section \<open>The machine accepts sequences of statements\<close>

lemmas tk_defs = tkSEMI_def tkWS_def tkOTHER_def tkEXPLAIN_def tkCREATE_def tkTEMP_def tkTRIGGER_def tkEND_def

lemma word_token_range: "word_token z n < 8"
  by (simp add: word_token_def Let_def tk_defs)

lemma complete_token_range: "complete_token z = Token t r \<Longrightarrow> t < 8"
  using word_token_range by (auto simp: complete_token_def Let_def tk_defs split: if_splits)

lemma sql_tokens_range: "t \<in> set (fst (sql_tokens z)) \<Longrightarrow> t < 8"
proof (induction z rule: sql_tokens.induct)
  case (1 z)
  show ?case
    using 1 by (subst (asm) (2) sql_tokens.simps)
      (auto split: if_splits scanned.splits prod.splits dest: complete_token_range)
qed

definition next_state :: "nat \<Rightarrow> nat \<Rightarrow> nat" where
  "next_state s t = trans_table ! s ! t"

lemma nat_less_8: "(n :: nat) < 8 \<longleftrightarrow> n \<in> {0, 1, 2, 3, 4, 5, 6, 7}"
  by auto

lemma next_state_range: "s < 8 \<Longrightarrow> t < 8 \<Longrightarrow> next_state s t < 8"
  unfolding nat_less_8 next_state_def trans_table_def by (elim insertE emptyE) simp_all

lemma trans_table_read:
  assumes "s < 8" and "t < 8"
  shows "Option.bind (rd trans_table s) (\<lambda>row. Option.bind (rd row t) f) = f (next_state s t)"
  using assms unfolding nat_less_8 next_state_def trans_table_def by (elim insertE emptyE) simp_all

lemma complete_loop_run:
  assumes "s < 8"
  shows "complete_loop s z
    = Some (snd (sql_tokens z) \<and> foldl next_state s (fst (sql_tokens z)) = 1)"
  using assms
proof (induction s z rule: complete_loop.induct)
  case (1 s z)
  show ?case
  proof (cases "z = []")
    case True
    then show ?thesis by (simp add: complete_loop.simps sql_tokens.simps)
  next
    case False
    show ?thesis
    proof (cases "complete_token z")
      case (Token t r)
      have t: "t < 8" using Token by (rule complete_token_range)
      then have ns: "next_state s t < 8" using "1.prems" by (rule next_state_range [rotated])
      have row: "rd trans_table s = Some (trans_table ! s)"
        using "1.prems" by (simp add: rd_def trans_table_def)
      have col: "rd (trans_table ! s) t = Some (next_state s t)"
        using trans_table_read [OF "1.prems" t, of Some] by (simp add: row split: option.splits)
      have IH: "complete_loop (next_state s t) r
          = Some (snd (sql_tokens r) \<and> foldl next_state (next_state s t) (fst (sql_tokens r)) = 1)"
        by (rule "1.IH" [OF False Token row col ns])
      show ?thesis
        unfolding complete_loop.simps [of s z] sql_tokens.simps [of z]
        using False Token by (simp add: row col IH split: prod.splits)
    qed (use False in \<open>simp_all add: complete_loop.simps [of s z] sql_tokens.simps [of z]\<close>)
  qed
qed

text \<open>White space changes no state, so that the run is one over the significant tokens.\<close>

lemma next_state_WS: "s < 8 \<Longrightarrow> next_state s tkWS = s"
  unfolding nat_less_8 next_state_def trans_table_def tk_defs by (elim insertE emptyE) simp_all

lemma run_range: "s < 8 \<Longrightarrow> \<forall>t \<in> set ts. t < 8 \<Longrightarrow> foldl next_state s ts < 8"
  by (induction ts arbitrary: s) (auto simp: next_state_range)

lemma run_significant:
  "s < 8 \<Longrightarrow> \<forall>t \<in> set ts. t < 8 \<Longrightarrow> foldl next_state s (significant ts) = foldl next_state s ts"
  by (induction ts arbitrary: s) (auto simp: significant_def next_state_WS next_state_range)

text \<open>The run from \<open>s\<close> comes to the state \<open>START\<close> at the end of the tokens, and not before.\<close>

fun arrives :: "nat \<Rightarrow> nat list \<Rightarrow> bool" where
  "arrives s [] = False"
| "arrives s (t # ts) = (if next_state s t = 1 then ts = [] else arrives (next_state s t) ts)"

text \<open>The tokens that matter.\<close>

definition token :: "nat \<Rightarrow> bool" where
  "token t \<longleftrightarrow> t < 8 \<and> t \<noteq> tkWS"

lemma tokenE:
  assumes "token t"
  obtains "t = 0" | "t = 2" | "t = 3" | "t = 4" | "t = 5" | "t = 6" | "t = 7"
  using assms unfolding token_def nat_less_8 tk_defs by auto

text \<open>The columns of the table for the tokens that matter.\<close>

lemma next_states:
  "next_state 0 0 = 1" "next_state 0 2 = 2" "next_state 0 3 = 3" "next_state 0 4 = 4" "next_state 0 5 = 2" "next_state 0 6 = 2" "next_state 0 7 = 2"
  "next_state (Suc 0) 0 = 1" "next_state (Suc 0) 2 = 2" "next_state (Suc 0) 3 = 3" "next_state (Suc 0) 4 = 4" "next_state (Suc 0) 5 = 2" "next_state (Suc 0) 6 = 2" "next_state (Suc 0) 7 = 2"
  "next_state 2 0 = 1" "next_state 2 2 = 2" "next_state 2 3 = 2" "next_state 2 4 = 2" "next_state 2 5 = 2" "next_state 2 6 = 2" "next_state 2 7 = 2"
  "next_state 3 0 = 1" "next_state 3 2 = 3" "next_state 3 3 = 2" "next_state 3 4 = 4" "next_state 3 5 = 2" "next_state 3 6 = 2" "next_state 3 7 = 2"
  "next_state 4 0 = 1" "next_state 4 2 = 2" "next_state 4 3 = 2" "next_state 4 4 = 2" "next_state 4 5 = 4" "next_state 4 6 = 5" "next_state 4 7 = 2"
  "next_state 5 0 = 6" "next_state 5 2 = 5" "next_state 5 3 = 5" "next_state 5 4 = 5" "next_state 5 5 = 5" "next_state 5 6 = 5" "next_state 5 7 = 5"
  "next_state 6 0 = 6" "next_state 6 2 = 5" "next_state 6 3 = 5" "next_state 6 4 = 5" "next_state 6 5 = 5" "next_state 6 6 = 5" "next_state 6 7 = 7"
  "next_state 7 0 = 1" "next_state 7 2 = 5" "next_state 7 3 = 5" "next_state 7 4 = 5" "next_state 7 5 = 5" "next_state 7 6 = 5" "next_state 7 7 = 5"
  by code_simp+

lemma run_0_1: "ts \<noteq> [] \<Longrightarrow> list_all token ts \<Longrightarrow> foldl next_state 0 ts = foldl next_state 1 ts"
  by (cases ts) (auto elim!: tokenE simp: next_states)

lemma trigger_body_simps:
  "t \<noteq> 0 \<Longrightarrow> trigger_body (t # ts) = trigger_body ts"
  "t \<noteq> 7 \<Longrightarrow> trigger_body (0 # t # ts) = trigger_body (t # ts)"
  "t \<noteq> 0 \<Longrightarrow> trigger_body (0 # 7 # t # ts) = trigger_body ts"
  "trigger_body (0 # 7 # 0 # ts) = (ts = [])"
  "trigger_body [0] = False" "trigger_body [0, 7] = False"
  by (simp_all add: tk_defs numeral_3_eq_3)

lemma arrives_trigger:
  "list_all token ts \<Longrightarrow> arrives 5 ts = trigger_body ts \<and> arrives 6 ts = trigger_body (0 # ts)
    \<and> arrives 7 ts = trigger_body (0 # 7 # ts)"
proof (induction ts)
  case Nil
  show ?case by (simp add: trigger_body_simps)
next
  case (Cons t ts)
  then have t: "token t" and ts: "list_all token ts" by simp_all
  show ?case
    by (rule tokenE [OF t]) (simp_all add: Cons.IH [OF ts] next_states trigger_body_simps del: trigger_body.simps)
qed

lemma plain_statement_Cons: "t \<noteq> 0 \<Longrightarrow> plain_statement (t # ts) = plain_statement ts"
  by (cases ts) (auto simp: plain_statement_def tk_defs)

lemma plain_statement_0: "plain_statement (0 # ts) = (ts = [])"
  by (cases ts) (auto simp: plain_statement_def tk_defs)

lemma plain_statement_Nil: "\<not> plain_statement []"
  by (simp add: plain_statement_def)

lemmas plain_simps = plain_statement_Cons plain_statement_0 plain_statement_Nil

lemma arrives_plain: "list_all token ts \<Longrightarrow> arrives 2 ts = plain_statement ts"
proof (induction ts)
  case (Cons t ts)
  then have t: "token t" and ts: "list_all token ts" by simp_all
  show ?case by (rule tokenE [OF t]) (simp_all add: Cons.IH [OF ts] next_states plain_simps)
qed (simp add: plain_simps)

lemma arrives_create:
  "list_all token ts \<Longrightarrow>
    arrives 4 ts = (case after_create ts of Some b \<Rightarrow> trigger_body b | None \<Rightarrow> plain_statement ts)"
proof (induction ts)
  case (Cons t ts)
  then have t: "token t" and ts: "list_all token ts" by simp_all
  show ?case
    by (rule tokenE [OF t])
      (simp_all add: Cons.IH [OF ts] arrives_plain [OF ts] arrives_trigger [OF ts] next_states plain_simps
        after_create_def tkTEMP_def tkTRIGGER_def split: option.splits)
qed (simp add: plain_simps after_create_def)

definition explain_rest :: "nat list \<Rightarrow> nat list option" where
  "explain_rest r = (case dropWhile (\<lambda>t. t = tkOTHER) r of
     [] \<Rightarrow> None | t # r \<Rightarrow> if t = tkCREATE then after_create r else None)"

lemma arrives_explain:
  "list_all token ts \<Longrightarrow>
    arrives 3 ts = (case explain_rest ts of Some b \<Rightarrow> trigger_body b | None \<Rightarrow> plain_statement ts)"
proof (induction ts)
  case (Cons t ts)
  then have t: "token t" and ts: "list_all token ts" by simp_all
  show ?case
    by (rule tokenE [OF t])
      (simp_all add: Cons.IH [OF ts] arrives_plain [OF ts] arrives_create [OF ts] next_states plain_simps
        explain_rest_def tkOTHER_def tkCREATE_def split: option.splits)
qed (simp add: plain_simps explain_rest_def)

lemma trigger_rest_Cons:
  "trigger_rest (t # ts) =
    (if t = tkCREATE then after_create ts else if t = tkEXPLAIN then explain_rest ts else None)"
  by (simp add: trigger_rest_def explain_rest_def)

lemma arrives_statement:
  assumes "list_all token ts"
  shows "arrives 1 ts = statement ts"
proof (cases ts)
  case (Cons t us)
  then have t: "token t" and us: "list_all token us" using assms by simp_all
  show ?thesis
    unfolding Cons
    by (rule tokenE [OF t])
      (simp_all add: arrives_plain [OF us] arrives_create [OF us] arrives_explain [OF us] next_states
        plain_simps trigger_rest_Cons tkCREATE_def tkEXPLAIN_def statement_def split: option.splits)
qed (simp add: statement_def trigger_rest_def plain_simps)

lemma run_arrives:
  "foldl next_state s ts = 1 \<longleftrightarrow>
    s = 1 \<and> ts = [] \<or> (\<exists>a b. ts = a @ b \<and> arrives s a \<and> foldl next_state 1 b = 1)"
proof (induction ts arbitrary: s)
  case (Cons t ts)
  show ?case
  proof
    assume r: "foldl next_state s (t # ts) = 1"
    show "s = 1 \<and> t # ts = [] \<or> (\<exists>a b. t # ts = a @ b \<and> arrives s a \<and> foldl next_state 1 b = 1)"
    proof (cases "next_state s t = 1")
      case True
      then have "t # ts = [t] @ ts \<and> arrives s [t] \<and> foldl next_state 1 ts = 1" using r by simp
      then show ?thesis by blast
    next
      case False
      then obtain a b where "ts = a @ b" "arrives (next_state s t) a" "foldl next_state 1 b = 1"
        using r Cons.IH [of "next_state s t"] by auto
      then have "t # ts = (t # a) @ b \<and> arrives s (t # a) \<and> foldl next_state 1 b = 1"
        using False by simp
      then show ?thesis by blast
    qed
  next
    assume "s = 1 \<and> t # ts = [] \<or> (\<exists>a b. t # ts = a @ b \<and> arrives s a \<and> foldl next_state 1 b = 1)"
    then obtain a b where ab: "t # ts = a @ b" "arrives s a" "foldl next_state 1 b = 1" by auto
    then obtain a' where a: "a = t # a'" "ts = a' @ b" by (cases a) auto
    show "foldl next_state s (t # ts) = 1"
      using ab a Cons.IH [of "next_state s t"] by (auto split: if_splits)
  qed
qed simp

lemma run_statements:
  "list_all token ts \<Longrightarrow>
    foldl next_state 1 ts = 1 \<longleftrightarrow> (\<exists>sts. ts = concat sts \<and> list_all statement sts)"
proof (induction ts rule: length_induct)
  case (1 ts)
  show ?case
  proof
    assume r: "foldl next_state 1 ts = 1"
    show "\<exists>sts. ts = concat sts \<and> list_all statement sts"
    proof (cases "ts = []")
      case True
      then have "ts = concat [] \<and> list_all statement []" by simp
      then show ?thesis by blast
    next
      case False
      then obtain a b where ab: "ts = a @ b" "arrives 1 a" "foldl next_state 1 b = 1"
        using run_arrives [of 1 ts] r by auto
      then have "a \<noteq> []" by (cases a) auto
      then obtain sts where "b = concat sts" "list_all statement sts"
        using 1 ab by force
      moreover have "statement a" using ab 1 arrives_statement [of a] by simp
      ultimately have "ts = concat (a # sts) \<and> list_all statement (a # sts)" using ab by simp
      then show ?thesis by blast
    qed
  next
    assume "\<exists>sts. ts = concat sts \<and> list_all statement sts"
    then obtain sts where sts: "ts = concat sts" "list_all statement sts" by blast
    show "foldl next_state 1 ts = 1"
    proof (cases sts)
      case (Cons a r)
      have "list_all token a" using sts 1 Cons by simp
      then have a: "arrives 1 a" using sts Cons arrives_statement by simp
      then have "a \<noteq> []" by (cases a) auto
      then have "foldl next_state 1 (concat r) = 1"
        using 1 sts Cons by (elim allE [of _ "concat r"]) auto
      then show ?thesis using run_arrives [of 1 ts] a sts Cons by auto
    qed (use sts in simp)
  qed
qed

lemma statement_nonempty: "statement a \<Longrightarrow> a \<noteq> []"
  by (auto simp: statement_def trigger_rest_def plain_statement_def)

lemma significant_tokens: "list_all token (significant (fst (sql_tokens z)))"
  using sql_tokens_range by (auto simp: significant_def token_def list_all_iff)

lemma complete_statements:
  "foldl next_state 0 (significant (fst (sql_tokens z))) = 1
    \<longleftrightarrow> (\<exists>sts. sts \<noteq> [] \<and> significant (fst (sql_tokens z)) = concat sts \<and> list_all statement sts)"
    (is "?run \<longleftrightarrow> ?stmts")
proof (cases "significant (fst (sql_tokens z)) = []")
  case True
  have "\<not> ?stmts"
  proof
    assume ?stmts
    then obtain a r where "significant (fst (sql_tokens z)) = a @ concat r" "statement a"
      by (auto simp: neq_Nil_conv)
    then show False using True statement_nonempty [of a] by simp
  qed
  then show ?thesis using True by simp
next
  case False
  have "?run \<longleftrightarrow> (\<exists>sts. significant (fst (sql_tokens z)) = concat sts \<and> list_all statement sts)"
    using run_statements [OF significant_tokens] run_0_1 [OF False significant_tokens] by simp
  moreover have "sts \<noteq> []" if "significant (fst (sql_tokens z)) = concat sts" for sts
    using that False by auto
  ultimately show ?thesis by blast
qed

section \<open>Properties\<close>

text \<open>
  C25: a text is complete exactly when it is not cut off inside a comment, a string or a quoted name
  and its tokens, white space and comments left out, are one or more statements, each ending with its
  first semicolon or, for a trigger, with its first \<^verbatim>\<open>;END;\<close>. The routine always answers, and it never
  reads outside its table.
\<close>

theorem complete_recognises_statements:
  "sqlite3_complete (Some z) = Some (snd (sql_tokens z) \<and>
     (\<exists>sts. sts \<noteq> [] \<and> significant (fst (sql_tokens z)) = concat sts \<and> list_all statement sts))"
  using complete_statements [of z] complete_loop_run [of 0 z] sql_tokens_range
    run_significant [of 0 "fst (sql_tokens z)"]
  by (simp add: sqlite3_complete_def)

text \<open>
  In a statement machine that has read any prefix of a text, the state is one of the eight and
  white space does not move it; so inserting or removing blanks between tokens cannot change the
  answer.
\<close>

lemma complete_ignores_space:
  assumes "state < 8" and "significant (fst (sql_tokens y)) = significant (fst (sql_tokens z))"
    and "snd (sql_tokens y) = snd (sql_tokens z)"
  shows "complete_loop state y = complete_loop state z \<and> complete_loop state z \<noteq> None"
proof -
  have "foldl next_state state (fst (sql_tokens x)) = foldl next_state state (significant (fst (sql_tokens x)))" for x
    using run_significant [OF assms(1)] sql_tokens_range by simp
  then show ?thesis by (simp add: complete_loop_run [OF assms(1)] assms(2,3))
qed

end
