(* ===== verification/Keyword.thy ===== *)
theory Keyword
  imports CType
begin

text \<open>
  Token codes (\<^verbatim>\<open>parse.h\<close>), the parser's fallback table (\<^verbatim>\<open>parse.c\<close>) and the keyword recogniser of
  \<^verbatim>\<open>keywordhash.h\<close>: a hash of the first and last letter and the length picks a chain of keyword numbers, and
  the text of each is a slice of one packed string.

  The lemmas unfold the packing: the recogniser is a lookup of the upper-case word in a list of 136
  keywords. They also show that the chains end and that every table access is in range.
\<close>

section \<open>Token codes\<close>

definition TK_SEMI :: nat where "TK_SEMI = 1"
definition TK_EXPLAIN :: nat where "TK_EXPLAIN = 2"
definition TK_QUERY :: nat where "TK_QUERY = 3"
definition TK_PLAN :: nat where "TK_PLAN = 4"
definition TK_BEGIN :: nat where "TK_BEGIN = 5"
definition TK_TRANSACTION :: nat where "TK_TRANSACTION = 6"
definition TK_DEFERRED :: nat where "TK_DEFERRED = 7"
definition TK_IMMEDIATE :: nat where "TK_IMMEDIATE = 8"
definition TK_EXCLUSIVE :: nat where "TK_EXCLUSIVE = 9"
definition TK_COMMIT :: nat where "TK_COMMIT = 10"
definition TK_END :: nat where "TK_END = 11"
definition TK_ROLLBACK :: nat where "TK_ROLLBACK = 12"
definition TK_SAVEPOINT :: nat where "TK_SAVEPOINT = 13"
definition TK_RELEASE :: nat where "TK_RELEASE = 14"
definition TK_TO :: nat where "TK_TO = 15"
definition TK_TABLE :: nat where "TK_TABLE = 16"
definition TK_CREATE :: nat where "TK_CREATE = 17"
definition TK_IF :: nat where "TK_IF = 18"
definition TK_NOT :: nat where "TK_NOT = 19"
definition TK_EXISTS :: nat where "TK_EXISTS = 20"
definition TK_TEMP :: nat where "TK_TEMP = 21"
definition TK_LP :: nat where "TK_LP = 22"
definition TK_RP :: nat where "TK_RP = 23"
definition TK_AS :: nat where "TK_AS = 24"
definition TK_WITHOUT :: nat where "TK_WITHOUT = 25"
definition TK_COMMA :: nat where "TK_COMMA = 26"
definition TK_ABORT :: nat where "TK_ABORT = 27"
definition TK_ACTION :: nat where "TK_ACTION = 28"
definition TK_AFTER :: nat where "TK_AFTER = 29"
definition TK_ANALYZE :: nat where "TK_ANALYZE = 30"
definition TK_ASC :: nat where "TK_ASC = 31"
definition TK_ATTACH :: nat where "TK_ATTACH = 32"
definition TK_BEFORE :: nat where "TK_BEFORE = 33"
definition TK_BY :: nat where "TK_BY = 34"
definition TK_CASCADE :: nat where "TK_CASCADE = 35"
definition TK_CAST :: nat where "TK_CAST = 36"
definition TK_CONFLICT :: nat where "TK_CONFLICT = 37"
definition TK_DATABASE :: nat where "TK_DATABASE = 38"
definition TK_DESC :: nat where "TK_DESC = 39"
definition TK_DETACH :: nat where "TK_DETACH = 40"
definition TK_EACH :: nat where "TK_EACH = 41"
definition TK_FAIL :: nat where "TK_FAIL = 42"
definition TK_OR :: nat where "TK_OR = 43"
definition TK_AND :: nat where "TK_AND = 44"
definition TK_IS :: nat where "TK_IS = 45"
definition TK_MATCH :: nat where "TK_MATCH = 46"
definition TK_LIKE_KW :: nat where "TK_LIKE_KW = 47"
definition TK_BETWEEN :: nat where "TK_BETWEEN = 48"
definition TK_IN :: nat where "TK_IN = 49"
definition TK_ISNULL :: nat where "TK_ISNULL = 50"
definition TK_NOTNULL :: nat where "TK_NOTNULL = 51"
definition TK_NE :: nat where "TK_NE = 52"
definition TK_EQ :: nat where "TK_EQ = 53"
definition TK_GT :: nat where "TK_GT = 54"
definition TK_LE :: nat where "TK_LE = 55"
definition TK_LT :: nat where "TK_LT = 56"
definition TK_GE :: nat where "TK_GE = 57"
definition TK_ESCAPE :: nat where "TK_ESCAPE = 58"
definition TK_ID :: nat where "TK_ID = 59"
definition TK_COLUMNKW :: nat where "TK_COLUMNKW = 60"
definition TK_DO :: nat where "TK_DO = 61"
definition TK_FOR :: nat where "TK_FOR = 62"
definition TK_IGNORE :: nat where "TK_IGNORE = 63"
definition TK_INITIALLY :: nat where "TK_INITIALLY = 64"
definition TK_INSTEAD :: nat where "TK_INSTEAD = 65"
definition TK_NO :: nat where "TK_NO = 66"
definition TK_KEY :: nat where "TK_KEY = 67"
definition TK_OF :: nat where "TK_OF = 68"
definition TK_OFFSET :: nat where "TK_OFFSET = 69"
definition TK_PRAGMA :: nat where "TK_PRAGMA = 70"
definition TK_RAISE :: nat where "TK_RAISE = 71"
definition TK_RECURSIVE :: nat where "TK_RECURSIVE = 72"
definition TK_REPLACE :: nat where "TK_REPLACE = 73"
definition TK_RESTRICT :: nat where "TK_RESTRICT = 74"
definition TK_ROW :: nat where "TK_ROW = 75"
definition TK_ROWS :: nat where "TK_ROWS = 76"
definition TK_TRIGGER :: nat where "TK_TRIGGER = 77"
definition TK_VACUUM :: nat where "TK_VACUUM = 78"
definition TK_VIEW :: nat where "TK_VIEW = 79"
definition TK_VIRTUAL :: nat where "TK_VIRTUAL = 80"
definition TK_WITH :: nat where "TK_WITH = 81"
definition TK_CURRENT :: nat where "TK_CURRENT = 82"
definition TK_FOLLOWING :: nat where "TK_FOLLOWING = 83"
definition TK_PARTITION :: nat where "TK_PARTITION = 84"
definition TK_PRECEDING :: nat where "TK_PRECEDING = 85"
definition TK_RANGE :: nat where "TK_RANGE = 86"
definition TK_UNBOUNDED :: nat where "TK_UNBOUNDED = 87"
definition TK_REINDEX :: nat where "TK_REINDEX = 88"
definition TK_RENAME :: nat where "TK_RENAME = 89"
definition TK_CTIME_KW :: nat where "TK_CTIME_KW = 90"
definition TK_BITAND :: nat where "TK_BITAND = 92"
definition TK_BITOR :: nat where "TK_BITOR = 93"
definition TK_LSHIFT :: nat where "TK_LSHIFT = 94"
definition TK_RSHIFT :: nat where "TK_RSHIFT = 95"
definition TK_PLUS :: nat where "TK_PLUS = 96"
definition TK_MINUS :: nat where "TK_MINUS = 97"
definition TK_STAR :: nat where "TK_STAR = 98"
definition TK_SLASH :: nat where "TK_SLASH = 99"
definition TK_REM :: nat where "TK_REM = 100"
definition TK_CONCAT :: nat where "TK_CONCAT = 101"
definition TK_COLLATE :: nat where "TK_COLLATE = 102"
definition TK_BITNOT :: nat where "TK_BITNOT = 103"
definition TK_ON :: nat where "TK_ON = 104"
definition TK_INDEXED :: nat where "TK_INDEXED = 105"
definition TK_STRING :: nat where "TK_STRING = 106"
definition TK_JOIN_KW :: nat where "TK_JOIN_KW = 107"
definition TK_CONSTRAINT :: nat where "TK_CONSTRAINT = 108"
definition TK_DEFAULT :: nat where "TK_DEFAULT = 109"
definition TK_NULL :: nat where "TK_NULL = 110"
definition TK_PRIMARY :: nat where "TK_PRIMARY = 111"
definition TK_UNIQUE :: nat where "TK_UNIQUE = 112"
definition TK_CHECK :: nat where "TK_CHECK = 113"
definition TK_REFERENCES :: nat where "TK_REFERENCES = 114"
definition TK_AUTOINCR :: nat where "TK_AUTOINCR = 115"
definition TK_INSERT :: nat where "TK_INSERT = 116"
definition TK_DELETE :: nat where "TK_DELETE = 117"
definition TK_UPDATE :: nat where "TK_UPDATE = 118"
definition TK_SET :: nat where "TK_SET = 119"
definition TK_DEFERRABLE :: nat where "TK_DEFERRABLE = 120"
definition TK_FOREIGN :: nat where "TK_FOREIGN = 121"
definition TK_DROP :: nat where "TK_DROP = 122"
definition TK_UNION :: nat where "TK_UNION = 123"
definition TK_ALL :: nat where "TK_ALL = 124"
definition TK_EXCEPT :: nat where "TK_EXCEPT = 125"
definition TK_INTERSECT :: nat where "TK_INTERSECT = 126"
definition TK_SELECT :: nat where "TK_SELECT = 127"
definition TK_VALUES :: nat where "TK_VALUES = 128"
definition TK_DISTINCT :: nat where "TK_DISTINCT = 129"
definition TK_DOT :: nat where "TK_DOT = 130"
definition TK_FROM :: nat where "TK_FROM = 131"
definition TK_JOIN :: nat where "TK_JOIN = 132"
definition TK_USING :: nat where "TK_USING = 133"
definition TK_ORDER :: nat where "TK_ORDER = 134"
definition TK_GROUP :: nat where "TK_GROUP = 135"
definition TK_HAVING :: nat where "TK_HAVING = 136"
definition TK_LIMIT :: nat where "TK_LIMIT = 137"
definition TK_WHERE :: nat where "TK_WHERE = 138"
definition TK_INTO :: nat where "TK_INTO = 139"
definition TK_NOTHING :: nat where "TK_NOTHING = 140"
definition TK_FLOAT :: nat where "TK_FLOAT = 141"
definition TK_BLOB :: nat where "TK_BLOB = 142"
definition TK_INTEGER :: nat where "TK_INTEGER = 143"
definition TK_VARIABLE :: nat where "TK_VARIABLE = 144"
definition TK_CASE :: nat where "TK_CASE = 145"
definition TK_WHEN :: nat where "TK_WHEN = 146"
definition TK_THEN :: nat where "TK_THEN = 147"
definition TK_ELSE :: nat where "TK_ELSE = 148"
definition TK_INDEX :: nat where "TK_INDEX = 149"
definition TK_ALTER :: nat where "TK_ALTER = 150"
definition TK_ADD :: nat where "TK_ADD = 151"
definition TK_WINDOW :: nat where "TK_WINDOW = 152"
definition TK_OVER :: nat where "TK_OVER = 153"
definition TK_FILTER :: nat where "TK_FILTER = 154"
definition TK_SPACE :: nat where "TK_SPACE = 172"
definition TK_ILLEGAL :: nat where "TK_ILLEGAL = 173"

section \<open>The tables\<close>

definition zKWText :: "u8 list" where
  "zKWText = [
     82, 69, 73, 78, 68, 69, 88, 69, 68, 69, 83, 67, 65, 80, 69, 65, 67, 72,
     69, 67, 75, 69, 89, 66, 69, 70, 79, 82, 69, 73, 71, 78, 79, 82, 69, 71,
     69, 88, 80, 76, 65, 73, 78, 83, 84, 69, 65, 68, 68, 65, 84, 65, 66, 65,
     83, 69, 76, 69, 67, 84, 65, 66, 76, 69, 70, 84, 72, 69, 78, 68, 69, 70,
     69, 82, 82, 65, 66, 76, 69, 76, 83, 69, 88, 67, 69, 80, 84, 82, 65, 78,
     83, 65, 67, 84, 73, 79, 78, 65, 84, 85, 82, 65, 76, 84, 69, 82, 65, 73,
     83, 69, 88, 67, 76, 85, 83, 73, 86, 69, 88, 73, 83, 84, 83, 65, 86, 69,
     80, 79, 73, 78, 84, 69, 82, 83, 69, 67, 84, 82, 73, 71, 71, 69, 82, 69,
     70, 69, 82, 69, 78, 67, 69, 83, 67, 79, 78, 83, 84, 82, 65, 73, 78, 84,
     79, 70, 70, 83, 69, 84, 69, 77, 80, 79, 82, 65, 82, 89, 85, 78, 73, 81,
     85, 69, 82, 89, 87, 73, 84, 72, 79, 85, 84, 69, 82, 69, 76, 69, 65, 83,
     69, 65, 84, 84, 65, 67, 72, 65, 86, 73, 78, 71, 82, 79, 85, 80, 68, 65,
     84, 69, 66, 69, 71, 73, 78, 78, 69, 82, 65, 78, 71, 69, 66, 69, 84, 87,
     69, 69, 78, 79, 84, 72, 73, 78, 71, 76, 79, 66, 89, 67, 65, 83, 67, 65,
     68, 69, 76, 69, 84, 69, 67, 65, 83, 69, 67, 79, 76, 76, 65, 84, 69, 67,
     82, 69, 65, 84, 69, 67, 85, 82, 82, 69, 78, 84, 95, 68, 65, 84, 69, 68,
     69, 84, 65, 67, 72, 73, 77, 77, 69, 68, 73, 65, 84, 69, 74, 79, 73, 78,
     83, 69, 82, 84, 76, 73, 75, 69, 77, 65, 84, 67, 72, 80, 76, 65, 78, 65,
     76, 89, 90, 69, 80, 82, 65, 71, 77, 65, 66, 79, 82, 84, 86, 65, 76, 85,
     69, 83, 86, 73, 82, 84, 85, 65, 76, 73, 77, 73, 84, 87, 72, 69, 78, 79,
     84, 78, 85, 76, 76, 87, 72, 69, 82, 69, 67, 85, 82, 83, 73, 86, 69, 65,
     70, 84, 69, 82, 69, 78, 65, 77, 69, 65, 78, 68, 69, 70, 65, 85, 76, 84,
     65, 85, 84, 79, 73, 78, 67, 82, 69, 77, 69, 78, 84, 67, 65, 83, 84, 67,
     79, 76, 85, 77, 78, 67, 79, 77, 77, 73, 84, 67, 79, 78, 70, 76, 73, 67,
     84, 67, 82, 79, 83, 83, 67, 85, 82, 82, 69, 78, 84, 95, 84, 73, 77, 69,
     83, 84, 65, 77, 80, 65, 82, 84, 73, 84, 73, 79, 78, 68, 69, 70, 69, 82,
     82, 69, 68, 73, 83, 84, 73, 78, 67, 84, 68, 82, 79, 80, 82, 69, 67, 69,
     68, 73, 78, 71, 70, 65, 73, 76, 70, 73, 76, 84, 69, 82, 69, 80, 76, 65,
     67, 69, 70, 79, 76, 76, 79, 87, 73, 78, 71, 70, 82, 79, 77, 70, 85, 76,
     76, 73, 70, 73, 83, 78, 85, 76, 76, 79, 82, 68, 69, 82, 69, 83, 84, 82,
     73, 67, 84, 79, 86, 69, 82, 73, 71, 72, 84, 82, 79, 76, 76, 66, 65, 67,
     75, 82, 79, 87, 83, 85, 78, 66, 79, 85, 78, 68, 69, 68, 85, 78, 73, 79,
     78, 85, 83, 73, 78, 71, 86, 65, 67, 85, 85, 77, 86, 73, 69, 87, 73, 78,
     68, 79, 87, 73, 78, 73, 84, 73, 65, 76, 76, 89, 80, 82, 73, 77, 65, 82,
     89]"

definition aKWHash :: "nat list" where
  "aKWHash = [
     74, 109, 124, 72, 106, 45, 0, 0, 81, 0, 76, 61, 0, 42, 12, 77, 15, 0,
     123, 84, 54, 118, 125, 19, 0, 0, 130, 0, 128, 121, 0, 22, 96, 0, 9, 0,
     0, 115, 69, 0, 67, 6, 0, 48, 93, 136, 0, 126, 104, 0, 0, 44, 0, 107,
     24, 0, 17, 0, 131, 53, 23, 0, 5, 62, 132, 99, 0, 0, 135, 110, 60, 134,
     57, 113, 55, 0, 94, 0, 103, 26, 0, 102, 0, 0, 0, 98, 95, 100, 105, 117,
     14, 39, 116, 0, 80, 0, 133, 114, 92, 59, 0, 129, 79, 119, 86, 46, 83, 0,
     0, 97, 40, 122, 120, 0, 127, 0, 0, 29, 0, 89, 87, 88, 0, 20, 85, 111,
     56]"

definition aKWNext :: "nat list" where
  "aKWNext = [
     0, 0, 0, 0, 4, 0, 0, 0, 0, 0, 0, 0, 0, 0, 2, 0, 0, 0,
     0, 0, 0, 13, 0, 0, 0, 0, 0, 7, 0, 0, 0, 0, 0, 0, 0, 0,
     0, 0, 0, 0, 0, 0, 0, 33, 0, 21, 0, 0, 0, 0, 0, 50, 0, 43,
     3, 47, 0, 0, 32, 0, 0, 0, 0, 0, 0, 0, 1, 64, 0, 0, 65, 0,
     41, 0, 38, 0, 0, 0, 0, 0, 49, 75, 0, 0, 30, 0, 58, 0, 0, 0,
     31, 63, 16, 34, 10, 0, 0, 0, 0, 0, 0, 0, 11, 70, 91, 0, 0, 8,
     0, 108, 0, 101, 28, 52, 68, 0, 112, 0, 73, 51, 0, 90, 27, 37, 0, 71,
     36, 82, 0, 35, 66, 25, 18, 0, 0, 78]"

definition aKWLen :: "nat list" where
  "aKWLen = [
     7, 7, 5, 4, 6, 4, 5, 3, 6, 7, 3, 6, 6, 7, 7, 3, 8, 2,
     6, 5, 4, 4, 3, 10, 4, 6, 11, 6, 2, 7, 5, 5, 9, 6, 9, 9,
     7, 10, 10, 4, 6, 2, 3, 9, 4, 2, 6, 5, 7, 4, 5, 7, 6, 6,
     5, 6, 5, 5, 5, 7, 7, 4, 2, 7, 3, 6, 4, 7, 6, 12, 6, 9,
     4, 6, 4, 5, 4, 7, 6, 5, 6, 7, 5, 4, 7, 3, 2, 4, 5, 9,
     5, 6, 3, 7, 13, 2, 2, 4, 6, 6, 8, 5, 17, 12, 7, 9, 8, 8,
     2, 4, 9, 4, 6, 7, 9, 4, 4, 2, 6, 5, 8, 4, 5, 8, 4, 3,
     9, 5, 5, 6, 4, 6, 2, 9, 3, 7]"

definition aKWOffset :: "nat list" where
  "aKWOffset = [
     0, 2, 2, 8, 9, 14, 16, 20, 23, 25, 25, 29, 33, 36, 41, 46, 48, 53,
     54, 59, 62, 65, 67, 69, 78, 81, 86, 91, 95, 96, 101, 105, 109, 117, 122, 128,
     136, 142, 152, 159, 162, 162, 165, 167, 167, 171, 176, 179, 184, 184, 188, 192, 199, 204,
     209, 212, 218, 221, 225, 230, 236, 242, 245, 247, 248, 252, 258, 262, 269, 275, 287, 293,
     302, 304, 310, 314, 319, 321, 328, 333, 338, 344, 350, 355, 358, 358, 358, 361, 365, 368,
     377, 381, 387, 389, 396, 398, 400, 409, 413, 419, 425, 433, 438, 438, 438, 454, 463, 470,
     471, 478, 481, 490, 494, 499, 506, 515, 519, 523, 525, 531, 535, 543, 546, 551, 559, 559,
     563, 572, 577, 582, 588, 591, 594, 597, 602, 606]"

definition aKWCode :: "nat list" where
  "aKWCode = [
     TK_REINDEX, TK_INDEXED, TK_INDEX, TK_DESC, TK_ESCAPE, TK_EACH,
     TK_CHECK, TK_KEY, TK_BEFORE, TK_FOREIGN, TK_FOR, TK_IGNORE,
     TK_LIKE_KW, TK_EXPLAIN, TK_INSTEAD, TK_ADD, TK_DATABASE, TK_AS,
     TK_SELECT, TK_TABLE, TK_JOIN_KW, TK_THEN, TK_END, TK_DEFERRABLE,
     TK_ELSE, TK_EXCEPT, TK_TRANSACTION, TK_ACTION, TK_ON, TK_JOIN_KW,
     TK_ALTER, TK_RAISE, TK_EXCLUSIVE, TK_EXISTS, TK_SAVEPOINT, TK_INTERSECT,
     TK_TRIGGER, TK_REFERENCES, TK_CONSTRAINT, TK_INTO, TK_OFFSET, TK_OF,
     TK_SET, TK_TEMP, TK_TEMP, TK_OR, TK_UNIQUE, TK_QUERY,
     TK_WITHOUT, TK_WITH, TK_JOIN_KW, TK_RELEASE, TK_ATTACH, TK_HAVING,
     TK_GROUP, TK_UPDATE, TK_BEGIN, TK_JOIN_KW, TK_RANGE, TK_BETWEEN,
     TK_NOTHING, TK_LIKE_KW, TK_BY, TK_CASCADE, TK_ASC, TK_DELETE,
     TK_CASE, TK_COLLATE, TK_CREATE, TK_CTIME_KW, TK_DETACH, TK_IMMEDIATE,
     TK_JOIN, TK_INSERT, TK_LIKE_KW, TK_MATCH, TK_PLAN, TK_ANALYZE,
     TK_PRAGMA, TK_ABORT, TK_VALUES, TK_VIRTUAL, TK_LIMIT, TK_WHEN,
     TK_NOTNULL, TK_NOT, TK_NO, TK_NULL, TK_WHERE, TK_RECURSIVE,
     TK_AFTER, TK_RENAME, TK_AND, TK_DEFAULT, TK_AUTOINCR, TK_TO,
     TK_IN, TK_CAST, TK_COLUMNKW, TK_COMMIT, TK_CONFLICT, TK_JOIN_KW,
     TK_CTIME_KW, TK_CTIME_KW, TK_CURRENT, TK_PARTITION, TK_DEFERRED, TK_DISTINCT,
     TK_IS, TK_DROP, TK_PRECEDING, TK_FAIL, TK_FILTER, TK_REPLACE,
     TK_FOLLOWING, TK_FROM, TK_JOIN_KW, TK_IF, TK_ISNULL, TK_ORDER,
     TK_RESTRICT, TK_OVER, TK_JOIN_KW, TK_ROLLBACK, TK_ROWS, TK_ROW,
     TK_UNBOUNDED, TK_UNION, TK_USING, TK_VACUUM, TK_VIEW, TK_WINDOW,
     TK_DO, TK_INITIALLY, TK_ALL, TK_PRIMARY]"

definition yyFallback :: "nat list" where
  "yyFallback = [
     0, 0, 59, 59, 59, 59, 0, 59, 59, 59, 0, 59, 59, 59, 59, 0, 0, 0,
     59, 0, 0, 59, 0, 0, 0, 59, 0, 59, 59, 59, 59, 59, 59, 59, 59, 59,
     59, 59, 59, 59, 59, 59, 59, 0, 0, 0, 59, 59, 0, 0, 0, 0, 0, 0,
     0, 0, 0, 0, 0, 0, 59, 59, 59, 59, 59, 59, 59, 59, 59, 59, 59, 59,
     59, 59, 59, 59, 59, 59, 59, 59, 59, 59, 59, 59, 59, 59, 59, 59, 59, 59,
     59]"

definition SQLITE_N_KEYWORD :: nat where "SQLITE_N_KEYWORD = 136"

section \<open>The routines\<close>

definition sqlite3ParserFallback :: "nat \<Rightarrow> nat" where
  "sqlite3ParserFallback iToken = (if iToken < length yyFallback then yyFallback ! iToken else 0)"

definition kw_text :: "nat \<Rightarrow> u8 list" where
  "kw_text i = take (aKWLen ! i) (drop (aKWOffset ! i) zKWText)"

text \<open>
  \<^verbatim>\<open>while( j<n && (z[j]&~0x20)==zKW[j] ){ j++; } if( j<n ) continue;\<close> for a keyword of length \<open>n\<close>.
\<close>

definition kw_match :: "u8 list \<Rightarrow> nat \<Rightarrow> nat \<Rightarrow> bool" where
  "kw_match z n i = list_all2 (\<lambda>c k. c AND NOT 0x20 = k) (take n z) (take n (drop (aKWOffset ! i) zKWText))"

text \<open>
  The loop over a chain; its argument is \<open>i+1\<close>, zero at the end. It ends because the next number in
  a chain is smaller.
\<close>

lemma aKWNext_smaller: "i < length aKWNext \<Longrightarrow> aKWNext ! i \<le> i"
proof -
  have "list_all (\<lambda>i. aKWNext ! i \<le> i) [0..<136]" by code_simp
  moreover have "length aKWNext = 136" by code_simp
  ultimately show "i < length aKWNext \<Longrightarrow> aKWNext ! i \<le> i" by (simp add: list_all_iff)
qed

function kw_loop :: "u8 list \<Rightarrow> nat \<Rightarrow> nat \<Rightarrow> nat option" where
  "kw_loop z n 0 = None"
| "kw_loop z n (Suc i) =
     (case rd aKWNext i of
        None \<Rightarrow> None
      | Some k \<Rightarrow>
          if aKWLen ! i \<noteq> n then kw_loop z n k
          else if \<not> kw_match z n i then kw_loop z n k
          else Some (aKWCode ! i))"
  by pat_completeness auto
termination
  by (relation "measure (\<lambda>(z, n, i). i)") (auto simp: rd_Some_iff less_Suc_eq_le dest: aKWNext_smaller)

definition keyword_hash :: "u8 list \<Rightarrow> nat \<Rightarrow> nat" where
  "keyword_hash z n =
     nat (((uint (UpperToLower (zc z 0)) * 4) XOR (uint (UpperToLower (zc z (n - 1))) * 3) XOR int n) mod 127)"

text \<open>The length it returns, and the token type that is left.\<close>

definition keywordCode :: "u8 list \<Rightarrow> nat \<Rightarrow> nat \<Rightarrow> nat \<times> nat" where
  "keywordCode z n tokenType =
     (n, if n \<ge> 2 then
           (case kw_loop z n (aKWHash ! keyword_hash z n) of None \<Rightarrow> tokenType | Some code \<Rightarrow> code)
         else tokenType)"

definition sqlite3KeywordCode :: "u8 list \<Rightarrow> nat \<Rightarrow> nat" where
  "sqlite3KeywordCode z n = snd (keywordCode z n TK_ID)"

definition sqlite3_keyword_name :: "int \<Rightarrow> u8 list option" where
  "sqlite3_keyword_name i = (if i < 0 \<or> i \<ge> int SQLITE_N_KEYWORD then None else Some (kw_text (nat i)))"

definition sqlite3_keyword_count :: nat where
  "sqlite3_keyword_count = SQLITE_N_KEYWORD"

definition sqlite3_keyword_check :: "u8 list \<Rightarrow> nat \<Rightarrow> bool" where
  "sqlite3_keyword_check zName nName = (TK_ID \<noteq> sqlite3KeywordCode zName nName)"

end
