(* ===== verification/Tokenize.thy ===== *)
theory Tokenize
  imports Keyword
begin

text \<open>
  The SQL tokenizer of \<^verbatim>\<open>src/tokenize.c\<close> and the loop of \<^verbatim>\<open>sqlite3RunParser\<close> that feeds the parser.

  A text is a NUL-terminated string, given by the bytes before the terminator and read through \<open>zc\<close>.
  \<open>sqlite3GetToken\<close> returns the length and the type of the token at the front. A loop that only moves
  forward over characters of one kind is \<open>skip\<close>; the loops with more in their bodies are functions on
  the rest of the text that carry the index.
\<close>

section \<open>Character classes\<close>

definition CC_X :: nat where "CC_X = 0"
definition CC_KYWD :: nat where "CC_KYWD = 1"
definition CC_ID :: nat where "CC_ID = 2"
definition CC_DIGIT :: nat where "CC_DIGIT = 3"
definition CC_DOLLAR :: nat where "CC_DOLLAR = 4"
definition CC_VARALPHA :: nat where "CC_VARALPHA = 5"
definition CC_VARNUM :: nat where "CC_VARNUM = 6"
definition CC_SPACE :: nat where "CC_SPACE = 7"
definition CC_QUOTE :: nat where "CC_QUOTE = 8"
definition CC_QUOTE2 :: nat where "CC_QUOTE2 = 9"
definition CC_PIPE :: nat where "CC_PIPE = 10"
definition CC_MINUS :: nat where "CC_MINUS = 11"
definition CC_LT :: nat where "CC_LT = 12"
definition CC_GT :: nat where "CC_GT = 13"
definition CC_EQ :: nat where "CC_EQ = 14"
definition CC_BANG :: nat where "CC_BANG = 15"
definition CC_SLASH :: nat where "CC_SLASH = 16"
definition CC_LP :: nat where "CC_LP = 17"
definition CC_RP :: nat where "CC_RP = 18"
definition CC_SEMI :: nat where "CC_SEMI = 19"
definition CC_PLUS :: nat where "CC_PLUS = 20"
definition CC_STAR :: nat where "CC_STAR = 21"
definition CC_PERCENT :: nat where "CC_PERCENT = 22"
definition CC_COMMA :: nat where "CC_COMMA = 23"
definition CC_AND :: nat where "CC_AND = 24"
definition CC_TILDA :: nat where "CC_TILDA = 25"
definition CC_DOT :: nat where "CC_DOT = 26"
definition CC_ILLEGAL :: nat where "CC_ILLEGAL = 27"
definition CC_NUL :: nat where "CC_NUL = 28"

definition aiClass_table :: "nat list" where
  "aiClass_table = [
     28, 27, 27, 27, 27, 27, 27, 27, 27, 7, 7, 27, 7, 7, 27, 27,
     27, 27, 27, 27, 27, 27, 27, 27, 27, 27, 27, 27, 27, 27, 27, 27,
     7, 15, 8, 5, 4, 22, 24, 8, 17, 18, 21, 20, 23, 11, 26, 16,
     3, 3, 3, 3, 3, 3, 3, 3, 3, 3, 5, 19, 12, 14, 13, 6,
     5, 1, 1, 1, 1, 1, 1, 1, 1, 1, 1, 1, 1, 1, 1, 1,
     1, 1, 1, 1, 1, 1, 1, 1, 0, 1, 1, 9, 27, 27, 27, 1,
     8, 1, 1, 1, 1, 1, 1, 1, 1, 1, 1, 1, 1, 1, 1, 1,
     1, 1, 1, 1, 1, 1, 1, 1, 0, 1, 1, 27, 10, 27, 25, 27,
     2, 2, 2, 2, 2, 2, 2, 2, 2, 2, 2, 2, 2, 2, 2, 2,
     2, 2, 2, 2, 2, 2, 2, 2, 2, 2, 2, 2, 2, 2, 2, 2,
     2, 2, 2, 2, 2, 2, 2, 2, 2, 2, 2, 2, 2, 2, 2, 2,
     2, 2, 2, 2, 2, 2, 2, 2, 2, 2, 2, 2, 2, 2, 2, 2,
     2, 2, 2, 2, 2, 2, 2, 2, 2, 2, 2, 2, 2, 2, 2, 2,
     2, 2, 2, 2, 2, 2, 2, 2, 2, 2, 2, 2, 2, 2, 2, 2,
     2, 2, 2, 2, 2, 2, 2, 2, 2, 2, 2, 2, 2, 2, 2, 2,
     2, 2, 2, 2, 2, 2, 2, 2, 2, 2, 2, 2, 2, 2, 2, 2]"

definition aiClass :: "u8 \<Rightarrow> nat" where
  "aiClass c = aiClass_table ! unat c"

section \<open>One token\<close>

text \<open>\<open>for(; P(z[i]); i++){}\<close>\<close>

definition skip :: "(u8 \<Rightarrow> bool) \<Rightarrow> u8 list \<Rightarrow> nat \<Rightarrow> nat" where
  "skip P z i = i + length (takeWhile P (drop i z))"

text \<open>\<open>for(; (c!='*' || z[i]!='/') && (c=z[i])!=0; i++){}\<close>, with the last value of \<open>c\<close>.\<close>

fun comment_scan :: "u8 \<Rightarrow> u8 list \<Rightarrow> nat \<Rightarrow> nat \<times> u8" where
  "comment_scan c [] i = (i, 0)"
| "comment_scan c (d # r) i =
     (if c \<noteq> 0x2a \<or> d \<noteq> 0x2f then if d = 0 then (i, 0) else comment_scan d r (i + 1) else (i, c))"

text \<open>The loop over a quoted string: a doubled delimiter does not end it.\<close>

fun quote_scan :: "u8 \<Rightarrow> u8 list \<Rightarrow> nat \<Rightarrow> nat \<times> u8" where
  "quote_scan delim [] i = (i, 0)"
| "quote_scan delim (c # r) i =
     (if c = 0 then (i, 0)
      else if c = delim then
        if zc r 0 = delim then quote_scan delim (drop 1 r) (i + 2) else (i, c)
      else quote_scan delim r (i + 1))"

text \<open>\<open>for(; c!=']' && (c=z[i])!=0; i++){}\<close>\<close>

fun bracket_scan :: "u8 \<Rightarrow> u8 list \<Rightarrow> nat \<Rightarrow> nat \<times> u8" where
  "bracket_scan c [] i = (i, if c = 0x5d then c else 0)"
| "bracket_scan c (d # r) i =
     (if c = 0x5d then (i, c) else if d = 0 then (i, 0) else bracket_scan d r (i + 1))"

text \<open>
  The loop over a variable name: the index, the count \<open>n\<close> of identifier characters, and whether an
  unclosed parenthesis made it illegal.
\<close>

fun variable_scan :: "u8 list \<Rightarrow> nat \<Rightarrow> nat \<Rightarrow> nat \<times> nat \<times> bool" where
  "variable_scan [] i n = (i, n, False)"
| "variable_scan (c # r) i n =
     (if c = 0 then (i, n, False)
      else if IdChar c then variable_scan r (i + 1) (n + 1)
      else if c = 0x28 \<and> n > 0 then
        let k = skip (\<lambda>c. c \<noteq> 0 \<and> \<not> sqlite3Isspace c \<and> c \<noteq> 0x29) r 0 in
          if zc r k = 0x29 then (i + 1 + k + 1, n, False) else (i + 1 + k, n, True)
      else if c = 0x3a \<and> zc r 0 = 0x3a then variable_scan (drop 1 r) (i + 2) n
      else (i, n, False))"

definition number_token :: "u8 list \<Rightarrow> nat \<times> nat" where
  "number_token z =
     (if zc z 0 = 0x30 \<and> (zc z 1 = 0x78 \<or> zc z 1 = 0x58) \<and> sqlite3Isxdigit (zc z 2) then
        (skip sqlite3Isxdigit z 3, TK_INTEGER)
      else
        let i = skip sqlite3Isdigit z 0;
            (i, t) = (if zc z i = 0x2e then (skip sqlite3Isdigit z (i + 1), TK_FLOAT) else (i, TK_INTEGER));
            (i, t) = (if (zc z i = 0x65 \<or> zc z i = 0x45)
                         \<and> (sqlite3Isdigit (zc z (i + 1))
                            \<or> ((zc z (i + 1) = 0x2b \<or> zc z (i + 1) = 0x2d) \<and> sqlite3Isdigit (zc z (i + 2))))
                      then (skip sqlite3Isdigit z (i + 2), TK_FLOAT) else (i, t))
        in if IdChar (zc z i) then (skip IdChar z i, TK_ILLEGAL) else (i, t))"

definition blob_token :: "u8 list \<Rightarrow> nat \<times> nat" where
  "blob_token z =
     (let i = skip sqlite3Isxdigit z 2;
          (i, t) = (if zc z i \<noteq> 0x27 \<or> i mod 2 \<noteq> 0
                    then (skip (\<lambda>c. c \<noteq> 0 \<and> c \<noteq> 0x27) z i, TK_ILLEGAL) else (i, TK_BLOB))
      in (if zc z i \<noteq> 0 then i + 1 else i, t))"

definition sqlite3GetToken :: "u8 list \<Rightarrow> nat \<times> nat" where
  "sqlite3GetToken z =
     (let cc = aiClass (zc z 0); c1 = zc z 1 in
      if cc = CC_SPACE then (skip sqlite3Isspace z 1, TK_SPACE)
      else if cc = CC_MINUS then
        if c1 = 0x2d then (skip (\<lambda>c. c \<noteq> 0 \<and> c \<noteq> 0x0a) z 2, TK_SPACE) else (1, TK_MINUS)
      else if cc = CC_LP then (1, TK_LP)
      else if cc = CC_RP then (1, TK_RP)
      else if cc = CC_SEMI then (1, TK_SEMI)
      else if cc = CC_PLUS then (1, TK_PLUS)
      else if cc = CC_STAR then (1, TK_STAR)
      else if cc = CC_SLASH then
        if c1 \<noteq> 0x2a \<or> zc z 2 = 0 then (1, TK_SLASH)
        else let (i, c) = comment_scan (zc z 2) (drop 3 z) 3 in (if c \<noteq> 0 then i + 1 else i, TK_SPACE)
      else if cc = CC_PERCENT then (1, TK_REM)
      else if cc = CC_EQ then (1 + (if c1 = 0x3d then 1 else 0), TK_EQ)
      else if cc = CC_LT then
        if c1 = 0x3d then (2, TK_LE)
        else if c1 = 0x3e then (2, TK_NE)
        else if c1 = 0x3c then (2, TK_LSHIFT)
        else (1, TK_LT)
      else if cc = CC_GT then
        if c1 = 0x3d then (2, TK_GE)
        else if c1 = 0x3e then (2, TK_RSHIFT)
        else (1, TK_GT)
      else if cc = CC_BANG then if c1 \<noteq> 0x3d then (1, TK_ILLEGAL) else (2, TK_NE)
      else if cc = CC_PIPE then if c1 \<noteq> 0x7c then (1, TK_BITOR) else (2, TK_CONCAT)
      else if cc = CC_COMMA then (1, TK_COMMA)
      else if cc = CC_AND then (1, TK_BITAND)
      else if cc = CC_TILDA then (1, TK_BITNOT)
      else if cc = CC_QUOTE then
        let (i, c) = quote_scan (zc z 0) (drop 1 z) 1 in
          if c = 0x27 then (i + 1, TK_STRING) else if c \<noteq> 0 then (i + 1, TK_ID) else (i, TK_ILLEGAL)
      else if cc = CC_DOT \<and> \<not> sqlite3Isdigit c1 then (1, TK_DOT)
      else if cc = CC_DOT \<or> cc = CC_DIGIT then number_token z
      else if cc = CC_QUOTE2 then
        let (i, c) = bracket_scan (zc z 0) (drop 1 z) 1 in (i, if c = 0x5d then TK_ID else TK_ILLEGAL)
      else if cc = CC_VARNUM then (skip sqlite3Isdigit z 1, TK_VARIABLE)
      else if cc = CC_DOLLAR \<or> cc = CC_VARALPHA then
        let (i, n, bad) = variable_scan (drop 1 z) 1 0
        in (i, if n = 0 \<or> bad then TK_ILLEGAL else TK_VARIABLE)
      else if cc = CC_KYWD then
        let i = skip (\<lambda>c. aiClass c \<le> CC_KYWD) z 1 in
          if IdChar (zc z i) then (skip IdChar z (i + 1), TK_ID) else keywordCode z i TK_ID
      else if cc = CC_X \<and> c1 = 0x27 then blob_token z
      else if cc = CC_X \<or> cc = CC_ID then (skip IdChar z 1, TK_ID)
      else if cc = CC_NUL then (0, TK_ILLEGAL)
      else (1, TK_ILLEGAL))"

section \<open>A token is a non-empty piece of the text\<close>

lemma zc_nonzero_length: "zc z i \<noteq> 0 \<Longrightarrow> i < length z"
  by (auto simp: zc_def split: if_splits)

lemma skip_ge: "i \<le> skip P z i"
  by (simp add: skip_def)

lemma skip_le: "i \<le> length z \<Longrightarrow> skip P z i \<le> length z"
  using length_takeWhile_le [of P "drop i z"] by (simp add: skip_def)

lemma comment_scan_range:
  "comment_scan c r i = (j, d) \<Longrightarrow> i \<le> j \<and> j \<le> i + length r \<and> (d \<noteq> 0 \<longrightarrow> j < i + length r)"
  by (induction c r i rule: comment_scan.induct) (auto split: if_splits)

lemma quote_scan_range:
  "quote_scan q r i = (j, d) \<Longrightarrow> q \<noteq> 0 \<Longrightarrow> i \<le> j \<and> j \<le> i + length r \<and> (d \<noteq> 0 \<longrightarrow> j < i + length r)"
proof (induction q r i rule: quote_scan.induct)
  case (2 q c r i)
  show ?case
    using 2 by (cases r) (force split: if_splits)+
qed auto

lemma bracket_scan_range: "bracket_scan c r i = (j, d) \<Longrightarrow> i \<le> j \<and> j \<le> i + length r"
  by (induction c r i rule: bracket_scan.induct) (auto split: if_splits)

lemma variable_scan_range: "variable_scan r i n = (j, m, bad) \<Longrightarrow> i \<le> j \<and> j \<le> i + length r"
proof (induction r i n rule: variable_scan.induct)
  case (2 c r i n)
  have "skip P r 0 \<le> length r" for P by (rule skip_le) simp
  moreover have "zc r k = 0x29 \<Longrightarrow> k < length r" for k by (rule zc_nonzero_length) simp
  ultimately show ?case
    using 2 by (cases r) (force simp: Let_def split: if_splits)+
qed auto

lemma isdigit_nonzero: "sqlite3Isdigit c \<Longrightarrow> c \<noteq> 0"
  by (auto simp: sqlite3Isdigit_iff)

lemma isxdigit_nonzero: "sqlite3Isxdigit c \<Longrightarrow> c \<noteq> 0"
  by (auto simp: sqlite3Isxdigit_iff)

lemma IdChar_nonzero: "IdChar c \<Longrightarrow> c \<noteq> 0"
  by (auto simp: IdChar_iff)

definition piece :: "u8 list \<Rightarrow> nat \<times> nat \<Rightarrow> bool" where
  "piece z r \<longleftrightarrow> 1 \<le> fst r \<and> fst r \<le> length z"

lemma piece_if: "(c \<Longrightarrow> piece z a) \<Longrightarrow> (\<not> c \<Longrightarrow> piece z b) \<Longrightarrow> piece z (if c then a else b)"
  by simp

lemma piece_pair: "1 \<le> n \<Longrightarrow> n \<le> length z \<Longrightarrow> piece z (n, t)"
  by (simp add: piece_def)

lemma piece_1: "z \<noteq> [] \<Longrightarrow> piece z (1, t)"
  by (cases z) (simp_all add: piece_def)

lemma piece_2: "zc z 1 \<noteq> 0 \<Longrightarrow> piece z (2, t)"
  using zc_nonzero_length [of z 1] by (simp add: piece_def)

lemma number_token_piece:
  assumes "zc z 0 = 0x2e \<or> sqlite3Isdigit (zc z 0)"
  shows "piece z (number_token z)"
proof (cases "zc z 0 = 0x30 \<and> (zc z 1 = 0x78 \<or> zc z 1 = 0x58) \<and> sqlite3Isxdigit (zc z 2)")
  case True
  then have "2 < length z" using zc_nonzero_length [of z 2] isxdigit_nonzero by blast
  then show ?thesis
    using True skip_ge [of 3 sqlite3Isxdigit z] skip_le [of 3 z sqlite3Isxdigit]
    by (simp add: number_token_def piece_def)
next
  case False
  define i where "i = skip sqlite3Isdigit z 0"
  have i: "i \<le> length z" "zc z 0 \<noteq> 0x2e \<longrightarrow> 1 \<le> i"
    using skip_le [of 0 z sqlite3Isdigit] assms
    by (auto simp: i_def skip_def zc_def sqlite3Isdigit_iff split: if_splits) (cases z, auto simp: sqlite3Isdigit_iff)
  have i0: "zc z 0 = 0x2e \<longrightarrow> i = 0"
    by (cases z) (auto simp: i_def skip_def sqlite3Isdigit_iff)
  obtain j t where j: "(j, t) = (if zc z i = 0x2e then (skip sqlite3Isdigit z (i + 1), TK_FLOAT) else (i, TK_INTEGER))"
    by (metis surj_pair)
  have jr: "1 \<le> j" "j \<le> length z"
    using j i i0 skip_ge [of "i + 1" sqlite3Isdigit z] skip_le [of "i + 1" z sqlite3Isdigit]
      zc_nonzero_length [of z i] by (auto split: if_splits)
  let ?e = "(zc z j = 0x65 \<or> zc z j = 0x45) \<and> (sqlite3Isdigit (zc z (j + 1))
    \<or> ((zc z (j + 1) = 0x2b \<or> zc z (j + 1) = 0x2d) \<and> sqlite3Isdigit (zc z (j + 2))))"
  obtain k u where k: "(k, u) = (if ?e then (skip sqlite3Isdigit z (j + 2), TK_FLOAT) else (j, t))"
    by (metis surj_pair)
  have "j + 2 \<le> length z" if ?e
    using that zc_nonzero_length [of z "j + 1"] by (auto dest: isdigit_nonzero)
  then have kr: "1 \<le> k" "k \<le> length z"
    using k jr skip_ge [of "j + 2" sqlite3Isdigit z] skip_le [of "j + 2" z sqlite3Isdigit]
    by (auto split: if_splits)
  have "number_token z = (if IdChar (zc z k) then (skip IdChar z k, TK_ILLEGAL) else (k, u))"
    unfolding number_token_def Let_def if_not_P [OF False] i_def [symmetric] j [symmetric] prod.case
      k [symmetric] ..
  then show ?thesis
    using kr skip_ge [of k IdChar z] skip_le [of k z IdChar] by (auto simp: piece_def)
qed

lemma blob_token_piece:
  assumes "zc z 1 = 0x27"
  shows "piece z (blob_token z)"
proof -
  have 2: "2 \<le> length z" using zc_nonzero_length [of z 1] assms by simp
  define i where "i = skip sqlite3Isxdigit z 2"
  have i: "2 \<le> i" "i \<le> length z" using skip_ge skip_le [OF 2] by (simp_all add: i_def)
  obtain j t where j: "(j, t) = (if zc z i \<noteq> 0x27 \<or> i mod 2 \<noteq> 0
      then (skip (\<lambda>c. c \<noteq> 0 \<and> c \<noteq> 0x27) z i, TK_ILLEGAL) else (i, TK_BLOB))"
    by (metis surj_pair)
  let ?P = "\<lambda>c :: u8. c \<noteq> 0 \<and> c \<noteq> 0x27"
  have jr: "2 \<le> j" "j \<le> length z"
    using j i skip_ge [of i ?P z] skip_le [OF i(2), of ?P] by (auto split: if_splits)
  have "blob_token z = (if zc z j \<noteq> 0 then j + 1 else j, t)"
    unfolding blob_token_def Let_def i_def [symmetric] j [symmetric] prod.case ..
  then show ?thesis using jr zc_nonzero_length [of z j] by (simp add: piece_def Suc_le_eq)
qed

lemma aiClass_NUL: "aiClass c = CC_NUL \<longleftrightarrow> c = 0"
  by (rule byte_table) code_simp

lemma aiClass_digit: "aiClass c = CC_DIGIT \<longleftrightarrow> sqlite3Isdigit c"
  unfolding sqlite3Isdigit_iff by (rule byte_table) code_simp

lemma aiClass_dot: "aiClass c = CC_DOT \<longleftrightarrow> c = 0x2e"
  by (rule byte_table) code_simp

lemma comment_piece:
  assumes "zc z 2 \<noteq> 0"
  shows "piece z (case comment_scan (zc z 2) (drop 3 z) 3 of (i, c) \<Rightarrow> (if c \<noteq> 0 then i + 1 else i, TK_SPACE))"
  using comment_scan_range [of "zc z 2" "drop 3 z" 3] zc_nonzero_length [OF assms]
  by (force simp: piece_def split: prod.splits)

lemma quote_piece:
  assumes "zc z 0 \<noteq> 0"
  shows "piece z (case quote_scan (zc z 0) (drop 1 z) 1 of (i, c) \<Rightarrow>
    if c = 0x27 then (i + 1, TK_STRING) else if c \<noteq> 0 then (i + 1, TK_ID) else (i, TK_ILLEGAL))"
  using quote_scan_range [of "zc z 0" "drop 1 z" 1] zc_nonzero_length [OF assms] assms
  by (force simp: piece_def split: prod.splits)

lemma bracket_piece:
  assumes "zc z 0 \<noteq> 0"
  shows "piece z (case bracket_scan (zc z 0) (drop 1 z) 1 of (i, c) \<Rightarrow> (i, if c = 0x5d then TK_ID else TK_ILLEGAL))"
  using bracket_scan_range [of "zc z 0" "drop 1 z" 1] zc_nonzero_length [OF assms]
  by (force simp: piece_def split: prod.splits)

lemma variable_piece:
  assumes "zc z 0 \<noteq> 0"
  shows "piece z (case variable_scan (drop 1 z) 1 0 of (i, n, bad) \<Rightarrow>
    (i, if n = 0 \<or> bad then TK_ILLEGAL else TK_VARIABLE))"
  using variable_scan_range [of "drop 1 z" 1 0] zc_nonzero_length [OF assms]
  by (force simp: piece_def split: prod.splits)

lemma keyword_piece:
  assumes "z \<noteq> []"
  shows "piece z (if IdChar (zc z (skip P z 1)) then (skip IdChar z (skip P z 1 + 1), TK_ID)
    else keywordCode z (skip P z 1) TK_ID)"
proof -
  have "1 \<le> skip P z 1" "skip P z 1 \<le> length z"
    using assms skip_ge [of 1 P z] skip_le [of 1 z P] by (auto simp: Suc_le_eq)
  moreover have "skip P z 1 + 1 \<le> length z" if "IdChar (zc z (skip P z 1))"
    using zc_nonzero_length [OF IdChar_nonzero [OF that]] by simp
  ultimately show ?thesis
    using skip_ge [of "skip P z 1 + 1" IdChar z] skip_le [of "skip P z 1 + 1" z IdChar]
    by (auto simp: piece_def keywordCode_def)
qed

lemma eq_piece: "z \<noteq> [] \<Longrightarrow> piece z (1 + (if zc z 1 = 0x3d then 1 else 0), TK_EQ)"
  using zc_nonzero_length [of z 1] by (auto simp: piece_def Suc_le_eq)

lemma skip_2_piece: "zc z 1 \<noteq> 0 \<Longrightarrow> piece z (skip P z 2, t)"
  using zc_nonzero_length [of z 1] skip_ge [of 2 P z] skip_le [of 2 z P] by (simp add: piece_def)

lemma GetToken_piece:
  assumes "zc z 0 \<noteq> 0"
  shows "piece z (sqlite3GetToken z)"
proof -
  have z: "z \<noteq> []" "1 \<le> length z" using zc_nonzero_length [OF assms] by (auto simp: Suc_le_eq)
  have sk: "piece z (skip P z 1, t)" for P t
    by (rule piece_pair) (use skip_ge [of 1 P z] skip_le [OF z(2)] in auto)
  note branches = piece_1 [OF z(1)] sk eq_piece [OF z(1)] keyword_piece [OF z(1)] quote_piece [OF assms]
    bracket_piece [OF assms] variable_piece [OF assms] comment_piece number_token_piece blob_token_piece
  show ?thesis
    unfolding sqlite3GetToken_def Let_def
    by (intro piece_if branches)
      (use assms in \<open>simp_all add: skip_2_piece piece_2 aiClass_NUL aiClass_digit aiClass_dot\<close>)
qed

lemmas CC_defs =
  CC_X_def CC_KYWD_def CC_ID_def CC_DIGIT_def CC_DOLLAR_def CC_VARALPHA_def CC_VARNUM_def
  CC_SPACE_def CC_QUOTE_def CC_QUOTE2_def CC_PIPE_def CC_MINUS_def CC_LT_def CC_GT_def
  CC_EQ_def CC_BANG_def CC_SLASH_def CC_LP_def CC_RP_def CC_SEMI_def CC_PLUS_def
  CC_STAR_def CC_PERCENT_def CC_COMMA_def CC_AND_def CC_TILDA_def CC_DOT_def CC_ILLEGAL_def
  CC_NUL_def

lemma GetToken_end:
  assumes "zc z 0 = 0"
  shows "sqlite3GetToken z = (0, TK_ILLEGAL)"
proof -
  have "aiClass (zc z 0) = 28" unfolding assms by code_simp
  then show ?thesis by (simp add: sqlite3GetToken_def CC_defs)
qed

section \<open>Looking ahead after WINDOW, OVER and FILTER\<close>

lemma GetToken_shorter:
  assumes "sqlite3GetToken z = (n, t)" and "zc z 0 \<noteq> 0"
  shows "length (drop n z) < length z"
  using GetToken_piece [OF assms(2)] zc_nonzero_length [OF assms(2)] assms(1) by (simp add: piece_def)

lemma GetToken_space_shorter:
  assumes "sqlite3GetToken z = (n, TK_SPACE)"
  shows "length (drop n z) < length z"
proof -
  have "zc z 0 \<noteq> 0" using assms GetToken_end [of z] by (auto simp: TK_SPACE_def TK_ILLEGAL_def)
  then show ?thesis using assms GetToken_shorter by blast
qed

function getToken :: "u8 list \<Rightarrow> nat \<times> u8 list" where
  "getToken z =
     (let (n, t) = sqlite3GetToken z in
      if t = TK_SPACE then getToken (drop n z)
      else (if t = TK_ID \<or> t = TK_STRING \<or> t = TK_JOIN_KW \<or> t = TK_WINDOW \<or> t = TK_OVER
               \<or> sqlite3ParserFallback t = TK_ID then TK_ID else t,
            drop n z))"
  by pat_completeness auto
termination
  by (relation "measure length") (simp, metis GetToken_space_shorter in_measure)

declare getToken.simps [simp del]

definition analyzeWindowKeyword :: "u8 list \<Rightarrow> nat" where
  "analyzeWindowKeyword z =
     (let (t, z) = getToken z in
      if t \<noteq> TK_ID then TK_ID
      else let (t, z) = getToken z in if t \<noteq> TK_AS then TK_ID else TK_WINDOW)"

definition analyzeOverKeyword :: "u8 list \<Rightarrow> int \<Rightarrow> nat" where
  "analyzeOverKeyword z lastToken =
     (if lastToken = int TK_RP then
        let (t, z) = getToken z in if t = TK_LP \<or> t = TK_ID then TK_OVER else TK_ID
      else TK_ID)"

definition analyzeFilterKeyword :: "u8 list \<Rightarrow> int \<Rightarrow> nat" where
  "analyzeFilterKeyword z lastToken =
     (if lastToken = int TK_RP \<and> fst (getToken z) = TK_LP then TK_FILTER else TK_ID)"

section \<open>Feeding the parser\<close>

text \<open>
  The loop of \<^verbatim>\<open>sqlite3RunParser\<close>. The parser itself is generated code: its state is of any type \<open>'p\<close>,
  \<open>feed\<close> gives it a token, and \<open>failed\<close> is \<^verbatim>\<open>pParse->rc!=SQLITE_OK || db->mallocFailed\<close> after that.
  Another thread may interrupt: the answers of the interrupt test are the list \<open>intr\<close>, and no
  interrupt happens beyond its end. \<open>next_step\<close> is what one round decides before it feeds.
\<close>

datatype parse_end = Finished | Too_big | Interrupted | Unrecognized "u8 list" | Stopped

datatype parse_step = Skip_space | Feed nat nat | Halt parse_end

definition next_step :: "u8 list \<Rightarrow> int \<Rightarrow> bool \<Rightarrow> int \<Rightarrow> parse_step" where
  "next_step zSql mxSqlLen interrupted lastTokenParsed =
     (let (n, tokenType) = sqlite3GetToken zSql in
      if mxSqlLen - int n < 0 then Halt Too_big
      else if tokenType \<ge> TK_WINDOW then
        if interrupted then Halt Interrupted
        else if tokenType = TK_SPACE then Skip_space
        else if zc zSql 0 = 0 then
          if lastTokenParsed = int TK_SEMI then Feed 0 0
          else if lastTokenParsed = 0 then Halt Finished
          else Feed TK_SEMI 0
        else if tokenType = TK_WINDOW then Feed (analyzeWindowKeyword (drop 6 zSql)) n
        else if tokenType = TK_OVER then Feed (analyzeOverKeyword (drop 4 zSql) lastTokenParsed) n
        else if tokenType = TK_FILTER then Feed (analyzeFilterKeyword (drop 6 zSql) lastTokenParsed) n
        else Halt (Unrecognized (take n zSql))
      else Feed tokenType n)"

definition interrupt :: "u8 list \<Rightarrow> bool list \<Rightarrow> bool \<times> bool list" where
  "interrupt zSql intr =
     (if snd (sqlite3GetToken zSql) \<ge> TK_WINDOW
      then (case intr of [] \<Rightarrow> (False, []) | b # r \<Rightarrow> (b, r)) else (False, intr))"

definition end_rank :: "int \<Rightarrow> nat" where
  "end_rank lst = (if lst = 0 then 0 else if lst = int TK_SEMI then 1 else 2)"

lemma next_step_Skip:
  "next_step z mx i lst = Skip_space \<Longrightarrow> length (drop (fst (sqlite3GetToken z)) z) < length z"
  using GetToken_space_shorter [of z] by (auto simp: next_step_def split: prod.splits if_splits)

lemma next_step_Feed:
  assumes "next_step z mx i lst = Feed t n"
  shows "length (drop n z) < length z \<or> length (drop n z) = length z \<and> end_rank (int t) < end_rank lst"
proof (cases "zc z 0 = 0")
  case True
  then show ?thesis
    using assms GetToken_end [OF True]
    by (auto simp: next_step_def end_rank_def TK_SEMI_def TK_WINDOW_def TK_SPACE_def TK_ILLEGAL_def
        split: if_splits)
next
  case False
  have "n = fst (sqlite3GetToken z)"
    using assms False by (auto simp: next_step_def split: prod.splits if_splits)
  then show ?thesis using GetToken_shorter [OF _ False] by (metis prod.collapse)
qed

function run_parser ::
  "('p \<Rightarrow> nat \<Rightarrow> u8 list \<Rightarrow> 'p) \<Rightarrow> ('p \<Rightarrow> bool) \<Rightarrow> bool list \<Rightarrow> u8 list \<Rightarrow> int \<Rightarrow> int \<Rightarrow> 'p
    \<Rightarrow> parse_end \<times> u8 list \<times> 'p"
where
  "run_parser feed failed intr zSql mxSqlLen lastTokenParsed p =
     (let (i, intr) = interrupt zSql intr;
          mx = mxSqlLen - int (fst (sqlite3GetToken zSql)) in
      case next_step zSql mxSqlLen i lastTokenParsed of
        Halt e \<Rightarrow> (e, zSql, p)
      | Skip_space \<Rightarrow>
          run_parser feed failed intr (drop (fst (sqlite3GetToken zSql)) zSql) mx lastTokenParsed p
      | Feed tokenType n \<Rightarrow>
          let p = feed p tokenType (take n zSql) in
          if failed p then (Stopped, drop n zSql, p)
          else run_parser feed failed intr (drop n zSql) mx (int tokenType) p)"
  by pat_completeness auto
termination
  by (relation "measure (\<lambda>(feed, failed, intr, z, mx, lst, p). 3 * length z + end_rank lst)")
     (auto dest!: next_step_Skip next_step_Feed simp: end_rank_def split: if_splits)

declare run_parser.simps [simp del]

end
