(* ===== verification/KeywordFacts.thy ===== *)
theory KeywordFacts
  imports Keyword
begin

text \<open>
  The keyword recogniser against the list of keywords as words: the packed string holds exactly the
  136 words, each is found in the chain of its hash value, and so a word of letters and underscores
  is a keyword exactly when its upper-case form is in the list.
\<close>

section \<open>The packed words\<close>

definition sql_keywords :: "string list" where
  "sql_keywords = [
     ''REINDEX'', ''INDEXED'', ''INDEX'', ''DESC'', ''ESCAPE'', ''EACH'', ''CHECK'', ''KEY'',
     ''BEFORE'', ''FOREIGN'', ''FOR'', ''IGNORE'', ''REGEXP'', ''EXPLAIN'', ''INSTEAD'', ''ADD'',
     ''DATABASE'', ''AS'', ''SELECT'', ''TABLE'', ''LEFT'', ''THEN'', ''END'', ''DEFERRABLE'',
     ''ELSE'', ''EXCEPT'', ''TRANSACTION'', ''ACTION'', ''ON'', ''NATURAL'', ''ALTER'', ''RAISE'',
     ''EXCLUSIVE'', ''EXISTS'', ''SAVEPOINT'', ''INTERSECT'', ''TRIGGER'', ''REFERENCES'',
     ''CONSTRAINT'', ''INTO'', ''OFFSET'', ''OF'', ''SET'', ''TEMPORARY'', ''TEMP'', ''OR'',
     ''UNIQUE'', ''QUERY'', ''WITHOUT'', ''WITH'', ''OUTER'', ''RELEASE'', ''ATTACH'', ''HAVING'',
     ''GROUP'', ''UPDATE'', ''BEGIN'', ''INNER'', ''RANGE'', ''BETWEEN'', ''NOTHING'', ''GLOB'',
     ''BY'', ''CASCADE'', ''ASC'', ''DELETE'', ''CASE'', ''COLLATE'', ''CREATE'', ''CURRENT_DATE'',
     ''DETACH'', ''IMMEDIATE'', ''JOIN'', ''INSERT'', ''LIKE'', ''MATCH'', ''PLAN'', ''ANALYZE'',
     ''PRAGMA'', ''ABORT'', ''VALUES'', ''VIRTUAL'', ''LIMIT'', ''WHEN'', ''NOTNULL'', ''NOT'', ''NO'',
     ''NULL'', ''WHERE'', ''RECURSIVE'', ''AFTER'', ''RENAME'', ''AND'', ''DEFAULT'',
     ''AUTOINCREMENT'', ''TO'', ''IN'', ''CAST'', ''COLUMN'', ''COMMIT'', ''CONFLICT'', ''CROSS'',
     ''CURRENT_TIMESTAMP'', ''CURRENT_TIME'', ''CURRENT'', ''PARTITION'', ''DEFERRED'', ''DISTINCT'',
     ''IS'', ''DROP'', ''PRECEDING'', ''FAIL'', ''FILTER'', ''REPLACE'', ''FOLLOWING'', ''FROM'',
     ''FULL'', ''IF'', ''ISNULL'', ''ORDER'', ''RESTRICT'', ''OVER'', ''RIGHT'', ''ROLLBACK'',
     ''ROWS'', ''ROW'', ''UNBOUNDED'', ''UNION'', ''USING'', ''VACUUM'', ''VIEW'', ''WINDOW'', ''DO'',
     ''INITIALLY'', ''ALL'', ''PRIMARY'']"

definition keyword_bytes :: "u8 list list" where
  "keyword_bytes = map (map of_char) sql_keywords"

text \<open>The slices of a list, cut from left to right: the offsets never decrease.\<close>

fun slices :: "nat \<Rightarrow> 'a list \<Rightarrow> nat list \<Rightarrow> nat list \<Rightarrow> 'a list list" where
  "slices p z (f # fs) (l # ls) = take l (drop (f - p) z) # slices f (drop (f - p) z) fs ls"
| "slices p z _ _ = []"

lemma slices_eq:
  "sorted (p # fs) \<Longrightarrow> slices p (drop p z) fs ls = map (\<lambda>(f, l). take l (drop f z)) (zip fs ls)"
  by (induction p "drop p z" fs ls arbitrary: z rule: slices.induct) auto

lemma keyword_bytes_eq: "keyword_bytes = [
     [82, 69, 73, 78, 68, 69, 88],
     [73, 78, 68, 69, 88, 69, 68],
     [73, 78, 68, 69, 88],
     [68, 69, 83, 67],
     [69, 83, 67, 65, 80, 69],
     [69, 65, 67, 72],
     [67, 72, 69, 67, 75],
     [75, 69, 89],
     [66, 69, 70, 79, 82, 69],
     [70, 79, 82, 69, 73, 71, 78],
     [70, 79, 82],
     [73, 71, 78, 79, 82, 69],
     [82, 69, 71, 69, 88, 80],
     [69, 88, 80, 76, 65, 73, 78],
     [73, 78, 83, 84, 69, 65, 68],
     [65, 68, 68],
     [68, 65, 84, 65, 66, 65, 83, 69],
     [65, 83],
     [83, 69, 76, 69, 67, 84],
     [84, 65, 66, 76, 69],
     [76, 69, 70, 84],
     [84, 72, 69, 78],
     [69, 78, 68],
     [68, 69, 70, 69, 82, 82, 65, 66, 76, 69],
     [69, 76, 83, 69],
     [69, 88, 67, 69, 80, 84],
     [84, 82, 65, 78, 83, 65, 67, 84, 73, 79, 78],
     [65, 67, 84, 73, 79, 78],
     [79, 78],
     [78, 65, 84, 85, 82, 65, 76],
     [65, 76, 84, 69, 82],
     [82, 65, 73, 83, 69],
     [69, 88, 67, 76, 85, 83, 73, 86, 69],
     [69, 88, 73, 83, 84, 83],
     [83, 65, 86, 69, 80, 79, 73, 78, 84],
     [73, 78, 84, 69, 82, 83, 69, 67, 84],
     [84, 82, 73, 71, 71, 69, 82],
     [82, 69, 70, 69, 82, 69, 78, 67, 69, 83],
     [67, 79, 78, 83, 84, 82, 65, 73, 78, 84],
     [73, 78, 84, 79],
     [79, 70, 70, 83, 69, 84],
     [79, 70],
     [83, 69, 84],
     [84, 69, 77, 80, 79, 82, 65, 82, 89],
     [84, 69, 77, 80],
     [79, 82],
     [85, 78, 73, 81, 85, 69],
     [81, 85, 69, 82, 89],
     [87, 73, 84, 72, 79, 85, 84],
     [87, 73, 84, 72],
     [79, 85, 84, 69, 82],
     [82, 69, 76, 69, 65, 83, 69],
     [65, 84, 84, 65, 67, 72],
     [72, 65, 86, 73, 78, 71],
     [71, 82, 79, 85, 80],
     [85, 80, 68, 65, 84, 69],
     [66, 69, 71, 73, 78],
     [73, 78, 78, 69, 82],
     [82, 65, 78, 71, 69],
     [66, 69, 84, 87, 69, 69, 78],
     [78, 79, 84, 72, 73, 78, 71],
     [71, 76, 79, 66],
     [66, 89],
     [67, 65, 83, 67, 65, 68, 69],
     [65, 83, 67],
     [68, 69, 76, 69, 84, 69],
     [67, 65, 83, 69],
     [67, 79, 76, 76, 65, 84, 69],
     [67, 82, 69, 65, 84, 69],
     [67, 85, 82, 82, 69, 78, 84, 95, 68, 65, 84, 69],
     [68, 69, 84, 65, 67, 72],
     [73, 77, 77, 69, 68, 73, 65, 84, 69],
     [74, 79, 73, 78],
     [73, 78, 83, 69, 82, 84],
     [76, 73, 75, 69],
     [77, 65, 84, 67, 72],
     [80, 76, 65, 78],
     [65, 78, 65, 76, 89, 90, 69],
     [80, 82, 65, 71, 77, 65],
     [65, 66, 79, 82, 84],
     [86, 65, 76, 85, 69, 83],
     [86, 73, 82, 84, 85, 65, 76],
     [76, 73, 77, 73, 84],
     [87, 72, 69, 78],
     [78, 79, 84, 78, 85, 76, 76],
     [78, 79, 84],
     [78, 79],
     [78, 85, 76, 76],
     [87, 72, 69, 82, 69],
     [82, 69, 67, 85, 82, 83, 73, 86, 69],
     [65, 70, 84, 69, 82],
     [82, 69, 78, 65, 77, 69],
     [65, 78, 68],
     [68, 69, 70, 65, 85, 76, 84],
     [65, 85, 84, 79, 73, 78, 67, 82, 69, 77, 69, 78, 84],
     [84, 79],
     [73, 78],
     [67, 65, 83, 84],
     [67, 79, 76, 85, 77, 78],
     [67, 79, 77, 77, 73, 84],
     [67, 79, 78, 70, 76, 73, 67, 84],
     [67, 82, 79, 83, 83],
     [67, 85, 82, 82, 69, 78, 84, 95, 84, 73, 77, 69, 83, 84, 65, 77, 80],
     [67, 85, 82, 82, 69, 78, 84, 95, 84, 73, 77, 69],
     [67, 85, 82, 82, 69, 78, 84],
     [80, 65, 82, 84, 73, 84, 73, 79, 78],
     [68, 69, 70, 69, 82, 82, 69, 68],
     [68, 73, 83, 84, 73, 78, 67, 84],
     [73, 83],
     [68, 82, 79, 80],
     [80, 82, 69, 67, 69, 68, 73, 78, 71],
     [70, 65, 73, 76],
     [70, 73, 76, 84, 69, 82],
     [82, 69, 80, 76, 65, 67, 69],
     [70, 79, 76, 76, 79, 87, 73, 78, 71],
     [70, 82, 79, 77],
     [70, 85, 76, 76],
     [73, 70],
     [73, 83, 78, 85, 76, 76],
     [79, 82, 68, 69, 82],
     [82, 69, 83, 84, 82, 73, 67, 84],
     [79, 86, 69, 82],
     [82, 73, 71, 72, 84],
     [82, 79, 76, 76, 66, 65, 67, 75],
     [82, 79, 87, 83],
     [82, 79, 87],
     [85, 78, 66, 79, 85, 78, 68, 69, 68],
     [85, 78, 73, 79, 78],
     [85, 83, 73, 78, 71],
     [86, 65, 67, 85, 85, 77],
     [86, 73, 69, 87],
     [87, 73, 78, 68, 79, 87],
     [68, 79],
     [73, 78, 73, 84, 73, 65, 76, 76, 89],
     [65, 76, 76],
     [80, 82, 73, 77, 65, 82, 89]]"
  by (simp add: keyword_bytes_def sql_keywords_def)

lemma slices_keywords: "slices 0 zKWText aKWOffset aKWLen = keyword_bytes"
  unfolding zKWText_def aKWOffset_def aKWLen_def keyword_bytes_eq by simp

lemma sorted_aKWOffset: "sorted (0 # aKWOffset)"
  by (simp only: sorted2 aKWOffset_def) simp

lemma keyword_lengths: "map length keyword_bytes = aKWLen"
  by (simp add: keyword_bytes_eq aKWLen_def)

lemma kw_table_lengths:
  "length aKWOffset = 136" "length aKWLen = 136" "length aKWCode = 136" "length aKWNext = 136"
  by code_simp+

lemma kw_lengths: "length keyword_bytes = 136"
  using arg_cong [OF keyword_lengths, of length] by (simp add: kw_table_lengths)

lemmas kw_lengths_all = kw_table_lengths kw_lengths

lemma kw_text_eq:
  assumes "i < 136"
  shows "kw_text i = keyword_bytes ! i"
proof -
  have "keyword_bytes = map (\<lambda>(f, l). take l (drop f zKWText)) (zip aKWOffset aKWLen)"
    using slices_eq [OF sorted_aKWOffset, of zKWText aKWLen] slices_keywords by simp
  then have "keyword_bytes ! i = map (\<lambda>(f, l). take l (drop f zKWText)) (zip aKWOffset aKWLen) ! i"
    by (rule arg_cong)
  then show ?thesis using assms by (simp add: kw_text_def kw_table_lengths)
qed

lemma length_kw_text:
  assumes "i < 136"
  shows "length (kw_text i) = aKWLen ! i"
proof -
  have "length (keyword_bytes ! i) = map length keyword_bytes ! i" using assms by (simp add: kw_lengths_all)
  then show ?thesis using assms by (simp add: keyword_lengths kw_text_eq)
qed

lemma distinct_keyword_bytes: "distinct keyword_bytes"
proof -
  have "distinct (map (map uint) keyword_bytes)"
    unfolding keyword_bytes_eq by simp
  then show ?thesis by (simp add: distinct_map)
qed

section \<open>The hash chains\<close>

definition keyword_hashes :: "nat list" where
  "keyword_hashes = [
     40, 16, 74, 62, 62, 41, 73, 69, 34, 86, 78, 14, 31, 90, 16, 44, 56, 96,
     23, 123, 105, 31, 60, 54, 64, 79, 18, 73, 117, 124, 88, 99, 51, 76, 26, 114,
     2, 28, 91, 110, 103, 13, 20, 51, 5, 105, 126, 43, 8, 97, 112, 97, 59, 20,
     74, 126, 72, 120, 99, 70, 11, 63, 98, 37, 47, 58, 40, 37, 38, 48, 47, 3,
     103, 0, 28, 10, 15, 45, 102, 94, 8, 28, 106, 19, 124, 104, 120, 121, 119, 111,
     88, 98, 44, 76, 86, 32, 109, 85, 65, 87, 89, 81, 78, 48, 88, 4, 53, 69,
     1, 69, 125, 89, 73, 97, 37, 92, 89, 21, 103, 112, 29, 111, 18, 2, 22, 47,
     114, 28, 101, 26, 58, 64, 96, 71, 68, 45]"

lemma keyword_hash_eq: "map (\<lambda>t. keyword_hash t (length t)) keyword_bytes = keyword_hashes"
  unfolding keyword_bytes_eq keyword_hashes_def keyword_hash_def zc_def
  by (simp add: UpperToLower_eq)

function chain :: "nat \<Rightarrow> nat list" where
  "chain 0 = []"
| "chain (Suc i) = (case rd aKWNext i of None \<Rightarrow> [] | Some k \<Rightarrow> i # chain k)"
  by pat_completeness auto
termination
  by (relation "measure id") (auto simp: rd_Some_iff less_Suc_eq_le dest: aKWNext_smaller)

lemma chains_hold_keywords: "list_all2 (\<lambda>i h. List.member (chain (aKWHash ! h)) i) [0..<136] keyword_hashes"
  by code_simp

lemma in_own_chain:
  assumes "i < 136"
  shows "i \<in> set (chain (aKWHash ! keyword_hash (kw_text i) (aKWLen ! i)))"
proof -
  have "keyword_hashes ! i = keyword_hash (kw_text i) (aKWLen ! i)"
    using assms by (simp add: keyword_hash_eq [symmetric] kw_text_eq kw_lengths_all length_kw_text [symmetric])
  moreover have "i \<in> set (chain (aKWHash ! (keyword_hashes ! i)))"
    using list_all2_nthD [OF chains_hold_keywords, of i] assms by simp
  ultimately show ?thesis by simp
qed

lemma chain_range: "i \<in> set (chain k) \<Longrightarrow> i < 136"
proof (induction k rule: chain.induct)
  case (2 j)
  then show ?case by (cases "rd aKWNext j") (auto simp: rd_Some_iff kw_lengths_all)
qed simp

definition upcase :: "u8 \<Rightarrow> u8" where
  "upcase c = (if 0x61 \<le> c \<and> c \<le> 0x7a then c - 0x20 else c)"

definition kwchar :: "u8 \<Rightarrow> bool" where
  "kwchar c \<longleftrightarrow> 0x41 \<le> c \<and> c \<le> 0x5a \<or> 0x61 \<le> c \<and> c \<le> 0x7a \<or> c = 0x5f"

lemma kwchar_mask: "kwchar c \<longrightarrow> c AND NOT 0x20 = upcase c"
  by (rule byte_table) code_simp

lemma kwchar_lower: "UpperToLower (upcase c) = UpperToLower c"
proof (cases "0x61 \<le> c \<and> c \<le> 0x7a")
  case True
  then have "unat (c - 0x20) = unat c - 32" by (simp add: unat_sub word_le_nat_alt)
  then show ?thesis using True by (simp add: UpperToLower_eq upcase_def word_le_nat_alt) arith
qed (auto simp: upcase_def)

lemma list_all2_map_eq: "list_all2 (\<lambda>a b. f a = b) xs ys \<longleftrightarrow> map f xs = ys"
  by (induction xs arbitrary: ys) (auto simp: list_all2_Cons1)

lemma kw_match_eq:
  assumes "i < 136" and "aKWLen ! i = length z" and "list_all kwchar z"
  shows "kw_match z (length z) i \<longleftrightarrow> map upcase z = kw_text i"
proof -
  have "kw_match z (length z) i \<longleftrightarrow> map (\<lambda>c. c AND NOT 0x20) z = kw_text i"
    using assms(2) by (simp add: kw_match_def kw_text_def list_all2_map_eq)
  also have "map (\<lambda>c. c AND NOT 0x20) z = map upcase z"
    using assms(3) kwchar_mask by (simp add: list_all_iff)
  finally show ?thesis .
qed

lemma kw_loop_chain:
  assumes "list_all kwchar z"
  shows "kw_loop z (length z) k
    = map_option (\<lambda>i. aKWCode ! i) (List.find (\<lambda>i. map upcase z = kw_text i) (chain k))"
proof (induction k rule: chain.induct)
  case (2 i)
  show ?case
  proof (cases "rd aKWNext i")
    case (Some k)
    then have i: "i < 136" by (simp add: rd_Some_iff kw_lengths_all)
    have "aKWLen ! i = length z" if "map upcase z = kw_text i"
      using that length_kw_text [OF i] by (metis length_map)
    then show ?thesis using 2 Some kw_match_eq [OF i _ assms] by auto
  qed simp
qed simp

lemma keyword_hash_upcase:
  assumes "list_all kwchar z" and "z \<noteq> []"
  shows "keyword_hash (map upcase z) (length z) = keyword_hash z (length z)"
proof -
  have "UpperToLower (zc (map upcase z) j) = UpperToLower (zc z j)" if "j < length z" for j
    using that assms(1) kwchar_lower [of "z ! j"] by (simp add: zc_def list_all_length)
  then show ?thesis using assms(2) by (simp add: keyword_hash_def)
qed

lemma keyword_code_lookup:
  assumes "list_all kwchar z"
  shows "sqlite3KeywordCode z (length z)
    = (case map_of (zip keyword_bytes aKWCode) (map upcase z) of Some c \<Rightarrow> c | None \<Rightarrow> TK_ID)"
proof -
  have keys: "map_of (zip keyword_bytes aKWCode) t = Some c
      \<longleftrightarrow> (\<exists>i<136. t = kw_text i \<and> c = aKWCode ! i)" for t c
  proof -
    have "distinct (map fst (zip keyword_bytes aKWCode))"
      by (simp add: kw_lengths_all distinct_keyword_bytes)
    then show ?thesis by (auto simp: map_of_eq_Some_iff set_zip kw_lengths_all kw_text_eq)
  qed
  let ?ch = "chain (aKWHash ! keyword_hash z (length z))"
  have short: "2 \<le> length (kw_text i)" if "i < 136" for i
  proof -
    have "list_all (\<lambda>n. 2 \<le> n) aKWLen" by (simp add: aKWLen_def)
    then show ?thesis using that by (simp add: length_kw_text list_all_length kw_lengths_all)
  qed
  show ?thesis
  proof (cases "List.find (\<lambda>i. map upcase z = kw_text i) ?ch")
    case (Some i)
    then have i: "i \<in> set ?ch" "map upcase z = kw_text i" by (auto simp: find_Some_iff)
    then have "i < 136" using chain_range by blast
    moreover have "2 \<le> length z" using i(2) short [OF \<open>i < 136\<close>] by (metis length_map)
    moreover have "map_of (zip keyword_bytes aKWCode) (map upcase z) = Some (aKWCode ! i)"
      using i(2) \<open>i < 136\<close> by (auto simp: keys)
    ultimately show ?thesis
      by (simp add: sqlite3KeywordCode_def keywordCode_def kw_loop_chain [OF assms] Some)
  next
    case None
    have "map_of (zip keyword_bytes aKWCode) (map upcase z) = None"
    proof (rule ccontr)
      assume "map_of (zip keyword_bytes aKWCode) (map upcase z) \<noteq> None"
      then obtain i where i: "i < 136" "map upcase z = kw_text i" by (auto simp: keys)
      have len: "aKWLen ! i = length z" using i length_kw_text [OF i(1)] by (metis length_map)
      have "z \<noteq> []" using i short [OF i(1)] by auto
      then have "keyword_hash (kw_text i) (aKWLen ! i) = keyword_hash z (length z)"
        using keyword_hash_upcase [OF assms] i(2) len by simp
      then have "i \<in> set ?ch" using in_own_chain [OF i(1)] by simp
      then show False using None i(2) by (auto simp: find_None_iff)
    qed
    then show ?thesis
      by (simp add: sqlite3KeywordCode_def keywordCode_def kw_loop_chain [OF assms] None)
  qed
qed

end
