(* ===== verification/TokFacts.thy ===== *)
theory TokFacts
  imports Tokenize KeywordFacts NumFacts
begin

text \<open>
  What the tokenizer does with a text: it cuts it into non-empty pieces without losing a byte, it
  recognises what the quoting and number routines produce, and the parser loop hands every token on
  and ends.
\<close>

section \<open>Cutting a text\<close>

function tokens :: "u8 list \<Rightarrow> (nat \<times> u8 list) list" where
  "tokens z =
     (if zc z 0 = 0 then []
      else let (n, t) = sqlite3GetToken z in (t, take n z) # tokens (drop n z))"
  by pat_completeness auto
termination
  by (relation "measure length") (simp, metis GetToken_shorter in_measure)

declare tokens.simps [simp del]

lemma cstring_end: "cstring z \<Longrightarrow> zc z 0 = 0 \<longleftrightarrow> z = []"
  using zc_eq_0_iff [of z 0] by simp

lemma cstring_drop [intro]: "cstring z \<Longrightarrow> cstring (drop n z)"
  using set_drop_subset [of n z] by (auto simp: cstring_def)

lemma concat_tokens: "cstring z \<Longrightarrow> concat (map snd (tokens z)) = z"
proof (induction z rule: tokens.induct)
  case (1 z)
  show ?case
  proof (cases "zc z 0 = 0")
    case True
    then show ?thesis using 1(2) by (simp add: tokens.simps cstring_end)
  next
    case False
    obtain n t where nt: "sqlite3GetToken z = (n, t)" by (metis surj_pair)
    have "concat (map snd (tokens (drop n z))) = drop n z"
      by (rule 1(1) [OF False nt [symmetric] refl]) (use 1(2) in blast)
    then show ?thesis using False nt by (simp add: tokens.simps [of z])
  qed
qed

lemma tokens_nonempty: "(t, x) \<in> set (tokens z) \<Longrightarrow> x \<noteq> []"
proof (induction z rule: tokens.induct)
  case (1 z)
  show ?case
  proof (cases "zc z 0 = 0")
    case False
    obtain n u where nt: "sqlite3GetToken z = (n, u)" by (metis surj_pair)
    have "take n z \<noteq> []" using GetToken_piece [OF False] nt by (auto simp: piece_def)
    then show ?thesis using 1 False nt by (auto simp: tokens.simps [of z])
  qed (use 1(2) in \<open>simp add: tokens.simps\<close>)
qed

section \<open>What the parser is fed\<close>

text \<open>
  The tokens of a text as they reach the parser: white space and comments are left out, the three
  words that are sometimes keywords are resolved, and nothing is fed from the first illegal token on.
\<close>

definition resolved :: "u8 list \<Rightarrow> int \<Rightarrow> nat \<Rightarrow> nat" where
  "resolved z lst t =
     (if t = TK_WINDOW then analyzeWindowKeyword (drop 6 z)
      else if t = TK_OVER then analyzeOverKeyword (drop 4 z) lst
      else if t = TK_FILTER then analyzeFilterKeyword (drop 6 z) lst
      else t)"

function fed :: "int \<Rightarrow> u8 list \<Rightarrow> (nat \<times> u8 list) list" where
  "fed lst z =
     (if zc z 0 = 0 then (if lst = int TK_SEMI then [(0, [])] else if lst = 0 then [] else [(TK_SEMI, []), (0, [])])
      else let (n, t) = sqlite3GetToken z in
        if t = TK_SPACE then fed lst (drop n z)
        else if t = TK_ILLEGAL then []
        else (resolved z lst t, take n z) # fed (int (resolved z lst t)) (drop n z))"
  by pat_completeness auto
termination
  by (relation "measure (\<lambda>(l, z). length z)")
     (simp, unfold in_measure case_prod_conv, (metis GetToken_shorter)+)

declare fed.simps [simp del]

text \<open>
  The same on the list of the tokens. \<open>keyword_or_name\<close> is the rule the comments of the code give: WINDOW is
  a keyword before a name and AS, OVER after a right parenthesis and before a left one or a name, FILTER between a right and a left
  parenthesis; otherwise the three words are names. \<open>parser_tokens\<close> is what the parser is to be given: every
  token up to the first illegal one, or else all of them, a semicolon unless there is one, and the end marker.
\<close>

definition significant_tokens :: "u8 list \<Rightarrow> (nat \<times> u8 list) list" where
  "significant_tokens z = filter (\<lambda>(t, x). t \<noteq> TK_SPACE) (tokens z)"

definition name_like :: "nat \<Rightarrow> bool" where
  "name_like t \<longleftrightarrow> t \<in> {TK_ID, TK_STRING, TK_JOIN_KW, TK_WINDOW, TK_OVER} \<or> sqlite3ParserFallback t = TK_ID"

definition keyword_or_name :: "int \<Rightarrow> nat \<Rightarrow> nat list \<Rightarrow> nat" where
  "keyword_or_name lst t rest =
     (if t = TK_WINDOW then
        (case rest of a # b # _ \<Rightarrow> if name_like a \<and> b = TK_AS then TK_WINDOW else TK_ID | _ \<Rightarrow> TK_ID)
      else if t = TK_OVER then
        (case rest of a # _ \<Rightarrow> if lst = int TK_RP \<and> (a = TK_LP \<or> name_like a) then TK_OVER else TK_ID | _ \<Rightarrow> TK_ID)
      else if t = TK_FILTER then
        (case rest of a # _ \<Rightarrow> if lst = int TK_RP \<and> a = TK_LP then TK_FILTER else TK_ID | _ \<Rightarrow> TK_ID)
      else t)"

fun parser_tokens :: "int \<Rightarrow> (nat \<times> u8 list) list \<Rightarrow> (nat \<times> u8 list) list" where
  "parser_tokens lst [] = (if lst = int TK_SEMI then [] else [(TK_SEMI, [])]) @ [(0, [])]"
| "parser_tokens lst ((t, x) # ts) =
     (if t = TK_ILLEGAL then []
      else let c = keyword_or_name lst t (map fst ts) in (c, x) # parser_tokens (int c) ts)"

text \<open>
  The types the tokenizer can answer: the terminal symbols of the grammar (there are 155 of them,
  0 being the end of the input), white space and illegal input.
\<close>

definition grammar_code :: "nat \<Rightarrow> bool" where
  "grammar_code t \<longleftrightarrow> 0 < t \<and> t < 155"

definition token_code :: "nat \<Rightarrow> bool" where
  "token_code t \<longleftrightarrow> grammar_code t \<or> t = TK_SPACE \<or> t = TK_ILLEGAL"

lemmas TK_char_defs = TK_SPACE_def TK_MINUS_def TK_LP_def TK_RP_def TK_SEMI_def TK_PLUS_def TK_STAR_def
  TK_SLASH_def TK_REM_def TK_EQ_def TK_LE_def TK_NE_def TK_LSHIFT_def TK_LT_def TK_GE_def TK_RSHIFT_def
  TK_GT_def TK_ILLEGAL_def TK_BITOR_def TK_CONCAT_def TK_COMMA_def TK_BITAND_def TK_BITNOT_def
  TK_STRING_def TK_ID_def TK_DOT_def TK_INTEGER_def TK_FLOAT_def TK_VARIABLE_def TK_BLOB_def

lemma aKWCode_range: "list_all grammar_code aKWCode"
  by code_simp

lemma kw_loop_code: "kw_loop z n k = Some c \<Longrightarrow> grammar_code c"
proof (induction z n k rule: kw_loop.induct)
  case (2 z n i)
  show ?case
  proof (cases "rd aKWNext i")
    case (Some k)
    then have "grammar_code (aKWCode ! i)"
      using aKWCode_range by (simp add: rd_Some_iff list_all_length kw_table_lengths)
    then show ?thesis using 2 Some by (auto split: if_splits)
  qed (use 2 in simp)
qed simp

lemma keywordCode_code: "token_code (snd (keywordCode z n TK_ID))"
  by (auto simp: keywordCode_def token_code_def dest: kw_loop_code split: option.split)
    (auto simp: grammar_code_def TK_ID_def)

lemma code_if: "(c \<Longrightarrow> token_code (snd a)) \<Longrightarrow> (\<not> c \<Longrightarrow> token_code (snd b)) \<Longrightarrow> token_code (snd (if c then a else b))"
  by simp

lemma GetToken_code: "token_code (snd (sqlite3GetToken z))"
proof -
  have "token_code (snd (number_token z))"
    by (simp add: number_token_def Let_def token_code_def grammar_code_def TK_char_defs)
  moreover have "token_code (snd (blob_token z))"
    by (simp add: blob_token_def Let_def token_code_def grammar_code_def TK_char_defs)
  ultimately show ?thesis
    unfolding sqlite3GetToken_def Let_def
    by (intro code_if keywordCode_code) (simp_all add: token_code_def grammar_code_def TK_char_defs split: prod.split)
qed

lemma resolved_code:
  assumes "token_code t" and "t \<noteq> TK_SPACE" and "t \<noteq> TK_ILLEGAL"
  shows "grammar_code (resolved z lst t)"
  using assms
  by (auto simp: resolved_def analyzeWindowKeyword_def analyzeOverKeyword_def analyzeFilterKeyword_def
      token_code_def grammar_code_def TK_ID_def TK_WINDOW_def TK_OVER_def TK_FILTER_def split: prod.split)

lemma fed_codes: "(t, x) \<in> set (fed lst z) \<Longrightarrow> t < 155"
proof (induction lst z rule: fed.induct)
  case (1 lst z)
  obtain n u where nu: "sqlite3GetToken z = (n, u)" by (metis surj_pair)
  show ?case
    using 1 nu GetToken_code [of z] resolved_code [of u z lst]
    by (subst (asm) (3) fed.simps) (auto simp: TK_SEMI_def grammar_code_def split: if_splits)
qed

text \<open>The run against the list.\<close>

definition feed_all :: "('p \<Rightarrow> nat \<Rightarrow> u8 list \<Rightarrow> 'p) \<Rightarrow> 'p \<Rightarrow> (nat \<times> u8 list) list \<Rightarrow> 'p" where
  "feed_all feed p ts = foldl (\<lambda>p (t, x). feed p t x) p ts"

lemma feed_all_simps [simp]:
  "feed_all feed p [] = p" "feed_all feed p ((t, x) # ts) = feed_all feed (feed p t x) ts"
  by (simp_all add: feed_all_def)

text \<open>The text of the first illegal token.\<close>

definition first_illegal :: "u8 list \<Rightarrow> u8 list option" where
  "first_illegal z = map_option snd (List.find (\<lambda>(t, x). t = TK_ILLEGAL) (tokens z))"

lemma next_step_cases:
  assumes "sqlite3GetToken z = (n, t)" and "int (length z) \<le> mx" and "zc z 0 \<noteq> 0"
  shows "next_step z mx False lst =
    (if t = TK_SPACE then Skip_space else if t = TK_ILLEGAL then Halt (Unrecognized (take n z))
     else Feed (resolved z lst t) n)"
proof -
  have "n \<le> length z" using GetToken_piece [OF assms(3)] assms(1) by (simp add: piece_def)
  then have mx: "\<not> mx - int n < 0" using assms(2) by simp
  have "token_code t" using GetToken_code [of z] assms(1) by simp
  then consider "t < TK_WINDOW" | "t = TK_WINDOW" | "t = TK_OVER" | "t = TK_FILTER" | "t = TK_SPACE" | "t = TK_ILLEGAL"
    unfolding token_code_def grammar_code_def TK_WINDOW_def TK_OVER_def TK_FILTER_def by linarith
  then show ?thesis
    unfolding next_step_def assms(1) Let_def prod.case if_not_P [OF mx] resolved_def
    using assms(3)
    by cases (simp_all add: TK_SPACE_def TK_ILLEGAL_def TK_WINDOW_def TK_OVER_def TK_FILTER_def)
qed

lemma next_step_end:
  assumes "zc z 0 = 0" and "0 \<le> mx"
  shows "next_step z mx False lst = (if lst = int TK_SEMI then Feed 0 0 else if lst = 0 then Halt Finished else Feed TK_SEMI 0)"
  using assms GetToken_end [OF assms(1)]
  by (simp add: next_step_def TK_SPACE_def TK_ILLEGAL_def TK_WINDOW_def)

lemma interrupt_Nil [simp]: "interrupt z [] = (False, [])"
  by (simp add: interrupt_def)

lemma run_parser_end:
  assumes "0 \<le> mx"
  shows "run_parser feed (\<lambda>_. False) [] [] mx lst p = (Finished, [], feed_all feed p (fed lst []))"
proof -
  let ?run = "\<lambda>m l. run_parser feed (\<lambda>_. False) [] [] m l"
  have z: "zc [] 0 = 0" "fst (sqlite3GetToken []) = 0" using GetToken_end [of "[]"] by simp_all
  have R: "?run m l q = (if l = int TK_SEMI then ?run m 0 (feed q 0 [])
      else if l = 0 then (Finished, [], q) else ?run m (int TK_SEMI) (feed q TK_SEMI []))"
    if "0 \<le> m" for m l q
    using that by (subst run_parser.simps) (simp add: next_step_end z Let_def)
  have 0: "?run m 0 q = (Finished, [], q)" if "0 \<le> m" for m q
    using R [OF that, of 0] by (simp add: TK_SEMI_def)
  have 1: "?run m (int TK_SEMI) q = (Finished, [], feed q 0 [])" if "0 \<le> m" for m q
    using R [OF that, of "int TK_SEMI"] 0 [OF that] by simp
  show ?thesis
    using R [OF assms, of lst p] 0 [OF assms] 1 [OF assms] by (simp add: fed.simps [of lst "[]"])
qed

lemma run_parser_fed:
  "cstring z \<Longrightarrow> int (length z) \<le> mx \<Longrightarrow>
    run_parser feed (\<lambda>_. False) [] z mx lst p = (case first_illegal z of None \<Rightarrow> Finished | Some x \<Rightarrow> Unrecognized x,
      concat (map snd (dropWhile (\<lambda>(t, x). t \<noteq> TK_ILLEGAL) (tokens z))), feed_all feed p (fed lst z))"
proof (induction z arbitrary: mx lst p rule: tokens.induct)
  case (1 z)
  show ?case
  proof (cases "zc z 0 = 0")
    case True
    then have "z = []" using 1(2) by (simp add: cstring_end)
    then show ?thesis using run_parser_end [of mx feed lst p] 1(3) by (simp add: first_illegal_def tokens.simps)
  next
    case False
    obtain n t where nt: "sqlite3GetToken z = (n, t)" by (metis surj_pair)
    have n: "n \<le> length z" using GetToken_piece [OF False] nt by (simp add: piece_def)
    have ds: "cstring (drop n z)" "int (length (drop n z)) \<le> mx - int n"
      using 1(2,3) n by auto
    note IH = 1(1) [OF False nt [symmetric] refl ds]
    note step = next_step_cases [OF nt 1(3) False]
    note R = run_parser.simps [of feed "\<lambda>_. False" "[]" z mx lst p]
    have toks: "tokens z = (t, take n z) # tokens (drop n z)"
      using False nt by (simp add: tokens.simps [of z])
    consider "t = TK_SPACE" | "t = TK_ILLEGAL" | "t \<noteq> TK_SPACE" "t \<noteq> TK_ILLEGAL" by blast
    then show ?thesis
    proof cases
      case 1
      then show ?thesis
        using IH [of lst p] False nt
        by (simp add: R step fed.simps [of lst z] toks first_illegal_def TK_SPACE_def TK_ILLEGAL_def)
    next
      case 2
      then show ?thesis
        using False nt concat_tokens [OF \<open>cstring z\<close>]
        by (simp add: R step fed.simps [of lst z] toks first_illegal_def TK_SPACE_def TK_ILLEGAL_def)
    next
      case 3
      then show ?thesis
        using IH [of "int (resolved z lst t)" "feed p (resolved z lst t) (take n z)"] False nt
        by (simp add: R step fed.simps [of lst z] toks first_illegal_def)
    qed
  qed
qed

text \<open>The three words have the lengths that the loop takes for granted.\<close>

definition word_length :: "nat \<times> nat \<Rightarrow> bool" where
  "word_length r \<longleftrightarrow> (case r of (n, t) \<Rightarrow> (t = TK_WINDOW \<or> t = TK_FILTER \<longrightarrow> n = 6) \<and> (t = TK_OVER \<longrightarrow> n = 4))"

lemma kw_loop_length: "kw_loop z n k = Some c \<Longrightarrow> word_length (n, c)"
proof (induction z n k rule: kw_loop.induct)
  case (2 z n i)
  have tab: "list_all (\<lambda>i. word_length (aKWLen ! i, aKWCode ! i)) [0..<136]" "length aKWNext = 136" by code_simp+
  show ?case
  proof (cases "rd aKWNext i")
    case (Some k)
    then have "word_length (aKWLen ! i, aKWCode ! i)" using tab by (simp add: rd_Some_iff list_all_iff)
    then show ?thesis using 2 Some by (auto split: if_splits)
  qed (use 2 in simp)
qed simp

lemma word_length_other: "t \<noteq> TK_WINDOW \<Longrightarrow> t \<noteq> TK_OVER \<Longrightarrow> t \<noteq> TK_FILTER \<Longrightarrow> word_length (n, t)"
  by (simp add: word_length_def)

lemma word_length_if: "(c \<Longrightarrow> word_length a) \<Longrightarrow> (\<not> c \<Longrightarrow> word_length b) \<Longrightarrow> word_length (if c then a else b)"
  by simp

lemma keywordCode_length: "word_length (keywordCode z n TK_ID)"
  by (auto simp: keywordCode_def dest: kw_loop_length split: option.split)
    (simp_all add: word_length_def TK_ID_def TK_WINDOW_def TK_OVER_def TK_FILTER_def)

lemma GetToken_length: "word_length (sqlite3GetToken z)"
proof -
  have "word_length (number_token z)" "word_length (blob_token z)"
    by (simp_all add: number_token_def blob_token_def Let_def word_length_def TK_char_defs TK_WINDOW_def TK_OVER_def TK_FILTER_def)
  then show ?thesis
    unfolding sqlite3GetToken_def Let_def
    by (intro word_length_if keywordCode_length)
      (simp_all add: word_length_def TK_char_defs TK_WINDOW_def TK_OVER_def TK_FILTER_def split: prod.split)
qed

lemma name_like_not: "\<not> name_like TK_ILLEGAL" "\<not> name_like TK_AS" "\<not> name_like TK_LP" "name_like TK_ID"
  by code_simp+

lemma significant_simps:
  "zc z 0 = 0 \<Longrightarrow> significant_tokens z = []"
  "sqlite3GetToken z = (n, t) \<Longrightarrow> zc z 0 \<noteq> 0 \<Longrightarrow>
    significant_tokens z = (if t = TK_SPACE then [] else [(t, take n z)]) @ significant_tokens (drop n z)"
  by (simp_all add: significant_tokens_def tokens.simps [of z])

lemma getToken_significant:
  "cstring z \<Longrightarrow> (case significant_tokens z of [] \<Rightarrow> fst (getToken z) = TK_ILLEGAL
    | (t, x) # ts \<Rightarrow> \<exists>r. getToken z = (if name_like t then TK_ID else t, r) \<and> significant_tokens r = ts \<and> cstring r)"
proof (induction z rule: getToken.induct)
  case (1 z)
  obtain n t where nt: "sqlite3GetToken z = (n, t)" by (metis surj_pair)
  have G: "getToken z = (if t = TK_SPACE then getToken (drop n z) else (if name_like t then TK_ID else t, drop n z))"
    using nt by (simp add: getToken.simps [of z] name_like_def)
  show ?case
  proof (cases "zc z 0 = 0")
    case True
    then have "t = TK_ILLEGAL" "TK_ILLEGAL \<noteq> TK_SPACE" using GetToken_end [OF True] nt by (simp_all add: TK_ILLEGAL_def TK_SPACE_def)
    then show ?thesis using G name_like_not(1) by (simp add: significant_simps(1) [OF True])
  next
    case False
    have ds: "cstring (drop n z)" using 1(2) by blast
    show ?thesis
    proof (cases "t = TK_SPACE")
      case True
      then have g: "getToken z = getToken (drop n z)" "significant_tokens z = significant_tokens (drop n z)"
        using G significant_simps(2) [OF nt False] by simp_all
      show ?thesis unfolding g by (rule 1(1) [OF nt [symmetric] refl True ds])
    next
      case sp: False
      then show ?thesis using G significant_simps(2) [OF nt False] ds by simp
    qed
  qed
qed

lemma getToken_first:
  assumes "cstring z"
  shows "fst (getToken z) = TK_ID \<longleftrightarrow> (case map fst (significant_tokens z) of [] \<Rightarrow> False | a # _ \<Rightarrow> name_like a)" (is ?id)
    and "fst (getToken z) = TK_AS \<longleftrightarrow> (case map fst (significant_tokens z) of [] \<Rightarrow> False | a # _ \<Rightarrow> a = TK_AS)" (is ?as)
    and "fst (getToken z) = TK_LP \<longleftrightarrow> (case map fst (significant_tokens z) of [] \<Rightarrow> False | a # _ \<Rightarrow> a = TK_LP)" (is ?lp)
    and "map fst (significant_tokens z) = a # as \<Longrightarrow> map fst (significant_tokens (snd (getToken z))) = as \<and> cstring (snd (getToken z))"
proof -
  note first = getToken_significant [OF assms]
  have distinct: "TK_ILLEGAL \<noteq> TK_ID" "TK_ILLEGAL \<noteq> TK_AS" "TK_ILLEGAL \<noteq> TK_LP" "TK_ID \<noteq> TK_AS" "TK_ID \<noteq> TK_LP"
    by (simp_all add: TK_char_defs TK_AS_def)
  have code: "(if name_like c then TK_ID else c) = TK_ID \<longleftrightarrow> name_like c" "(if name_like c then TK_ID else c) = TK_AS \<longleftrightarrow> c = TK_AS"
    "(if name_like c then TK_ID else c) = TK_LP \<longleftrightarrow> c = TK_LP" for c
    using name_like_not distinct(4,5) by metis+
  have "?id \<and> ?as \<and> ?lp"
  proof (cases "significant_tokens z")
    case Nil
    then show ?thesis using first distinct(1-3) by simp
  next
    case (Cons tx ts)
    then obtain c r where "fst tx = c" "getToken z = (if name_like c then TK_ID else c, r)" using first by (cases tx) auto
    then show ?thesis using Cons code [of c] by simp
  qed
  then show ?id ?as ?lp by blast+
  show "map fst (significant_tokens (snd (getToken z))) = as \<and> cstring (snd (getToken z))" if "map fst (significant_tokens z) = a # as"
    using that first by (cases "significant_tokens z") auto
qed

lemma analyzeWindow_significant:
  assumes "cstring z"
  shows "analyzeWindowKeyword z = keyword_or_name lst TK_WINDOW (map fst (significant_tokens z))"
proof (cases "map fst (significant_tokens z)")
  case Nil
  then show ?thesis using getToken_first(1) [OF assms] by (simp add: analyzeWindowKeyword_def keyword_or_name_def case_prod_beta)
next
  case (Cons a as)
  note rest = getToken_first(4) [OF assms Cons]
  have "fst (getToken z) = TK_ID \<longleftrightarrow> name_like a" using getToken_first(1) [OF assms] Cons by simp
  moreover have "fst (getToken (snd (getToken z))) = TK_AS \<longleftrightarrow> (case as of [] \<Rightarrow> False | b # _ \<Rightarrow> b = TK_AS)"
    using getToken_first(2) rest by metis
  ultimately show ?thesis using Cons by (cases as) (simp_all add: analyzeWindowKeyword_def keyword_or_name_def case_prod_beta)
qed

lemma analyzeOver_significant:
  assumes "cstring z"
  shows "analyzeOverKeyword z lst = keyword_or_name lst TK_OVER (map fst (significant_tokens z))"
    and "analyzeFilterKeyword z lst = keyword_or_name lst TK_FILTER (map fst (significant_tokens z))"
proof -
  have d: "TK_OVER \<noteq> TK_WINDOW" "TK_FILTER \<noteq> TK_WINDOW" "TK_FILTER \<noteq> TK_OVER" by (simp_all add: TK_WINDOW_def TK_OVER_def TK_FILTER_def)
  show "analyzeOverKeyword z lst = keyword_or_name lst TK_OVER (map fst (significant_tokens z))"
    using getToken_first(1,3) [OF assms] d
    by (cases "map fst (significant_tokens z)") (simp_all add: analyzeOverKeyword_def keyword_or_name_def case_prod_beta)
  show "analyzeFilterKeyword z lst = keyword_or_name lst TK_FILTER (map fst (significant_tokens z))"
    using getToken_first(3) [OF assms] d
    by (cases "map fst (significant_tokens z)") (simp_all add: analyzeFilterKeyword_def keyword_or_name_def)
qed

lemma resolved_significant:
  assumes "cstring z" and "sqlite3GetToken z = (n, t)"
  shows "resolved z lst t = keyword_or_name lst t (map fst (significant_tokens (drop n z)))"
proof -
  have "word_length (n, t)" using GetToken_length [of z] assms(2) by simp
  moreover have "cstring (drop n z)" using assms(1) by blast
  ultimately show ?thesis
    using analyzeWindow_significant [of "drop n z" lst] analyzeOver_significant [of "drop n z" lst]
    by (auto simp: resolved_def word_length_def) (simp_all add: keyword_or_name_def)
qed

lemma fed_significant: "cstring z \<Longrightarrow> lst \<noteq> 0 \<Longrightarrow> fed lst z = parser_tokens lst (significant_tokens z)"
proof (induction lst z rule: fed.induct)
  case (1 lst z)
  show ?case
  proof (cases "zc z 0 = 0")
    case True
    then show ?thesis using 1(4) by (simp add: fed.simps [of lst z] significant_simps(1))
  next
    case False
    obtain n t where nt: "sqlite3GetToken z = (n, t)" by (metis surj_pair)
    have ds: "cstring (drop n z)" using 1(3) by blast
    note S = significant_simps(2) [OF nt False] and R = resolved_significant [OF 1(3) nt, of lst]
    consider "t = TK_SPACE" | "t \<noteq> TK_SPACE" "t = TK_ILLEGAL" | "t \<noteq> TK_SPACE" "t \<noteq> TK_ILLEGAL" by blast
    then show ?thesis
    proof cases
      case 1
      then show ?thesis using "1.IH"(1) [OF False nt [symmetric] refl _ ds "1.prems"(2)] False nt S by (simp add: fed.simps [of lst z])
    next
      case 2
      then show ?thesis using False nt S by (simp add: fed.simps [of lst z])
    next
      case 3
      have "grammar_code (resolved z lst t)" using GetToken_code [of z] nt 3 by (intro resolved_code) simp_all
      then have "int (resolved z lst t) \<noteq> 0" by (simp add: grammar_code_def)
      from "1.IH"(2) [OF False nt [symmetric] refl 3 ds this] show ?thesis using 3 False nt S R by (simp add: fed.simps [of lst z] Let_def)
    qed
  qed
qed

text \<open>Whatever the parser answers and whenever the run is interrupted, a prefix has been fed.\<close>

lemma fed_Skip:
  assumes "next_step z mx i lst = Skip_space"
  shows "fed lst z = fed lst (drop (fst (sqlite3GetToken z)) z)"
proof -
  obtain n t where nt: "sqlite3GetToken z = (n, t)" by (metis surj_pair)
  with assms have "t = TK_SPACE" by (auto simp: next_step_def split: if_splits)
  moreover from this have "zc z 0 \<noteq> 0" using GetToken_end [of z] nt by (auto simp: TK_SPACE_def TK_ILLEGAL_def)
  ultimately show ?thesis using nt by (simp add: fed.simps [of lst z])
qed

lemma fed_Feed:
  assumes "cstring z" and "next_step z mx i lst = Feed t n"
  shows "fed lst z = (t, take n z) # fed (int t) (drop n z)"
proof (cases "zc z 0 = 0")
  case True
  then have z: "z = []" using assms(1) by (simp add: cstring_end)
  then have "(lst = int TK_SEMI \<and> t = 0 \<or> lst \<noteq> int TK_SEMI \<and> lst \<noteq> 0 \<and> t = TK_SEMI) \<and> n = 0"
    using assms(2) GetToken_end [OF True]
    by (auto simp: next_step_def TK_SPACE_def TK_ILLEGAL_def TK_WINDOW_def split: if_splits)
  then show ?thesis using z by (auto simp: fed.simps [of _ "[]"] TK_SEMI_def)
next
  case False
  obtain m u where mu: "sqlite3GetToken z = (m, u)" by (metis surj_pair)
  then have "token_code u" using GetToken_code [of z] by simp
  then have "m = n \<and> u \<noteq> TK_SPACE \<and> u \<noteq> TK_ILLEGAL \<and> t = resolved z lst u"
    using assms(2) mu False
    by (auto simp: next_step_def resolved_def TK_SPACE_def TK_ILLEGAL_def TK_WINDOW_def TK_OVER_def
        TK_FILTER_def split: if_splits)
  then show ?thesis using mu False by (simp add: fed.simps [of lst z])
qed

lemma run_parser_prefix:
  "cstring z \<Longrightarrow>
    \<exists>k. snd (snd (run_parser feed failed intr z mx lst p)) = feed_all feed p (take k (fed lst z))"
proof (induction feed failed intr z mx lst p rule: run_parser.induct)
  case (1 feed failed intr z mx lst p)
  obtain i intr' where i: "interrupt z intr = (i, intr')" by (metis surj_pair)
  note R = run_parser.simps [of feed failed intr z mx lst p]
  show ?case
  proof (cases "next_step z mx i lst")
    case Skip_space
    then have "\<exists>k. snd (snd (run_parser feed failed intr z mx lst p))
        = feed_all feed p (take k (fed lst (drop (fst (sqlite3GetToken z)) z)))"
      using 1(1) [OF i [symmetric] refl refl Skip_space] 1(3) i by (simp add: R cstring_drop)
    then show ?thesis using fed_Skip [OF Skip_space] by simp
  next
    case (Feed t n)
    note F = fed_Feed [OF 1(3) Feed]
    show ?thesis
    proof (cases "failed (feed p t (take n z))")
      case True
      have "snd (snd (run_parser feed failed intr z mx lst p)) = feed_all feed p (take 1 (fed lst z))"
        using True i Feed by (simp add: R F)
      then show ?thesis by blast
    next
      case False
      obtain k where "snd (snd (run_parser feed failed intr' (drop n z) (mx - int (fst (sqlite3GetToken z)))
          (int t) (feed p t (take n z)))) = feed_all feed (feed p t (take n z)) (take k (fed (int t) (drop n z)))"
        using 1(2) [OF i [symmetric] refl refl Feed refl False] 1(3) by (auto simp: cstring_drop)
      then have "snd (snd (run_parser feed failed intr z mx lst p)) = feed_all feed p (take (Suc k) (fed lst z))"
        using False i Feed by (simp add: R F Let_def)
      then show ?thesis by blast
    qed
  next
    case (Halt e)
    then have "snd (snd (run_parser feed failed intr z mx lst p)) = feed_all feed p (take 0 (fed lst z))"
      using i by (simp add: R)
    then show ?thesis by blast
  qed
qed

section \<open>Words, numbers and strings\<close>

lemma skip_append:
  assumes "list_all P (drop i w)" and "i \<le> length w" and "\<not> P (zc rest 0) \<or> rest = []"
  shows "skip P (w @ rest) i = length w"
proof -
  have "takeWhile P (drop i w @ rest) = drop i w"
    using assms(1,3) by (cases rest) (auto simp: takeWhile_append list_all_iff)
  then show ?thesis using assms(2) by (simp add: skip_def)
qed

lemma zc_append: "zc (w @ rest) (length w) = zc rest 0"
  by (simp add: zc_def nth_append)

lemma zc_append_less: "i < length w \<Longrightarrow> zc (w @ rest) i = zc w i"
  by (simp add: zc_def nth_append)

lemma aiClass_kwchar: "aiClass c \<le> CC_KYWD \<longleftrightarrow> kwchar c"
  by (rule byte_table) code_simp

lemma kwchar_IdChar: "kwchar c \<Longrightarrow> IdChar c"
  by (auto simp: kwchar_def IdChar_iff)

lemma keywordCode_append: "w \<noteq> [] \<Longrightarrow> keywordCode (w @ rest) (length w) t = keywordCode w (length w) t"
proof -
  assume w: "w \<noteq> []"
  have m: "kw_match (w @ rest) (length w) i = kw_match w (length w) i" for i
    by (simp add: kw_match_def)
  have l: "kw_loop (w @ rest) (length w) k = kw_loop w (length w) k" for k
  proof (induction k rule: chain.induct)
    case (2 i)
    then show ?case by (cases "rd aKWNext i") (simp_all add: m)
  qed simp
  have "keyword_hash (w @ rest) (length w) = keyword_hash w (length w)"
    using w by (simp add: keyword_hash_def zc_append_less)
  then show ?thesis by (simp add: keywordCode_def l)
qed

lemma aiClass_letter: "kwchar c \<and> c \<noteq> 0x78 \<and> c \<noteq> 0x58 \<longrightarrow> aiClass c = CC_KYWD"
  by (rule byte_table) code_simp

lemma word_token_of:
  assumes "list_all kwchar w" and "w \<noteq> []" and "zc w 0 \<noteq> 0x78" and "zc w 0 \<noteq> 0x58"
    and "\<not> IdChar (zc rest 0)"
  shows "sqlite3GetToken (w @ rest) = keywordCode w (length w) TK_ID"
proof -
  have c0: "zc (w @ rest) 0 = zc w 0" using assms(2) by (simp add: zc_append_less)
  have "kwchar (zc w 0)" using assms(1,2) by (cases w) simp_all
  then have cc: "aiClass (zc (w @ rest) 0) = CC_KYWD" unfolding c0 using aiClass_letter assms(3,4) by simp
  have sk: "skip (\<lambda>c. aiClass c \<le> CC_KYWD) (w @ rest) 1 = length w"
    using assms(1,2,5) kwchar_IdChar
    by (intro skip_append) (auto simp: aiClass_kwchar list_all_iff Suc_le_eq dest: in_set_dropD)
  show ?thesis
    unfolding sqlite3GetToken_def Let_def cc sk zc_append keywordCode_append [OF assms(2)]
    using assms(5) by (simp add: CC_defs)
qed

lemma digit_Isdigit: "digit c \<longleftrightarrow> sqlite3Isdigit c"
  by (simp add: digit_def sqlite3Isdigit_iff)

lemma digit_IdChar: "sqlite3Isdigit c \<Longrightarrow> IdChar c"
  by (auto simp: sqlite3Isdigit_iff IdChar_iff)

lemma letter_ex_IdChar: "IdChar 0x78" "IdChar 0x58" "IdChar 0x65" "IdChar 0x45"
  by code_simp+

lemma digit_not_x: "\<not> sqlite3Isdigit 0x78" "\<not> sqlite3Isdigit 0x58"
  by code_simp+

lemma integer_token:
  assumes "\<forall>c \<in> set ds. digit c" and "ds \<noteq> []" and "\<not> IdChar (zc rest 0)" and "zc rest 0 \<noteq> 0x2e"
  shows "sqlite3GetToken (ds @ rest) = (length ds, TK_INTEGER)"
proof -
  let ?z = "ds @ rest"
  have c0: "zc ?z 0 = zc ds 0" using assms(2) by (simp add: zc_append_less)
  have "sqlite3Isdigit (zc ds 0)" using assms(1,2) by (cases ds) (simp_all add: digit_Isdigit)
  then have cc: "aiClass (zc ?z 0) = CC_DIGIT" unfolding c0 by (simp add: aiClass_digit)
  have nd: "\<not> sqlite3Isdigit (zc rest 0)" using assms(3) digit_IdChar by blast
  have "zc ?z 1 = zc rest 0 \<or> sqlite3Isdigit (zc ?z 1)"
  proof (cases ds)
    case (Cons d ds')
    then show ?thesis
      using assms(1) by (cases ds') (auto simp: digit_Isdigit zc_def)
  qed (use assms(2) in simp)
  then have hex: "\<not> (zc ?z 0 = 0x30 \<and> (zc ?z 1 = 0x78 \<or> zc ?z 1 = 0x58) \<and> sqlite3Isxdigit (zc ?z 2))"
    using assms(3) letter_ex_IdChar digit_not_x by metis
  have sk: "skip sqlite3Isdigit ?z 0 = length ds"
    using assms(1) nd by (intro skip_append) (auto simp: digit_Isdigit list_all_iff)
  have e: "zc rest 0 \<noteq> 0x65" "zc rest 0 \<noteq> 0x45" using assms(3) letter_ex_IdChar by metis+
  have "number_token ?z = (length ds, TK_INTEGER)"
    unfolding number_token_def if_not_P [OF hex] sk Let_def
    using assms(3,4) e by (simp add: zc_append)
  then show ?thesis
    unfolding sqlite3GetToken_def Let_def cc by (simp add: CC_defs)
qed

lemma integer_value:
  assumes "\<forall>c \<in> set ds. digit c" and "ds \<noteq> []"
  shows "sqlite3DecOrHexToI64 ds = Some (if dval ds < 2 ^ 63 then 0 else if dval ds = 2 ^ 63 then 3 else 2,
    min (int (dval ds)) (2 ^ 63 - 1))"
proof -
  have "zc ds 1 \<noteq> 0x78 \<and> zc ds 1 \<noteq> 0x58"
    using assms(1) digit_not_x by (cases ds; cases "tl ds") (auto simp: zc_def digit_Isdigit)
  then have 1: "sqlite3DecOrHexToI64 ds = sqlite3Atoi64 ds SQLITE_UTF8"
    by (simp add: sqlite3DecOrHexToI64_def)
  have "sqlite3Atoi64 (ascii_text SQLITE_UTF8 ([] @ [] @ ds @ [])) SQLITE_UTF8
    = Some (if i64 (int (dval ds)) then (if atoi64_tail [] then 1 else 0)
            else if int (dval ds) = 2 ^ 63 then 3 else 2, clamp64 (int (dval ds)))"
    using Atoi64_ok [of SQLITE_UTF8 "[]" "[]" ds "[]"] assms by simp
  moreover have "(int (dval ds) \<le> 2 ^ 63 - 1) = (dval ds < 2 ^ 63)"
    using of_nat_less_iff [of "dval ds" "2 ^ 63", where 'a = int] by simp linarith
  moreover have "(int (dval ds) = 2 ^ 63) = (dval ds = 2 ^ 63)"
    using of_nat_eq_iff [of "dval ds" "2 ^ 63", where 'a = int] by simp
  ultimately show ?thesis
    unfolding 1 by (simp add: ascii_text_def i64_def clamp64_def LARGEST_INT64_def SMALLEST_INT64_def)
qed

lemma quote_scan_quoted:
  "cstring s \<Longrightarrow> q \<noteq> 0 \<Longrightarrow> zc rest 0 \<noteq> q \<Longrightarrow>
    quote_scan q (quoted q s @ rest) i = (i + length (quoted q s) - 1, q)"
proof (induction s arbitrary: i)
  case (Cons c s)
  show ?case
  proof (cases "c = q")
    case True
    have "0 < length (quoted q s)" by (simp add: quoted_def)
    then show ?thesis using Cons True by (simp add: quoted_def)
  next
    case False
    have "0 < length (quoted q s)" by (simp add: quoted_def)
    then show ?thesis using Cons False by (simp add: quoted_def)
  qed
qed (simp add: quoted_def)

lemma aiClass_quote: "c = 0x22 \<or> c = 0x27 \<or> c = 0x60 \<longrightarrow> aiClass c = CC_QUOTE"
  by (rule byte_table) code_simp

lemma string_token:
  assumes "q = 0x22 \<or> q = 0x27 \<or> q = 0x60" and "cstring s" and "zc rest 0 \<noteq> q"
  shows "sqlite3GetToken (q # quoted q s @ rest)
    = (1 + length (quoted q s), if q = 0x27 then TK_STRING else TK_ID)"
proof -
  have q: "q \<noteq> 0" using assms(1) by auto
  have cc: "aiClass q = CC_QUOTE" using assms(1) aiClass_quote by blast
  have "0 < length (quoted q s)" by (simp add: quoted_def)
  then show ?thesis
    using quote_scan_quoted [OF assms(2) q assms(3), of 1] q
    by (simp add: sqlite3GetToken_def cc CC_defs)
qed

section \<open>Properties\<close>

text \<open>
  C26: the tokenizer always makes progress and loses nothing: every text is the concatenation of its
  tokens, none of them empty, and every token type is a terminal of the grammar, white space or
  illegal.
\<close>

theorem tokenizer_partitions_text:
  assumes "cstring z"
  shows "concat (map snd (tokens z)) = z
    \<and> (\<forall>(t, x) \<in> set (tokens z). x \<noteq> [])
    \<and> fst (sqlite3GetToken z) \<le> length z \<and> (fst (sqlite3GetToken z) = 0 \<longleftrightarrow> z = [])
    \<and> token_code (snd (sqlite3GetToken z))"
proof (cases "z = []")
  case True
  then show ?thesis
    using concat_tokens [OF assms] tokens_nonempty GetToken_end [of z] GetToken_code [of z] by force
next
  case False
  then have "piece z (sqlite3GetToken z)" using assms by (intro GetToken_piece) (simp add: cstring_end)
  then show ?thesis
    using concat_tokens [OF assms] tokens_nonempty GetToken_code [of z] False by (force simp: piece_def)
qed

theorem tokenizer_partitions_text_witness:
  "concat (map snd (tokens [0x31, 0x2f, 0x2a, 0x2b, 0x78])) = [0x31, 0x2f, 0x2a, 0x2b, 0x78]"
  using tokenizer_partitions_text [of "[0x31, 0x2f, 0x2a, 0x2b, 0x78]"] by simp

text \<open>
  C27: however the parser behaves and whenever it is interrupted, the loop of \<^verbatim>\<open>sqlite3RunParser\<close> ends, and
  every token it fed has a code below 155, the number of terminals: the bound that the parser's table
  accesses rely on.
\<close>

theorem parser_is_fed_terminals:
  assumes "cstring z" and "run_parser (\<lambda>ts t x. ts @ [(t, x)]) failed intr z mx (- 1) [] = (e, tail, ts)"
  shows "\<forall>(t, x) \<in> set ts. t < 155"
proof -
  have f: "feed_all (\<lambda>ts t x. ts @ [(t, x)]) us vs = us @ vs" for us and vs :: "(nat \<times> u8 list) list"
    by (induction vs arbitrary: us) auto
  obtain k where "ts = take k (fed (- 1) z)"
    using run_parser_prefix [OF assms(1), of "\<lambda>ts t x. ts @ [(t, x)]" failed intr mx "- 1" "[]"] assms(2)
    by (auto simp: f)
  then show ?thesis using fed_codes by (auto dest: in_set_takeD)
qed

text \<open>The text \<open>)OVER a\<close>, interrupted at the word OVER.\<close>

theorem parser_is_fed_terminals_witness:
  "run_parser (\<lambda>ts t x. ts @ [(t, x)]) (\<lambda>_. False) [True] [0x29, 0x4f, 0x56, 0x45, 0x52, 0x20, 0x61] 100 (- 1) []
      = (Interrupted, [0x4f, 0x56, 0x45, 0x52, 0x20, 0x61], [(TK_RP, [0x29])])
    \<and> TK_RP < 155"
proof -
  have r: "run_parser (\<lambda>ts t x. ts @ [(t, x)]) (\<lambda>_. False) [True] [0x29, 0x4f, 0x56, 0x45, 0x52, 0x20, 0x61] 100 (- 1) []
      = (Interrupted, [0x4f, 0x56, 0x45, 0x52, 0x20, 0x61], [(TK_RP, [0x29])])"
    by code_simp
  have "cstring [0x29, 0x4f, 0x56, 0x45, 0x52, 0x20, 0x61]" by simp
  then show ?thesis using parser_is_fed_terminals [OF _ r] r by simp
qed

text \<open>
  C28: when the text is within the length limit, no interrupt arrives and the parser does not stop, the
  parser is given exactly the tokens of the text but white space, in order, each with its code and its text, where WINDOW, OVER and
  FILTER are names unless they stand where the grammar has the keyword. At an illegal token the
  loop reports that token, having fed those before it, and leaves the text from there on; otherwise it ends the input: after the last token come a semicolon, unless
  there was one, and exactly one end marker.
\<close>

theorem parser_is_fed_everything:
  assumes "cstring z" and "int (length z) \<le> mx"
  shows "run_parser feed (\<lambda>_. False) [] z mx (- 1) p =
    (case first_illegal z of None \<Rightarrow> Finished | Some x \<Rightarrow> Unrecognized x,
     concat (map snd (dropWhile (\<lambda>(t, x). t \<noteq> TK_ILLEGAL) (tokens z))),
     feed_all feed p (parser_tokens (- 1) (significant_tokens z)))"
  using run_parser_fed [OF assms, of feed "- 1" p] fed_significant [OF assms(1), of "- 1"] by simp

text \<open>The text \<open>)OVER a over\<close>: the first of the two words is the keyword.\<close>

theorem parser_is_fed_everything_witness:
  "run_parser (\<lambda>us t x. us @ [(t, x)]) (\<lambda>_. False) [] [0x29, 0x4f, 0x56, 0x45, 0x52, 0x20, 0x61, 0x20, 0x6f, 0x76, 0x65, 0x72] 1000 (- 1) [] =
    (Finished, [], [(TK_RP, [0x29]), (TK_OVER, [0x4f, 0x56, 0x45, 0x52]), (TK_ID, [0x61]), (TK_ID, [0x6f, 0x76, 0x65, 0x72]), (TK_SEMI, []), (0, [])])"
proof -
  let ?z = "[0x29, 0x4f, 0x56, 0x45, 0x52, 0x20, 0x61, 0x20, 0x6f, 0x76, 0x65, 0x72] :: u8 list"
  have t: "tokens ?z = [(TK_RP, [0x29]), (TK_OVER, [0x4f, 0x56, 0x45, 0x52]), (TK_SPACE, [0x20]), (TK_ID, [0x61]), (TK_SPACE, [0x20]), (TK_OVER, [0x6f, 0x76, 0x65, 0x72])]"
    by code_simp
  have s: "parser_tokens (- 1) (significant_tokens ?z) = [(TK_RP, [0x29]), (TK_OVER, [0x4f, 0x56, 0x45, 0x52]), (TK_ID, [0x61]), (TK_ID, [0x6f, 0x76, 0x65, 0x72]), (TK_SEMI, []), (0, [])]"
    unfolding significant_tokens_def t by code_simp
  have "cstring ?z" "int (length ?z) \<le> 1000" by simp_all
  from parser_is_fed_everything [OF this, of "\<lambda>us t x. us @ [(t, x)]" "[]"] show ?thesis
    unfolding s by (simp add: t first_illegal_def TK_char_defs TK_OVER_def)
qed

text \<open>
  C38: a string literal written with doubled quotes is one token, whatever it holds and whatever
  follows, and dequoting that token gives the string back; with double quotes or grave accents it is
  an identifier.
\<close>

theorem string_literal_roundtrip:
  assumes "q = 0x22 \<or> q = 0x27 \<or> q = 0x60" and "cstring s" and "zc rest 0 \<noteq> q"
  shows "\<exists>n. sqlite3GetToken (q # quoted q s @ rest) = (n, if q = 0x27 then TK_STRING else TK_ID)
    \<and> sqlite3Dequote (take n (q # quoted q s @ rest)) = Some s \<and> drop n (q # quoted q s @ rest) = rest"
  using string_token [OF assms] sqlite3Dequote_quoted [OF assms(1), of "[]" s] assms(1) by auto

theorem string_literal_roundtrip_witness:
  "\<exists>n. sqlite3Dequote (take n [0x27, 0x69, 0x27, 0x27, 0x27, 0x29]) = Some [0x69, 0x27]"
  using string_literal_roundtrip [of "0x27" "[0x69, 0x27]" "[0x29]"] by (auto simp: quoted_def)

text \<open>
  A run of decimal digits not followed by a letter, digit, underscore or point is one integer
  token, and its text converts to its value, with the code for an overflow from 2^63 on.
\<close>

lemma integer_literal_value:
  assumes "\<forall>c \<in> set ds. digit c" and "ds \<noteq> []" and "\<not> IdChar (zc rest 0)" and "zc rest 0 \<noteq> 0x2e"
  shows "\<exists>n. sqlite3GetToken (ds @ rest) = (n, TK_INTEGER)
    \<and> sqlite3DecOrHexToI64 (take n (ds @ rest))
      = Some (if dval ds < 2 ^ 63 then 0 else if dval ds = 2 ^ 63 then 3 else 2, min (int (dval ds)) (2 ^ 63 - 1))"
  using integer_token [OF assms] integer_value [OF assms(1,2)] by auto

text \<open>
  C29: a word of letters and underscores that does not begin with x is one token; its type is that of
  the keyword it spells in any mixture of cases, or \<^verbatim>\<open>TK_ID\<close>.
\<close>

theorem word_token_type:
  assumes "list_all kwchar w" and "w \<noteq> []" and "zc w 0 \<noteq> 0x78" and "zc w 0 \<noteq> 0x58"
    and "\<not> IdChar (zc rest 0)"
  shows "sqlite3GetToken (w @ rest) = (length w,
    case map_of (zip (map (map of_char) sql_keywords) aKWCode) (map upcase w) of Some c \<Rightarrow> c | None \<Rightarrow> TK_ID)"
  using word_token_of [OF assms] keyword_code_lookup [OF assms(1)]
  by (simp add: sqlite3KeywordCode_def keyword_bytes_def keywordCode_def)

theorem word_token_type_witness:
  "fst (sqlite3GetToken ([0x6e, 0x75, 0x4c, 0x6c] @ [0x2c])) = 4"
  using word_token_type [of "[0x6e, 0x75, 0x4c, 0x6c]" "[0x2c]"] by (simp add: kwchar_def IdChar_iff)

end
