(* ===== verification/RowSet.thy ===== *)
theory RowSet
  imports Utf
begin

text \<open>
  The set of rowids of \<^verbatim>\<open>src/rowset.c\<close>: entries are collected in a list; either they are sorted once
  and handed out in order (\<^verbatim>\<open>sqlite3RowSetNext\<close>), or each batch is turned into a balanced search tree
  in a forest that is searched (\<^verbatim>\<open>sqlite3RowSetTest\<close>).

  An entry is always on exactly one list or in exactly one tree, so that a list linked by \<^verbatim>\<open>pRight\<close> is
  a list of values and a tree of entries is a binary tree, with the empty list and the empty tree for
  NULL. The forest is a list of trees. A routine that writes through a pointer to a list returns what
  is left of it. The pool of preallocated entries is its size \<open>nFresh\<close>, and \<open>nChunk\<close> is the number of
  chunks allocated. The answers of the allocator are an argument.
\<close>

section \<open>Data\<close>

datatype rs_tree = Nil_tree | Entry (pLeft: rs_tree) (entry_v: int) (pRight: rs_tree)

record RowSet =
  rs_nChunk :: nat
  rs_pEntry :: "int list"
  rs_pForest :: "rs_tree list"
  rs_nFresh :: nat
  rs_sorted :: bool
  rs_next :: bool
  rs_iBatch :: int

text \<open>\<^verbatim>\<open>ROWSET_ENTRY_PER_CHUNK\<close>, with the 24-byte entries of a 64-bit machine.\<close>

definition ROWSET_ENTRY_PER_CHUNK :: nat where
  "ROWSET_ENTRY_PER_CHUNK = (1024 - 8) div 24"

section \<open>Allocation and insertion\<close>

text \<open>\<open>nFresh\<close> is what the allocator left room for behind the object itself.\<close>

definition sqlite3RowSetInit :: "nat \<Rightarrow> mem \<Rightarrow> RowSet option \<times> mem" where
  "sqlite3RowSetInit nFresh m =
     (let (ok, m) = malloc m in
      (if ok then Some \<lparr>rs_nChunk = 0, rs_pEntry = [], rs_pForest = [], rs_nFresh = nFresh,
                        rs_sorted = True, rs_next = False, rs_iBatch = 0\<rparr>
       else None, m))"

definition sqlite3RowSetClear :: "RowSet \<Rightarrow> RowSet" where
  "sqlite3RowSetClear p =
     p\<lparr>rs_nChunk := 0, rs_nFresh := 0, rs_pEntry := [], rs_pForest := [], rs_sorted := True,
       rs_next := False\<rparr>"

definition rowSetEntryAlloc :: "RowSet \<Rightarrow> mem \<Rightarrow> bool \<times> RowSet \<times> mem" where
  "rowSetEntryAlloc p m =
     (if rs_nFresh p = 0 then
        let (ok, m) = malloc m in
          if \<not> ok then (False, p, m)
          else (True, p\<lparr>rs_nChunk := rs_nChunk p + 1, rs_nFresh := ROWSET_ENTRY_PER_CHUNK - 1\<rparr>, m)
      else (True, p\<lparr>rs_nFresh := rs_nFresh p - 1\<rparr>, m))"

definition sqlite3RowSetInsert :: "RowSet \<Rightarrow> int \<Rightarrow> mem \<Rightarrow> RowSet \<times> mem" where
  "sqlite3RowSetInsert p rowid m =
     (let (ok, p, m) = rowSetEntryAlloc p m in
      if \<not> ok then (p, m)
      else
        (p\<lparr>rs_sorted := (if rs_pEntry p \<noteq> [] \<and> rowid \<le> last (rs_pEntry p) then False else rs_sorted p),
           rs_pEntry := rs_pEntry p @ [rowid]\<rparr>, m))"

section \<open>Sorting\<close>

text \<open>The merge of two lists; equal heads are kept once. The routine is called with non-empty lists.\<close>

fun rowSetEntryMerge :: "int list \<Rightarrow> int list \<Rightarrow> int list" where
  "rowSetEntryMerge (a # as) (b # bs) =
     (if a \<le> b then
        let tail = (if as = [] then b # bs else rowSetEntryMerge as (b # bs))
        in if a < b then a # tail else tail
      else b # (if bs = [] then a # as else rowSetEntryMerge (a # as) bs))"
| "rowSetEntryMerge as bs = as @ bs"

text \<open>
  \<open>for(i=0; aBucket[i]; i++){ pIn = merge(aBucket[i], pIn); aBucket[i] = 0; } aBucket[i] = pIn;\<close>
  on the array of forty buckets from \<open>i\<close> on. Running past the array is \<open>None\<close>.
\<close>

fun bucket_insert :: "int list list \<Rightarrow> int list \<Rightarrow> int list list option" where
  "bucket_insert [] pIn = None"
| "bucket_insert (b # aBucket) pIn =
     (if b \<noteq> [] then map_option ((#) []) (bucket_insert aBucket (rowSetEntryMerge b pIn))
      else Some (pIn # aBucket))"

fun sort_loop :: "int list list \<Rightarrow> int list \<Rightarrow> int list list option" where
  "sort_loop aBucket [] = Some aBucket"
| "sort_loop aBucket (v # pIn) =
     (case bucket_insert aBucket [v] of None \<Rightarrow> None | Some aBucket \<Rightarrow> sort_loop aBucket pIn)"

fun bucket_merge :: "int list \<Rightarrow> int list list \<Rightarrow> int list" where
  "bucket_merge pIn [] = pIn"
| "bucket_merge pIn (b # aBucket) =
     (if b = [] then bucket_merge pIn aBucket
      else bucket_merge (if pIn \<noteq> [] then rowSetEntryMerge pIn b else b) aBucket)"

definition rowSetEntrySort :: "int list \<Rightarrow> int list option" where
  "rowSetEntrySort pIn =
     (case sort_loop (replicate 40 []) pIn of
        None \<Rightarrow> None
      | Some aBucket \<Rightarrow> Some (bucket_merge (hd aBucket) (tl aBucket)))"

section \<open>Trees\<close>

text \<open>The list of the entries of a tree, built from its left and right parts.\<close>

fun rowSetTreeToList :: "rs_tree \<Rightarrow> int list" where
  "rowSetTreeToList Nil_tree = []"
| "rowSetTreeToList (Entry l v r) =
     (if l \<noteq> Nil_tree then rowSetTreeToList l @ [v] else [v])
     @ (if r \<noteq> Nil_tree then rowSetTreeToList r else [])"

function rowSetNDeepTree :: "int list \<Rightarrow> nat \<Rightarrow> rs_tree \<times> int list" where
  "rowSetNDeepTree [] iDepth = (Nil_tree, [])"
| "rowSetNDeepTree (v # list) iDepth =
     (if iDepth > 1 then
        let (left, list) = rowSetNDeepTree (v # list) (iDepth - 1) in
          case list of
            [] \<Rightarrow> (left, [])
          | w # list \<Rightarrow>
              let (right, list) = rowSetNDeepTree list (iDepth - 1) in (Entry left w right, list)
      else (Entry Nil_tree v Nil_tree, list))"
  by pat_completeness auto
termination
  by (relation "measure snd") auto

declare rowSetNDeepTree.simps(2) [simp del]

lemma NDeepTree_length: "length (snd (rowSetNDeepTree list d)) \<le> length list"
proof (induction list d rule: rowSetNDeepTree.induct)
  case (2 v list d)
  show ?case
  proof (cases "d > 1")
    case True
    obtain l r where lr: "rowSetNDeepTree (v # list) (d - 1) = (l, r)" by (metis surj_pair)
    have IH1: "length r \<le> length (v # list)" using 2(1) [OF True] lr by simp
    show ?thesis
    proof (cases r)
      case Nil
      then show ?thesis using True lr by (simp add: rowSetNDeepTree.simps(2) [of v list d])
    next
      case (Cons w us)
      then show ?thesis
        using 2(2) [OF True lr [symmetric] refl Cons] True lr IH1
        by (auto simp add: rowSetNDeepTree.simps(2) [of v list d] split: prod.split)
    qed
  qed (simp add: rowSetNDeepTree.simps(2) [of v list d])
qed simp

function ListToTree_loop :: "rs_tree \<Rightarrow> int list \<Rightarrow> nat \<Rightarrow> rs_tree" where
  "ListToTree_loop p [] iDepth = p"
| "ListToTree_loop p (v # list) iDepth =
     (let (right, list) = rowSetNDeepTree list iDepth
      in ListToTree_loop (Entry p v right) list (iDepth + 1))"
  by pat_completeness auto
termination
proof (relation "measure (\<lambda>(p, list, d). length list)")
  fix p v list d x xa y
  assume "x = rowSetNDeepTree list d" "(xa, y) = x"
  then have "length y \<le> length list" using NDeepTree_length [of list d] by (metis snd_conv)
  then show "((Entry p v xa, y, d + 1), p, v # list, d) \<in> measure (\<lambda>(p, list, d). length list)" by simp
qed simp

definition rowSetListToTree :: "int list \<Rightarrow> rs_tree" where
  "rowSetListToTree list = ListToTree_loop (Entry Nil_tree (hd list) Nil_tree) (tl list) 1"

section \<open>The two ways to read a set\<close>

text \<open>The next value, and the set after it; \<open>None\<close> outside is the buckets running over.\<close>

definition sqlite3RowSetNext :: "RowSet \<Rightarrow> (int option \<times> RowSet) option" where
  "sqlite3RowSetNext p = do {
     p \<leftarrow> (if \<not> rs_next p then do {
             entries \<leftarrow> (if \<not> rs_sorted p then rowSetEntrySort (rs_pEntry p) else Some (rs_pEntry p));
             Some (p\<lparr>rs_pEntry := entries, rs_sorted := True, rs_next := True\<rparr>) }
           else Some p);
     case rs_pEntry p of
       v # rest \<Rightarrow>
         let p = p\<lparr>rs_pEntry := rest\<rparr> in
         Some (Some v, if rest = [] then sqlite3RowSetClear p else p)
     | [] \<Rightarrow> Some (None, p) }"

text \<open>
  The loop over the forest that looks for an empty place, merging the trees it passes into the list
  \<open>p\<close>. \<open>None\<close> stands for a forest without an empty place: then the trees are all empty and the list is
  returned to go into a new one.
\<close>

fun forest_place :: "rs_tree list \<Rightarrow> int list \<Rightarrow> rs_tree list \<times> int list option" where
  "forest_place [] p = ([], Some p)"
| "forest_place (t # forest) p =
     (if t = Nil_tree then (rowSetListToTree p # forest, None)
      else let (forest, r) = forest_place forest (rowSetEntryMerge (rowSetTreeToList t) p)
           in (Nil_tree # forest, r))"

fun tree_search :: "rs_tree \<Rightarrow> int \<Rightarrow> bool" where
  "tree_search Nil_tree iRowid = False"
| "tree_search (Entry l v r) iRowid =
     (if v < iRowid then tree_search r iRowid else if v > iRowid then tree_search l iRowid else True)"

definition sqlite3RowSetTest :: "RowSet \<Rightarrow> int \<Rightarrow> int \<Rightarrow> mem \<Rightarrow> (bool \<times> RowSet \<times> mem) option" where
  "sqlite3RowSetTest p iBatch iRowid m = do {
     (p, m) \<leftarrow>
       (if iBatch \<noteq> rs_iBatch p then do {
          (p, m) \<leftarrow>
            (if rs_pEntry p \<noteq> [] then do {
               entries \<leftarrow> (if \<not> rs_sorted p then rowSetEntrySort (rs_pEntry p) else Some (rs_pEntry p));
               let (forest, r) = forest_place (rs_pForest p) entries;
               let (p, m) =
                 (case r of
                    None \<Rightarrow> (p\<lparr>rs_pForest := forest\<rparr>, m)
                  | Some entries \<Rightarrow>
                      let (ok, p, m) = rowSetEntryAlloc p m in
                      (p\<lparr>rs_pForest := (if ok then forest @ [rowSetListToTree entries] else forest)\<rparr>, m));
               Some (p\<lparr>rs_pEntry := [], rs_sorted := True\<rparr>, m) }
             else Some (p, m));
          Some (p\<lparr>rs_iBatch := iBatch\<rparr>, m) }
        else Some (p, m));
     Some (list_ex (\<lambda>t. tree_search t iRowid) (rs_pForest p), p, m) }"

end
