(* ===== verification/RowSetFacts.thy ===== *)
theory RowSetFacts
  imports RowSet
begin

text \<open>
  A rowset is a set: the merge sort with its forty buckets sorts and drops duplicates and never needs
  a forty-first bucket, the trees are balanced search trees, and both ways of reading give the rowids
  that were inserted.
\<close>

section \<open>Merging\<close>

abbreviation strict :: "int list \<Rightarrow> bool" where
  "strict xs \<equiv> sorted_wrt (<) xs"

lemma set_merge: "set (rowSetEntryMerge a b) = set a \<union> set b"
  by (induction a b rule: rowSetEntryMerge.induct) (auto simp: Let_def)

lemma merge_nonempty: "b \<noteq> [] \<Longrightarrow> rowSetEntryMerge a b \<noteq> []"
  using set_merge [of a b] by (metis Un_empty set_empty)

lemma strict_merge: "strict a \<Longrightarrow> strict b \<Longrightarrow> strict (rowSetEntryMerge a b)"
proof (induction a b rule: rowSetEntryMerge.induct)
  case (1 a as b bs)
  consider "a < b" | "a = b" | "b < a" by linarith
  then show ?case
  proof cases
    case 1
    then show ?thesis using "1.IH"(1) "1.prems" by (cases "as = []") (force simp: set_merge)+
  next
    case 2
    then show ?thesis using "1.IH"(1) "1.prems" by (cases "as = []") simp_all
  next
    case 3
    then show ?thesis using "1.IH"(2) "1.prems" by (cases "bs = []") (force simp: set_merge)+
  qed
qed simp_all

section \<open>The buckets\<close>

text \<open>
  Seen as binary digits, the occupied buckets count the entries that have been inserted; so the array
  overflows only when that count reaches two to its length.
\<close>

fun weight :: "int list list \<Rightarrow> nat" where
  "weight [] = 0"
| "weight (b # bs) = (if b = [] then 0 else 1) + 2 * weight bs"

definition bucket_elems :: "int list list \<Rightarrow> int set" where
  "bucket_elems bs = \<Union> (set ` set bs)"

lemma bucket_elems_simps [simp]:
  "bucket_elems [] = {}" "bucket_elems (b # bs) = set b \<union> bucket_elems bs"
  by (simp_all add: bucket_elems_def)

lemma bucket_insert_ok:
  "p \<noteq> [] \<Longrightarrow> strict p \<Longrightarrow> list_all strict bs \<Longrightarrow> weight bs + 1 < 2 ^ length bs \<Longrightarrow>
    \<exists>bs'. bucket_insert bs p = Some bs' \<and> weight bs' = weight bs + 1 \<and> length bs' = length bs
      \<and> list_all strict bs' \<and> bucket_elems bs' = bucket_elems bs \<union> set p"
proof (induction bs p rule: bucket_insert.induct)
  case (2 b bs p)
  show ?case
  proof (cases "b = []")
    case False
    have "rowSetEntryMerge b p \<noteq> []" using 2(2) by (rule merge_nonempty)
    moreover have "strict (rowSetEntryMerge b p)" using 2(3,4) strict_merge by simp
    moreover have "weight bs + 1 < 2 ^ length bs" using 2(5) False by simp
    ultimately obtain bs' where "bucket_insert bs (rowSetEntryMerge b p) = Some bs'"
        "weight bs' = weight bs + 1" "length bs' = length bs" "list_all strict bs'"
        "bucket_elems bs' = bucket_elems bs \<union> set (rowSetEntryMerge b p)"
      using 2(1) [OF False] 2(4) by auto
    then show ?thesis using False by (auto simp: set_merge)
  qed (use 2 in auto)
qed simp

lemma sort_loop_ok:
  "list_all strict bs \<Longrightarrow> weight bs + length xs < 2 ^ length bs \<Longrightarrow>
    \<exists>bs'. sort_loop bs xs = Some bs' \<and> list_all strict bs' \<and> length bs' = length bs
      \<and> bucket_elems bs' = bucket_elems bs \<union> set xs"
proof (induction bs xs rule: sort_loop.induct)
  case (2 bs v xs)
  obtain bs' where bs': "bucket_insert bs [v] = Some bs'" "weight bs' = weight bs + 1"
      "length bs' = length bs" "list_all strict bs'" "bucket_elems bs' = bucket_elems bs \<union> {v}"
    using bucket_insert_ok [of "[v]" bs] 2(2,3) by auto
  then show ?case using 2(1) [OF bs'(1)] 2(3) by auto
qed simp

lemma bucket_merge_ok:
  "strict p \<Longrightarrow> list_all strict bs \<Longrightarrow>
    strict (bucket_merge p bs) \<and> set (bucket_merge p bs) = set p \<union> bucket_elems bs"
  by (induction p bs rule: bucket_merge.induct) (auto simp: strict_merge set_merge)

lemma weight_replicate [simp]: "weight (replicate n []) = 0"
  by (induction n) simp_all

lemma bucket_elems_replicate [simp]: "bucket_elems (replicate n []) = {}"
  by (induction n) simp_all

lemma sort_ok:
  assumes "length xs < 2 ^ 40"
  shows "\<exists>ys. rowSetEntrySort xs = Some ys \<and> strict ys \<and> set ys = set xs"
proof -
  let ?b = "replicate 40 []"
  have "list_all strict ?b" by (simp add: list_all_iff)
  moreover have "weight ?b + length xs < 2 ^ length ?b" using assms by simp
  ultimately obtain bs where bs: "sort_loop ?b xs = Some bs" "list_all strict bs" "length bs = 40"
      "bucket_elems bs = set xs"
    using sort_loop_ok [of ?b xs] by auto
  then obtain c cs where c: "bs = c # cs" by (cases bs) auto
  then show ?thesis
    using bucket_merge_ok [of c cs] bs by (auto simp: rowSetEntrySort_def)
qed

section \<open>Trees\<close>

lemma NDeepTree_deep:
  "1 < d \<Longrightarrow> rowSetNDeepTree (v # list) d =
    (let (left, list) = rowSetNDeepTree (v # list) (d - 1) in
       case list of [] \<Rightarrow> (left, [])
       | w # list \<Rightarrow> let (right, list) = rowSetNDeepTree list (d - 1) in (Entry left w right, list))"
  by (simp only: rowSetNDeepTree.simps(2) [of v list d] if_True)

lemma NDeepTree_leaf: "\<not> 1 < d \<Longrightarrow> rowSetNDeepTree (v # list) d = (Entry Nil_tree v Nil_tree, list)"
  by (simp add: rowSetNDeepTree.simps(2) [of v list d])

fun rs_height :: "rs_tree \<Rightarrow> nat" where
  "rs_height Nil_tree = 0"
| "rs_height (Entry l v r) = 1 + max (rs_height l) (rs_height r)"

lemma TreeToList_simp [simp]:
  "rowSetTreeToList (Entry l v r) = rowSetTreeToList l @ v # rowSetTreeToList r"
  by simp

declare rowSetTreeToList.simps(2) [simp del]

lemma TreeToList_Nil_iff [simp]: "rowSetTreeToList t = [] \<longleftrightarrow> t = Nil_tree"
  by (cases t) simp_all

text \<open>
  A tree of depth \<open>d\<close> takes the front of the list, all of it or a perfect tree's share.
\<close>

lemma NDeepTree_ok:
  "1 \<le> d \<Longrightarrow> rowSetNDeepTree list d = (t, rest) \<Longrightarrow>
    rowSetTreeToList t @ rest = list \<and> rs_height t \<le> d
    \<and> (rest = [] \<or> length (rowSetTreeToList t) = 2 ^ d - 1)"
proof (induction list d arbitrary: t rest rule: rowSetNDeepTree.induct)
  case (2 v list d)
  show ?case
  proof (cases "1 < d")
    case True
    then have d: "1 \<le> d - 1" by simp
    obtain l r where lr: "rowSetNDeepTree (v # list) (d - 1) = (l, r)" by (metis surj_pair)
    note L = 2(1) [OF True d lr]
    show ?thesis
    proof (cases r)
      case Nil
      then have "t = l" "rest = []" using 2(4) lr by (simp_all add: NDeepTree_deep [OF True])
      then show ?thesis using L Nil by auto
    next
      case (Cons w us)
      obtain q s where qs: "rowSetNDeepTree us (d - 1) = (q, s)" by (metis surj_pair)
      have t: "t = Entry l w q" "rest = s" using 2(4) lr Cons qs by (simp_all add: NDeepTree_deep [OF True])
      note Q = 2(2) [OF True lr [symmetric] refl Cons d qs]
      have "2 ^ (d - 1) + 2 ^ (d - 1) = (2 :: nat) ^ d"
        using True by (metis One_nat_def Suc_diff_1 Suc_lessD mult_2 power_Suc)
      moreover have "1 \<le> (2 :: nat) ^ (d - 1)" by simp
      ultimately have "s = [] \<or> length (rowSetTreeToList t) = 2 ^ d - 1"
        using L Q Cons t by auto
      moreover have "rs_height t \<le> d" using L Q t True by auto
      ultimately show ?thesis using L Q Cons t by auto
    qed
  next
    case False
    then have "d = 1" using 2(3) by simp
    then show ?thesis using 2(4) NDeepTree_leaf [OF False] by auto
  qed
qed simp

lemma ListToTree_loop_ok:
  "1 \<le> d \<Longrightarrow> rs_height p \<le> d \<Longrightarrow> 2 ^ (d - 1) \<le> length (rowSetTreeToList p) \<Longrightarrow>
    (list = [] \<or> length (rowSetTreeToList p) = 2 ^ d - 1) \<Longrightarrow>
    rowSetTreeToList (ListToTree_loop p list d) = rowSetTreeToList p @ list
    \<and> 2 ^ (rs_height (ListToTree_loop p list d) - 1) \<le> length (rowSetTreeToList p) + length list"
proof (induction p list d rule: ListToTree_loop.induct)
  case (1 p d)
  have "2 ^ (rs_height p - 1) \<le> (2 :: nat) ^ (d - 1)"
    using 1(2) by (intro power_increasing) auto
  then have "2 ^ (rs_height p - 1) \<le> length (rowSetTreeToList p)" using 1(3) by (rule order_trans)
  then show ?case by simp
next
  case (2 p v list d)
  obtain r rest where r: "rowSetNDeepTree list d = (r, rest)" by (metis surj_pair)
  note N = NDeepTree_ok [OF 2(2) r]
  have p: "length (rowSetTreeToList p) = 2 ^ d - 1" using 2(5) by simp
  have two: "2 ^ d + 2 ^ d = (2 :: nat) ^ (d + 1)" "1 \<le> (2 :: nat) ^ d" by simp_all
  let ?t = "Entry p v r"
  have "rs_height ?t \<le> d + 1" using 2(3) N by simp
  moreover have "2 ^ (d + 1 - 1) \<le> length (rowSetTreeToList ?t)" using p two(2) by simp
  moreover have "rest = [] \<or> length (rowSetTreeToList ?t) = 2 ^ (d + 1) - 1"
    using N p two by auto
  ultimately have "rowSetTreeToList (ListToTree_loop ?t rest (d + 1)) = rowSetTreeToList ?t @ rest
      \<and> 2 ^ (rs_height (ListToTree_loop ?t rest (d + 1)) - 1) \<le> length (rowSetTreeToList ?t) + length rest"
    using 2(1) [OF r [symmetric] refl] by simp
  moreover have "length list = length (rowSetTreeToList r) + length rest"
    using N by (metis length_append)
  ultimately show ?case using r N by auto
qed

lemma ListToTree_ok:
  assumes "xs \<noteq> []"
  shows "rowSetTreeToList (rowSetListToTree xs) = xs"
    and "2 ^ (rs_height (rowSetListToTree xs) - 1) \<le> length xs"
  using ListToTree_loop_ok [of 1 "Entry Nil_tree (hd xs) Nil_tree" "tl xs"] assms
  by (cases xs; simp add: rowSetListToTree_def)+

lemma tree_search_iff: "strict (rowSetTreeToList t) \<Longrightarrow> tree_search t x \<longleftrightarrow> x \<in> set (rowSetTreeToList t)"
  by (induction t) (force simp: sorted_wrt_append)+

section \<open>The forest\<close>

definition forest_elems :: "rs_tree list \<Rightarrow> int set" where
  "forest_elems ts = \<Union> (set ` rowSetTreeToList ` set ts)"

lemma forest_elems_simps [simp]:
  "forest_elems [] = {}" "forest_elems (t # ts) = set (rowSetTreeToList t) \<union> forest_elems ts"
  "forest_elems (ts @ us) = forest_elems ts \<union> forest_elems us"
  by (simp_all add: forest_elems_def)

definition balanced :: "rs_tree \<Rightarrow> bool" where
  "balanced t \<longleftrightarrow> strict (rowSetTreeToList t)
     \<and> (t = Nil_tree \<or> 2 ^ (rs_height t - 1) \<le> length (rowSetTreeToList t))"

lemma balanced_ListToTree: "xs \<noteq> [] \<Longrightarrow> strict xs \<Longrightarrow> balanced (rowSetListToTree xs)"
  using ListToTree_ok [of xs] by (simp add: balanced_def)

lemma balanced_Nil [simp]: "balanced Nil_tree"
  by (simp add: balanced_def)

lemma forest_search:
  "list_all balanced ts \<Longrightarrow> list_ex (\<lambda>t. tree_search t x) ts \<longleftrightarrow> x \<in> forest_elems ts"
  by (induction ts) (auto simp: balanced_def tree_search_iff)

text \<open>What \<open>forest_place\<close> leaves outside the forest is the merge of all its trees.\<close>

lemma forest_place_ok:
  "p \<noteq> [] \<Longrightarrow> strict p \<Longrightarrow> list_all balanced ts \<Longrightarrow> forest_place ts p = (ts', r) \<Longrightarrow>
    list_all balanced ts'
    \<and> (case r of None \<Rightarrow> forest_elems ts' = forest_elems ts \<union> set p
       | Some q \<Rightarrow> forest_elems ts' = {} \<and> strict q \<and> q \<noteq> [] \<and> set q = forest_elems ts \<union> set p)"
proof (induction ts p arbitrary: ts' rule: forest_place.induct)
  case (2 t ts p)
  show ?case
  proof (cases "t = Nil_tree")
    case True
    then show ?thesis using 2(2-5) by (auto simp: balanced_ListToTree ListToTree_ok)
  next
    case False
    let ?q = "rowSetEntryMerge (rowSetTreeToList t) p"
    obtain us where us: "forest_place ts ?q = (us, r)" "ts' = Nil_tree # us"
      using 2(5) False by (auto split: prod.splits)
    have "?q \<noteq> []" using 2(2) by (rule merge_nonempty)
    moreover have "strict ?q" using 2(3,4) by (simp add: strict_merge balanced_def)
    ultimately show ?thesis
      using 2(1) [OF False, of us] us 2(4) by (auto simp: set_merge split: option.splits)
  qed
qed auto

section \<open>The abstract set\<close>

text \<open>
  \<open>rs_ok p F P\<close>: the forest of \<open>p\<close> holds the rowids \<open>F\<close>, its list the rowids \<open>P\<close> of the current batch.
\<close>

definition rs_ok :: "RowSet \<Rightarrow> int set \<Rightarrow> int set \<Rightarrow> bool" where
  "rs_ok p F P \<longleftrightarrow>
     list_all balanced (rs_pForest p) \<and> forest_elems (rs_pForest p) = F
     \<and> set (rs_pEntry p) = P \<and> length (rs_pEntry p) < 2 ^ 40
     \<and> (rs_sorted p \<longrightarrow> strict (rs_pEntry p))"

lemma alloc_fields:
  assumes "rowSetEntryAlloc p m = (ok, q, m')"
  shows "rs_pEntry q = rs_pEntry p" and "rs_pForest q = rs_pForest p" and "rs_sorted q = rs_sorted p"
    and "rs_next q = rs_next p" and "rs_iBatch q = rs_iBatch p" and "m = [] \<Longrightarrow> ok \<and> m' = []"
  using assms by (auto simp: rowSetEntryAlloc_def split: if_splits prod.splits)

lemma strict_snoc: "strict xs \<Longrightarrow> xs = [] \<or> last xs < v \<Longrightarrow> strict (xs @ [v])"
proof -
  assume s: "strict xs" and l: "xs = [] \<or> last xs < v"
  have "x < v" if "x \<in> set xs" for x
  proof -
    have "xs = butlast xs @ [last xs]" using that by (cases xs rule: rev_cases) auto
    then have "x = last xs \<or> x < last xs"
      using s that by (metis in_set_conv_decomp sorted_wrt_append Un_iff butlast_snoc set_append set_ConsD list.set(1) empty_iff list.set_intros(1))
    then show ?thesis using l that by (cases "xs = []") auto
  qed
  then show ?thesis using s by (simp add: sorted_wrt_append)
qed

lemma insert_ok:
  assumes p: "rs_ok p F P" and n: "length (rs_pEntry p) + 1 < 2 ^ 40"
    and q: "sqlite3RowSetInsert p r m = (q, m')"
  shows "rs_ok q F (if fst (rowSetEntryAlloc p m) then insert r P else P)"
    and "rs_next q = rs_next p" and "rs_iBatch q = rs_iBatch p"
    and "length (rs_pEntry q) \<le> length (rs_pEntry p) + 1"
    and "m = [] \<Longrightarrow> fst (rowSetEntryAlloc p m) \<and> m' = []"
proof -
  obtain ok p1 m1 where al: "rowSetEntryAlloc p m = (ok, p1, m1)" by (metis surj_pair)
  note f = alloc_fields [OF al]
  let ?s = "if rs_pEntry p1 \<noteq> [] \<and> r \<le> last (rs_pEntry p1) then False else rs_sorted p1"
  have q': "q = (if ok then p1\<lparr>rs_sorted := ?s, rs_pEntry := rs_pEntry p1 @ [r]\<rparr> else p1)" "m' = m1"
    using q al by (auto simp: sqlite3RowSetInsert_def split: if_splits)
  have "strict (rs_pEntry p @ [r])" if "?s"
    using that p f by (intro strict_snoc) (auto simp: rs_ok_def not_le split: if_splits)
  then show "rs_ok q F (if fst (rowSetEntryAlloc p m) then insert r P else P)"
    using p n al f q' by (auto simp: rs_ok_def split: if_splits)
  show "rs_next q = rs_next p" "rs_iBatch q = rs_iBatch p"
    "length (rs_pEntry q) \<le> length (rs_pEntry p) + 1"
    using f q' by auto
  show "m = [] \<Longrightarrow> fst (rowSetEntryAlloc p m) \<and> m' = []" using f(6) q' al by simp
qed

lemma entries_sorted:
  assumes "rs_ok p F P"
  shows "\<exists>ys. (if \<not> rs_sorted p then rowSetEntrySort (rs_pEntry p) else Some (rs_pEntry p)) = Some ys
    \<and> strict ys \<and> set ys = P"
  using assms sort_ok [of "rs_pEntry p"] by (auto simp: rs_ok_def)

lemma test_ok:
  assumes p: "rs_ok p F P"
  shows "\<exists>q m' F'. sqlite3RowSetTest p b x m = Some (x \<in> F', q, m')
    \<and> rs_ok q F' (if b = rs_iBatch p then P else {}) \<and> rs_iBatch q = b \<and> F' \<subseteq> F \<union> P
    \<and> length (rs_pEntry q) \<le> length (rs_pEntry p)
    \<and> (m = [] \<longrightarrow> m' = [] \<and> F' = (if b = rs_iBatch p then F else F \<union> P))"
proof (cases "b = rs_iBatch p")
  case True
  have "sqlite3RowSetTest p b x m = Some (x \<in> F, p, m)"
    using True p forest_search [of "rs_pForest p" x] by (simp add: sqlite3RowSetTest_def rs_ok_def)
  then show ?thesis using True p by auto
next
  case False
  show ?thesis
  proof (cases "rs_pEntry p = []")
    case True
    then have "P = {}" using p by (simp add: rs_ok_def)
    have "sqlite3RowSetTest p b x m = Some (x \<in> F, p\<lparr>rs_iBatch := b\<rparr>, m)"
      using True False p forest_search [of "rs_pForest p" x] by (simp add: sqlite3RowSetTest_def rs_ok_def)
    then show ?thesis using True False p \<open>P = {}\<close> 
      by (intro exI [of _ "p\<lparr>rs_iBatch := b\<rparr>"] exI [of _ m] exI [of _ F]) (auto simp: rs_ok_def)
  next
    case ne: False
    obtain ys where ys: "(if \<not> rs_sorted p then rowSetEntrySort (rs_pEntry p) else Some (rs_pEntry p)) = Some ys"
        "strict ys" "set ys = P"
      using entries_sorted [OF p] by blast
    have "ys \<noteq> []" using ys(3) ne p by (auto simp: rs_ok_def)
    obtain ts r where tr: "forest_place (rs_pForest p) ys = (ts, r)" by (metis surj_pair)
    have pl: "list_all balanced ts" "case r of None \<Rightarrow> forest_elems ts = F \<union> P
        | Some q \<Rightarrow> forest_elems ts = {} \<and> strict q \<and> q \<noteq> [] \<and> set q = F \<union> P"
      using forest_place_ok [OF \<open>ys \<noteq> []\<close> ys(2) _ tr] p ys(3) by (auto simp: rs_ok_def split: option.splits)
    define step where "step = (case r of
        None \<Rightarrow> (p\<lparr>rs_pForest := ts\<rparr>, m)
      | Some entries \<Rightarrow>
          let (ok, p, m) = rowSetEntryAlloc p m in
          (p\<lparr>rs_pForest := (if ok then ts @ [rowSetListToTree entries] else ts)\<rparr>, m))"
    obtain q m' where qm: "step = (q, m')" by (metis surj_pair)
    have S: "sqlite3RowSetTest p b x m = Some (list_ex (\<lambda>t. tree_search t x) (rs_pForest q),
        q\<lparr>rs_pEntry := [], rs_sorted := True, rs_iBatch := b\<rparr>, m')"
      using False ne qm unfolding step_def sqlite3RowSetTest_def ys(1) bind.bind_lunit tr Let_def prod.case
      by simp
    define F' where "F' = forest_elems (rs_pForest q)"
    have "list_all balanced (rs_pForest q) \<and> F' \<subseteq> F \<union> P \<and> (m = [] \<longrightarrow> m' = [] \<and> F' = F \<union> P)"
    proof (cases r)
      case None
      then have "q = p\<lparr>rs_pForest := ts\<rparr>" "m' = m" using qm unfolding step_def by simp_all
      then show ?thesis using pl None unfolding F'_def by simp
    next
      case (Some es)
      obtain ok p1 m1 where al: "rowSetEntryAlloc p m = (ok, p1, m1)" by (metis surj_pair)
      have "balanced (rowSetListToTree es)" using pl Some by (simp add: balanced_ListToTree)
      moreover have "q = p1\<lparr>rs_pForest := (if ok then ts @ [rowSetListToTree es] else ts)\<rparr>" "m' = m1"
        using qm Some al unfolding step_def by simp_all
      ultimately show ?thesis
        using pl Some alloc_fields(6) [OF al] unfolding F'_def by (auto simp: ListToTree_ok)
    qed
    moreover from this have "list_ex (\<lambda>t. tree_search t x) (rs_pForest q) \<longleftrightarrow> x \<in> F'"
      unfolding F'_def by (intro forest_search) simp
    ultimately show ?thesis
      unfolding S
      by (intro exI [of _ "q\<lparr>rs_pEntry := [], rs_sorted := True, rs_iBatch := b\<rparr>"] exI [of _ m'] exI [of _ F'])
        (simp add: False rs_ok_def F'_def)
  qed
qed

section \<open>Sequences of operations\<close>

definition rs_empty :: "nat \<Rightarrow> RowSet" where
  "rs_empty nFresh = \<lparr>rs_nChunk = 0, rs_pEntry = [], rs_pForest = [], rs_nFresh = nFresh,
     rs_sorted = True, rs_next = False, rs_iBatch = 0\<rparr>"

lemma rs_ok_empty: "rs_ok (rs_empty n) {} {}"
  by (simp add: rs_ok_def rs_empty_def)

lemma Init_empty: "sqlite3RowSetInit n [] = (Some (rs_empty n), [])"
  by (simp add: sqlite3RowSetInit_def rs_empty_def)

datatype rs_op = Op_insert int | Op_test int int

text \<open>The answers of the tests of a sequence of operations, with the allocator's answers \<open>m\<close>.\<close>

fun rs_run :: "RowSet \<Rightarrow> rs_op list \<Rightarrow> mem \<Rightarrow> bool list option" where
  "rs_run p [] m = Some []"
| "rs_run p (Op_insert r # ops) m = (let (p, m) = sqlite3RowSetInsert p r m in rs_run p ops m)"
| "rs_run p (Op_test b r # ops) m = do {
     (a, p, m) \<leftarrow> sqlite3RowSetTest p b r m;
     as \<leftarrow> rs_run p ops m;
     Some (a # as) }"

text \<open>
  The specification: a set \<open>F\<close> of the rowids of earlier batches, a set \<open>P\<close> of those of the current
  one, and the number of the current batch.
\<close>

fun rs_spec :: "int set \<Rightarrow> int set \<Rightarrow> int \<Rightarrow> rs_op list \<Rightarrow> bool list" where
  "rs_spec F P b [] = []"
| "rs_spec F P b (Op_insert r # ops) = rs_spec F (insert r P) b ops"
| "rs_spec F P b (Op_test b' r # ops) =
     (if b' = b then (r \<in> F) # rs_spec F P b ops
      else (r \<in> F \<union> P) # rs_spec (F \<union> P) {} b' ops)"

lemma rs_run_spec:
  "rs_ok p F P \<Longrightarrow> rs_iBatch p = b \<Longrightarrow> length (rs_pEntry p) + length ops < 2 ^ 40 \<Longrightarrow>
    rs_run p ops [] = Some (rs_spec F P b ops)"
proof (induction ops arbitrary: p F P b)
  case (Cons op ops)
  show ?case
  proof (cases op)
    case (Op_insert r)
    obtain q m' where q: "sqlite3RowSetInsert p r [] = (q, m')" by (metis surj_pair)
    have n: "length (rs_pEntry p) + 1 < 2 ^ 40" using Cons(4) by simp
    note I = insert_ok [OF Cons(2) n q]
    have "rs_run q ops [] = Some (rs_spec F (insert r P) b ops)"
      using Cons(1) [of q F "insert r P" b] I Cons(3,4) by simp
    then show ?thesis using q I(5) Op_insert by simp
  next
    case (Op_test b' r)
    obtain q m' F' where T: "sqlite3RowSetTest p b' r [] = Some (r \<in> F', q, m')"
        "rs_ok q F' (if b' = rs_iBatch p then P else {})" "rs_iBatch q = b'"
        "length (rs_pEntry q) \<le> length (rs_pEntry p)" "m' = []"
        "F' = (if b' = rs_iBatch p then F else F \<union> P)"
      using test_ok [OF Cons(2), of b' r "[]"] by auto
    have "rs_run q ops [] = Some (rs_spec F' (if b' = b then P else {}) b' ops)"
      using Cons(1) [OF T(2) T(3)] T(4) Cons(3,4) by simp
    then show ?thesis using T Op_test Cons(3) by simp
  qed
qed simp

text \<open>With failing allocations an answer may be wrong only by missing a rowid.\<close>

fun inserted :: "rs_op list \<Rightarrow> int set" where
  "inserted [] = {}"
| "inserted (Op_insert r # ops) = insert r (inserted ops)"
| "inserted (Op_test b r # ops) = inserted ops"

fun rs_sound :: "int set \<Rightarrow> rs_op list \<Rightarrow> bool list \<Rightarrow> bool" where
  "rs_sound S [] as = (as = [])"
| "rs_sound S (Op_insert r # ops) as = rs_sound (insert r S) ops as"
| "rs_sound S (Op_test b r # ops) as =
     (case as of [] \<Rightarrow> False | a # as \<Rightarrow> (a \<longrightarrow> r \<in> S) \<and> rs_sound S ops as)"

lemma rs_run_sound:
  "rs_ok p F P \<Longrightarrow> F \<union> P \<subseteq> S \<Longrightarrow> length (rs_pEntry p) + length ops < 2 ^ 40 \<Longrightarrow>
    \<exists>as. rs_run p ops m = Some as \<and> rs_sound S ops as"
proof (induction ops arbitrary: p F P S m)
  case (Cons op ops)
  show ?case
  proof (cases op)
    case (Op_insert r)
    obtain q m' where q: "sqlite3RowSetInsert p r m = (q, m')" by (metis surj_pair)
    have n: "length (rs_pEntry p) + 1 < 2 ^ 40" using Cons(4) by simp
    note I = insert_ok [OF Cons(2) n q]
    have "F \<union> (if fst (rowSetEntryAlloc p m) then insert r P else P) \<subseteq> insert r S"
      using Cons(3) by auto
    then show ?thesis
      using Cons(1) [OF I(1), of "insert r S" m'] I(4) Cons(4) q Op_insert by auto
  next
    case (Op_test b' r)
    obtain q m' F' where T: "sqlite3RowSetTest p b' r m = Some (r \<in> F', q, m')"
        "rs_ok q F' (if b' = rs_iBatch p then P else {})" "F' \<subseteq> F \<union> P"
        "length (rs_pEntry q) \<le> length (rs_pEntry p)"
      using test_ok [OF Cons(2), of b' r m] by auto
    have "F' \<union> (if b' = rs_iBatch p then P else {}) \<subseteq> S" using T(3) Cons(3) by auto
    then obtain as where "rs_run q ops m' = Some as" "rs_sound S ops as"
      using Cons(1) [OF T(2), of S m'] T(4) Cons(4) by auto
    then show ?thesis using T Op_test Cons(3) by auto
  qed
qed simp

text \<open>Reading the set out.\<close>

fun rs_drain :: "nat \<Rightarrow> RowSet \<Rightarrow> int option list option" where
  "rs_drain 0 p = Some []"
| "rs_drain (Suc n) p = do {
     (v, p) \<leftarrow> sqlite3RowSetNext p;
     vs \<leftarrow> rs_drain n p;
     Some (v # vs) }"

lemma drain_sorted:
  "rs_next p \<Longrightarrow> rs_pEntry p = xs \<Longrightarrow> xs \<noteq> [] \<Longrightarrow> rs_drain (length xs + 1) p = Some (map Some xs @ [None])"
proof (induction xs arbitrary: p)
  case (Cons x xs)
  show ?case
  proof (cases "xs = []")
    case True
    then show ?thesis using Cons by (simp add: sqlite3RowSetNext_def sqlite3RowSetClear_def)
  next
    case False
    have "sqlite3RowSetNext p = Some (Some x, p\<lparr>rs_pEntry := xs\<rparr>)"
      using Cons(2,3) False by (simp add: sqlite3RowSetNext_def)
    moreover have "rs_drain (length xs + 1) (p\<lparr>rs_pEntry := xs\<rparr>) = Some (map Some xs @ [None])"
      using Cons(1) [of "p\<lparr>rs_pEntry := xs\<rparr>"] Cons(2) False by simp
    ultimately show ?thesis
      using rs_drain.simps(2) [of "length xs + 1" p] by (simp del: rs_drain.simps)
  qed
qed simp

lemma drain_ok:
  assumes "rs_ok p F P" and "\<not> rs_next p"
  shows "rs_drain (card P + 1) p = Some (map Some (sorted_list_of_set P) @ [None])"
proof -
  obtain ys where ys: "(if \<not> rs_sorted p then rowSetEntrySort (rs_pEntry p) else Some (rs_pEntry p)) = Some ys"
      "strict ys" "set ys = P"
    using entries_sorted [OF assms(1)] by blast
  have sl: "sorted_list_of_set P = ys" "card P = length ys"
    using ys(2,3) by (auto simp: strict_sorted_iff sorted_list_of_set.idem_if_sorted_distinct distinct_card)
  let ?q = "p\<lparr>rs_pEntry := ys, rs_sorted := True, rs_next := True\<rparr>"
  have N: "sqlite3RowSetNext p = sqlite3RowSetNext ?q"
    using assms(2) unfolding sqlite3RowSetNext_def ys(1) by simp
  show ?thesis
  proof (cases "ys = []")
    case True
    then show ?thesis using N sl by (simp add: sqlite3RowSetNext_def)
  next
    case False
    have "rs_drain (length ys + 1) p = rs_drain (length ys + 1) ?q" by (simp add: N)
    then show ?thesis using drain_sorted [of ?q ys] False sl by simp
  qed
qed

fun rs_inserts :: "RowSet \<Rightarrow> int list \<Rightarrow> RowSet" where
  "rs_inserts p [] = p"
| "rs_inserts p (r # rs) = rs_inserts (fst (sqlite3RowSetInsert p r [])) rs"

lemma inserts_ok:
  "rs_ok p F P \<Longrightarrow> length (rs_pEntry p) + length rs < 2 ^ 40 \<Longrightarrow>
    rs_ok (rs_inserts p rs) F (P \<union> set rs) \<and> rs_next (rs_inserts p rs) = rs_next p"
proof (induction rs arbitrary: p P)
  case (Cons r rs)
  obtain q m' where q: "sqlite3RowSetInsert p r [] = (q, m')" by (metis surj_pair)
  have n: "length (rs_pEntry p) + 1 < 2 ^ 40" using Cons(3) by simp
  note I = insert_ok [OF Cons(2) n q]
  show ?case using Cons(1) [of q "insert r P"] I q Cons(3) by (simp add: Un_commute)
qed simp

section \<open>Properties\<close>

text \<open>
  C32: any mixture of insertions and batch tests on a new rowset answers as the abstract set does: a
  test sees exactly the rowids inserted before the batch number last changed. The forty buckets of
  the sort suffice for fewer than 2^40 operations.
\<close>

theorem rowset_tests_refine_set:
  assumes "length ops < 2 ^ 40" and "sqlite3RowSetInit n [] = (Some p, m)"
  shows "rs_run p ops m = Some (rs_spec {} {} 0 ops)"
  using rs_run_spec [OF rs_ok_empty [of n], of 0 ops] assms by (simp add: Init_empty rs_empty_def)

theorem rowset_tests_refine_set_witness:
  "rs_run (rs_empty 3) [Op_insert 7, Op_insert 3, Op_test 0 7, Op_test 1 7, Op_test 1 4] []
    = Some [False, True, False]"
  using rowset_tests_refine_set [of "[Op_insert 7, Op_insert 3, Op_test 0 7, Op_test 1 7, Op_test 1 4]" 3 "rs_empty 3" "[]"]
  by (simp add: Init_empty)

text \<open>
  C39: whatever the allocator answers, the run goes on, and no test says yes to a rowid that has not
  been inserted.
\<close>

theorem rowset_out_of_memory_is_sound:
  assumes "length ops < 2 ^ 40"
  shows "\<exists>as. rs_run (rs_empty n) ops m = Some as \<and> rs_sound {} ops as"
  using rs_run_sound [OF rs_ok_empty, of "{}" n ops m] assms by (simp add: rs_empty_def)

theorem rowset_out_of_memory_is_sound_witness:
  "\<exists>as. rs_run (rs_empty 0) [Op_insert 5, Op_test 1 5] [True, False] = Some as \<and> rs_sound {} [Op_insert 5, Op_test 1 5] as"
  using rowset_out_of_memory_is_sound [of "[Op_insert 5, Op_test 1 5]" 0 "[True, False]"] by simp

text \<open>
  C33: reading a rowset out with \<^verbatim>\<open>sqlite3RowSetNext\<close> gives the distinct inserted rowids in increasing
  order, and then says that there is none left.
\<close>

theorem rowset_next_enumerates:
  assumes "length rs < 2 ^ 40"
  shows "rs_drain (card (set rs) + 1) (rs_inserts (rs_empty n) rs)
    = Some (map Some (sorted_list_of_set (set rs)) @ [None])"
  using drain_ok [of "rs_inserts (rs_empty n) rs" "{}" "set rs"] inserts_ok [OF rs_ok_empty, of n rs] assms
  by (simp add: rs_empty_def)

theorem rowset_next_enumerates_witness:
  "rs_drain 3 (rs_inserts (rs_empty 1) [9, 4, 9]) = Some [Some 4, Some 9, None]"
proof -
  have "set [9, 4, 9] = {4, 9 :: int}" by auto
  then have "card (set [9, 4, 9 :: int]) + 1 = 3" by simp
  moreover have "sorted_list_of_set (set [9, 4, 9 :: int]) = [4, 9]"
    by (simp only: sorted_list_of_set_sort_remdups) simp
  ultimately show ?thesis using rowset_next_enumerates [of "[9, 4, 9]" 1] by (simp del: rs_drain.simps)
qed

text \<open>
  The tree built from a sorted list is a balanced search tree with exactly those entries: of
  height at most one more than the binary logarithm of their number.
\<close>

lemma rowset_tree_is_balanced:
  assumes "xs \<noteq> []" and "strict xs"
  shows "rowSetTreeToList (rowSetListToTree xs) = xs
    \<and> 2 ^ (rs_height (rowSetListToTree xs) - 1) \<le> length xs
    \<and> (\<forall>v. tree_search (rowSetListToTree xs) v \<longleftrightarrow> v \<in> set xs)"
  using ListToTree_ok [OF assms(1)] tree_search_iff [of "rowSetListToTree xs"] assms(2) by simp

end
