(* ===== verification/Bitvec.thy ===== *)
theory Bitvec
  imports Utf
begin

text \<open>
  The sparse bitmaps of \<^verbatim>\<open>src/bitvec.c\<close>: a bitmap of at most \<^verbatim>\<open>BITVEC_NBIT\<close> bits is an array of bytes; a
  larger one starts as a hash table of its members with linear probing and, when that fills up, is
  split into \<^verbatim>\<open>BITVEC_NPTR\<close> bitmaps of \<^verbatim>\<open>iDivisor\<close> bits each.

  The union is a tagged one: using the memory under the wrong interpretation is \<open>None\<close>, as is an
  access outside an array. A \<^verbatim>\<open>u32\<close> is a natural number, with the computation that can wrap around
  written with \<open>mod 2 ^ 32\<close>; the sum of the divisor is a \<^verbatim>\<open>size_t\<close>, which does not. A probe of the hash table visits at most all its slots: \<open>None\<close> is a probe
  that would go round for ever. The recursion of \<^verbatim>\<open>sqlite3BitvecSet\<close> has a fuel argument; the lemmas show
  that the fuel never runs out, whatever the size.
\<close>

section \<open>Sizes, for 64-bit pointers\<close>

definition BITVEC_SZ :: nat where "BITVEC_SZ = 512"
definition BITVEC_USIZE :: nat where "BITVEC_USIZE = ((BITVEC_SZ - 3 * 4) div 8) * 8"
definition BITVEC_SZELEM :: nat where "BITVEC_SZELEM = 8"
definition BITVEC_NELEM :: nat where "BITVEC_NELEM = BITVEC_USIZE div 1"
definition BITVEC_NBIT :: nat where "BITVEC_NBIT = BITVEC_NELEM * BITVEC_SZELEM"
definition BITVEC_NINT :: nat where "BITVEC_NINT = BITVEC_USIZE div 4"
definition BITVEC_MXHASH :: nat where "BITVEC_MXHASH = BITVEC_NINT div 2"
definition BITVEC_HASH :: "nat \<Rightarrow> nat" where "BITVEC_HASH X = (X * 1) mod BITVEC_NINT"
definition BITVEC_NPTR :: nat where "BITVEC_NPTR = BITVEC_USIZE div 8"

section \<open>The object\<close>

datatype 'a bv_union =
    ABitmap "u8 list"
  | AHash "nat list"
  | ApSub "'a option list"

datatype Bitvec = Bitvec (iSize: nat) (nSet: nat) (iDivisor: nat) (bv_u: "Bitvec bv_union")

text \<open>The zeroed object, under the interpretation its size gives it.\<close>

definition bv_new :: "nat \<Rightarrow> Bitvec" where
  "bv_new sz =
     Bitvec sz 0 0
       (if sz \<le> BITVEC_NBIT then ABitmap (replicate BITVEC_NELEM 0) else AHash (replicate BITVEC_NINT 0))"

definition sqlite3BitvecCreate :: "nat \<Rightarrow> mem \<Rightarrow> Bitvec option \<times> mem" where
  "sqlite3BitvecCreate sz m =
     (let (ok, m) = malloc m in (if ok then Some (bv_new sz) else None, m))"

section \<open>Probing\<close>

datatype probed = Found | Free nat

text \<open>
  \<open>while( aHash[h] ){ if( aHash[h]==i ) ...; h = (h+1) % BITVEC_NINT; }\<close>, with the number of steps left.
\<close>

fun bv_probe :: "nat list \<Rightarrow> nat \<Rightarrow> nat \<Rightarrow> nat \<Rightarrow> probed option" where
  "bv_probe aHash i h 0 = None"
| "bv_probe aHash i h (Suc n) =
     (case rd aHash h of
        None \<Rightarrow> None
      | Some x \<Rightarrow>
          if x = 0 then Some (Free h)
          else if x = i then Some Found
          else bv_probe aHash i ((h + 1) mod BITVEC_NINT) n)"

text \<open>\<open>while( aHash[h] ){ h++; if( h>=BITVEC_NINT ) h = 0; }\<close>\<close>

fun bv_free :: "nat list \<Rightarrow> nat \<Rightarrow> nat \<Rightarrow> nat option" where
  "bv_free aHash h 0 = None"
| "bv_free aHash h (Suc n) =
     (case rd aHash h of
        None \<Rightarrow> None
      | Some x \<Rightarrow>
          if x = 0 then Some h else bv_free aHash (if h + 1 \<ge> BITVEC_NINT then 0 else h + 1) n)"

section \<open>Testing\<close>

lemma bv_sub_smaller:
  assumes "bv_u p = ApSub subs" and "rd subs k = Some (Some q)"
  shows "size q < size p"
proof -
  obtain s n d w where p: "p = Bitvec s n d w" by (cases p)
  have "Some q \<in> set subs" using assms(2) by (auto simp: rd_Some_iff)
  then have "size q < Suc (size_list (size_option size) subs)"
    by (induction subs) (auto split: option.splits)
  then show ?thesis using assms(1) p by simp
qed

function bv_test :: "Bitvec \<Rightarrow> nat \<Rightarrow> bool option" where
  "bv_test p i =
     (if iDivisor p \<noteq> 0 then
        (case bv_u p of
           ApSub subs \<Rightarrow>
             (case rd subs (i div iDivisor p) of
                None \<Rightarrow> None
              | Some None \<Rightarrow> Some False
              | Some (Some q) \<Rightarrow> bv_test q (i mod iDivisor p))
         | _ \<Rightarrow> None)
      else if iSize p \<le> BITVEC_NBIT then
        (case bv_u p of
           ABitmap a \<Rightarrow>
             map_option (\<lambda>b. b AND push_bit (i mod BITVEC_SZELEM) 1 \<noteq> 0) (rd a (i div BITVEC_SZELEM))
         | _ \<Rightarrow> None)
      else
        (case bv_u p of
           AHash a \<Rightarrow> map_option (\<lambda>r. r = Found) (bv_probe a (i + 1) (BITVEC_HASH i) BITVEC_NINT)
         | _ \<Rightarrow> None))"
  by pat_completeness auto
termination
  by (relation "measure (\<lambda>(p, i). size p)") (auto dest: bv_sub_smaller)

declare bv_test.simps [simp del]

definition sqlite3BitvecTestNotNull :: "Bitvec \<Rightarrow> nat \<Rightarrow> bool option" where
  "sqlite3BitvecTestNotNull p i =
     (let i = (i + 2 ^ 32 - 1) mod 2 ^ 32 in if i \<ge> iSize p then Some False else bv_test p i)"

definition sqlite3BitvecTest :: "Bitvec option \<Rightarrow> nat \<Rightarrow> bool option" where
  "sqlite3BitvecTest p i =
     (case p of None \<Rightarrow> Some False | Some p \<Rightarrow> sqlite3BitvecTestNotNull p i)"

section \<open>Setting\<close>

text \<open>\<open>for(j...){ if( aiValues[j] ) rc |= sqlite3BitvecSet(p, aiValues[j]); }\<close>\<close>

fun bv_set_all ::
  "(Bitvec \<Rightarrow> nat \<Rightarrow> mem \<Rightarrow> (nat \<times> Bitvec \<times> mem) option) \<Rightarrow> nat list \<Rightarrow> nat \<times> Bitvec \<times> mem
    \<Rightarrow> (nat \<times> Bitvec \<times> mem) option"
where
  "bv_set_all set1 [] (rc, p, m) = Some (rc, p, m)"
| "bv_set_all set1 (v # aiValues) (rc, p, m) =
     (if v = 0 then bv_set_all set1 aiValues (rc, p, m)
      else do {
        (rc', p, m) \<leftarrow> set1 p v m;
        bv_set_all set1 aiValues (rc OR rc', p, m) })"

text \<open>
  The argument \<open>i\<close> counts from 1, as in the code. The loop over sub-bitmaps is the recursion into the
  sub-bitmap, which is put back; \<open>end_at h\<close> and \<open>rehash\<close> are the two labels.
\<close>

primrec bv_set :: "nat \<Rightarrow> Bitvec \<Rightarrow> nat \<Rightarrow> mem \<Rightarrow> (nat \<times> Bitvec \<times> mem) option" where
  "bv_set 0 p i m = None"
| "bv_set (Suc n) p i m =
     (let i0 = i - 1;
          end_at = (\<lambda>a h. Some (SQLITE_OK,
                          Bitvec (iSize p) (nSet p + 1) (iDivisor p) (AHash (a[h := i])), m));
          rehash = (\<lambda>a h.
            if nSet p \<ge> BITVEC_MXHASH then
              let (ok, m) = malloc m in
              if \<not> ok then Some (SQLITE_NOMEM, p, m)
              else do {
                let p = Bitvec (iSize p) (nSet p) ((iSize p + BITVEC_NPTR - 1) div BITVEC_NPTR)
                          (ApSub (replicate BITVEC_NPTR None));
                (rc, p, m) \<leftarrow> bv_set n p i m;
                bv_set_all (bv_set n) a (rc, p, m) }
            else end_at a h)
      in
        if iSize p > BITVEC_NBIT \<and> iDivisor p \<noteq> 0 then
          (case bv_u p of
             ApSub subs \<Rightarrow>
               let bin = i0 div iDivisor p; i0 = i0 mod iDivisor p in
               (case rd subs bin of
                  None \<Rightarrow> None
                | Some s \<Rightarrow>
                    let (q, m) = (case s of None \<Rightarrow> sqlite3BitvecCreate (iDivisor p) m
                                  | Some q \<Rightarrow> (Some q, m)) in
                    (case q of
                       None \<Rightarrow> Some (SQLITE_NOMEM, p, m)
                     | Some q \<Rightarrow> do {
                         (rc, q, m) \<leftarrow> bv_set n q (i0 + 1) m;
                         Some (rc, Bitvec (iSize p) (nSet p) (iDivisor p) (ApSub (subs[bin := Some q])), m) }))
           | _ \<Rightarrow> None)
        else if iSize p \<le> BITVEC_NBIT then
          (case bv_u p of
             ABitmap a \<Rightarrow> do {
               b \<leftarrow> rd a (i0 div BITVEC_SZELEM);
               Some (SQLITE_OK, Bitvec (iSize p) (nSet p) (iDivisor p)
                 (ABitmap (a[i0 div BITVEC_SZELEM := b OR push_bit (i0 mod BITVEC_SZELEM) 1])), m) }
           | _ \<Rightarrow> None)
        else
          (case bv_u p of
             AHash a \<Rightarrow> do {
               let h = BITVEC_HASH i0;
               x \<leftarrow> rd a h;
               if x = 0 then if nSet p < BITVEC_NINT - 1 then end_at a h else rehash a h
               else
                 (case bv_probe a i h BITVEC_NINT of
                    None \<Rightarrow> None
                  | Some Found \<Rightarrow> Some (SQLITE_OK, p, m)
                  | Some (Free h) \<Rightarrow> rehash a h) }
           | _ \<Rightarrow> None))"

declare bv_set.simps(2) [simp del]

definition sqlite3BitvecSet :: "Bitvec option \<Rightarrow> nat \<Rightarrow> mem \<Rightarrow> (nat \<times> Bitvec option \<times> mem) option" where
  "sqlite3BitvecSet p i m =
     (case p of
        None \<Rightarrow> Some (SQLITE_OK, None, m)
      | Some p \<Rightarrow> map_option (\<lambda>(rc, p, m). (rc, Some p, m)) (bv_set 16 p i m))"

section \<open>Clearing\<close>

text \<open>The hash table rebuilt without the value \<open>i\<close>, with the number of its entries.\<close>

fun bv_rebuild :: "nat list \<Rightarrow> nat \<Rightarrow> nat \<times> nat list \<Rightarrow> (nat \<times> nat list) option" where
  "bv_rebuild [] i (k, aHash) = Some (k, aHash)"
| "bv_rebuild (v # aiValues) i (k, aHash) =
     (if v \<noteq> 0 \<and> v \<noteq> i then do {
        h \<leftarrow> bv_free aHash (BITVEC_HASH (v - 1)) BITVEC_NINT;
        bv_rebuild aiValues i (k + 1, aHash[h := v]) }
      else bv_rebuild aiValues i (k, aHash))"

function bv_clear :: "Bitvec \<Rightarrow> nat \<Rightarrow> Bitvec option" where
  "bv_clear p i =
     (if iDivisor p \<noteq> 0 then
        (case bv_u p of
           ApSub subs \<Rightarrow>
             (case rd subs (i div iDivisor p) of
                None \<Rightarrow> None
              | Some None \<Rightarrow> Some p
              | Some (Some q) \<Rightarrow>
                  map_option
                    (\<lambda>q. Bitvec (iSize p) (nSet p) (iDivisor p) (ApSub (subs[i div iDivisor p := Some q])))
                    (bv_clear q (i mod iDivisor p)))
         | _ \<Rightarrow> None)
      else if iSize p \<le> BITVEC_NBIT then
        (case bv_u p of
           ABitmap a \<Rightarrow>
             map_option
               (\<lambda>b. Bitvec (iSize p) (nSet p) (iDivisor p)
                  (ABitmap (a[i div BITVEC_SZELEM := b AND NOT (push_bit (i mod BITVEC_SZELEM) 1)])))
               (rd a (i div BITVEC_SZELEM))
         | _ \<Rightarrow> None)
      else
        (case bv_u p of
           AHash a \<Rightarrow>
             map_option (\<lambda>(n, a). Bitvec (iSize p) n (iDivisor p) (AHash a))
               (bv_rebuild a (i + 1) (0, replicate BITVEC_NINT 0))
         | _ \<Rightarrow> None))"
  by pat_completeness auto
termination
  by (relation "measure (\<lambda>(p, i). size p)") (auto dest: bv_sub_smaller)

declare bv_clear.simps [simp del]

definition sqlite3BitvecClear :: "Bitvec option \<Rightarrow> nat \<Rightarrow> Bitvec option option" where
  "sqlite3BitvecClear p i =
     (case p of None \<Rightarrow> Some None | Some p \<Rightarrow> map_option Some (bv_clear p (i - 1)))"

section \<open>Destruction and size\<close>

text \<open>The number of objects that are freed.\<close>

function bv_freed :: "Bitvec \<Rightarrow> nat" where
  "bv_freed p =
     (case bv_u p of
        ApSub subs \<Rightarrow>
          (if iDivisor p \<noteq> 0
           then sum_list (map (\<lambda>s. case s of None \<Rightarrow> 0 | Some q \<Rightarrow> bv_freed q) subs) else 0) + 1
      | _ \<Rightarrow> 1)"
  by pat_completeness auto
termination
proof (relation "measure size")
  fix p subs s q
  assume "bv_u p = ApSub subs" "s \<in> set subs" "s = Some q"
  then show "(q, p) \<in> measure size"
    using bv_sub_smaller [of p subs _ q] by (force simp: in_set_conv_nth rd_Some_iff)
qed simp

definition sqlite3BitvecDestroy :: "Bitvec option \<Rightarrow> nat" where
  "sqlite3BitvecDestroy p = (case p of None \<Rightarrow> 0 | Some p \<Rightarrow> bv_freed p)"

definition sqlite3BitvecSize :: "Bitvec \<Rightarrow> nat" where
  "sqlite3BitvecSize p = iSize p"

end
