(* ===== verification/BitvecFacts.thy ===== *)
theory BitvecFacts
  imports Bitvec
begin

text \<open>
  A bitmap is a set of numbers. The lemmas follow the representation from the inside: the probed hash
  table is a set, a bitmap object of any of the three kinds is a set, and setting, clearing and
  splitting change it as they should. On the way: every probe ends, no array is left, and the
  recursion of \<^verbatim>\<open>sqlite3BitvecSet\<close> is at most nine calls deep.
\<close>

lemma bv_sizes:
  "BITVEC_NBIT = 3968" "BITVEC_NINT = 124" "BITVEC_MXHASH = 62" "BITVEC_NPTR = 62" "BITVEC_NELEM = 496"
  "BITVEC_SZELEM = 8"
  by (simp_all add: BITVEC_SZ_def BITVEC_USIZE_def BITVEC_SZELEM_def BITVEC_NELEM_def BITVEC_NBIT_def
      BITVEC_NINT_def BITVEC_MXHASH_def BITVEC_NPTR_def)

section \<open>The hash table\<close>

text \<open>The slot that a probe for \<open>v\<close> visits after \<open>n\<close> steps, and what it finds there.\<close>

definition slot :: "nat \<Rightarrow> nat \<Rightarrow> nat" where
  "slot v n = (v - 1 + n) mod BITVEC_NINT"

lemma slot_less [simp]: "slot v n < BITVEC_NINT"
  by (simp add: slot_def bv_sizes)

lemma slot_0: "BITVEC_HASH (v - 1) = slot v 0"
  by (simp add: BITVEC_HASH_def slot_def)

lemma slot_Suc: "(slot v n + 1) mod BITVEC_NINT = slot v (n + 1)"
  by (simp add: slot_def mod_Suc_eq)

lemma slot_Suc': "(if slot v n + 1 \<ge> BITVEC_NINT then 0 else slot v n + 1) = slot v (n + 1)"
proof -
  have "slot v n + 1 \<le> BITVEC_NINT" by (simp add: Suc_le_eq)
  then have "(if slot v n + 1 \<ge> BITVEC_NINT then 0 else slot v n + 1) = (slot v n + 1) mod BITVEC_NINT"
    by (cases "slot v n + 1 = BITVEC_NINT") auto
  then show ?thesis using slot_Suc by simp
qed

lemma slot_onto:
  assumes "j < BITVEC_NINT"
  shows "\<exists>n < BITVEC_NINT. slot v n = j"
proof -
  let ?N = "BITVEC_NINT"
  define h where "h = (v - 1) mod ?N"
  have h: "h < ?N" by (simp add: h_def bv_sizes)
  have "slot v ((j + ?N - h) mod ?N) = (h + (j + ?N - h)) mod ?N"
    unfolding slot_def h_def by (simp only: mod_add_left_eq mod_add_right_eq)
  also have "\<dots> = j" using h assms by simp
  finally show ?thesis by (intro exI [of _ "(j + ?N - h) mod ?N"]) (simp add: bv_sizes)
qed

definition filled :: "nat list \<Rightarrow> nat" where
  "filled a = length (filter (\<lambda>x. x \<noteq> 0) a)"

text \<open>
  The table holds \<open>n\<close> values, not all slots, and a probe for a value in it finds the value before a free
  slot.
\<close>

definition table :: "nat list \<Rightarrow> nat \<Rightarrow> bool" where
  "table a n \<longleftrightarrow> length a = BITVEC_NINT \<and> n = filled a \<and> n < BITVEC_NINT
     \<and> (\<forall>v \<in> set a. v \<noteq> 0 \<longrightarrow> (\<exists>k < BITVEC_NINT. a ! slot v k = v \<and> (\<forall>l < k. a ! slot v l \<noteq> 0)))"

lemma table_free:
  assumes "table a n"
  shows "\<exists>k < BITVEC_NINT. a ! slot v k = 0"
proof -
  have "0 \<in> set a"
  proof (rule ccontr)
    assume "0 \<notin> set a"
    then have "\<forall>x \<in> set a. x \<noteq> 0" by metis
    then have "filter (\<lambda>x. x \<noteq> 0) a = a" by (rule filter_True)
    then show False using assms by (auto simp: table_def filled_def)
  qed
  then obtain j where "j < BITVEC_NINT" "a ! j = 0"
    using assms by (auto simp: in_set_conv_nth table_def)
  then show ?thesis using slot_onto [of j v] by auto
qed

text \<open>The first slot on the way of \<open>v\<close> that is free, or holds \<open>v\<close>.\<close>

lemma table_first:
  assumes "table a n" and "P 0"
  obtains k where "k < BITVEC_NINT" "P (a ! slot v k)" "\<And>l. l < k \<Longrightarrow> \<not> P (a ! slot v l)"
proof -
  obtain m where m: "m < BITVEC_NINT" "P (a ! slot v m)"
    using table_free [OF assms(1), of v] assms(2) by metis
  let ?k = "LEAST k. P (a ! slot v k)"
  have "P (a ! slot v ?k)" using m(2) by (rule LeastI)
  moreover have "?k \<le> m" using m(2) by (rule Least_le)
  ultimately show ?thesis using m(1) not_less_Least that by (metis le_less_trans)
qed

lemma bv_probe_first:
  assumes "length a = BITVEC_NINT" and "n < k" and "\<forall>l < n. a ! slot v (s + l) \<noteq> 0 \<and> a ! slot v (s + l) \<noteq> v"
    and "a ! slot v (s + n) = 0 \<or> a ! slot v (s + n) = v" and "v \<noteq> 0"
  shows "bv_probe a v (slot v s) k = Some (if a ! slot v (s + n) = 0 then Free (slot v (s + n)) else Found)"
  using assms
proof (induction k arbitrary: s n)
  case (Suc k)
  have r: "rd a (slot v s) = Some (a ! slot v s)" using Suc(2) by (simp add: rd_def)
  show ?case
  proof (cases n)
    case 0
    then show ?thesis using Suc(5,6) r by auto
  next
    case (Suc m)
    have "bv_probe a v (slot v (s + 1)) k
      = Some (if a ! slot v (s + 1 + m) = 0 then Free (slot v (s + 1 + m)) else Found)"
    proof (rule Suc.IH)
      show "\<forall>l < m. a ! slot v (s + 1 + l) \<noteq> 0 \<and> a ! slot v (s + 1 + l) \<noteq> v"
        using Suc.prems(3) Suc by auto
    qed (use Suc.prems Suc in simp_all)
    moreover have "a ! slot v s \<noteq> 0 \<and> a ! slot v s \<noteq> v" using Suc.prems(3) Suc by force
    ultimately show ?thesis using r Suc slot_Suc [of v s] by simp
  qed
qed simp

lemma bv_free_first:
  assumes "length a = BITVEC_NINT" and "n < k" and "\<forall>l < n. a ! slot v (s + l) \<noteq> 0"
    and "a ! slot v (s + n) = 0"
  shows "bv_free a (slot v s) k = Some (slot v (s + n))"
  using assms
proof (induction k arbitrary: s n)
  case (Suc k)
  have r: "rd a (slot v s) = Some (a ! slot v s)" using Suc(2) by (simp add: rd_def)
  show ?case
  proof (cases n)
    case 0
    then show ?thesis using Suc(5) r by auto
  next
    case (Suc m)
    have "bv_free a (slot v (s + 1)) k = Some (slot v (s + 1 + m))"
    proof (rule Suc.IH)
      show "\<forall>l < m. a ! slot v (s + 1 + l) \<noteq> 0" using Suc.prems(3) Suc by auto
    qed (use Suc.prems Suc in simp_all)
    moreover have "a ! slot v s \<noteq> 0" using Suc.prems(3) Suc by force
    ultimately show ?thesis using r Suc slot_Suc' [of v s] by simp
  qed
qed simp

lemma table_reach:
  assumes "table a n" and "v \<in> set a" and "v \<noteq> 0"
  shows "\<exists>k < BITVEC_NINT. a ! slot v k = v \<and> (\<forall>l < k. a ! slot v l \<noteq> 0)"
proof -
  have "\<forall>v \<in> set a. v \<noteq> 0 \<longrightarrow> (\<exists>k < BITVEC_NINT. a ! slot v k = v \<and> (\<forall>l < k. a ! slot v l \<noteq> 0))"
    using assms(1) unfolding table_def by (elim conjE)
  then show ?thesis using assms(2,3) by (elim ballE [of _ _ v]) simp_all
qed

text \<open>A probe finds exactly the values of the table; otherwise it gives the first free slot.\<close>

lemma bv_probe_ok:
  assumes t: "table a n" and v: "v \<noteq> 0"
  shows "\<exists>k < BITVEC_NINT. (v \<notin> set a \<longrightarrow> (\<forall>l < k. a ! slot v l \<noteq> 0) \<and> a ! slot v k = 0)
    \<and> bv_probe a v (slot v 0) BITVEC_NINT = Some (if v \<in> set a then Found else Free (slot v k))"
proof -
  obtain k where k: "k < BITVEC_NINT" "a ! slot v k = 0 \<or> a ! slot v k = v"
      "\<And>l. l < k \<Longrightarrow> \<not> (a ! slot v l = 0 \<or> a ! slot v l = v)"
    using table_first [OF t, of "\<lambda>x. x = 0 \<or> x = v" v] by blast
  have len: "length a = BITVEC_NINT" using t by (simp add: table_def)
  have mem: "a ! slot v k \<in> set a" using len by simp
  have "a ! slot v k = v" if vin: "v \<in> set a"
  proof -
    obtain j where j: "a ! slot v j = v" "\<forall>l < j. a ! slot v l \<noteq> 0"
      using table_reach [OF t vin v] by blast
    have "\<not> j < k" using k(3) [of j] j(1) by blast
    then show ?thesis using k(2) j by (cases "k = j") auto
  qed
  then have "(if v \<in> set a then Found else Free (slot v k))
      = (if a ! slot v k = 0 then Free (slot v k) else Found)"
    using k(2) v mem by auto
  moreover have "v \<notin> set a \<longrightarrow> a ! slot v k = 0" using k(2) mem by auto
  ultimately show ?thesis
    using bv_probe_first [OF len k(1), of v 0] k v by (intro exI [of _ k]) simp
qed

lemma filled_update:
  "h < length a \<Longrightarrow> a ! h = 0 \<Longrightarrow> v \<noteq> 0 \<Longrightarrow> filled (a[h := v]) = filled a + 1"
  by (induction a arbitrary: h) (auto simp: filled_def nth_Cons split: nat.splits)

lemma set_update_free:
  "h < length a \<Longrightarrow> a ! h = 0 \<Longrightarrow> v \<noteq> 0 \<Longrightarrow> w \<noteq> 0 \<Longrightarrow> w \<in> set (a[h := v]) \<longleftrightarrow> w = v \<or> w \<in> set a"
  by (induction a arbitrary: h) (auto simp: nth_Cons split: nat.splits)

text \<open>Storing a value in the first free slot on its way.\<close>

lemma table_insert:
  assumes t: "table a n" and v: "v \<noteq> 0" and room: "n + 1 < BITVEC_NINT"
    and k: "k < BITVEC_NINT" "\<forall>l < k. a ! slot v l \<noteq> 0" "a ! slot v k = 0"
  shows "table (a[slot v k := v]) (n + 1)"
proof -
  let ?b = "a[slot v k := v]"
  have len: "length a = BITVEC_NINT" using t by (simp add: table_def)
  have "\<exists>j < BITVEC_NINT. ?b ! slot w j = w \<and> (\<forall>l < j. ?b ! slot w l \<noteq> 0)" if w: "w \<in> set ?b" "w \<noteq> 0" for w
  proof (cases "w \<in> set a")
    case True
    then obtain j where j: "j < BITVEC_NINT" "a ! slot w j = w" "\<forall>l < j. a ! slot w l \<noteq> 0"
      using t w(2) by (auto simp: table_def)
    have "slot w j \<noteq> slot v k" using j(2) k(3) w(2) by auto
    moreover have "\<forall>l < j. ?b ! slot w l \<noteq> 0"
      using j(3) v len by (auto simp: nth_list_update)
    ultimately show ?thesis using j by (intro exI [of _ j]) simp
  next
    case False
    then have "w = v" using set_update_free [of "slot v k" a v w] w k(3) v len by simp
    then show ?thesis using k len v by (intro exI [of _ k]) (auto simp: nth_list_update)
  qed
  then show ?thesis
    using t room filled_update [of "slot v k" a v] k(3) v len by (auto simp: table_def)
qed

lemma filled_zeros [simp]: "filled (replicate k 0) = 0"
  by (simp add: filled_def)

lemma table_zeros: "table (replicate BITVEC_NINT 0) 0"
  by (auto simp: table_def bv_sizes)

text \<open>Rebuilding the table without one value.\<close>

lemma bv_rebuild_ok:
  "table b k \<Longrightarrow> k + filled vs < BITVEC_NINT \<Longrightarrow>
    \<exists>c m. bv_rebuild vs i (k, b) = Some (m, c) \<and> table c m
      \<and> (\<forall>w. w \<noteq> 0 \<longrightarrow> (w \<in> set c \<longleftrightarrow> w \<in> set b \<or> w \<in> set vs \<and> w \<noteq> i))"
proof (induction vs arbitrary: b k)
  case (Cons v vs)
  show ?case
  proof (cases "v \<noteq> 0 \<and> v \<noteq> i")
    case True
    then have v: "v \<noteq> 0" by simp
    have len: "length b = BITVEC_NINT" using Cons(2) by (simp add: table_def)
    obtain j where j: "j < BITVEC_NINT" "b ! slot v j = 0" "\<And>l. l < j \<Longrightarrow> b ! slot v l \<noteq> 0"
      using table_first [OF Cons(2), of "\<lambda>x. x = 0" v] by blast
    have f: "bv_free b (BITVEC_HASH (v - 1)) BITVEC_NINT = Some (slot v j)"
      unfolding slot_0 using bv_free_first [OF len j(1), of v 0] j by simp
    have room: "k + 1 + filled vs < BITVEC_NINT" using Cons(3) v by (simp add: filled_def)
    have "table (b[slot v j := v]) (k + 1)"
      using table_insert [OF Cons(2) v _ j(1)] j room by simp
    from Cons(1) [OF this room] obtain c m where
      "bv_rebuild vs i (k + 1, b[slot v j := v]) = Some (m, c)" "table c m"
      "\<forall>w. w \<noteq> 0 \<longrightarrow> (w \<in> set c \<longleftrightarrow> w \<in> set (b[slot v j := v]) \<or> w \<in> set vs \<and> w \<noteq> i)"
      by blast
    then show ?thesis
      using True f set_update_free [of "slot v j" b v] j(2) len by auto
  next
    case False
    moreover have "k + filled vs < BITVEC_NINT" using Cons(3) by (simp add: filled_def split: if_splits)
    ultimately show ?thesis using Cons(1) [OF Cons(2)] by auto
  qed
qed auto

section \<open>Objects\<close>

function bv_mem :: "Bitvec \<Rightarrow> nat \<Rightarrow> bool" where
  "bv_mem p i =
     (case bv_u p of
        ABitmap a \<Rightarrow> i div 8 < length a \<and> bit (a ! (i div 8)) (i mod 8)
      | AHash a \<Rightarrow> Suc i \<in> set a
      | ApSub subs \<Rightarrow>
          (case rd subs (i div iDivisor p) of Some (Some q) \<Rightarrow> bv_mem q (i mod iDivisor p) | _ \<Rightarrow> False))"
  by pat_completeness auto
termination
  by (relation "measure (\<lambda>(p, i). size p)") (auto dest: bv_sub_smaller)

declare bv_mem.simps [simp del]

lemma bv_mem_simps [simp]:
  "bv_mem (Bitvec s n d (ABitmap a)) i \<longleftrightarrow> i div 8 < length a \<and> bit (a ! (i div 8)) (i mod 8)"
  "bv_mem (Bitvec s n d (AHash h)) i \<longleftrightarrow> Suc i \<in> set h"
  "bv_mem (Bitvec s n d (ApSub subs)) i \<longleftrightarrow>
    (case rd subs (i div d) of Some (Some q) \<Rightarrow> bv_mem q (i mod d) | _ \<Rightarrow> False)"
  by (simp_all add: bv_mem.simps [of "Bitvec s n d _"] split: option.split)

text \<open>The largest size, that of a \<^verbatim>\<open>u32\<close>.\<close>

definition bv_max :: nat where
  "bv_max = 2 ^ 32 - 1"

inductive bv_ok :: "Bitvec \<Rightarrow> bool" where
  ok_bitmap: "s \<le> BITVEC_NBIT \<Longrightarrow> length a = BITVEC_NELEM \<Longrightarrow> bv_ok (Bitvec s n 0 (ABitmap a))"
| ok_hash: "BITVEC_NBIT < s \<Longrightarrow> s \<le> bv_max \<Longrightarrow> table a n \<Longrightarrow> \<forall>v \<in> set a. v \<le> s \<Longrightarrow>
    bv_ok (Bitvec s n 0 (AHash a))"
| ok_sub: "BITVEC_NBIT < s \<Longrightarrow> s \<le> bv_max \<Longrightarrow> d = (s + 61) div 62 \<Longrightarrow> length subs = BITVEC_NPTR \<Longrightarrow>
    \<forall>q. Some q \<in> set subs \<longrightarrow> bv_ok q \<and> iSize q = d \<Longrightarrow> bv_ok (Bitvec s n d (ApSub subs))"

lemma bv_ok_new: "s \<le> bv_max \<Longrightarrow> bv_ok (bv_new s)"
  by (auto simp: bv_new_def intro!: ok_bitmap ok_hash table_zeros)

lemma bv_mem_new [simp]: "\<not> bv_mem (bv_new s) i"
  by (auto simp: bv_new_def)

lemma div_mod_eq: "0 < (d :: nat) \<Longrightarrow> j div d = i div d \<and> j mod d = i mod d \<longleftrightarrow> j = i"
  by (metis div_mult_mod_eq)

lemma sub_index: "BITVEC_NBIT < s \<Longrightarrow> i < s \<Longrightarrow> i div ((s + 61) div 62) < BITVEC_NPTR"
  unfolding bv_sizes
proof -
  assume a: "3968 < s" "i < s"
  let ?d = "(s + 61) div 62"
  have "s \<le> 62 * ?d" by linarith
  then have "i < 62 * ?d" using a by linarith
  then show "i div ?d < 62" by (simp add: less_mult_imp_div_less mult.commute)
qed

lemma sub_divisor: "BITVEC_NBIT < s \<Longrightarrow> 0 < (s + 61) div 62 \<and> (s + 61) div 62 < s"
  unfolding bv_sizes by (intro conjI) linarith+

lemma and_bit_byte: "(b :: u8) AND 2 ^ k \<noteq> 0 \<longleftrightarrow> bit b k"
  using and_exp_eq_0_iff_not_bit [of b k] by simp

lemma bv_test_ok: "bv_ok p \<Longrightarrow> i < iSize p \<Longrightarrow> bv_test p i = Some (bv_mem p i)"
proof (induction p arbitrary: i rule: bv_ok.induct)
  case (ok_bitmap s a n)
  have "i div 8 < 496" using ok_bitmap by (simp add: bv_sizes)
  then show ?case using ok_bitmap
    by (simp add: bv_test.simps [of "Bitvec s n 0 (ABitmap a)"] bv_sizes rd_def and_bit_byte)
next
  case (ok_hash s a n)
  obtain k where "bv_probe a (i + 1) (slot (i + 1) 0) BITVEC_NINT
      = Some (if i + 1 \<in> set a then Found else Free (slot (i + 1) k))"
    using bv_probe_ok [OF ok_hash(3), of "i + 1"] by auto
  moreover have "slot (i + 1) 0 = BITVEC_HASH i" using slot_0 [of "i + 1"] by simp
  ultimately show ?case
    using ok_hash by (simp add: bv_test.simps [of "Bitvec s n 0 (AHash a)"] bv_sizes)
next
  case (ok_sub s d subs n)
  have d: "0 < d" using sub_divisor [OF ok_sub(1)] ok_sub(3) by simp
  have k: "i div d < BITVEC_NPTR" using sub_index [OF ok_sub(1), of i] ok_sub by simp
  note T = bv_test.simps [of "Bitvec s n d (ApSub subs)" i]
  show ?case
  proof (cases "subs ! (i div d)")
    case None
    then show ?thesis using d k ok_sub(4) by (simp add: T rd_def)
  next
    case (Some q)
    then have "Some q \<in> set subs" using k ok_sub(4) by (metis nth_mem)
    then have "bv_test q (i mod d) = Some (bv_mem q (i mod d))" using ok_sub(5) d by simp
    then show ?thesis using Some d k ok_sub(4) by (simp add: T rd_def)
  qed
qed

text \<open>Clearing.\<close>

lemma bit_update:
  fixes a :: "u8 list"
  assumes "i div 8 < length a" and "\<And>b n. n < 8 \<Longrightarrow> bit (f b) n \<longleftrightarrow> g n (bit (b :: u8) n)"
  shows "j div 8 < length a \<Longrightarrow> bit (a[i div 8 := f (a ! (i div 8))] ! (j div 8)) (j mod 8)
    \<longleftrightarrow> (if j div 8 = i div 8 then g (j mod 8) (bit (a ! (j div 8)) (j mod 8)) else bit (a ! (j div 8)) (j mod 8))"
  using assms by (simp add: nth_list_update)

lemma bit_8_eq: "j div 8 = i div 8 \<Longrightarrow> j mod 8 = i mod 8 \<longleftrightarrow> j = (i :: nat)"
  by (metis div_mult_mod_eq)

lemma bitmap_set:
  fixes a :: "u8 list"
  assumes "i div 8 < length a" and "j div 8 < length a"
  shows "bit (a[i div 8 := a ! (i div 8) OR push_bit (i mod 8) 1] ! (j div 8)) (j mod 8)
    \<longleftrightarrow> bit (a ! (j div 8)) (j mod 8) \<or> j = i"
  using assms bit_8_eq [of j i] by (auto simp: nth_list_update bit_simps)

lemma bitmap_clear:
  fixes a :: "u8 list"
  assumes "i div 8 < length a" and "j div 8 < length a"
  shows "bit (a[i div 8 := a ! (i div 8) AND NOT (push_bit (i mod 8) 1)] ! (j div 8)) (j mod 8)
    \<longleftrightarrow> bit (a ! (j div 8)) (j mod 8) \<and> j \<noteq> i"
  using assms bit_8_eq [of j i] by (auto simp: nth_list_update bit_simps)

lemma bv_clear_ok:
  "bv_ok p \<Longrightarrow> i < iSize p \<Longrightarrow> \<exists>q. bv_clear p i = Some q \<and> bv_ok q \<and> iSize q = iSize p
    \<and> (\<forall>j < iSize p. bv_mem q j \<longleftrightarrow> bv_mem p j \<and> j \<noteq> i)"
proof (induction p arbitrary: i rule: bv_ok.induct)
  case (ok_bitmap s a n)
  have l: "j div 8 < 496" if "j < s" for j using that ok_bitmap by (simp add: bv_sizes)
  let ?a = "a[i div 8 := a ! (i div 8) AND NOT (push_bit (i mod 8) 1)]"
  have "bv_clear (Bitvec s n 0 (ABitmap a)) i = Some (Bitvec s n 0 (ABitmap ?a))"
    using ok_bitmap l [of i] by (simp add: bv_clear.simps [of "Bitvec s n 0 (ABitmap a)"] bv_sizes rd_def)
  moreover have "bv_ok (Bitvec s n 0 (ABitmap ?a))" using ok_bitmap by (intro bv_ok.ok_bitmap) simp_all
  moreover have "\<forall>j < s. bv_mem (Bitvec s n 0 (ABitmap ?a)) j \<longleftrightarrow> bv_mem (Bitvec s n 0 (ABitmap a)) j \<and> j \<noteq> i"
    using l bitmap_clear [of i a] ok_bitmap by (simp add: bv_sizes)
  ultimately show ?case by simp
next
  case (ok_hash s a n)
  have room: "0 + filled a < BITVEC_NINT" using ok_hash(3) by (auto simp: table_def)
  obtain c m where c: "bv_rebuild a (i + 1) (0, replicate BITVEC_NINT 0) = Some (m, c)" "table c m"
      "\<forall>w. w \<noteq> 0 \<longrightarrow> (w \<in> set c \<longleftrightarrow> w \<in> set (replicate BITVEC_NINT 0) \<or> w \<in> set a \<and> w \<noteq> i + 1)"
    using bv_rebuild_ok [OF table_zeros room] by blast
  have "bv_clear (Bitvec s n 0 (AHash a)) i = Some (Bitvec s m 0 (AHash c))"
    using ok_hash c(1) by (simp add: bv_clear.simps [of "Bitvec s n 0 (AHash a)"])
  moreover have "\<forall>v \<in> set c. v \<le> s"
  proof
    fix v assume "v \<in> set c"
    then show "v \<le> s" using c(3) ok_hash(4) by (cases "v = 0") auto
  qed
  then have "bv_ok (Bitvec s m 0 (AHash c))" using ok_hash c(2) by (intro bv_ok.ok_hash) simp_all
  moreover have "\<forall>j < s. bv_mem (Bitvec s m 0 (AHash c)) j \<longleftrightarrow> bv_mem (Bitvec s n 0 (AHash a)) j \<and> j \<noteq> i"
    using c(3) by auto
  ultimately show ?case by simp
next
  case (ok_sub s d subs n)
  have d: "0 < d" using sub_divisor [OF ok_sub(1)] ok_sub(3) by simp
  have k: "j div d < length subs" if "j < s" for j
    using sub_index [OF ok_sub(1) that] ok_sub(3,4) by simp
  let ?p = "Bitvec s n d (ApSub subs)"
  have i: "i div d < length subs" using k ok_sub(6) by simp
  note C = bv_clear.simps [of ?p i]
  show ?case
  proof (cases "subs ! (i div d)")
    case None
    have "bv_ok ?p" using ok_sub by (intro bv_ok.ok_sub) simp_all
    moreover have "\<not> bv_mem ?p i" using None i by (simp add: rd_def)
    moreover have "bv_clear ?p i = Some ?p" using d i None by (simp add: C rd_def)
    ultimately show ?thesis by (intro exI [of _ ?p]) auto
  next
    case (Some q)
    then have q: "Some q \<in> set subs" using i by (metis nth_mem)
    have "i mod d < iSize q" using ok_sub(5) q d by simp
    then obtain r where r: "bv_clear q (i mod d) = Some r" "bv_ok r" "iSize r = d"
        "\<forall>j < d. bv_mem r j \<longleftrightarrow> bv_mem q j \<and> j \<noteq> i mod d"
      using ok_sub(5) q by force
    let ?r = "Bitvec s n d (ApSub (subs[i div d := Some r]))"
    have "bv_clear ?p i = Some ?r" using d i Some r(1) by (simp add: C rd_def)
    moreover have "bv_ok ?r"
      using ok_sub r by (intro bv_ok.ok_sub) (auto dest: set_update_subset_insert [THEN subsetD])
    moreover have "bv_mem ?r j \<longleftrightarrow> bv_mem ?p j \<and> j \<noteq> i" if "j < s" for j
      using k [OF that] i Some r(4) d div_mod_eq [OF d, of j i]
      by (cases "j div d = i div d") (auto simp: rd_def)
    ultimately show ?thesis by simp
  qed
qed

text \<open>Setting. \<open>set_done s p i m r\<close>: the outcome \<open>r\<close> of setting the bit \<open>i\<close> of \<open>p\<close> is what it should be.\<close>

definition set_done :: "Bitvec \<Rightarrow> nat set \<Rightarrow> mem \<Rightarrow> (nat \<times> Bitvec \<times> mem) option \<Rightarrow> bool" where
  "set_done p I m r \<longleftrightarrow> (\<exists>rc q m'. r = Some (rc, q, m') \<and> bv_ok q \<and> iSize q = iSize p
     \<and> (iDivisor p \<noteq> 0 \<longrightarrow> iDivisor q \<noteq> 0)
     \<and> (rc = SQLITE_OK \<or> rc = SQLITE_NOMEM) \<and> (m = [] \<longrightarrow> rc = SQLITE_OK \<and> m' = [])
     \<and> (rc = SQLITE_OK \<longrightarrow> (\<forall>j < iSize p. j \<in> I \<or> bv_mem p j \<longrightarrow> bv_mem q j))
     \<and> (\<forall>j < iSize p. bv_mem q j \<longrightarrow> bv_mem p j \<or> j \<in> I))"

lemma bitmap_set_ok:
  assumes "s \<le> BITVEC_NBIT" and "length a = BITVEC_NELEM" and "i < s"
  shows "set_done (Bitvec s k 0 (ABitmap a)) {i} m (bv_set (Suc n) (Bitvec s k 0 (ABitmap a)) (i + 1) m)"
proof -
  have l: "j div 8 < 496" if "j < s" for j using that assms by (simp add: bv_sizes)
  let ?a = "a[i div 8 := a ! (i div 8) OR push_bit (i mod 8) 1]"
  have "bv_set (Suc n) (Bitvec s k 0 (ABitmap a)) (i + 1) m
      = Some (SQLITE_OK, Bitvec s k 0 (ABitmap ?a), m)"
    using assms l [of i] by (simp add: bv_set.simps(2) bv_sizes rd_def)
  moreover have "bv_ok (Bitvec s k 0 (ABitmap ?a))" using assms by (intro bv_ok.ok_bitmap) simp_all
  ultimately show ?thesis
    using l bitmap_set [of i a] assms by (simp add: set_done_def bv_sizes SQLITE_OK_def SQLITE_NOMEM_def bit_simps)
qed

text \<open>Setting in a split bitmap, given how it is set in smaller ones.\<close>

lemma sub_set_ok:
  assumes p: "bv_ok p" "iDivisor p \<noteq> 0" and i: "i < iSize p"
    and IH: "\<And>q i m. bv_ok q \<Longrightarrow> iSize q = iDivisor p \<Longrightarrow> i < iSize q \<Longrightarrow> set_done q {i} m (bv_set n q (i + 1) m)"
  shows "set_done p {i} m (bv_set (Suc n) p (i + 1) m)"
  using p
proof (cases rule: bv_ok.cases)
  case (ok_sub s d subs k)
  have d: "0 < d" "d < s" using sub_divisor [OF ok_sub(2)] ok_sub(4) by simp_all
  have x: "j div d < length subs" if "j < s" for j
    using sub_index [OF ok_sub(2) that] ok_sub(4,5) by simp
  let ?b = "i div d"
  have b: "?b < length subs" using x i ok_sub(1) by simp
  obtain q m1 where qm: "(case subs ! ?b of None \<Rightarrow> sqlite3BitvecCreate d m | Some q \<Rightarrow> (Some q, m)) = (q, m1)"
    by (metis surj_pair)
  have S: "bv_set (Suc n) p (i + 1) m = (case q of None \<Rightarrow> Some (SQLITE_NOMEM, p, m1)
      | Some q \<Rightarrow> do { (rc, q, m) \<leftarrow> bv_set n q (i mod d + 1) m1;
          Some (rc, Bitvec s k d (ApSub (subs[?b := Some q])), m) })"
    unfolding bv_set.simps Let_def ok_sub(1) Bitvec.sel add_diff_cancel_right' rd_def
    using ok_sub(2) d b qm by simp
  show ?thesis
  proof (cases q)
    case None
    then have "m \<noteq> []" using qm by (auto simp: sqlite3BitvecCreate_def split: option.splits)
    then show ?thesis using S None p by (simp add: set_done_def SQLITE_OK_def SQLITE_NOMEM_def)
  next
    case (Some q')
    have q': "bv_ok q' \<and> iSize q' = d \<and> (m = [] \<longrightarrow> m1 = [])
        \<and> (\<forall>j. bv_mem q' j \<longleftrightarrow> (case subs ! ?b of None \<Rightarrow> False | Some r \<Rightarrow> bv_mem r j))"
    proof (cases "subs ! ?b")
      case None
      then have "q' = bv_new d" "m = [] \<longrightarrow> m1 = []"
        using qm Some by (auto simp: sqlite3BitvecCreate_def split: if_splits prod.splits)
      moreover have "d \<le> bv_max" using d ok_sub(3) by simp
      ultimately show ?thesis using None bv_ok_new [of d] by (simp add: bv_new_def)
    next
      case r: (Some r)
      then have "Some r \<in> set subs" using b by (metis nth_mem)
      then show ?thesis using r qm Some ok_sub(6) by auto
    qed
    have "set_done q' {i mod d} m1 (bv_set n q' (i mod d + 1) m1)"
      using IH [of q' "i mod d" m1] q' ok_sub(1) d by simp
    then obtain rc r m2 where r: "bv_set n q' (i mod d + 1) m1 = Some (rc, r, m2)" "bv_ok r" "iSize r = d"
        "rc = SQLITE_OK \<or> rc = SQLITE_NOMEM" "m1 = [] \<longrightarrow> rc = SQLITE_OK \<and> m2 = []"
        "rc = SQLITE_OK \<longrightarrow> (\<forall>j < d. j = i mod d \<or> bv_mem q' j \<longrightarrow> bv_mem r j)"
        "\<forall>j < d. bv_mem r j \<longrightarrow> bv_mem q' j \<or> j = i mod d"
      using q' by (auto simp: set_done_def)
    let ?r = "Bitvec s k d (ApSub (subs[?b := Some r]))"
    have "bv_ok ?r"
      using ok_sub r(2,3) by (intro bv_ok.ok_sub) (auto dest: set_update_subset_insert [THEN subsetD])
    moreover have mr: "bv_mem ?r j \<longleftrightarrow> (if j div d = ?b then bv_mem r (j mod d) else bv_mem p j)" if "j < s" for j
      using x [OF that] b ok_sub(1) by (simp add: rd_def)
    have mp: "bv_mem p j \<longleftrightarrow> bv_mem q' (j mod d)" if "j < s" "j div d = ?b" for j
      using x [OF that(1)] that(2) ok_sub(1) q' by (simp add: rd_def split: option.split)
    have "bv_mem ?r j" if "rc = SQLITE_OK" "j < s" "j = i \<or> bv_mem p j" for j
    proof (cases "j div d = ?b")
      case True
      then have "j mod d = i mod d \<or> bv_mem q' (j mod d)" using that mp by auto
      moreover have "j mod d < d" using d(1) by simp
      ultimately have "bv_mem r (j mod d)" using r(6) that(1) by blast
      then show ?thesis by (simp only: mr [OF that(2)] True if_True refl)
    qed (use mr that in auto)
    moreover have "bv_mem p j \<or> j = i" if "j < s" "bv_mem ?r j" for j
    proof (cases "j div d = ?b")
      case True
      then have "bv_mem r (j mod d)" using that(2) by (simp only: mr [OF that(1)] True if_True refl)
      moreover have "j mod d < d" using d(1) by simp
      ultimately have "bv_mem q' (j mod d) \<or> j mod d = i mod d" using r(7) by blast
      then show ?thesis using mp that True div_mod_eq [OF d(1), of j i] by auto
    qed (use mr that in simp)
    moreover have "bv_set (Suc n) p (i + 1) m = Some (rc, ?r, m2)" using S Some r(1) by simp
    moreover have "m = [] \<longrightarrow> rc = SQLITE_OK \<and> m2 = []" using r(5) q' by simp
    ultimately show ?thesis
      using r(4) d(1) unfolding set_done_def ok_sub(1) Bitvec.sel
      by (intro exI [of _ rc] exI [of _ ?r] exI [of _ m2]) simp
  qed
qed simp_all

text \<open>Setting all values of a table, as the split does.\<close>

lemma rc_or:
  "SQLITE_OK OR SQLITE_OK = SQLITE_OK" "SQLITE_OK OR SQLITE_NOMEM = SQLITE_NOMEM"
  "SQLITE_NOMEM OR SQLITE_OK = SQLITE_NOMEM" "SQLITE_NOMEM OR SQLITE_NOMEM = SQLITE_NOMEM"
  "SQLITE_NOMEM \<noteq> SQLITE_OK"
  by (simp_all add: SQLITE_OK_def SQLITE_NOMEM_def)

lemma set_done_trans:
  assumes "set_done p I m (Some (rc, q, m1))" and "set_done q J m1 (Some (rc', r, m2))"
  shows "set_done p (I \<union> J) m (Some (rc OR rc', r, m2))"
proof -
  have 1: "bv_ok q" "iSize q = iSize p" "iDivisor p \<noteq> 0 \<longrightarrow> iDivisor q \<noteq> 0"
      "rc = SQLITE_OK \<or> rc = SQLITE_NOMEM" "m = [] \<longrightarrow> rc = SQLITE_OK \<and> m1 = []"
      "rc = SQLITE_OK \<longrightarrow> (\<forall>j < iSize p. j \<in> I \<or> bv_mem p j \<longrightarrow> bv_mem q j)"
      "\<forall>j < iSize p. bv_mem q j \<longrightarrow> bv_mem p j \<or> j \<in> I"
    using assms(1) by (simp_all add: set_done_def)
  have 2: "bv_ok r" "iSize r = iSize p" "iDivisor q \<noteq> 0 \<longrightarrow> iDivisor r \<noteq> 0"
      "rc' = SQLITE_OK \<or> rc' = SQLITE_NOMEM" "m1 = [] \<longrightarrow> rc' = SQLITE_OK \<and> m2 = []"
      "rc' = SQLITE_OK \<longrightarrow> (\<forall>j < iSize p. j \<in> J \<or> bv_mem q j \<longrightarrow> bv_mem r j)"
      "\<forall>j < iSize p. bv_mem r j \<longrightarrow> bv_mem q j \<or> j \<in> J"
    using assms(2) 1(2) by (simp_all add: set_done_def)
  have or: "rc OR rc' = SQLITE_OK \<longleftrightarrow> rc = SQLITE_OK \<and> rc' = SQLITE_OK"
      "rc OR rc' = SQLITE_OK \<or> rc OR rc' = SQLITE_NOMEM"
    using 1(4) 2(4) rc_or by metis+
  have "m = [] \<longrightarrow> rc OR rc' = SQLITE_OK \<and> m2 = []" using 1(5) 2(5) or by simp
  moreover have "rc OR rc' = SQLITE_OK \<longrightarrow> (\<forall>j < iSize p. j \<in> I \<union> J \<or> bv_mem p j \<longrightarrow> bv_mem r j)"
    using 1(6) 2(6) or by blast
  moreover have "\<forall>j < iSize p. bv_mem r j \<longrightarrow> bv_mem p j \<or> j \<in> I \<union> J" using 1(7) 2(7) by blast
  moreover have "iDivisor p \<noteq> 0 \<longrightarrow> iDivisor r \<noteq> 0" using 1(3) 2(3) by simp
  ultimately show ?thesis
    unfolding set_done_def using 2(1,2) or(2)
    by (intro exI [of _ "rc OR rc'"] exI [of _ r] exI [of _ m2] conjI refl) (assumption+)
qed

lemma set_done_rebuild:
  assumes "set_done q (I \<union> J) m1 x" and "iSize q = iSize p" and "iDivisor p = 0" and "m = [] \<longrightarrow> m1 = []"
    and "\<And>j. \<not> bv_mem q j" and "\<And>j. bv_mem p j \<longleftrightarrow> j \<in> J"
  shows "set_done p I m x"
proof -
  obtain rc r m2 where r: "x = Some (rc, r, m2)" "bv_ok r" "iSize r = iSize p" "rc = SQLITE_OK \<or> rc = SQLITE_NOMEM"
      "m1 = [] \<longrightarrow> rc = SQLITE_OK \<and> m2 = []"
      "rc = SQLITE_OK \<longrightarrow> (\<forall>j < iSize p. j \<in> I \<union> J \<longrightarrow> bv_mem r j)"
      "\<forall>j < iSize p. bv_mem r j \<longrightarrow> j \<in> I \<union> J"
    using assms(1,2,5) by (simp add: set_done_def) metis
  then show ?thesis
    unfolding set_done_def using assms(3,4,6)
    by (intro exI [of _ rc] exI [of _ r] exI [of _ m2]) (simp add: disj_commute)
qed

lemma set_all_ok:
  assumes set1: "\<And>q i m. bv_ok q \<Longrightarrow> iSize q = s \<Longrightarrow> iDivisor q \<noteq> 0 \<Longrightarrow> i < s \<Longrightarrow> set_done q {i} m (f q (i + 1) m)"
  shows "bv_ok p \<Longrightarrow> iSize p = s \<Longrightarrow> iDivisor p \<noteq> 0 \<Longrightarrow> \<forall>v \<in> set vs. v \<le> s \<Longrightarrow>
    \<exists>rc q m'. bv_set_all f vs (rc0, p, m) = Some (rc0 OR rc, q, m')
      \<and> set_done p {j. Suc j \<in> set vs} m (Some (rc, q, m'))"
proof (induction vs arbitrary: p m rc0)
  case Nil
  then have "bv_set_all f [] (rc0, p, m) = Some (rc0 OR SQLITE_OK, p, m)
      \<and> set_done p {j. Suc j \<in> set []} m (Some (SQLITE_OK, p, m))"
    by (simp add: set_done_def SQLITE_OK_def)
  then show ?case by blast
next
  case (Cons v vs)
  show ?case
  proof (cases "v = 0")
    case True
    then show ?thesis using Cons by auto
  next
    case False
    then obtain i where i: "v = i + 1" "i < s" using Cons(5) by (cases v) auto
    then obtain rc q m1 where q: "f p v m = Some (rc, q, m1)" "set_done p {i} m (Some (rc, q, m1))"
      using set1 [OF Cons(2-4), of i m] by (auto simp: set_done_def)
    have ok: "bv_ok q" "iSize q = s" "iDivisor q \<noteq> 0" using q(2) Cons(3,4) by (auto simp: set_done_def)
    obtain rc1 r m2 where r: "bv_set_all f vs (rc0 OR rc, q, m1) = Some ((rc0 OR rc) OR rc1, r, m2)"
        "set_done q {j. Suc j \<in> set vs} m1 (Some (rc1, r, m2))"
      using Cons(1) [OF ok, of "rc0 OR rc" m1] Cons(5) by auto
    have "bv_set_all f (v # vs) (rc0, p, m) = Some (rc0 OR (rc OR rc1), r, m2)"
      using False q(1) r(1) by (simp add: or.assoc)
    moreover have "{j. Suc j \<in> set (v # vs)} = {i} \<union> {j. Suc j \<in> set vs}" using i by auto
    then have "set_done p {j. Suc j \<in> set (v # vs)} m (Some (rc OR rc1, r, m2))"
      using set_done_trans [OF q(2) r(2)] by simp
    ultimately show ?thesis by blast
  qed
qed

lemma split_ok:
  assumes "BITVEC_NBIT < s" and "s \<le> bv_max"
  shows "bv_ok (Bitvec s k ((s + BITVEC_NPTR - 1) div BITVEC_NPTR) (ApSub (replicate BITVEC_NPTR None)))"
    and "(s + BITVEC_NPTR - 1) div BITVEC_NPTR = (s + 61) div 62"
proof -
  show "(s + BITVEC_NPTR - 1) div BITVEC_NPTR = (s + 61) div 62"
    by (simp add: bv_sizes)
  then show "bv_ok (Bitvec s k ((s + BITVEC_NPTR - 1) div BITVEC_NPTR) (ApSub (replicate BITVEC_NPTR None)))"
    using assms by (intro bv_ok.ok_sub) simp_all
qed

text \<open>Setting in a hashed bitmap, given how it is set in the split one.\<close>

lemma hash_set_ok:
  assumes s: "BITVEC_NBIT < s" "s \<le> bv_max" and t: "table a k" "\<forall>v \<in> set a. v \<le> s" and i: "i < s"
    and set1: "\<And>q i m. bv_ok q \<Longrightarrow> iSize q = s \<Longrightarrow> iDivisor q \<noteq> 0 \<Longrightarrow> i < s \<Longrightarrow> set_done q {i} m (bv_set n q (i + 1) m)"
  shows "set_done (Bitvec s k 0 (AHash a)) {i} m (bv_set (Suc n) (Bitvec s k 0 (AHash a)) (i + 1) m)"
proof -
  let ?p = "Bitvec s k 0 (AHash a)" and ?v = "i + 1"
  let ?d = "(s + BITVEC_NPTR - 1) div BITVEC_NPTR"
  let ?q = "Bitvec s k ?d (ApSub (replicate BITVEC_NPTR None))"
  have len: "length a = BITVEC_NINT" and kN: "k < BITVEC_NINT" using t(1) by (simp_all add: table_def)
  define end_at where "end_at h = Some (SQLITE_OK, Bitvec s (k + 1) 0 (AHash (a[h := ?v])), m)" for h
  define rehash where "rehash = (let (ok, m) = malloc m in
      if \<not> ok then Some (SQLITE_NOMEM, ?p, m)
      else do { (rc, p, m) \<leftarrow> bv_set n ?q ?v m; bv_set_all (bv_set n) a (rc, p, m) })"
  have hash: "BITVEC_HASH i = slot ?v 0" using slot_0 [of ?v] by simp
  have S: "bv_set (Suc n) ?p ?v m =
      (if a ! slot ?v 0 = 0 then
         if k < BITVEC_NINT - 1 then end_at (slot ?v 0)
         else if k \<ge> BITVEC_MXHASH then rehash else end_at (slot ?v 0)
       else case bv_probe a ?v (slot ?v 0) BITVEC_NINT of
           None \<Rightarrow> None
         | Some Found \<Rightarrow> Some (SQLITE_OK, ?p, m)
         | Some (Free h) \<Rightarrow> if k \<ge> BITVEC_MXHASH then rehash else end_at h)"
    using s(1) len unfolding bv_set.simps Let_def Bitvec.sel add_diff_cancel_right' hash rehash_def end_at_def
    by (simp add: rd_def)
  obtain l where l: "l < BITVEC_NINT" "?v \<notin> set a \<longrightarrow> (\<forall>j < l. a ! slot ?v j \<noteq> 0) \<and> a ! slot ?v l = 0"
      "bv_probe a ?v (slot ?v 0) BITVEC_NINT = Some (if ?v \<in> set a then Found else Free (slot ?v l))"
    using bv_probe_ok [OF t(1), of ?v] by auto
  have p_ok: "bv_ok ?p" using s t by (intro bv_ok.ok_hash)
  have E: "set_done ?p {i} m (end_at h)"
    if h: "h = slot ?v j" "j < BITVEC_NINT" "\<forall>l < j. a ! slot ?v l \<noteq> 0" "a ! h = 0" and room: "k + 1 < BITVEC_NINT" for h j
  proof -
    have "table (a[h := ?v]) (k + 1)" using table_insert [OF t(1) _ room, of ?v j] h by simp
    moreover have hl: "h < length a" using h(1) len by simp
    moreover have "\<forall>w \<in> set (a[h := ?v]). w \<le> s"
      using t(2) i by (auto dest!: set_update_subset_insert [THEN subsetD])
    ultimately have "bv_ok (Bitvec s (k + 1) 0 (AHash (a[h := ?v])))" using s by (intro bv_ok.ok_hash)
    then show ?thesis
      using set_update_free [OF hl h(4), of ?v] by (auto simp: set_done_def end_at_def)
  qed
  have R: "set_done ?p {i} m rehash"
  proof -
    obtain ok m1 where al: "malloc m = (ok, m1)" by (metis surj_pair)
    show ?thesis
    proof (cases ok)
      case False
      then have "m \<noteq> []" using al by auto
      then show ?thesis using False al p_ok by (simp add: rehash_def set_done_def rc_or)
    next
      case True
      have m1: "m = [] \<longrightarrow> m1 = []" using al by auto
      have q: "bv_ok ?q" "iSize ?q = s" "iDivisor ?q \<noteq> 0"
        using split_ok(1) [OF s, of k] split_ok(2) [OF s] sub_divisor [OF s(1)] by simp_all
      have none: "\<not> bv_mem ?q j" for j by (simp add: rd_def)
      then obtain rc r m2 where r: "bv_set n ?q ?v m1 = Some (rc, r, m2)" "set_done ?q {i} m1 (Some (rc, r, m2))"
        using set1 [OF q i, of m1] by (simp only: set_done_def) blast
      have r_ok: "bv_ok r" "iSize r = s" "iDivisor r \<noteq> 0" using r(2) q by (auto simp: set_done_def)
      obtain rc1 r1 m3 where r1: "bv_set_all (bv_set n) a (rc, r, m2) = Some (rc OR rc1, r1, m3)"
          "set_done r {j. Suc j \<in> set a} m2 (Some (rc1, r1, m3))"
        using set_all_ok [OF _ r_ok t(2)] set1 by blast
      have "rehash = Some (rc OR rc1, r1, m3)" using al True r(1) r1(1) by (simp add: rehash_def)
      then have "set_done ?q ({i} \<union> {j. Suc j \<in> set a}) m1 rehash"
        using set_done_trans [OF r(2) r1(2)] by simp
      then show ?thesis by (rule set_done_rebuild) (use q(2) m1 none in simp_all)
    qed
  qed
  show ?thesis
  proof (cases "a ! slot ?v 0 = 0")
    case True
    have "set_done ?p {i} m (end_at (slot ?v 0))" if "k + 1 < BITVEC_NINT"
      using True that by (intro E [of _ 0]) (simp_all add: bv_sizes)
    then show ?thesis using True R S by (auto simp: bv_sizes)
  next
    case False
    show ?thesis
    proof (cases "?v \<in> set a")
      case True
      then show ?thesis using False S l(3) p_ok by (auto simp: set_done_def)
    next
      case new: False
      have "set_done ?p {i} m (end_at (slot ?v l))" if "k < BITVEC_MXHASH"
        using new l that by (intro E [of _ l]) (simp_all add: bv_sizes)
      then show ?thesis using False new R S l(3) by auto
    qed
  qed
qed

text \<open>The fuel: each level divides the size by 62.\<close>

lemma bv_set_done:
  "bv_ok p \<Longrightarrow> i < iSize p \<Longrightarrow> iSize p \<le> 3968 * 62 ^ k \<Longrightarrow> 2 * k < n \<Longrightarrow> set_done p {i} m (bv_set n p (i + 1) m)"
proof (induction k arbitrary: p i n m)
  case 0
  obtain n' where n': "n = Suc n'" using 0(4) by (cases n) auto
  from 0(1) show ?case
  proof (cases rule: bv_ok.cases)
    case (ok_bitmap s a k)
    then show ?thesis using 0(2) n' by (simp add: bitmap_set_ok [simplified] del: bv_set.simps)
  qed (use 0(3) in \<open>simp_all add: bv_sizes\<close>)
next
  case (Suc k)
  have sub: "set_done q {j} m (bv_set n' q (j + 1) m)"
    if q: "bv_ok q" "iDivisor q \<noteq> 0" "iSize q \<le> 3968 * 62 ^ Suc k" "j < iSize q" and n': "2 * k + 1 < n'" for q j m n'
  proof -
    obtain n'' where n'': "n' = Suc n''" using n' by (cases n') auto
    have "iDivisor q \<le> 3968 * 62 ^ k"
      using q(1,2,3) by (cases rule: bv_ok.cases) auto
    then have "set_done q' {j} m (bv_set n'' q' (j + 1) m)" if "bv_ok q'" "iSize q' = iDivisor q" "j < iSize q'" for q' j m
      using that Suc.IH [of q' j n'' m] n' n'' by simp
    then show ?thesis unfolding n'' using q(1,2,4) by (intro sub_set_ok)
  qed
  obtain n' where n': "n = Suc n'" "2 * k + 1 < n'" using Suc.prems(4) by (cases n) auto
  from Suc.prems(1) show ?case
  proof (cases rule: bv_ok.cases)
    case (ok_bitmap s a k)
    then show ?thesis using Suc.prems(2) n' by (simp add: bitmap_set_ok [simplified] del: bv_set.simps)
  next
    case (ok_hash s a k)
    have "set_done q {i} m (bv_set n' q (i + 1) m)"
      if "bv_ok q" "iSize q = s" "iDivisor q \<noteq> 0" "i < s" for q i m
      using that ok_hash(1) Suc.prems(3) n'(2) by (intro sub) simp_all
    then show ?thesis
      unfolding ok_hash(1) n'(1) using Suc.prems(2) ok_hash by (intro hash_set_ok) simp_all
  next
    case (ok_sub s d subs c)
    then have "iDivisor p \<noteq> 0" using sub_divisor by simp
    then show ?thesis using sub [OF Suc.prems(1) _ Suc.prems(3,2)] Suc.prems(4) by simp
  qed
qed

section \<open>The bitmap as a set of the numbers 1 to N\<close>

lemma bv_fuel: "bv_ok p \<Longrightarrow> i < iSize p \<Longrightarrow> set_done p {i} m (bv_set 16 p (i + 1) m)"
proof -
  assume p: "bv_ok p" and i: "i < iSize p"
  have "iSize p \<le> bv_max" using p by (cases rule: bv_ok.cases) (auto simp: bv_max_def bv_sizes)
  then show ?thesis using p i by (intro bv_set_done [of _ _ 4]) (simp_all add: bv_max_def)
qed

lemma bitvec_test:
  assumes "bv_ok p" and "j < 2 ^ 32"
  shows "sqlite3BitvecTest (Some p) j = Some (j \<noteq> 0 \<and> j \<le> iSize p \<and> bv_mem p (j - 1))"
proof (cases "j = 0")
  case True
  have "iSize p \<le> bv_max" using assms(1) by (cases rule: bv_ok.cases) (auto simp: bv_max_def bv_sizes)
  then show ?thesis
    using True by (simp add: sqlite3BitvecTest_def sqlite3BitvecTestNotNull_def bv_max_def)
next
  case False
  then have "(j + 2 ^ 32 - 1) mod 2 ^ 32 = j - 1"
    using assms(2) mod_add_self2 [of "j - 1" "2 ^ 32"] by simp
  then show ?thesis
    using False bv_test_ok [OF assms(1), of "j - 1"]
    by (auto simp: sqlite3BitvecTest_def sqlite3BitvecTestNotNull_def Let_def)
qed

lemma bitvec_set:
  assumes p: "bv_ok p" and i: "1 \<le> i" "i \<le> iSize p"
  obtains rc q m' where "sqlite3BitvecSet (Some p) i m = Some (rc, Some q, m')" and "bv_ok q" and "iSize q = iSize p"
    and "rc = SQLITE_OK \<or> rc = SQLITE_NOMEM" and "m = [] \<Longrightarrow> rc = SQLITE_OK"
    and "rc = SQLITE_OK \<Longrightarrow> j < 2 ^ 32 \<Longrightarrow>
      sqlite3BitvecTest (Some q) j = (if j = i then Some True else sqlite3BitvecTest (Some p) j)"
    and "j < 2 ^ 32 \<Longrightarrow> sqlite3BitvecTest (Some q) j = Some True \<Longrightarrow>
      j = i \<or> sqlite3BitvecTest (Some p) j = Some True"
proof -
  have "set_done p {i - 1} m (bv_set 16 p i m)" using bv_fuel [OF p, of "i - 1" m] i by simp
  then obtain rc q m' where q: "bv_set 16 p i m = Some (rc, q, m')" "bv_ok q" "iSize q = iSize p"
      "rc = SQLITE_OK \<or> rc = SQLITE_NOMEM" "m = [] \<longrightarrow> rc = SQLITE_OK"
      "rc = SQLITE_OK \<longrightarrow> (\<forall>j < iSize p. j = i - 1 \<or> bv_mem p j \<longrightarrow> bv_mem q j)"
      "\<forall>j < iSize p. bv_mem q j \<longrightarrow> bv_mem p j \<or> j = i - 1"
    unfolding set_done_def by blast
  note [simp] = bitvec_test [OF p] bitvec_test [OF q(2)]
  show ?thesis
  proof (rule that [of rc q m'])
    show "sqlite3BitvecTest (Some q) j = (if j = i then Some True else sqlite3BitvecTest (Some p) j)"
      if "rc = SQLITE_OK" "j < 2 ^ 32"
    proof (cases "j = 0")
      case False
      then have "j \<le> iSize p \<Longrightarrow> j - 1 < iSize p" and "j - 1 = i - 1 \<longleftrightarrow> j = i" using i by auto
      then show ?thesis using q(3,6,7) that i by auto
    qed (use that i in simp)
    show "j = i \<or> sqlite3BitvecTest (Some p) j = Some True"
      if "j < 2 ^ 32" "sqlite3BitvecTest (Some q) j = Some True"
    proof (cases "j = 0")
      case False
      then have "j \<le> iSize p \<Longrightarrow> j - 1 < iSize p" and "j - 1 = i - 1 \<longleftrightarrow> j = i" using i by auto
      then show ?thesis using q(3,7) that by auto
    qed (use that in simp)
  qed (use q in \<open>simp_all add: sqlite3BitvecSet_def\<close>)
qed

lemma bitvec_clear:
  assumes p: "bv_ok p" and i: "1 \<le> i" "i \<le> iSize p"
  obtains q where "sqlite3BitvecClear (Some p) i = Some (Some q)" and "bv_ok q" and "iSize q = iSize p"
    and "j < 2 ^ 32 \<Longrightarrow> sqlite3BitvecTest (Some q) j = (if j = i then Some False else sqlite3BitvecTest (Some p) j)"
proof -
  have less: "i - 1 < iSize p" using i by simp
  obtain q where q: "bv_clear p (i - 1) = Some q" "bv_ok q" "iSize q = iSize p"
      "\<forall>j < iSize p. bv_mem q j \<longleftrightarrow> bv_mem p j \<and> j \<noteq> i - 1"
    using bv_clear_ok [OF p less] by blast
  note [simp] = bitvec_test [OF p] bitvec_test [OF q(2)]
  show ?thesis
  proof (rule that [of q])
    show "sqlite3BitvecTest (Some q) j = (if j = i then Some False else sqlite3BitvecTest (Some p) j)" if "j < 2 ^ 32"
    proof (cases "j = 0")
      case False
      then have "j \<le> iSize p \<Longrightarrow> j - 1 < iSize p" and "j - 1 = i - 1 \<longleftrightarrow> j = i" using i by auto
      then show ?thesis using q(3,4) that i by auto
    qed (use that i in simp)
  qed (use q in \<open>simp_all add: sqlite3BitvecClear_def\<close>)
qed

lemma bitvec_set_result:
  assumes "bv_ok p" and "1 \<le> i" and "i \<le> iSize p" and "sqlite3BitvecSet (Some p) i m = Some (rc, Some q, m')"
  shows "bv_ok q \<and> iSize q = iSize p \<and> (rc = SQLITE_OK \<or> rc = SQLITE_NOMEM \<and> m \<noteq> [])"
    and "rc = SQLITE_OK \<Longrightarrow> j < 2 ^ 32 \<Longrightarrow>
      sqlite3BitvecTest (Some q) j = (if j = i then Some True else sqlite3BitvecTest (Some p) j)"
    and "j < 2 ^ 32 \<Longrightarrow> sqlite3BitvecTest (Some q) j = Some True \<Longrightarrow>
      j = i \<or> sqlite3BitvecTest (Some p) j = Some True"
  by (rule bitvec_set [OF assms(1-3), of m j], use assms(4) in auto)+

lemma bitvec_clear_result:
  assumes "bv_ok p" and "1 \<le> i" and "i \<le> iSize p" and "sqlite3BitvecClear (Some p) i = Some (Some q)"
  shows "bv_ok q \<and> iSize q = iSize p"
    and "j < 2 ^ 32 \<Longrightarrow> sqlite3BitvecTest (Some q) j = (if j = i then Some False else sqlite3BitvecTest (Some p) j)"
  by (rule bitvec_clear [OF assms(1-3), of j], use assms(4) in simp)+

definition bv_inv :: "nat \<Rightarrow> Bitvec \<Rightarrow> bool" where
  "bv_inv N p \<longleftrightarrow> bv_ok p \<and> iSize p = N"

definition bv_find :: "Bitvec \<Rightarrow> nat \<Rightarrow> unit option" where
  "bv_find p i = (if sqlite3BitvecTest (Some p) i = Some True then Some () else None)"

definition bv_store :: "nat \<Rightarrow> Bitvec \<Rightarrow> nat \<Rightarrow> unit option \<Rightarrow> Bitvec \<Rightarrow> bool" where
  "bv_store N p i v q \<longleftrightarrow> 1 \<le> i \<and> i \<le> N \<and>
     (case v of
        Some _ \<Rightarrow> (\<exists>m m'. sqlite3BitvecSet (Some p) i m = Some (SQLITE_OK, Some q, m'))
      | None \<Rightarrow> sqlite3BitvecClear (Some p) i = Some (Some q))"

interpretation bitvec: assoc_map "bv_inv N" "\<lambda>i. i < 2 ^ 32" id bv_find "bv_store N" for N
proof
  fix p i v q j
  assume p: "bv_inv N p" and st: "bv_store N p i v q"
  have i: "bv_ok p" "iSize p = N" "1 \<le> i" "i \<le> iSize p" using p st by (simp_all add: bv_inv_def bv_store_def)
  consider (set) m m' where "v = Some ()" "sqlite3BitvecSet (Some p) i m = Some (SQLITE_OK, Some q, m')"
    | (clear) "v = None" "sqlite3BitvecClear (Some p) i = Some (Some q)"
    using st by (auto simp: bv_store_def split: option.splits)
  note cases = this
  show "bv_inv N q"
    using cases bitvec_set_result(1) [OF i(1,3,4)] bitvec_clear_result(1) [OF i(1,3,4)] i(2)
    by cases (simp_all add: bv_inv_def)
  show "bv_find q j = (if id j = id i then v else bv_find p j)" if "j < 2 ^ 32"
    using cases bitvec_set_result(2) [OF i(1,3,4) _ refl that] bitvec_clear_result(2) [OF i(1,3,4) _ that]
    by cases (simp_all add: bv_find_def)
qed

lemma bv_store_ex:
  assumes "bv_inv N p" and "1 \<le> i" and "i \<le> N"
  shows "\<exists>q. bv_store N p i v q \<and> bv_inv N q"
proof -
  have p: "bv_ok p" "i \<le> iSize p" "iSize p = N" using assms by (simp_all add: bv_inv_def)
  have "\<exists>q. bv_store N p i v q"
  proof (cases v)
    case None
    then show ?thesis
      using assms(2,3) by (auto simp: bv_store_def intro: bitvec_clear [OF p(1) assms(2) p(2)])
  next
    case (Some u)
    have "\<exists>q m'. sqlite3BitvecSet (Some p) i [] = Some (SQLITE_OK, Some q, m')"
      by (rule bitvec_set [OF p(1) assms(2) p(2), of "[]"]) auto
    then show ?thesis using Some assms(2,3) by (auto simp: bv_store_def)
  qed
  then show ?thesis using bitvec.store_inv [OF assms(1)] by blast
qed

section \<open>Properties\<close>

text \<open>
  C34: \<^verbatim>\<open>sqlite3BitvecSet\<close> always returns: its recursion, its splitting of a full hash table and its
  probing end for every size that a \<^verbatim>\<open>u32\<close> can hold, whatever the allocator answers. The
  result keeps the invariant and the size. On success exactly the bit \<open>i\<close> has been added; the only
  other answer is out-of-memory, which needs a refused allocation, and then no bit appears that was
  not there or asked for.
\<close>

theorem bitvec_set_returns:
  assumes "bv_ok p" and "1 \<le> i" and "i \<le> iSize p"
  shows "\<exists>rc q m'. sqlite3BitvecSet (Some p) i m = Some (rc, Some q, m') \<and> bv_ok q \<and> iSize q = iSize p
    \<and> (rc = SQLITE_OK \<or> rc = SQLITE_NOMEM \<and> m \<noteq> [])
    \<and> (rc = SQLITE_OK \<longrightarrow> (\<forall>j < 2 ^ 32. sqlite3BitvecTest (Some q) j =
         (if j = i then Some True else sqlite3BitvecTest (Some p) j)))
    \<and> (\<forall>j < 2 ^ 32. sqlite3BitvecTest (Some q) j = Some True \<longrightarrow>
         j = i \<or> sqlite3BitvecTest (Some p) j = Some True)"
proof -
  obtain rc q m' where q: "sqlite3BitvecSet (Some p) i m = Some (rc, Some q, m')"
    using bitvec_set [OF assms, of m] by blast
  show ?thesis
    using bitvec_set_result [OF assms q] q by blast
qed

text \<open>A bitmap of five thousand bits, and one whose every allocation fails.\<close>

theorem bitvec_set_returns_witness:
  "\<exists>rc q m'. sqlite3BitvecSet (Some (bv_new 5000)) 4000 [False] = Some (rc, Some q, m') \<and> bv_ok q
    \<and> (rc = SQLITE_OK \<longrightarrow> sqlite3BitvecTest (Some q) 4000 = Some True)"
proof -
  have "bv_ok (bv_new 5000)" "iSize (bv_new 5000) = 5000"
    by (rule bv_ok_new) (simp_all add: bv_max_def bv_new_def)
  then show ?thesis
    using bitvec_set_returns [of "bv_new 5000" 4000 "[False]"] by auto
qed

text \<open>
  C35: A bitmap is a set of the numbers 1 to \<open>N\<close>. After any sequence of successful settings and
  clearings of a fresh bitmap, \<^verbatim>\<open>sqlite3BitvecTest\<close> gives for every 32-bit number, 0 and numbers
  beyond the size included, what the last operation on it left, whichever of the three
  representations (bitmap, hash table, tree of sub-bitmaps) each part of it has reached.
\<close>

theorem bitvec_last_write:
  assumes "N \<le> bv_max" and "stores (bv_store N) (bv_new N) ops p" and "j < 2 ^ 32"
  shows "sqlite3BitvecTest (Some p) j = Some (fold (\<lambda>(i, v) r. if j = i then v \<noteq> None else r) ops False)"
proof -
  have new: "bv_inv N (bv_new N)" using bv_ok_new [OF assms(1)] by (simp add: bv_inv_def bv_new_def)
  have p: "bv_inv N p" using bitvec.stores_inv [OF assms(2) new] .
  have f: "(fold (\<lambda>(i, v) r. if j = i then v else r) ops x \<noteq> None) =
      fold (\<lambda>(i, v) r. if j = i then v \<noteq> None else r) ops (x \<noteq> None)" for x :: "unit option"
    by (induction ops arbitrary: x) (auto simp: split_beta)
  have "bv_find (bv_new N) j = None"
    using new bitvec_test [of "bv_new N" j] assms(3) by (simp add: bv_find_def bv_inv_def)
  then have "bv_find p j = fold (\<lambda>(i, v) r. if j = i then v else r) ops None"
    using bitvec.stores_last_write [OF assms(2) new assms(3)] by simp
  then show ?thesis
    using f [of None] p bitvec_test [of p j] assms(3) by (auto simp: bv_find_def bv_inv_def split: if_splits)
qed

text \<open>Two bits of a bitmap set, one cleared again.\<close>

theorem bitvec_last_write_witness:
  "\<exists>p. stores (bv_store 5000) (bv_new 5000) [(3, Some ()), (7, Some ()), (3, None)] p
    \<and> sqlite3BitvecTest (Some p) 3 = Some False \<and> sqlite3BitvecTest (Some p) 7 = Some True"
proof -
  have "bv_inv 5000 (bv_new 5000)" using bv_ok_new [of 5000] by (simp add: bv_inv_def bv_new_def bv_max_def)
  then obtain p1 where 1: "bv_store 5000 (bv_new 5000) 3 (Some ()) p1" "bv_inv 5000 p1"
    using bv_store_ex [of 5000 _ 3] by auto
  obtain p2 where 2: "bv_store 5000 p1 7 (Some ()) p2" "bv_inv 5000 p2"
    using bv_store_ex [OF 1(2), of 7] by auto
  obtain p where "bv_store 5000 p2 3 None p" using bv_store_ex [OF 2(2), of 3] by auto
  then have "stores (bv_store 5000) (bv_new 5000) [(3, Some ()), (7, Some ()), (3, None)] p"
    using 1(1) 2(1) by auto
  moreover from this have "sqlite3BitvecTest (Some p) 3 = Some False" "sqlite3BitvecTest (Some p) 7 = Some True"
    by (subst bitvec_last_write [of 5000 "[(3, Some ()), (7, Some ()), (3, None)]" p]; simp add: bv_max_def)+
  ultimately show ?thesis by blast
qed

end
