(* ===== verification/RecordFmt.thy ===== *)
theory RecordFmt
  imports Varint Utf
begin

text \<open>
  The record format: the serial types of \<^verbatim>\<open>src/vdbeaux.c\<close> (which type a value gets, how its content is
  written and read), the instruction \<^verbatim>\<open>OP_MakeRecord\<close> of \<^verbatim>\<open>src/vdbe.c\<close>, which builds a record from
  registers, and \<^verbatim>\<open>sqlite3VdbeRecordUnpack\<close>, which takes one apart.

  A register is the string part of a \<^verbatim>\<open>Mem\<close> with the 64 bits that its union holds as an \<^verbatim>\<open>i64\<close> or a
  \<^verbatim>\<open>double\<close> (\<open>nZero\<close>, the other use of the union, is a field of the string part: no register is an
  integer and a zero-filled blob at once) and the \<^verbatim>\<open>uTemp\<close> that the instruction keeps its type in.
  Buffers are byte lists whose every access is checked.
\<close>

section \<open>Values\<close>

definition MEM_Int :: u16 where "MEM_Int = 0x0004"
definition MEM_Real :: u16 where "MEM_Real = 0x0008"

record Val =
  val_mem :: Mem
  val_u :: u64
  val_uTemp :: u32

text \<open>A \<^verbatim>\<open>double\<close> is the 64 bits of its IEEE format, in which a NaN differs from itself.\<close>

definition sqlite3IsNaN :: "u64 \<Rightarrow> bool" where
  "sqlite3IsNaN r \<longleftrightarrow> drop_bit 52 r AND 0x7ff = 0x7ff \<and> r AND 0xfffffffffffff \<noteq> 0"

section \<open>Serial types\<close>

definition MAX_6BYTE :: u64 where
  "MAX_6BYTE = push_bit 32 0x00008000 - 1"

definition sqlite3VdbeSerialType :: "Val \<Rightarrow> int \<Rightarrow> u32 \<times> u32" where
  "sqlite3VdbeSerialType v file_format =
     (let flags = mem_flags (val_mem v) in
      if flags AND MEM_Null \<noteq> 0 then (0, 0)
      else if flags AND MEM_Int \<noteq> 0 then
        let i = val_u v; u = (if i <s 0 then NOT i else i) in
        if u \<le> 127 then
          if i AND 1 = i \<and> file_format \<ge> 4 then (8 + ucast u, 0) else (1, 1)
        else if u \<le> 32767 then (2, 2)
        else if u \<le> 8388607 then (3, 3)
        else if u \<le> 2147483647 then (4, 4)
        else if u \<le> MAX_6BYTE then (5, 6)
        else (6, 8)
      else if flags AND MEM_Real \<noteq> 0 then (7, 8)
      else
        let n = word_of_nat (mem_n (val_mem v));
            n = (if flags AND MEM_Zero \<noteq> 0 then n + word_of_nat (mem_nZero (val_mem v)) else n)
        in (n * 2 + 12 + (if flags AND MEM_Str \<noteq> 0 then 1 else 0), n))"

definition sqlite3SmallTypeSizes :: "u8 list" where
  "sqlite3SmallTypeSizes = [
     0,  1,  2,  3,  4,  6,  8,  8,  0,  0,
     0,  0,  0,  0,  1,  1,  2,  2,  3,  3,
     4,  4,  5,  5,  6,  6,  7,  7,  8,  8,
     9,  9, 10, 10, 11, 11, 12, 12, 13, 13,
    14, 14, 15, 15, 16, 16, 17, 17, 18, 18,
    19, 19, 20, 20, 21, 21, 22, 22, 23, 23,
    24, 24, 25, 25, 26, 26, 27, 27, 28, 28,
    29, 29, 30, 30, 31, 31, 32, 32, 33, 33,
    34, 34, 35, 35, 36, 36, 37, 37, 38, 38,
    39, 39, 40, 40, 41, 41, 42, 42, 43, 43,
    44, 44, 45, 45, 46, 46, 47, 47, 48, 48,
    49, 49, 50, 50, 51, 51, 52, 52, 53, 53,
    54, 54, 55, 55, 56, 56, 57, 57]"

definition sqlite3VdbeSerialTypeLen :: "u32 \<Rightarrow> u32" where
  "sqlite3VdbeSerialTypeLen serial_type =
     (if serial_type \<ge> 128 then (serial_type - 12) div 2
      else ucast (sqlite3SmallTypeSizes ! unat serial_type))"

text \<open>The argument of the one-byte routine is below 128, as its assertion says.\<close>

definition sqlite3VdbeOneByteSerialTypeLen :: "u8 \<Rightarrow> u8 option" where
  "sqlite3VdbeOneByteSerialTypeLen serial_type = rd sqlite3SmallTypeSizes (unat serial_type)"

section \<open>Writing a value\<close>

text \<open>
  \<^verbatim>\<open>do{ buf[--i] = (u8)(v&0xFF); v >>= 8; }while( i );\<close> with \<open>buf\<close> the address \<open>off\<close> in a buffer. The
  functions that write return the buffer, and \<open>None\<close> for an access outside it.
\<close>

fun put_loop :: "u8 list \<Rightarrow> nat \<Rightarrow> nat \<Rightarrow> u64 \<Rightarrow> u8 list option" where
  "put_loop buf off 0 v = None"
| "put_loop buf off (Suc i) v = do {
     buf \<leftarrow> wr buf (off + i) (ucast (v AND 0xFF));
     if i = 0 then Some buf else put_loop buf off i (drop_bit 8 v) }"

definition sqlite3VdbeSerialPut :: "u8 list \<Rightarrow> nat \<Rightarrow> Val \<Rightarrow> u32 \<Rightarrow> (u8 list \<times> nat) option" where
  "sqlite3VdbeSerialPut buf off v serial_type =
     (if serial_type \<le> 7 \<and> serial_type > 0 then do {
        len \<leftarrow> map_option unat (rd sqlite3SmallTypeSizes (unat serial_type));
        buf \<leftarrow> put_loop buf off len (val_u v);
        Some (buf, len) }
      else if serial_type \<ge> 12 then
        let len = mem_n (val_mem v) in
        if len > 0 then
          if length (mem_z (val_mem v)) < len then None
          else map_option (\<lambda>buf. (buf, len)) (wrs buf off (take len (mem_z (val_mem v))))
        else Some (buf, len)
      else Some (buf, 0))"

section \<open>Reading a value\<close>

text \<open>
  The integer macros: \<open>(i8)\<close> sign-extends, the arithmetic is in \<^verbatim>\<open>int\<close> and does not overflow.
\<close>

definition ONE_BYTE_INT :: "u8 list \<Rightarrow> u32 option" where
  "ONE_BYTE_INT x = do { x0 \<leftarrow> rd x 0; Some (scast x0) }"

definition TWO_BYTE_INT :: "u8 list \<Rightarrow> u32 option" where
  "TWO_BYTE_INT x = do { x0 \<leftarrow> rd x 0; x1 \<leftarrow> rd x 1; Some (256 * scast x0 OR ucast x1) }"

definition THREE_BYTE_INT :: "u8 list \<Rightarrow> u32 option" where
  "THREE_BYTE_INT x = do { x0 \<leftarrow> rd x 0; x1 \<leftarrow> rd x 1; x2 \<leftarrow> rd x 2;
     Some (65536 * scast x0 OR push_bit 8 (ucast x1) OR ucast x2) }"

definition FOUR_BYTE_UINT :: "u8 list \<Rightarrow> u32 option" where
  "FOUR_BYTE_UINT x = do { x0 \<leftarrow> rd x 0; x1 \<leftarrow> rd x 1; x2 \<leftarrow> rd x 2; x3 \<leftarrow> rd x 3;
     Some (push_bit 24 (ucast x0) OR push_bit 16 (ucast x1) OR push_bit 8 (ucast x2) OR ucast x3) }"

definition FOUR_BYTE_INT :: "u8 list \<Rightarrow> u32 option" where
  "FOUR_BYTE_INT x = do { x0 \<leftarrow> rd x 0; x1 \<leftarrow> rd x 1; x2 \<leftarrow> rd x 2; x3 \<leftarrow> rd x 3;
     Some (16777216 * scast x0 OR push_bit 16 (ucast x1) OR push_bit 8 (ucast x2) OR ucast x3) }"

text \<open>An integer of a type is the \<^verbatim>\<open>int\<close> widened to \<^verbatim>\<open>i64\<close>: \<open>mem_int\<close> stores it with its flag.\<close>

definition mem_int :: "Val \<Rightarrow> u64 \<Rightarrow> Val" where
  "mem_int v i = v\<lparr>val_u := i, val_mem := (val_mem v)\<lparr>mem_flags := MEM_Int\<rparr>\<rparr>"

definition serialGet :: "u8 list \<Rightarrow> u32 \<Rightarrow> Val \<Rightarrow> (Val \<times> nat) option" where
  "serialGet buf serial_type v = do {
     x \<leftarrow> FOUR_BYTE_UINT buf;
     y \<leftarrow> FOUR_BYTE_UINT (drop 4 buf);
     let x = (push_bit 32 (ucast x) + ucast y :: u64);
     if serial_type = 6 then Some (mem_int v x, 8)
     else Some (v\<lparr>val_u := x,
            val_mem := (val_mem v)\<lparr>mem_flags := (if sqlite3IsNaN x then MEM_Null else MEM_Real)\<rparr>\<rparr>, 8) }"

definition sqlite3VdbeSerialGet :: "u8 list \<Rightarrow> u32 \<Rightarrow> Val \<Rightarrow> (Val \<times> nat) option" where
  "sqlite3VdbeSerialGet buf serial_type v =
     (if serial_type = 10 then
        Some (v\<lparr>val_mem := (val_mem v)\<lparr>mem_flags := MEM_Null OR MEM_Zero, mem_n := 0, mem_nZero := 0\<rparr>\<rparr>, 0)
      else if serial_type = 11 \<or> serial_type = 0 then
        Some (v\<lparr>val_mem := (val_mem v)\<lparr>mem_flags := MEM_Null\<rparr>\<rparr>, 0)
      else if serial_type = 1 then map_option (\<lambda>i. (mem_int v (scast i), 1)) (ONE_BYTE_INT buf)
      else if serial_type = 2 then map_option (\<lambda>i. (mem_int v (scast i), 2)) (TWO_BYTE_INT buf)
      else if serial_type = 3 then map_option (\<lambda>i. (mem_int v (scast i), 3)) (THREE_BYTE_INT buf)
      else if serial_type = 4 then map_option (\<lambda>i. (mem_int v (scast i), 4)) (FOUR_BYTE_INT buf)
      else if serial_type = 5 then do {
        lo \<leftarrow> FOUR_BYTE_UINT (drop 2 buf);
        hi \<leftarrow> TWO_BYTE_INT buf;
        Some (mem_int v (ucast lo + push_bit 32 1 * scast hi), 6) }
      else if serial_type = 6 \<or> serial_type = 7 then serialGet buf serial_type v
      else if serial_type = 8 \<or> serial_type = 9 then Some (mem_int v (ucast (serial_type - 8)), 0)
      else
        let n = unat ((serial_type - 12) div 2) in
        Some (v\<lparr>val_mem := (val_mem v)\<lparr>mem_z := buf, mem_n := n, mem_own := False,
            mem_block := (if mem_own (val_mem v) then mem_z (val_mem v) else mem_block (val_mem v)),
            mem_flags := (if serial_type AND 1 = 0 then MEM_Blob OR MEM_Ephem else MEM_Str OR MEM_Ephem)\<rparr>\<rparr>, n))"

section \<open>Making a record\<close>

datatype op_error = no_mem | too_big

text \<open>
  The type, the string part, the trailing zeros so far and the length of one register. A zero-filled
  blob is expanded if a later register has content. \<open>alloc\<close> is what the allocator answers.
\<close>

definition make_size ::
  "int \<Rightarrow> (nat \<Rightarrow> u8 list option) \<Rightarrow> Val \<Rightarrow> nat \<Rightarrow> nat \<Rightarrow> (op_error + u32 \<times> Mem \<times> nat \<times> u32) option"
where
  "make_size file_format alloc pRec nData nZero =
     (let (serial_type, len) = sqlite3VdbeSerialType pRec file_format; m = val_mem pRec in
      if mem_flags m AND MEM_Zero \<noteq> 0 then
        if serial_type = 0 then Some (Inr (10, m, nZero, len))
        else if nData \<noteq> 0 then do {
          (rc, m) \<leftarrow> sqlite3VdbeMemExpandBlob m alloc;
          Some (if rc \<noteq> SQLITE_OK then Inl no_mem else Inr (serial_type, m, nZero, len)) }
        else Some (Inr (serial_type, m, nZero + mem_nZero m, len - word_of_nat (mem_nZero m)))
      else Some (Inr (serial_type, m, nZero, len)))"

text \<open>
  The first loop, from the last register to the first: \<open>make_sizes\<close> gets the registers in reverse,
  and returns them in their order, with the number of bytes of content, of trailing zeros and of
  serial types.
\<close>

fun make_sizes ::
  "int \<Rightarrow> (nat \<Rightarrow> u8 list option) \<Rightarrow> Val list \<Rightarrow> Val list \<times> nat \<times> nat \<times> nat
    \<Rightarrow> (op_error + Val list \<times> nat \<times> nat \<times> nat) option"
where
  "make_sizes file_format alloc [] acc = Some (Inr acc)"
| "make_sizes file_format alloc (pRec # below) (done, nData, nZero, nHdr) = do {
     r \<leftarrow> make_size file_format alloc pRec nData nZero;
     (case r of
        Inl e \<Rightarrow> Some (Inl e)
      | Inr (serial_type, m, nZero, len) \<Rightarrow>
          make_sizes file_format alloc below
            (pRec\<lparr>val_mem := m, val_uTemp := serial_type\<rparr> # done, nData + unat len, nZero,
             nHdr + (if serial_type \<le> 127 then 1 else sqlite3VarintLen (ucast serial_type)))) }"

text \<open>The size of the header with its own length in front.\<close>

definition make_header_size :: "nat \<Rightarrow> nat" where
  "make_header_size nHdr =
     (if nHdr \<le> 126 then nHdr + 1
      else let nVarint = sqlite3VarintLen (word_of_nat nHdr); nHdr = nHdr + nVarint in
        if nVarint < sqlite3VarintLen (word_of_nat nHdr) then nHdr + 1 else nHdr)"

text \<open>The loop that writes a type at \<open>i\<close> and a content at \<open>j\<close> for every register.\<close>

fun make_write :: "Val list \<Rightarrow> u8 list \<Rightarrow> nat \<Rightarrow> nat \<Rightarrow> (u8 list \<times> nat \<times> nat) option" where
  "make_write [] buf i j = Some (buf, i, j)"
| "make_write (pRec # rs) buf i j = do {
     let serial_type = val_uTemp pRec;
     buf \<leftarrow> wrs buf i (fst (putVarint32 serial_type));
     (buf, k) \<leftarrow> sqlite3VdbeSerialPut buf j pRec serial_type;
     make_write rs buf (i + snd (putVarint32 serial_type)) (j + k) }"

definition sqlite3VdbeMemClearAndResize :: "Mem \<Rightarrow> nat \<Rightarrow> (nat \<Rightarrow> u8 list option) \<Rightarrow> (nat \<times> Mem) option" where
  "sqlite3VdbeMemClearAndResize m szNew alloc =
     (if szMalloc m < szNew then sqlite3VdbeMemGrow m szNew False alloc
      else let m = use_block m in Some (SQLITE_OK, m\<lparr>mem_flags := mem_flags m AND (MEM_Null OR MEM_Int OR MEM_Real)\<rparr>))"

text \<open>
  The instruction, for registers whose affinities have been applied. \<open>limit\<close> is
  \<^verbatim>\<open>db->aLimit[SQLITE_LIMIT_LENGTH]\<close>.
\<close>

definition OP_MakeRecord ::
  "Val list \<Rightarrow> int \<Rightarrow> nat \<Rightarrow> Mem \<Rightarrow> (nat \<Rightarrow> u8 list option) \<Rightarrow> (op_error + Mem) option"
where
  "OP_MakeRecord pData file_format limit pOut alloc = do {
     r \<leftarrow> make_sizes file_format alloc (rev pData) ([], 0, 0, 0);
     (case r of
        Inl e \<Rightarrow> Some (Inl e)
      | Inr (pData, nData, nZero, nHdr) \<Rightarrow> do {
          let nHdr = make_header_size nHdr;
          let nByte = nHdr + nData;
          r \<leftarrow> (if nByte + nZero \<le> szMalloc pOut then Some (Inr (use_block pOut))
               else if nByte + nZero > limit then Some (Inl too_big)
               else do {
                 (rc, pOut) \<leftarrow> sqlite3VdbeMemClearAndResize pOut nByte alloc;
                 Some (if rc \<noteq> SQLITE_OK then Inl no_mem else Inr pOut) });
          (case r of
             Inl e \<Rightarrow> Some (Inl e)
           | Inr pOut \<Rightarrow> do {
               buf \<leftarrow> wrs (mem_z pOut) 0 (fst (putVarint32 (word_of_nat nHdr)));
               (buf, i, j) \<leftarrow> make_write pData buf (snd (putVarint32 (word_of_nat nHdr))) nHdr;
               let pOut = pOut\<lparr>mem_z := buf, mem_n := nByte, mem_flags := MEM_Blob\<rparr>;
               Some (Inr (if nZero \<noteq> 0
                          then pOut\<lparr>mem_nZero := nZero, mem_flags := mem_flags pOut OR MEM_Zero\<rparr>
                          else pOut)) }) }) }"

section \<open>Unpacking a record\<close>

text \<open>
  The loop over the fields. \<open>aMem\<close> are the cells of the unpacked record: at most as many fields are
  read. \<open>d\<close> is a \<^verbatim>\<open>u32\<close>.
\<close>

fun unpack_loop ::
  "u8 \<Rightarrow> nat \<Rightarrow> u8 list \<Rightarrow> u32 \<Rightarrow> Val list \<Rightarrow> u32 \<Rightarrow> u32 \<Rightarrow> (Val list \<times> u32) option"
where
  "unpack_loop enc nKey aKey szHdr [] idx d = Some ([], d)"
| "unpack_loop enc nKey aKey szHdr (pMem # aMem) idx d =
     (if idx < szHdr \<and> d \<le> word_of_nat nKey then do {
        (serial_type, k) \<leftarrow> getVarint32 (drop (unat idx) aKey);
        let pMem = pMem\<lparr>val_mem := (val_mem pMem)\<lparr>mem_enc := enc, mem_own := False, mem_block := [], mem_z := []\<rparr>\<rparr>;
        (pMem, len) \<leftarrow> sqlite3VdbeSerialGet (drop (unat d) aKey) serial_type pMem;
        (vs, d) \<leftarrow> unpack_loop enc nKey aKey szHdr aMem (idx + word_of_nat k) (d + word_of_nat len);
        Some (pMem # vs, d) }
      else Some ([], d))"

text \<open>\<^verbatim>\<open>sqlite3VdbeMemSetNull\<close> on a cell that owns nothing.\<close>

definition mem_set_null :: "Val \<Rightarrow> Val" where
  "mem_set_null v = v\<lparr>val_mem := (val_mem v)\<lparr>mem_flags := MEM_Null\<rparr>\<rparr>"

text \<open>The cells that were filled; their number is the new \<^verbatim>\<open>nField\<close>.\<close>

definition sqlite3VdbeRecordUnpack :: "u8 \<Rightarrow> nat \<Rightarrow> u8 list \<Rightarrow> Val list \<Rightarrow> Val list option" where
  "sqlite3VdbeRecordUnpack enc nKey aKey aMem = do {
     (szHdr, idx) \<leftarrow> getVarint32 aKey;
     (vs, d) \<leftarrow> unpack_loop enc nKey aKey szHdr aMem (word_of_nat idx) szHdr;
     Some (if d > word_of_nat nKey \<and> vs \<noteq> [] then butlast vs @ [mem_set_null (List.last vs)] else vs) }"

end
