(* ===== verification/RecordFacts.thy ===== *)
theory RecordFacts
  imports RecordFmt UtfText
begin

text \<open>
  Facts about the record format. Every value is read back from its serial type and content; a record
  is the concatenation of its types and contents, whatever the registers; unpacking a record gives
  the values that were packed; unpacking any bytes at all reads at most eight bytes beyond the record.
\<close>

section \<open>The bytes of an integer\<close>

text \<open>The \<open>k\<close> low bytes of a word, most significant first.\<close>

primrec be :: "nat \<Rightarrow> u64 \<Rightarrow> u8 list" where
  "be 0 v = []"
| "be (Suc k) v = be k (drop_bit 8 v) @ [ucast (v AND 0xFF)]"

lemma length_be [simp]: "length (be k v) = k"
  by (induction k arbitrary: v) simp_all

lemma wrs_update:
  "off + length bs < length buf \<Longrightarrow> wrs (buf[off + length bs := b]) off bs = wrs buf off (bs @ [b])"
proof -
  assume l: "off + length bs < length buf"
  then have "take off (buf[off + length bs := b]) = take off buf"
    "drop (off + length bs) (buf[off + length bs := b]) = b # drop (Suc (off + length bs)) buf"
    by (simp_all add: drop_update_swap Cons_nth_drop_Suc [symmetric])
  then show ?thesis using l by (simp add: wrs_def)
qed

lemma put_loop_be: "0 < k \<Longrightarrow> off + k \<le> length buf \<Longrightarrow> put_loop buf off k v = wrs buf off (be k v)"
proof (induction k arbitrary: buf v)
  case (Suc k)
  have "put_loop (buf[off + k := ucast (v AND 0xFF)]) off k (drop_bit 8 v)
      = wrs (buf[off + k := ucast (v AND 0xFF)]) off (be k (drop_bit 8 v))" if "0 < k"
    using that Suc by simp
  moreover have "wrs (buf[off + k := b]) off (be k w) = wrs buf off (be k w @ [b])" for w b
    using wrs_update [of off "be k w" buf b] Suc by simp
  ultimately show ?case
    using Suc by (cases "k = 0") (auto simp: wrs_def list_update_append upd_conv_take_nth_drop)
qed simp

text \<open>What the readers make of them.\<close>

lemma mult_push: "(256 :: 'a :: len word) * w = push_bit 8 w" "(65536 :: 'a word) * w = push_bit 16 w"
  "(16777216 :: 'a word) * w = push_bit 24 w"
  by (simp_all add: push_bit_eq_mult mult.commute)

lemmas int_reads = ONE_BYTE_INT_def TWO_BYTE_INT_def THREE_BYTE_INT_def FOUR_BYTE_INT_def FOUR_BYTE_UINT_def mult_push

lemma be_lists:
  "be 1 v = [ucast (v AND 0xFF)]"
  "be 2 v = [ucast (drop_bit 8 v AND 0xFF), ucast (v AND 0xFF)]"
  "be 3 v = [ucast (drop_bit 16 v AND 0xFF), ucast (drop_bit 8 v AND 0xFF), ucast (v AND 0xFF)]"
  "be 4 v = [ucast (drop_bit 24 v AND 0xFF), ucast (drop_bit 16 v AND 0xFF), ucast (drop_bit 8 v AND 0xFF),
     ucast (v AND 0xFF)]"
  by (simp_all add: eval_nat_numeral drop_bit_drop_bit)

lemma get_1: "map_option scast (ONE_BYTE_INT (be 1 v @ r)) = Some (signed_take_bit 7 v)"
  unfolding int_reads be_lists by simp (rule eq64_by_bits, simp add: upt_64 bit_simps bitpos)

lemma get_2: "map_option scast (TWO_BYTE_INT (be 2 v @ r)) = Some (signed_take_bit 15 v)"
  unfolding int_reads be_lists by simp (rule eq64_by_bits, simp add: upt_64 bit_simps bitpos)

lemma get_3: "map_option scast (THREE_BYTE_INT (be 3 v @ r)) = Some (signed_take_bit 23 v)"
  unfolding int_reads be_lists by simp (rule eq64_by_bits, simp add: upt_64 bit_simps bitpos)

lemma get_4: "map_option scast (FOUR_BYTE_INT (be 4 v @ r)) = Some (signed_take_bit 31 v)"
  unfolding int_reads be_lists by simp (rule eq64_by_bits, simp add: upt_64 bit_simps bitpos)

lemma get_4u: "FOUR_BYTE_UINT (be 4 v @ r) = Some (ucast v)"
  unfolding int_reads be_lists by simp (rule eq32_by_bits, simp add: upt_32 bit_simps bitpos)

lemma be_append: "be (j + k) v = be j (drop_bit (8 * k) v) @ be k v"
  by (induction k arbitrary: v) (simp_all add: drop_bit_drop_bit add.commute)

lemma be_split: "be 6 v = be 2 (drop_bit 32 v) @ be 4 v" "be 8 v = be 4 (drop_bit 32 v) @ be 4 v"
  using be_append [of 2 4 v] be_append [of 4 4 v] by simp_all

lemma drop_be: "drop 2 (be 6 v) = be 4 v" "drop 4 (be 8 v) = be 4 v"
  by (simp_all add: be_split)

lemma two_halves:
  "ucast (ucast v :: u32) + push_bit 32 (signed_take_bit 15 (drop_bit 32 v)) = signed_take_bit 47 (v :: u64)" (is ?six)
  "push_bit 32 (ucast (ucast (drop_bit 32 v) :: u32)) + ucast (ucast v :: u32) = (v :: u64)" (is ?eight)
proof -
  have "ucast (ucast v :: u32) AND push_bit 32 w = (0 :: u64)" for w
    by (rule eq64_by_bits) (simp add: upt_64 bit_simps)
  then have or: "ucast (ucast v :: u32) + push_bit 32 w = (ucast (ucast v :: u32) OR push_bit 32 w :: u64)" for w
    by (rule disjunctive_add_eq_or)
  show ?six unfolding or by (rule eq64_by_bits) (simp add: upt_64 bit_simps)
  show ?eight unfolding add.commute [of "push_bit 32 _"] or by (rule eq64_by_bits) (simp add: upt_64 bit_simps)
qed

section \<open>The value of a register and its content\<close>

datatype sql_value = SNull | SInt int | SReal u64 | SText "u8 list" | SBlob "u8 list"

definition zeros :: "Val \<Rightarrow> nat" where
  "zeros v = (if mem_flags (val_mem v) AND MEM_Null = 0 \<and> mem_flags (val_mem v) AND MEM_Zero \<noteq> 0
              then mem_nZero (val_mem v) else 0)"

definition sql_value :: "Val \<Rightarrow> sql_value" where
  "sql_value v =
     (let m = val_mem v; f = mem_flags m in
      if f AND MEM_Null \<noteq> 0 then SNull
      else if f AND MEM_Int \<noteq> 0 then SInt (sint (val_u v))
      else if f AND MEM_Real \<noteq> 0 then (if sqlite3IsNaN (val_u v) then SNull else SReal (val_u v))
      else if f AND MEM_Str \<noteq> 0 then SText (take (mem_n m) (mem_z m))
      else SBlob (take (mem_n m) (mem_z m) @ replicate (zeros v) 0))"

text \<open>
  A register holds its bytes and at most \<open>2 ^ 30\<close> of them, zeros included; only a blob has zeros to
  append.
\<close>

definition ser_ok :: "Val \<Rightarrow> bool" where
  "ser_ok v \<longleftrightarrow>
     (let m = val_mem v; f = mem_flags m in
      f AND MEM_Null \<noteq> 0
      \<or> (f AND MEM_Int \<noteq> 0 \<or> f AND MEM_Real \<noteq> 0) \<and> f AND MEM_Zero = 0
      \<or> f AND MEM_Int = 0 \<and> f AND MEM_Real = 0 \<and> mem_n m \<le> length (mem_z m) \<and> mem_n m + zeros v < 2 ^ 30
        \<and> (f AND MEM_Str \<noteq> 0 \<longrightarrow> f AND MEM_Zero = 0))"

definition ser_type :: "Val \<Rightarrow> int \<Rightarrow> u32" where
  "ser_type v ff =
     (if mem_flags (val_mem v) AND MEM_Null \<noteq> 0 \<and> mem_flags (val_mem v) AND MEM_Zero \<noteq> 0 then 10
      else fst (sqlite3VdbeSerialType v ff))"

definition stored :: "Val \<Rightarrow> int \<Rightarrow> u8 list" where
  "stored v ff =
     (let m = val_mem v; f = mem_flags m in
      if f AND MEM_Null \<noteq> 0 then []
      else if f AND MEM_Int \<noteq> 0 \<or> f AND MEM_Real \<noteq> 0
      then be (unat (snd (sqlite3VdbeSerialType v ff))) (val_u v)
      else take (mem_n m) (mem_z m))"

definition content :: "Val \<Rightarrow> int \<Rightarrow> u8 list" where
  "content v ff = stored v ff @ replicate (zeros v) 0"

section \<open>Integers and reals\<close>

lemma sless_0_bit: "(v :: u64) <s 0 \<longleftrightarrow> bit v 63"
  by (simp add: word_sless_alt sint_uint signed_take_bit_negative_iff bit_uint_iff)

lemma signed_63: "signed_take_bit 63 (v :: u64) = v"
  by (rule bit_word_eqI) (simp add: bit_simps min_absorb2)

lemma small_signed:
  assumes "drop_bit k (if v <s 0 then NOT v else v) = 0" and "k < 64"
  shows "signed_take_bit k v = (v :: u64)"
proof (rule bit_word_eqI)
  fix n :: nat
  assume n: "n < LENGTH(64)"
  have out: "\<not> bit (if v <s 0 then NOT v else v) j" if "k \<le> j" for j
    using that arg_cong [OF assms(1), of "\<lambda>w. bit w (j - k)"] by (simp add: bit_drop_bit_eq)
  then have same: "bit v j = bit v 63" if "k \<le> j" "j < 64" for j
    using that out [of j] by (cases "bit v 63") (simp_all add: sless_0_bit bit_simps)
  have "bit v (min k n) = bit v n"
    using n assms(2) same [of n] same [of k] by (cases "n \<le> k") (simp_all add: min_def)
  then show "bit (signed_take_bit k v) n = bit v n" using n by (simp add: bit_simps)
qed

lemma le_mask_drop:
  "(u :: u64) \<le> 127 \<longleftrightarrow> drop_bit 7 u = 0" "u \<le> 32767 \<longleftrightarrow> drop_bit 15 u = 0" "u \<le> 8388607 \<longleftrightarrow> drop_bit 23 u = 0"
  "u \<le> 2147483647 \<longleftrightarrow> drop_bit 31 u = 0" "u \<le> MAX_6BYTE \<longleftrightarrow> drop_bit 47 u = 0"
  unfolding drop_bit_eq_0_iff MAX_6BYTE_def by (simp_all add: word_le_nat_alt less_Suc_eq_le [symmetric])

definition int_types :: "(u32 \<times> u32) set" where
  "int_types = {(1, 1), (2, 2), (3, 3), (4, 4), (5, 6), (6, 8)}"

lemma int_serial_type:
  assumes "mem_flags (val_mem v) AND MEM_Null = 0" and "mem_flags (val_mem v) AND MEM_Int \<noteq> 0"
  shows "(sqlite3VdbeSerialType v ff = (8, 0) \<and> val_u v = 0 \<or> sqlite3VdbeSerialType v ff = (9, 0) \<and> val_u v = 1)
    \<or> (\<exists>t len. sqlite3VdbeSerialType v ff = (t, len) \<and> (t, len) \<in> int_types
         \<and> signed_take_bit (8 * unat len - 1) (val_u v) = val_u v)"
proof -
  let ?i = "val_u v"
  let ?u = "if ?i <s 0 then NOT ?i else ?i"
  have T: "sqlite3VdbeSerialType v ff =
      (if drop_bit 7 ?u = 0 then if ?i AND 1 = ?i \<and> ff \<ge> 4 then (8 + ucast ?u, 0) else (1, 1)
       else if drop_bit 15 ?u = 0 then (2, 2) else if drop_bit 23 ?u = 0 then (3, 3)
       else if drop_bit 31 ?u = 0 then (4, 4) else if drop_bit 47 ?u = 0 then (5, 6) else (6, 8))"
    using assms by (simp only: sqlite3VdbeSerialType_def Let_def le_mask_drop if_not_P if_P not_not simp_thms)
  have one: "?i = 0 \<or> ?i = 1" if "?i AND 1 = ?i" using that by (metis and_one_eq mod_2_eq_odd of_bool_def)
  consider "drop_bit 7 ?u = 0" "?i AND 1 = ?i \<and> ff \<ge> 4" | "drop_bit 7 ?u = 0" "\<not> (?i AND 1 = ?i \<and> ff \<ge> 4)"
    | "drop_bit 7 ?u \<noteq> 0" by blast
  then show ?thesis
  proof cases
    case 1
    then show ?thesis using T one by (auto simp: sless_0_bit)
  next
    case 2
    then have "sqlite3VdbeSerialType v ff = (1, 1)" unfolding T by (simp only: if_P if_not_P simp_thms)
    then show ?thesis using small_signed [OF 2(1)] by (simp add: int_types_def)
  next
    case 3
    then show ?thesis
      using T small_signed [of 15 ?i] small_signed [of 23 ?i] small_signed [of 31 ?i] small_signed [of 47 ?i] signed_63
      by (simp add: int_types_def split del: if_split) (simp split: if_split)
  qed
qed

lemma get_int:
  assumes "(t, len) \<in> int_types"
  shows "sqlite3VdbeSerialGet (be (unat len) u @ r) t c = Some (mem_int c (signed_take_bit (8 * unat len - 1) u), unat len)"
proof -
  have "TWO_BYTE_INT (be 6 u @ r) = TWO_BYTE_INT (be 2 (drop_bit 32 u) @ (be 4 u @ r))"
    by (simp add: be_split)
  then obtain hi where hi: "TWO_BYTE_INT (be 6 u @ r) = Some hi" "scast hi = signed_take_bit 15 (drop_bit 32 u)"
    using get_2 [of "drop_bit 32 u" "be 4 u @ r"] by auto
  have hi8: "FOUR_BYTE_UINT (be 8 u @ r) = Some (ucast (drop_bit 32 u))"
    using get_4u [of "drop_bit 32 u" "be 4 u @ r"] by (simp add: be_split)
  note get = sqlite3VdbeSerialGet_def serialGet_def drop_be get_4u
  have 6: "sqlite3VdbeSerialGet (be 6 u @ r) 5 c = Some (mem_int c (signed_take_bit 47 u), 6)"
    using hi two_halves(1) [of u] by (simp add: get push_bit_eq_mult mult.commute)
  have 8: "sqlite3VdbeSerialGet (be 8 u @ r) 6 c = Some (mem_int c u, 8)"
    using hi8 two_halves(2) [of u] by (simp add: get)
  show ?thesis
    using assms get_1 [of u r] get_2 [of u r] get_3 [of u r] get_4 [of u r] 6 8 signed_63 [of u]
    unfolding int_types_def by (elim insertE) (auto simp: sqlite3VdbeSerialGet_def simp del: be.simps)
qed

lemma get_real:
  "sqlite3VdbeSerialGet (be 8 u @ r) 7 c =
    Some (c\<lparr>val_u := u, val_mem := (val_mem c)\<lparr>mem_flags := (if sqlite3IsNaN u then MEM_Null else MEM_Real)\<rparr>\<rparr>, 8)"
proof -
  have "FOUR_BYTE_UINT (be 8 u @ r) = Some (ucast (drop_bit 32 u))"
    using get_4u [of "drop_bit 32 u" "be 4 u @ r"] by (simp add: be_split)
  then show ?thesis
    using two_halves(2) [of u] by (simp add: sqlite3VdbeSerialGet_def serialGet_def drop_be get_4u)
qed

section \<open>Strings and blobs\<close>

text \<open>The type of a string or blob of \<open>n\<close> bytes.\<close>

definition bytes_type :: "nat \<Rightarrow> bool \<Rightarrow> u32" where
  "bytes_type n str = word_of_nat (2 * n + 12 + of_bool str)"

lemma unat_bytes_type: "n < 2 ^ 30 \<Longrightarrow> unat (bytes_type n str) = 2 * n + 12 + of_bool str"
  unfolding bytes_type_def unat_of_nat by (simp add: of_bool_def)

lemma bytes_type_facts:
  assumes "n < 2 ^ 30"
  shows "12 \<le> bytes_type n str" "bytes_type n str AND 1 = 0 \<longleftrightarrow> \<not> str" "unat ((bytes_type n str - 12) div 2) = n"
    "bytes_type n str \<noteq> 0"
proof -
  show 12: "12 \<le> bytes_type n str" using unat_bytes_type [OF assms] by (simp add: word_le_nat_alt)
  have "bytes_type n str AND 1 = 0 \<longleftrightarrow> even (unat (bytes_type n str))"
    using bit_unsigned_iff [of "bytes_type n str" 0, where 'a = nat] by (simp add: and_one_eq mod_2_eq_odd bit_0)
  then show "bytes_type n str AND 1 = 0 \<longleftrightarrow> \<not> str" unfolding unat_bytes_type [OF assms] by simp
  have "unat (bytes_type n str - 12) = 2 * n + of_bool str"
    using unat_sub [OF 12] unat_bytes_type [OF assms] by simp
  then show "unat ((bytes_type n str - 12) div 2) = n" by (simp add: unat_div)
  show "bytes_type n str \<noteq> 0" using 12 by auto
qed

lemma get_bytes:
  assumes "n < 2 ^ 30"
  shows "sqlite3VdbeSerialGet buf (bytes_type n str) c =
    Some (c\<lparr>val_mem := (val_mem c)\<lparr>mem_z := buf, mem_n := n, mem_own := False,
      mem_block := (if mem_own (val_mem c) then mem_z (val_mem c) else mem_block (val_mem c)),
      mem_flags := (if str then MEM_Str OR MEM_Ephem else MEM_Blob OR MEM_Ephem)\<rparr>\<rparr>, n)"
proof -
  have "bytes_type n str \<noteq> k" if "unat k < 12" for k
    using that unat_bytes_type [OF assms] by auto
  then show ?thesis
    using bytes_type_facts [OF assms] by (simp add: sqlite3VdbeSerialGet_def)
qed

section \<open>Every value\<close>

lemma ser_type_cases:
  assumes "ser_ok v"
  obtains (null) "mem_flags (val_mem v) AND MEM_Null \<noteq> 0" "ser_type v ff \<in> {0, 10}" "zeros v = 0"
    | (number) "mem_flags (val_mem v) AND MEM_Null = 0" "zeros v = 0"
        "mem_flags (val_mem v) AND MEM_Int \<noteq> 0 \<or> mem_flags (val_mem v) AND MEM_Int = 0 \<and> mem_flags (val_mem v) AND MEM_Real \<noteq> 0"
        "ser_type v ff = fst (sqlite3VdbeSerialType v ff)" "mem_flags (val_mem v) AND MEM_Zero = 0"
    | (bytes) "mem_flags (val_mem v) AND MEM_Null = 0" "mem_flags (val_mem v) AND MEM_Int = 0"
        "mem_flags (val_mem v) AND MEM_Real = 0" "mem_n (val_mem v) \<le> length (mem_z (val_mem v))"
        "mem_n (val_mem v) + zeros v < 2 ^ 30" "mem_flags (val_mem v) AND MEM_Str \<noteq> 0 \<longrightarrow> zeros v = 0"
        "ser_type v ff = bytes_type (mem_n (val_mem v) + zeros v) (mem_flags (val_mem v) AND MEM_Str \<noteq> 0)"
        "snd (sqlite3VdbeSerialType v ff) = word_of_nat (mem_n (val_mem v) + zeros v)"
proof -
  let ?f = "mem_flags (val_mem v)" and ?m = "val_mem v"
  consider "?f AND MEM_Null \<noteq> 0" | "?f AND MEM_Null = 0" "?f AND MEM_Int \<noteq> 0 \<or> ?f AND MEM_Real \<noteq> 0"
    | "?f AND MEM_Null = 0" "?f AND MEM_Int = 0" "?f AND MEM_Real = 0" by blast
  then show thesis
  proof cases
    case 1
    then show thesis by (intro null) (simp_all add: ser_type_def sqlite3VdbeSerialType_def zeros_def)
  next
    case 2
    then show thesis using assms by (intro number) (auto simp: ser_type_def ser_ok_def zeros_def Let_def)
  next
    case 3
    have n: "mem_n ?m + zeros v < 2 ^ 30" using assms 3 by (auto simp: ser_ok_def zeros_def Let_def)
    have "sqlite3VdbeSerialType v ff =
        (bytes_type (mem_n ?m + zeros v) (?f AND MEM_Str \<noteq> 0), word_of_nat (mem_n ?m + zeros v))"
      using 3 by (simp add: sqlite3VdbeSerialType_def Let_def zeros_def bytes_type_def algebra_simps)
    then show thesis using 3 n assms by (intro bytes) (auto simp: ser_type_def ser_ok_def zeros_def Let_def)
  qed
qed

lemma value_roundtrip:
  assumes "ser_ok v"
  shows "\<exists>c'. sqlite3VdbeSerialGet (content v ff @ r) (ser_type v ff) c = Some (c', length (content v ff))
    \<and> sql_value c' = sql_value v"
  using assms
proof (cases rule: ser_type_cases [where ff = ff])
  case null
  then have "content v ff = []" "sql_value v = SNull" by (simp_all add: content_def stored_def sql_value_def)
  moreover from null(2) have "ser_type v ff = 0 \<or> ser_type v ff = 10" by simp
  then have "\<exists>c'. sqlite3VdbeSerialGet r (ser_type v ff) c = Some (c', 0) \<and> sql_value c' = SNull"
    by (elim disjE) (simp_all add: sqlite3VdbeSerialGet_def sql_value_def MEM_Null_def MEM_Zero_def)
  ultimately show ?thesis by simp
next
  case number
  consider (int) "mem_flags (val_mem v) AND MEM_Int \<noteq> 0"
    | (real) "mem_flags (val_mem v) AND MEM_Int = 0" "mem_flags (val_mem v) AND MEM_Real \<noteq> 0"
    using number(3) by blast
  then show ?thesis
  proof cases
    case int
    consider "sqlite3VdbeSerialType v ff = (8, 0)" "val_u v = 0" | "sqlite3VdbeSerialType v ff = (9, 0)" "val_u v = 1"
      | t len where "sqlite3VdbeSerialType v ff = (t, len)" "(t, len) \<in> int_types"
          "signed_take_bit (8 * unat len - 1) (val_u v) = val_u v"
      using int_serial_type [OF number(1) int, of ff] by blast
    then show ?thesis
      by cases (use number int get_int in \<open>simp_all add: content_def stored_def sqlite3VdbeSerialGet_def mem_int_def
          sql_value_def MEM_Null_def MEM_Int_def\<close>)
  next
    case real
    then have "sqlite3VdbeSerialType v ff = (7, 8)" using number(1) by (simp add: sqlite3VdbeSerialType_def Let_def)
    then show ?thesis
      using number real get_real [of "val_u v" r c]
      by (simp add: content_def stored_def sql_value_def MEM_Null_def MEM_Int_def MEM_Real_def)
  qed
next
  case bytes
  have l: "length (content v ff) = mem_n (val_mem v) + zeros v"
    using bytes by (simp add: content_def stored_def Let_def)
  let ?str = "mem_flags (val_mem v) AND MEM_Str \<noteq> 0"
  show ?thesis
    unfolding bytes(7) l [symmetric] get_bytes [OF bytes(5) [folded l], of _ ?str]
    using bytes by (auto simp: content_def stored_def Let_def sql_value_def zeros_def MEM_Null_def MEM_Int_def
        MEM_Real_def MEM_Str_def MEM_Blob_def MEM_Ephem_def MEM_Zero_def)
qed

lemma put_stored:
  assumes "ser_ok v" and "off + length (stored v ff) \<le> length buf"
  shows "sqlite3VdbeSerialPut buf off v (ser_type v ff)
    = map_option (\<lambda>buf. (buf, length (stored v ff))) (wrs buf off (stored v ff))"
  using assms(1)
proof (cases rule: ser_type_cases [where ff = ff])
  case null
  then show ?thesis using assms(2) by (auto simp: stored_def sqlite3VdbeSerialPut_def Let_def)
next
  case number
  have put: "sqlite3VdbeSerialPut buf off v t = map_option (\<lambda>buf. (buf, length (stored v ff))) (wrs buf off (stored v ff))"
    if t: "t \<le> 7" "t > 0" "rd sqlite3SmallTypeSizes (unat t) = Some k" "unat k > 0"
      "stored v ff = be (unat k) (val_u v)" for t k
    using put_loop_be [of "unat k" off buf "val_u v"] assms(2) t
    by (simp add: sqlite3VdbeSerialPut_def)
  have st: "stored v ff = be (unat (snd (sqlite3VdbeSerialType v ff))) (val_u v)"
    using number by (auto simp: stored_def Let_def)
  note sizes = sqlite3SmallTypeSizes_def rd_def
  consider (int) "mem_flags (val_mem v) AND MEM_Int \<noteq> 0"
    | (real) "mem_flags (val_mem v) AND MEM_Int = 0" "mem_flags (val_mem v) AND MEM_Real \<noteq> 0"
    using number(3) by blast
  then show ?thesis
  proof cases
    case int
    consider "sqlite3VdbeSerialType v ff = (8, 0)" | "sqlite3VdbeSerialType v ff = (9, 0)"
      | t len where "sqlite3VdbeSerialType v ff = (t, len)" "(t, len) \<in> int_types"
      using int_serial_type [OF number(1) int, of ff] by blast
    then show ?thesis
    proof cases
      case 3
      have "\<exists>k. rd sqlite3SmallTypeSizes (unat t) = Some k \<and> unat k = unat len \<and> 0 < unat k \<and> t \<le> 7 \<and> t > 0"
        using 3(2) unfolding int_types_def by (elim insertE) (auto simp: sizes)
      then show ?thesis using put [of t] st 3 number(4) by auto
    qed (use st number(4) assms(2) in \<open>simp_all add: sqlite3VdbeSerialPut_def\<close>)
  next
    case real
    then have "sqlite3VdbeSerialType v ff = (7, 8)" using number(1) by (simp add: sqlite3VdbeSerialType_def Let_def)
    then show ?thesis using put [of 7 8] st number(4) by (simp add: sizes)
  qed
next
  case bytes
  have "\<not> bytes_type n str \<le> 7" if "n < 2 ^ 30" for n str
    using unat_bytes_type [OF that] by (simp add: word_le_nat_alt)
  moreover have off: "off \<le> length buf" using assms(2) by simp
  ultimately show ?thesis
    using bytes(1-4) bytes_type_facts(1) [OF bytes(5)] bytes(5) off
    by (simp add: bytes(7) sqlite3VdbeSerialPut_def stored_def Let_def del: wrs_Some) (simp add: wrs_def)
qed

section \<open>Sizes\<close>

lemma flag_keep: "X AND Y = 0 \<Longrightarrow> (f AND NOT X) AND Y = f AND (Y :: u16)"
proof (rule bit_word_eqI)
  fix n
  assume "X AND Y = 0"
  then have "\<not> (bit X n \<and> bit Y n)" by (metis bit_and_iff bit_0_eq bot_apply bot_bool_def)
  then show "n < LENGTH(16) \<Longrightarrow> bit ((f AND NOT X) AND Y) n = bit (f AND Y) n" by (auto simp: bit_simps)
qed

lemma expand_flags:
  defines "X \<equiv> MEM_Dyn OR MEM_Ephem OR MEM_Static OR MEM_Zero OR MEM_Term"
  shows "(f AND NOT X) AND MEM_Null = f AND MEM_Null" "(f AND NOT X) AND MEM_Int = f AND MEM_Int"
    "(f AND NOT X) AND MEM_Real = f AND MEM_Real" "(f AND NOT X) AND MEM_Str = f AND MEM_Str"
    "(f AND NOT X) AND MEM_Zero = 0"
proof -
  have "X AND MEM_Null = 0" "X AND MEM_Int = 0" "X AND MEM_Real = 0" "X AND MEM_Str = 0"
    unfolding X_def by code_simp+
  then show "(f AND NOT X) AND MEM_Null = f AND MEM_Null" "(f AND NOT X) AND MEM_Int = f AND MEM_Int"
    "(f AND NOT X) AND MEM_Real = f AND MEM_Real" "(f AND NOT X) AND MEM_Str = f AND MEM_Str"
    by (simp_all only: flag_keep)
  have "NOT X AND MEM_Zero = 0" unfolding X_def by code_simp
  then show "(f AND NOT X) AND MEM_Zero = 0" by (simp only: and.assoc and_zero_eq)
qed

lemma expand_ok:
  assumes "alloc_ok alloc" and "mem_n m \<le> length (mem_z m)"
  shows "\<exists>rc m'. sqlite3VdbeMemExpandBlob m alloc = Some (rc, m') \<and> (rc = SQLITE_NOMEM \<or> rc = SQLITE_OK
    \<and> mem_n m' = mem_n m + mem_nZero m \<and> mem_text m' = mem_text m @ replicate (mem_nZero m) 0
    \<and> mem_n m' \<le> length (mem_z m') \<and> mem_nZero m' = mem_nZero m
    \<and> mem_flags m' = mem_flags m AND NOT (MEM_Dyn OR MEM_Ephem OR MEM_Static OR MEM_Zero OR MEM_Term))"
proof -
  let ?n = "if mem_n m + mem_nZero m = 0 then 1 else mem_n m + mem_nZero m"
  have n: "mem_n m \<le> ?n" "mem_n m + mem_nZero m \<le> ?n" by simp_all
  obtain rc m1 where g: "sqlite3VdbeMemGrow m ?n True alloc = Some (rc, m1)" "mem_n m1 = mem_n m"
      "mem_nZero m1 = mem_nZero m"
      "rc = SQLITE_OK \<Longrightarrow> ?n \<le> length (mem_z m1) \<and> mem_text m1 = mem_text m
         \<and> mem_flags m1 = mem_flags m AND NOT (MEM_Dyn OR MEM_Ephem OR MEM_Static)"
      "rc \<noteq> SQLITE_OK \<Longrightarrow> rc = SQLITE_NOMEM"
    using grow_ok [OF assms n(1)] by (auto split: if_splits)
  show ?thesis
  proof (cases "rc = SQLITE_OK")
    case False
    then show ?thesis using g by (simp add: sqlite3VdbeMemExpandBlob_def Let_def)
  next
    case True
    have l: "mem_n m + mem_nZero m \<le> length (mem_z m1)" using g(4) [OF True] n(2) by simp
    then show ?thesis
      using g(1-3) g(4) [OF True] True assms(2)
      by (simp add: sqlite3VdbeMemExpandBlob_def Let_def mem_wrs_def mem_text_def and.assoc min_def
          bit.de_Morgan_disj)
  qed
qed

text \<open>What the first loop has done with the registers \<open>vs\<close>.\<close>

definition header :: "int \<Rightarrow> Val list \<Rightarrow> u8 list" where
  "header ff vs = concat (map (\<lambda>v. fst (putVarint32 (ser_type v ff))) vs)"

definition sized :: "int \<Rightarrow> Val list \<Rightarrow> Val list \<times> nat \<times> nat \<times> nat \<Rightarrow> bool" where
  "sized ff vs r \<longleftrightarrow> (case r of (done, nData, nZero, nHdr) \<Rightarrow>
     (\<forall>v \<in> set done. ser_ok v \<and> val_uTemp v = ser_type v ff)
     \<and> map (\<lambda>v. ser_type v ff) done = map (\<lambda>v. ser_type v ff) vs
     \<and> length (concat (map (\<lambda>v. stored v ff) done)) = nData
     \<and> concat (map (\<lambda>v. content v ff) vs) = concat (map (\<lambda>v. stored v ff) done) @ replicate nZero 0
     \<and> length (header ff vs) = nHdr)"

lemma length_putVarint32:
  "length (fst (putVarint32 t)) = (if t \<le> 127 then 1 else sqlite3VarintLen (ucast t))"
  "snd (putVarint32 t) = length (fst (putVarint32 t))"
proof -
  have le: "t \<le> 127 \<longleftrightarrow> t < 0x80" by (auto simp: word_le_nat_alt word_less_nat_alt)
  have "unat t < 2 ^ LENGTH(32)" by (rule unsigned_less)
  then have t32: "unat t < 2 ^ 32" by simp
  have "(ucast t :: u64) < 0x8000000000000000"
    by (simp add: word_less_nat_alt unsigned_ucast_eq take_bit_nat_eq_self t32 order.strict_trans [OF t32])
  then show "length (fst (putVarint32 t)) = (if t \<le> 127 then 1 else sqlite3VarintLen (ucast t))"
    unfolding le putVarint32_def by (simp add: length_put VarintLen_put)
  show "snd (putVarint32 t) = length (fst (putVarint32 t))" by (simp add: putVarint32_def length_put)
qed

lemma length_stored:
  assumes "ser_ok v" and "mem_flags (val_mem v) AND MEM_Null = 0"
  shows "unat (snd (sqlite3VdbeSerialType v ff)) = length (stored v ff) + zeros v"
    "length (stored v ff) + zeros v < 2 ^ 30" "fst (sqlite3VdbeSerialType v ff) \<noteq> 0"
  using assms(1)
proof (atomize (full), cases rule: ser_type_cases [where ff = ff])
  case number
  have st: "stored v ff = be (unat (snd (sqlite3VdbeSerialType v ff))) (val_u v)"
    using number by (auto simp: stored_def Let_def)
  have "fst (sqlite3VdbeSerialType v ff) \<noteq> 0 \<and> unat (snd (sqlite3VdbeSerialType v ff)) < 2 ^ 30"
  proof (cases "mem_flags (val_mem v) AND MEM_Int = 0")
    case True
    then show ?thesis using number(1,3) by (simp add: sqlite3VdbeSerialType_def Let_def)
  next
    case False
    then show ?thesis using int_serial_type [OF number(1) False, of ff] by (auto simp: int_types_def)
  qed
  then show "unat (snd (sqlite3VdbeSerialType v ff)) = length (stored v ff) + zeros v \<and>
      length (stored v ff) + zeros v < 2 ^ 30 \<and> fst (sqlite3VdbeSerialType v ff) \<noteq> 0"
    using st number(2) by simp
next
  case bytes
  have "ser_type v ff = fst (sqlite3VdbeSerialType v ff)" using bytes(1) by (simp add: ser_type_def)
  moreover have "ser_type v ff \<noteq> 0" unfolding bytes(7) by (rule bytes_type_facts(4) [OF bytes(5)])
  moreover have "unat (word_of_nat (mem_n (val_mem v) + zeros v) :: u32) = mem_n (val_mem v) + zeros v"
    unfolding unat_of_nat using bytes(5) by simp
  ultimately show "unat (snd (sqlite3VdbeSerialType v ff)) = length (stored v ff) + zeros v \<and>
      length (stored v ff) + zeros v < 2 ^ 30 \<and> fst (sqlite3VdbeSerialType v ff) \<noteq> 0"
    using bytes by (simp add: stored_def Let_def)
qed (use assms(2) in simp)

lemma serial_type_temp [simp]: "sqlite3VdbeSerialType (v\<lparr>val_uTemp := t\<rparr>) ff = sqlite3VdbeSerialType v ff"
  by (cases v) (simp only: sqlite3VdbeSerialType_def Val.select_convs Val.update_convs)

lemma size_step:
  assumes a: "alloc_ok alloc" and v: "ser_ok v"
  shows "\<exists>r. make_size ff alloc v nData nZero = Some r \<and> (r = Inl no_mem \<or>
    (\<exists>m' z' len w. r = Inr (ser_type v ff, m', z', len) \<and> w = v\<lparr>val_mem := m', val_uTemp := ser_type v ff\<rparr>
      \<and> ser_ok w \<and> ser_type w ff = ser_type v ff \<and> unat len = length (stored w ff)
      \<and> (z' = nZero \<and> content v ff = stored w ff
          \<or> nData = 0 \<and> z' = zeros v + nZero \<and> content v ff = stored w ff @ replicate (zeros v) 0)))"
proof -
  let ?f = "mem_flags (val_mem v)"
  obtain t len where T: "sqlite3VdbeSerialType v ff = (t, len)" by (metis surj_pair)
  have same: "ser_ok (v\<lparr>val_uTemp := t\<rparr>) = ser_ok v" "ser_type (v\<lparr>val_uTemp := t\<rparr>) ff = ser_type v ff"
    "stored (v\<lparr>val_uTemp := t\<rparr>) ff = stored v ff" for t
    by (simp_all add: ser_ok_def ser_type_def stored_def zeros_def Let_def)
  consider (null) "?f AND MEM_Null \<noteq> 0" | (plain) "?f AND MEM_Null = 0" "?f AND MEM_Zero = 0"
    | (zero) "?f AND MEM_Null = 0" "?f AND MEM_Zero \<noteq> 0" by blast
  then show ?thesis
  proof cases
    case null
    then have "t = 0" "len = 0" using T by (simp_all add: sqlite3VdbeSerialType_def)
    then show ?thesis
      using T null v same [of 10] same [of 0]
      by (simp add: make_size_def ser_type_def content_def stored_def zeros_def)
  next
    case plain
    then have "zeros v = 0" by (simp add: zeros_def)
    then show ?thesis
      using T plain v same [of t] length_stored(1) [OF v plain(1), of ff]
      by (simp add: make_size_def ser_type_def content_def)
  next
    case zero
    have n: "mem_n (val_mem v) \<le> length (mem_z (val_mem v))" "mem_n (val_mem v) + zeros v < 2 ^ 30"
        "?f AND MEM_Int = 0" "?f AND MEM_Real = 0" "?f AND MEM_Str = 0"
      using v zero by (auto simp: ser_ok_def Let_def)
    have z: "zeros v = mem_nZero (val_mem v)" using zero by (simp add: zeros_def)
    have t: "t \<noteq> 0" "unat len = length (stored v ff) + zeros v" "length (stored v ff) + zeros v < 2 ^ 30"
      using length_stored [OF v zero(1), of ff] T by simp_all
    have ser: "ser_type v ff = t" using T zero by (simp add: ser_type_def)
    show ?thesis
    proof (cases "nData = 0")
      case True
      have "unat (len - word_of_nat (zeros v)) = length (stored v ff)"
        using t(2,3) by (subst unat_sub) (simp_all add: word_le_nat_alt unat_of_nat)
      then show ?thesis
        using T True zero t(1) v same [of t] ser z by (simp add: make_size_def content_def add.commute Let_def)
    next
      case False
      obtain rc m' where e: "sqlite3VdbeMemExpandBlob (val_mem v) alloc = Some (rc, m')"
          "rc = SQLITE_NOMEM \<or> rc = SQLITE_OK \<and> mem_n m' = mem_n (val_mem v) + zeros v
            \<and> mem_text m' = mem_text (val_mem v) @ replicate (zeros v) 0 \<and> mem_n m' \<le> length (mem_z m')
            \<and> mem_nZero m' = mem_nZero (val_mem v)
            \<and> mem_flags m' = ?f AND NOT (MEM_Dyn OR MEM_Ephem OR MEM_Static OR MEM_Zero OR MEM_Term)"
        using expand_ok [OF a n(1)] z by auto
      show ?thesis
      proof (cases "rc = SQLITE_OK")
        case False
        then show ?thesis
          using e T zero t(1) \<open>nData \<noteq> 0\<close> by (simp add: make_size_def)
      next
        case True
        then have m: "mem_n m' = mem_n (val_mem v) + zeros v" "mem_n m' \<le> length (mem_z m')"
            "take (mem_n m') (mem_z m') = take (mem_n (val_mem v)) (mem_z (val_mem v)) @ replicate (zeros v) 0"
            "mem_flags m' = ?f AND NOT (MEM_Dyn OR MEM_Ephem OR MEM_Static OR MEM_Zero OR MEM_Term)"
          using e(2) by (auto simp: mem_consts mem_text_def)
        let ?w = "v\<lparr>val_mem := m', val_uTemp := t\<rparr>"
        have f: "mem_flags m' AND MEM_Null = 0" "mem_flags m' AND MEM_Int = 0" "mem_flags m' AND MEM_Real = 0"
            "mem_flags m' AND MEM_Str = 0" "mem_flags m' AND MEM_Zero = 0"
          unfolding m(4) using zero(1) n(3-5) by (simp_all only: expand_flags)
        have w: "ser_ok ?w" "zeros ?w = 0" using f m(1,2) n(2) by (simp_all add: ser_ok_def zeros_def)
        have "ser_type ?w ff = bytes_type (mem_n m') False"
          using w(1) by (cases rule: ser_type_cases [where ff = ff]) (use f w(2) in simp_all)
        moreover have "ser_type v ff = bytes_type (mem_n (val_mem v) + zeros v) False"
          using v by (cases rule: ser_type_cases [where ff = ff]) (use zero n in simp_all)
        ultimately have same: "ser_type ?w ff = t" using ser m(1) by simp
        have st: "stored ?w ff = content v ff"
          using f zero(1) n(3,4) m(3) by (simp add: stored_def content_def Let_def)
        have "make_size ff alloc v nData nZero = Some (Inr (t, m', nZero, len))"
          using T e(1) zero(2) t(1) True \<open>nData \<noteq> 0\<close> by (simp add: make_size_def)
        moreover have "unat len = length (content v ff)" using t(2) by (simp add: content_def)
        ultimately show ?thesis using w(1) same st ser by (intro exI [of _ "Inr (t, m', nZero, len)"]) simp
      qed
    qed
  qed
qed

lemma make_sizes_ok:
  assumes a: "alloc_ok alloc"
  shows "\<forall>v \<in> set below. ser_ok v \<Longrightarrow> sized ff vs (done, nData, nZero, nHdr) \<Longrightarrow>
    \<exists>r. make_sizes ff alloc below (done, nData, nZero, nHdr) = Some r
      \<and> (r = Inl no_mem \<or> (\<exists>acc. r = Inr acc \<and> sized ff (rev below @ vs) acc))"
proof (induction below arbitrary: vs "done" nData nZero nHdr)
  case Nil
  then show ?case by simp
next
  case (Cons v below)
  obtain r where r: "make_size ff alloc v nData nZero = Some r"
      "r = Inl no_mem \<or>
      (\<exists>m' z' len w. r = Inr (ser_type v ff, m', z', len) \<and> w = v\<lparr>val_mem := m', val_uTemp := ser_type v ff\<rparr>
        \<and> ser_ok w \<and> ser_type w ff = ser_type v ff \<and> unat len = length (stored w ff)
        \<and> (z' = nZero \<and> content v ff = stored w ff
            \<or> nData = 0 \<and> z' = zeros v + nZero \<and> content v ff = stored w ff @ replicate (zeros v) 0))"
    using size_step [OF a, of v ff nData nZero] Cons(2) by auto
  show ?case
  proof (cases "r = Inl no_mem")
    case True
    then show ?thesis using r(1) by simp
  next
    case False
    then obtain m' z' len w
      where w: "r = Inr (ser_type v ff, m', z', len)" "w = v\<lparr>val_mem := m', val_uTemp := ser_type v ff\<rparr>"
      "ser_ok w" "ser_type w ff = ser_type v ff" "unat len = length (stored w ff)"
      and zero: "z' = nZero \<and> content v ff = stored w ff
        \<or> nData = 0 \<and> z' = zeros v + nZero \<and> content v ff = stored w ff @ replicate (zeros v) 0"
      using r(2) by auto
    let ?h = "nHdr + (if ser_type v ff \<le> 127 then 1 else sqlite3VarintLen (ucast (ser_type v ff)))"
    have "sized ff (v # vs) (w # done, nData + unat len, z', ?h)"
    proof (cases "z' = nZero \<and> content v ff = stored w ff")
      case True
      then show ?thesis
        using Cons(3) w(2-5) length_putVarint32(1) [of "ser_type v ff"] by (simp add: sized_def header_def)
    next
      case False
      then have "nData = 0" "z' = zeros v + nZero" "content v ff = stored w ff @ replicate (zeros v) 0"
        using zero by blast+
      then show ?thesis
        using Cons(3) w(2-5) length_putVarint32(1) [of "ser_type v ff"]
        by (simp add: sized_def header_def replicate_add del: concat_eq_Nil_conv)
    qed
    then show ?thesis
      using Cons(1) [of "v # vs" "w # done" "nData + unat len" z' ?h] Cons(2) r(1) w(1,2) by simp
  qed
qed

section \<open>The size of the header\<close>

lemma VarintLen_le: "0 < k \<Longrightarrow> sqlite3VarintLen v \<le> k \<longleftrightarrow> unat v < 2 ^ (7 * k)"
proof -
  assume "0 < k"
  obtain n where n: "length (putVarint64_buf v) = Suc n" "drop_bit (7 * Suc n) v = 0" "n = 0 \<or> drop_bit (7 * n) v \<noteq> 0"
    using buf_digits [of v] by auto
  have L: "sqlite3VarintLen v = Suc n" using VarintLen_buf [of 0 v] n(1) by (simp add: sqlite3VarintLen_def)
  have "Suc n \<le> k \<longleftrightarrow> drop_bit (7 * k) v = 0"
  proof
    assume "Suc n \<le> k"
    then show "drop_bit (7 * k) v = 0" by (intro drop_bit_zero_mono [OF n(2)]) simp
  next
    assume z: "drop_bit (7 * k) v = 0"
    then have "\<not> k \<le> n" if "drop_bit (7 * n) v \<noteq> 0" using that drop_bit_zero_mono [OF z, of "7 * n"] by auto
    then show "Suc n \<le> k" using n(3) \<open>0 < k\<close> by auto
  qed
  then show ?thesis unfolding L drop_bit_eq_0_iff .
qed

lemma length_put_VarintLen: "length (fst (putVarint32 t)) = sqlite3VarintLen (ucast t)"
proof (cases "t \<le> 127")
  case True
  then have "unat (ucast t :: u64) < 128" by (simp add: word_le_nat_alt unsigned_ucast_eq take_bit_nat_eq_self)
  then have "sqlite3VarintLen (ucast t) \<le> 1" by (subst VarintLen_le) simp_all
  moreover have "0 < sqlite3VarintLen (ucast t)"
    using VarintLen_buf [of 0 "ucast t"] buf_digits [of "ucast t"] by (auto simp: sqlite3VarintLen_def)
  ultimately show ?thesis using True length_putVarint32(1) [of t] by simp
qed (use length_putVarint32(1) [of t] in simp)

lemma header_total:
  assumes "n < 2 ^ 31"
  shows "length (fst (putVarint32 (word_of_nat (make_header_size n)))) + n = make_header_size n"
    and "make_header_size n < 2 ^ 32"
proof -
  let ?L = "\<lambda>x. sqlite3VarintLen (word_of_nat x)" and ?H = "make_header_size n"
  have L: "?L x \<le> k \<longleftrightarrow> x < 2 ^ (7 * k)" if "x < 2 ^ 33" "0 < k" for x k
    using VarintLen_le [OF that(2), of "word_of_nat x"] that(1) by (simp add: unat_of_nat)
  have pos: "0 < ?L x" for x
    using VarintLen_buf [of 0 "word_of_nat x"] buf_digits [of "word_of_nat x"] by (auto simp: sqlite3VarintLen_def)
  have L5: "?L n \<le> 5" using assms by (subst L) simp_all
  have H: "?L ?H + n = ?H \<and> ?H < 2 ^ 32"
  proof (cases "n \<le> 126")
    case True
    have "?L (n + 1) \<le> 1" using True by (subst L) simp_all
    then show ?thesis using True pos [of "n + 1"] by (simp add: make_header_size_def le_Suc_eq)
  next
    case False
    define nv where "nv = ?L n"
    have nv: "0 < nv" "nv \<le> 5" "n < 2 ^ (7 * nv)"
      using pos [of n] L5 L [of n nv] assms by (simp_all add: nv_def)
    have "nv + 1 < 2 ^ (7 * nv)" using less_exp [of "7 * nv"] nv(1) by linarith
    then have up: "n + nv + 1 < 2 ^ (7 * (nv + 1))" using nv(3) by (simp add: power_add)
    show ?thesis
    proof (cases "nv < ?L (n + nv)")
      case True
      have "\<not> n + nv < 2 ^ (7 * nv)" using True L [of "n + nv" nv] nv(1,2) assms by simp
      then have "\<not> ?L (n + nv + 1) \<le> nv" using L [of "n + nv + 1" nv] nv(1,2) assms by simp
      moreover have "?L (n + nv + 1) \<le> nv + 1" using up nv(2) assms by (subst L) simp_all
      ultimately show ?thesis
        using False True nv(2) assms by (simp add: make_header_size_def nv_def [symmetric] Let_def)
    next
      case no: False
      have "nv \<le> ?L (n + nv)"
      proof (rule ccontr)
        assume "\<not> nv \<le> ?L (n + nv)"
        then have lt: "?L (n + nv) \<le> nv - 1" "0 < nv - 1" using pos [of "n + nv"] by simp_all
        then have "n + nv < 2 ^ (7 * (nv - 1))" using L [of "n + nv" "nv - 1"] nv(2) assms by simp
        then have "?L n \<le> nv - 1" using lt(2) assms by (subst L) simp_all
        then show False using nv(1) by (simp add: nv_def)
      qed
      then show ?thesis
        using False no nv(2) assms by (simp add: make_header_size_def nv_def [symmetric] Let_def)
    qed
  qed
  then show "?H < 2 ^ 32" by simp
  have "length (fst (putVarint32 t)) = sqlite3VarintLen (ucast t)" for t
    by (rule length_put_VarintLen)
  moreover have "(ucast (word_of_nat ?H :: u32) :: u64) = word_of_nat ?H"
    using H by (simp add: word_unat_eq_iff unsigned_ucast_eq unat_of_nat take_bit_nat_eq_self)
  ultimately show "length (fst (putVarint32 (word_of_nat ?H))) + n = ?H" using H by simp
qed

section \<open>Writing a record\<close>

lemma wrs_mid: "length h = length B \<Longrightarrow> wrs (A @ B @ C) (length A) h = Some (A @ h @ C)"
  by simp

lemma header_simps [simp]:
  "header ff [] = []" "header ff (v # vs) = fst (putVarint32 (ser_type v ff)) @ header ff vs"
  by (simp_all add: header_def)

lemma split_list_at: "length xs = m + n \<Longrightarrow> \<exists>ys zs. xs = ys @ zs \<and> length ys = m \<and> length zs = n"
  by (intro exI [of _ "take m xs"] exI [of _ "drop m xs"]) simp

lemma split_list_4:
  assumes "a + b + c \<le> length z"
  shows "\<exists>A B C E. z = A @ B @ C @ E \<and> length A = a \<and> length B = b \<and> length C = c"
proof -
  obtain A z1 where 1: "z = A @ z1" "length A = a" "length z1 = length z - a"
    using split_list_at [of z a "length z - a"] assms by auto
  obtain B z2 where 2: "z1 = B @ z2" "length B = b" "length z2 = length z - a - b"
    using split_list_at [of z1 b "length z - a - b"] 1(3) assms by auto
  obtain C E where "z2 = C @ E" "length C = c"
    using split_list_at [of z2 c "length z2 - c"] 2(3) assms by auto
  then show ?thesis using 1 2 by blast
qed

lemma make_write_ok:
  assumes "\<forall>v \<in> set ws. ser_ok v \<and> val_uTemp v = ser_type v ff"
    and "length B = length (header ff ws)" and "length C = length (concat (map (\<lambda>v. stored v ff) ws))"
  shows "\<exists>i j. make_write ws (A @ B @ D @ C @ E) (length A) (length A + length B + length D)
    = Some (A @ header ff ws @ D @ concat (map (\<lambda>v. stored v ff) ws) @ E, i, j)"
  using assms
proof (induction ws arbitrary: A B C D)
  case Nil
  then show ?case by simp
next
  case (Cons w ws)
  let ?h = "fst (putVarint32 (ser_type w ff))" and ?s = "stored w ff"
  obtain B1 B2 where B: "B = B1 @ B2" "length B1 = length ?h" "length B2 = length (header ff ws)"
    using split_list_at [of B "length ?h"] Cons(3) by auto
  obtain C1 C2 where C: "C = C1 @ C2" "length C1 = length ?s"
      "length C2 = length (concat (map (\<lambda>v. stored v ff) ws))"
    using split_list_at [of C "length ?s"] Cons(4) by auto
  have 1: "wrs (A @ B1 @ B2 @ D @ C1 @ C2 @ E) (length A) ?h = Some (A @ ?h @ B2 @ D @ C1 @ C2 @ E)"
    using wrs_mid [of ?h B1 A "B2 @ D @ C1 @ C2 @ E"] B(2) by simp
  let ?off = "length (A @ ?h @ B2 @ D)"
  have "wrs ((A @ ?h @ B2 @ D) @ C1 @ C2 @ E) ?off ?s = Some ((A @ ?h @ B2 @ D) @ ?s @ C2 @ E)"
    using C(2) by (intro wrs_mid) simp
  then have 2: "sqlite3VdbeSerialPut (A @ ?h @ B2 @ D @ C1 @ C2 @ E) ?off w (ser_type w ff)
      = Some (A @ ?h @ B2 @ D @ ?s @ C2 @ E, length ?s)"
    using put_stored [of w ?off ff "A @ ?h @ B2 @ D @ C1 @ C2 @ E"] Cons(2) C(2) by simp
  obtain i j where "make_write ws ((A @ ?h) @ B2 @ (D @ ?s) @ C2 @ E) (length (A @ ?h))
      (length (A @ ?h) + length B2 + length (D @ ?s))
    = Some ((A @ ?h) @ header ff ws @ (D @ ?s) @ concat (map (\<lambda>v. stored v ff) ws) @ E, i, j)"
    using Cons(1) [of B2 C2 "A @ ?h" "D @ ?s"] Cons(2) B(3) C(3) by auto
  then show ?case
    using 1 2 Cons(2) B C length_putVarint32(2) [of "ser_type w ff"] by (simp add: add.assoc)
qed

text \<open>The record of the values, as the format describes it.\<close>

definition record_bytes :: "int \<Rightarrow> Val list \<Rightarrow> u8 list" where
  "record_bytes ff vs =
     fst (putVarint32 (word_of_nat (make_header_size (length (header ff vs))))) @ header ff vs
     @ concat (map (\<lambda>v. content v ff) vs)"

text \<open>The bytes of a blob.\<close>

definition blob :: "Mem \<Rightarrow> u8 list" where
  "blob m = take (mem_n m) (mem_z m) @ replicate (if mem_flags m AND MEM_Zero \<noteq> 0 then mem_nZero m else 0) 0"

lemma header_length: "length (header ff vs) \<le> 5 * length vs"
proof (induction vs)
  case (Cons v vs)
  have "unat (ser_type v ff) < 2 ^ LENGTH(32)" by (rule unsigned_less)
  then have "unat (ucast (ser_type v ff) :: u64) < 2 ^ 35"
    by (simp add: unsigned_ucast_eq take_bit_nat_eq_self)
  then have "sqlite3VarintLen (ucast (ser_type v ff)) \<le> 5" by (subst VarintLen_le) simp_all
  then have "length (fst (putVarint32 (ser_type v ff))) \<le> 5" by (simp add: length_putVarint32(1))
  then show ?case using Cons by simp
qed simp

lemma use_block_length [simp]: "length (mem_z (use_block m)) = szMalloc m"
  by (simp add: use_block_def szMalloc_def)

lemma resize_ok:
  assumes "alloc_ok alloc"
  shows "\<exists>rc m'. sqlite3VdbeMemClearAndResize m n alloc = Some (rc, m') \<and> (rc = SQLITE_OK \<longrightarrow> n \<le> length (mem_z m'))"
proof (cases "szMalloc m < n")
  case True
  show ?thesis
  proof (cases "alloc (if n < 32 then 32 else n)")
    case None
    then show ?thesis
      using True by (simp add: sqlite3VdbeMemClearAndResize_def sqlite3VdbeMemGrow_def mem_consts Let_def)
  next
    case (Some blk)
    then have "(if n < 32 then 32 else n) \<le> length blk" using assms unfolding alloc_ok_def by blast
    then have "n \<le> length blk" by (cases "n < 32") simp_all
    then show ?thesis
      using True Some by (simp add: sqlite3VdbeMemClearAndResize_def sqlite3VdbeMemGrow_def mem_consts Let_def)
  qed
next
  case False
  then show ?thesis by (simp add: sqlite3VdbeMemClearAndResize_def Let_def use_block_length)
qed

text \<open>Memory runs out only when the allocator refuses a block.\<close>

lemma expand_no_mem: "sqlite3VdbeMemExpandBlob m alloc = Some (rc, m') \<Longrightarrow> rc \<noteq> SQLITE_OK \<Longrightarrow> \<exists>n. alloc n = None"
  by (auto simp: sqlite3VdbeMemExpandBlob_def bind_eq_Some_conv Let_def dest!: grow_rc split: if_splits)

lemma make_sizes_no_mem: "make_sizes ff alloc below acc = Some (Inl e) \<Longrightarrow> e = no_mem \<and> (\<exists>n. alloc n = None)"
proof (induction ff alloc below acc rule: make_sizes.induct)
  case (2 ff alloc pRec below "done" nData nZero nHdr)
  obtain r where r: "make_size ff alloc pRec nData nZero = Some r" using 2(2) by (auto simp: bind_eq_Some_conv)
  show ?case
  proof (cases r)
    case (Inl e')
    then show ?thesis using 2(2) r
      by (auto simp: make_size_def bind_eq_Some_conv Let_def dest!: expand_no_mem split: if_splits prod.splits)
  next
    case (Inr q)
    then show ?thesis using 2 r by (cases q) auto
  qed
qed simp

lemma make_record_no_mem:
  assumes "OP_MakeRecord vs ff limit pOut alloc = Some (Inl no_mem)"
  shows "\<exists>n. alloc n = None"
proof -
  obtain r where r: "make_sizes ff alloc (rev vs) ([], 0, 0, 0) = Some r" using assms by (auto simp: OP_MakeRecord_def bind_eq_Some_conv)
  show ?thesis
  proof (cases r)
    case (Inl e)
    then show ?thesis using make_sizes_no_mem r by blast
  next
    case (Inr q)
    then show ?thesis using assms r
      by (auto simp: OP_MakeRecord_def sqlite3VdbeMemClearAndResize_def bind_eq_Some_conv Let_def dest!: grow_rc
          split: if_splits sum.splits prod.splits)
  qed
qed

lemma make_record_ok:
  assumes a: "alloc_ok alloc" and vs: "\<forall>v \<in> set vs. ser_ok v" and n: "length vs < 2 ^ 28"
  shows "\<exists>r. OP_MakeRecord vs ff limit pOut alloc = Some r \<and>
    (r = Inl no_mem \<or> r = Inl too_big \<and> limit < length (record_bytes ff vs)
     \<or> (\<exists>out. r = Inr out \<and> blob out = record_bytes ff vs))"
proof -
  have "sized ff [] ([], 0, 0, 0)" by (simp add: sized_def)
  then obtain r where r: "make_sizes ff alloc (rev vs) ([], 0, 0, 0) = Some r"
      "r = Inl no_mem \<or> (\<exists>acc. r = Inr acc \<and> sized ff vs acc)"
    using make_sizes_ok [OF a, of "rev vs" ff "[]" "[]" 0 0 0] vs by auto
  show ?thesis
  proof (cases "r = Inl no_mem")
    case True
    then show ?thesis using r(1) by (simp add: OP_MakeRecord_def)
  next
    case False
    then obtain ws nData nZero nHdr where ws: "r = Inr (ws, nData, nZero, nHdr)" "sized ff vs (ws, nData, nZero, nHdr)"
      using r(2) by auto
    let ?H = "make_header_size nHdr" and ?p = "putVarint32 (word_of_nat (make_header_size nHdr))"
    let ?stored = "concat (map (\<lambda>v. stored v ff) ws)"
    have map: "header ff us = concat (map (\<lambda>t. fst (putVarint32 t)) (map (\<lambda>v. ser_type v ff) us))" for us
      by (simp add: header_def o_def)
    have hdr: "header ff ws = header ff vs"
      using ws(2) by (simp only: map sized_def prod.case)
    have nHdr: "length (header ff vs) = nHdr"
      and data: "length ?stored = nData" "concat (map (\<lambda>v. content v ff) vs) = ?stored @ replicate nZero 0"
      and ok: "\<forall>v \<in> set ws. ser_ok v \<and> val_uTemp v = ser_type v ff"
      using ws(2) by (simp_all add: sized_def)
    have tot: "length (fst ?p) + nHdr = ?H"
      using header_total(1) [of nHdr] header_length [of ff vs] nHdr n by simp
    have rec: "record_bytes ff vs = fst ?p @ header ff ws @ ?stored @ replicate nZero 0"
      using hdr nHdr data(2) by (simp add: record_bytes_def)
    then have len: "length (record_bytes ff vs) = ?H + nData + nZero" using tot hdr nHdr data(1) by simp
    let ?fits = "?H + nData + nZero \<le> szMalloc pOut"
    obtain rc m' where rs: "sqlite3VdbeMemClearAndResize pOut (?H + nData) alloc = Some (rc, m')"
        "rc = SQLITE_OK \<longrightarrow> ?H + nData \<le> length (mem_z m')"
      using resize_ok [OF a] by blast
    define go where "go m = (do {
       buf \<leftarrow> wrs (mem_z m) 0 (fst ?p);
       (buf, i, j) \<leftarrow> make_write ws buf (snd ?p) ?H;
       let m = m\<lparr>mem_z := buf, mem_n := ?H + nData, mem_flags := MEM_Blob\<rparr>;
       Some (Inr (if nZero \<noteq> 0 then m\<lparr>mem_nZero := nZero, mem_flags := mem_flags m OR MEM_Zero\<rparr> else m)) }
       :: (op_error + Mem) option)" for m
    have go: "\<exists>out. go m = Some (Inr out) \<and> blob out = record_bytes ff vs" if "?H + nData \<le> length (mem_z m)" for m
    proof -
      have "length (fst ?p) + length (header ff ws) + length ?stored \<le> length (mem_z m)"
        using that tot hdr nHdr data(1) by simp
      from split_list_4 [OF this] obtain A B C E where z: "mem_z m = A @ B @ C @ E" "length A = length (fst ?p)"
          "length B = length (header ff ws)" "length C = length ?stored"
        by blast
      have 1: "wrs (A @ B @ C @ E) 0 (fst ?p) = Some (fst ?p @ B @ C @ E)"
        using z(2) wrs_mid [of "fst ?p" A "[]"] by simp
      obtain i j where 2: "make_write ws (fst ?p @ B @ C @ E) (snd ?p) ?H
          = Some (fst ?p @ header ff ws @ ?stored @ E, i, j)"
        using make_write_ok [of ws ff B C "fst ?p" "[]" E] ok z(3,4) tot hdr nHdr length_putVarint32(2) by auto
      have "take (?H + nData) (fst ?p @ header ff ws @ ?stored @ E) = fst ?p @ header ff ws @ ?stored"
        using tot hdr nHdr data(1) by simp
      then show ?thesis
        using 1 2 z(1) unfolding rec go_def by (simp add: blob_def MEM_Blob_def MEM_Zero_def Let_def)
    qed
    have op: "OP_MakeRecord vs ff limit pOut alloc =
       (if ?fits then go (use_block pOut) else if ?H + nData + nZero > limit then Some (Inl too_big)
        else if rc \<noteq> SQLITE_OK then Some (Inl no_mem) else go m')"
      unfolding OP_MakeRecord_def r(1) ws(1) go_def using rs(1) by (simp add: Let_def)
    show ?thesis
      unfolding op len using go [of "use_block pOut"] go [of m'] rs(2) use_block_length [of pOut] by (auto split: if_splits)
  qed
qed

section \<open>Reading a record\<close>

lemma get_put32: "getVarint32 (fst (putVarint32 t) @ r) = Some (t, length (fst (putVarint32 t)))"
proof (cases "t < 0x80")
  case True
  have "(ucast t :: u8) < 0x80 \<and> ucast (ucast t :: u8) = t"
  proof (rule word_table [where P = "\<lambda>t :: u32. (ucast t :: u8) < 0x80 \<and> ucast (ucast t :: u8) = t" and n = 128])
    show "unat t < 128" using True by (simp add: word_less_nat_alt)
  qed code_simp
  then show ?thesis using True by (simp add: getVarint32_def putVarint32_def)
next
  case False
  have "drop_bit 32 (ucast t :: u64) = 0"
    by (rule bit_word_eqI) (auto simp: bit_simps dest: bit_imp_le_length)
  moreover have "ucast (ucast t :: u64) = t" by (rule bit_word_eqI) (simp add: bit_simps)
  ultimately show ?thesis
    using False varint.get_put [of "ucast t" r] length_put [of "ucast t"]
    by (simp add: getVarint32_sat putVarint32_def sat32_small)
qed

lemma putVarint32_nonempty: "0 < length (fst (putVarint32 t))"
  using get_put32 [of t "[]"] by (cases "fst (putVarint32 t)") (auto simp: getVarint32_def)

lemma unpack_loop_ok:
  assumes "\<forall>v \<in> set vs. ser_ok v" and "length vs \<le> length aMem" and "nKey < 2 ^ 31"
    and "drop i aKey = header ff vs @ X" and "i + length (header ff vs) = sz" and "sz < 2 ^ 31"
    and "drop d aKey = concat (map (\<lambda>v. content v ff) vs) @ R"
    and "d + length (concat (map (\<lambda>v. content v ff) vs)) \<le> nKey"
  shows "\<exists>ws d'. unpack_loop enc nKey aKey (word_of_nat sz) aMem (word_of_nat i) (word_of_nat d) = Some (ws, word_of_nat d')
    \<and> d' \<le> nKey \<and> map sql_value ws = map sql_value vs"
  using assms
proof (induction vs arbitrary: aMem i d X)
  case Nil
  then show ?case by (cases aMem) auto
next
  case (Cons v vs)
  let ?h = "fst (putVarint32 (ser_type v ff))" and ?c = "content v ff"
  obtain c cs where aMem: "aMem = c # cs" using Cons(3) by (cases aMem) auto
  have i: "i < sz" using Cons(6) putVarint32_nonempty [of "ser_type v ff"] by (simp del: length_greater_0_conv)
  have u: "unat (word_of_nat n :: u32) = n" if "n < 2 ^ 31" for n using that by (simp add: unat_of_nat)
  have go: "(word_of_nat i :: u32) < word_of_nat sz" "(word_of_nat d :: u32) \<le> word_of_nat nKey"
    "unat (word_of_nat i :: u32) = i" "unat (word_of_nat d :: u32) = d"
    using i Cons(4,7,9) u by (simp_all add: word_less_nat_alt word_le_nat_alt)
  have 1: "getVarint32 (drop i aKey) = Some (ser_type v ff, length ?h)"
    using get_put32 [of "ser_type v ff"] Cons(5) by simp
  let ?m = "c\<lparr>val_mem := (val_mem c)\<lparr>mem_enc := enc, mem_own := False, mem_block := [], mem_z := []\<rparr>\<rparr>"
  obtain c' where 2: "sqlite3VdbeSerialGet (drop d aKey) (ser_type v ff) ?m = Some (c', length ?c)"
      "sql_value c' = sql_value v"
    using value_roundtrip [of v ff _ ?m] Cons(2) Cons(8) by fastforce
  have "drop (i + length ?h) aKey = header ff vs @ X"
    using arg_cong [OF Cons(5), of "drop (length ?h)"] by (simp add: add.commute)
  moreover have "drop (d + length ?c) aKey = concat (map (\<lambda>v. content v ff) vs) @ R"
    using arg_cong [OF Cons(8), of "drop (length ?c)"] by (simp add: add.commute)
  ultimately obtain ws d' where "unpack_loop enc nKey aKey (word_of_nat sz) cs (word_of_nat (i + length ?h))
        (word_of_nat (d + length ?c)) = Some (ws, word_of_nat d')" "d' \<le> nKey" "map sql_value ws = map sql_value vs"
    using Cons(1) [of cs "i + length ?h" X "d + length ?c"] Cons(2-4,6,7,9) aMem by auto
  then show ?case
    using aMem go 1 2 by (intro exI [of _ "c' # ws"] exI [of _ d']) simp
qed

lemma unpack_record:
  assumes vs: "\<forall>v \<in> set vs. ser_ok v" and n: "length vs < 2 ^ 28" "length vs \<le> length aMem"
    and l: "length (record_bytes ff vs) < 2 ^ 31"
  shows "\<exists>ws. sqlite3VdbeRecordUnpack enc (length (record_bytes ff vs)) (record_bytes ff vs @ pad) aMem = Some ws
    \<and> map sql_value ws = map sql_value vs"
proof -
  let ?rec = "record_bytes ff vs" and ?H = "make_header_size (length (header ff vs))"
  let ?p = "fst (putVarint32 (word_of_nat ?H))"
  have tot: "length ?p + length (header ff vs) = ?H"
    using header_total(1) header_length [of ff vs] n(1) by simp
  have r: "?rec @ pad = ?p @ header ff vs @ concat (map (\<lambda>v. content v ff) vs) @ pad"
    by (simp add: record_bytes_def)
  have len: "length ?rec = ?H + length (concat (map (\<lambda>v. content v ff) vs))" using tot by (simp add: record_bytes_def)
  obtain ws d' where ws: "unpack_loop enc (length ?rec) (?rec @ pad) (word_of_nat ?H) aMem (word_of_nat (length ?p)) (word_of_nat ?H)
        = Some (ws, word_of_nat d')" "d' \<le> length ?rec" "map sql_value ws = map sql_value vs"
    using unpack_loop_ok [OF vs n(2) l, of "length ?p" "?rec @ pad" ff "concat (map (\<lambda>v. content v ff) vs) @ pad" ?H ?H pad enc]
      tot r len l by auto
  have "\<not> (word_of_nat d' :: u32) > word_of_nat (length ?rec)"
    using ws(2) l by (simp add: word_less_nat_alt unat_of_nat)
  moreover have "getVarint32 (?rec @ pad) = Some (word_of_nat ?H, length ?p)" unfolding r by (rule get_put32)
  ultimately show ?thesis using ws by (simp add: sqlite3VdbeRecordUnpack_def)
qed

section \<open>Reading any bytes\<close>

lemma vdec_total: "k \<le> 8 \<Longrightarrow> 9 \<le> k + length bs \<Longrightarrow> vdec k acc bs \<noteq> None"
  by (induction k acc bs rule: vdec.induct) (auto split: if_splits)

lemma get_varint_total:
  assumes "9 \<le> length p"
  obtains t k where "getVarint32 p = Some (t, k)" and "0 < k" and "k \<le> 9"
proof -
  obtain v k where v: "vdec 0 0 p = Some (v, k)" using vdec_total [of 0 p 0] assms by auto
  then have "0 < k \<and> k \<le> 9" using vdec_bounds [OF v] by simp
  then show thesis using v that by (simp add: getVarint32_sat sqlite3GetVarint_vdec)
qed

lemma get_total:
  assumes "8 \<le> length buf"
  shows "\<exists>c' len. sqlite3VdbeSerialGet buf t c = Some (c', len) \<and> len < 2 ^ 31
    \<and> (mem_flags (val_mem c') AND (MEM_Str OR MEM_Blob) \<noteq> 0 \<longrightarrow> mem_z (val_mem c') = buf \<and> mem_n (val_mem c') = len)"
proof -
  have rd: "rd buf i = Some (buf ! i)" if "i < 8" for i using that assms by (simp add: rd_def)
  have "unat (t - 12) < 2 ^ LENGTH(32)" by (rule unsigned_less)
  then have "unat ((t - 12) div 2) < 2 ^ 31" by (simp add: unat_div less_mult_imp_div_less)
  then show ?thesis
    using rd by (auto simp: sqlite3VdbeSerialGet_def serialGet_def mem_int_def int_reads Let_def
        MEM_Null_def MEM_Zero_def MEM_Int_def MEM_Real_def MEM_Str_def MEM_Blob_def)
qed

text \<open>A text or blob that lies within the first \<open>nKey\<close> bytes of the buffer.\<close>

definition inside :: "nat \<Rightarrow> u8 list \<Rightarrow> Val \<Rightarrow> bool" where
  "inside nKey aKey v \<longleftrightarrow> (mem_flags (val_mem v) AND (MEM_Str OR MEM_Blob) \<noteq> 0 \<longrightarrow>
     (\<exists>d. mem_z (val_mem v) = drop d aKey \<and> d + mem_n (val_mem v) \<le> nKey))"

lemma unpack_loop_total:
  assumes "nKey < 2 ^ 31" and "nKey + 8 \<le> length aKey" and "szHdr \<le> d"
  shows "\<exists>ws d'. unpack_loop enc nKey aKey szHdr aMem idx d = Some (ws, d') \<and> length ws \<le> length aMem
    \<and> (if d' \<le> word_of_nat nKey then \<forall>v \<in> set ws. inside nKey aKey v
        else (\<forall>v \<in> set (butlast ws). inside nKey aKey v) \<and> (ws = [] \<longrightarrow> d' = d))"
  using assms
proof (induction aMem arbitrary: idx d)
  case (Cons c cs)
  show ?case
  proof (cases "idx < szHdr \<and> d \<le> word_of_nat nKey")
    case True
    have d: "unat d \<le> nKey" "unat idx < nKey"
      using True Cons(2,4) by (simp_all add: word_le_nat_alt word_less_nat_alt unat_of_nat)
    have "9 \<le> length (drop (unat idx) aKey)" using d(2) Cons(3) by simp
    from get_varint_total [OF this] obtain t k where 1: "getVarint32 (drop (unat idx) aKey) = Some (t, k)" .
    let ?m = "c\<lparr>val_mem := (val_mem c)\<lparr>mem_enc := enc, mem_own := False, mem_block := [], mem_z := []\<rparr>\<rparr>"
    have "8 \<le> length (drop (unat d) aKey)" using d(1) Cons(3) by simp
    from get_total [OF this, of t ?m] obtain c' len
      where 2: "sqlite3VdbeSerialGet (drop (unat d) aKey) t ?m = Some (c', len)" "len < 2 ^ 31"
        "mem_flags (val_mem c') AND (MEM_Str OR MEM_Blob) \<noteq> 0 \<longrightarrow>
          mem_z (val_mem c') = drop (unat d) aKey \<and> mem_n (val_mem c') = len"
      by blast
    have sum: "unat (d + word_of_nat len) = unat d + len"
      using d(1) 2(2) Cons(2) by (simp add: unat_word_ariths unat_of_nat)
    then have "szHdr \<le> d + word_of_nat len" using Cons(4) by (simp add: word_le_nat_alt)
    then obtain ws d' where ws: "unpack_loop enc nKey aKey szHdr cs (idx + word_of_nat k) (d + word_of_nat len) = Some (ws, d')"
        "length ws \<le> length cs"
        "if d' \<le> word_of_nat nKey then \<forall>v \<in> set ws. inside nKey aKey v
         else (\<forall>v \<in> set (butlast ws). inside nKey aKey v) \<and> (ws = [] \<longrightarrow> d' = d + word_of_nat len)"
      using Cons(1) [OF Cons(2,3), of "d + word_of_nat len" "idx + word_of_nat k"] by blast
    have c': "inside nKey aKey c'" if "d + word_of_nat len \<le> word_of_nat nKey"
    proof -
      have "unat d + len \<le> nKey" using that sum Cons(2) by (simp add: word_le_nat_alt unat_of_nat)
      then show ?thesis using 2(3) by (auto simp: inside_def)
    qed
    have "ws = []" if "\<not> d + word_of_nat len \<le> word_of_nat nKey"
      using that ws(1) by (cases cs) auto
    then have "if d' \<le> word_of_nat nKey then \<forall>v \<in> set (c' # ws). inside nKey aKey v
         else \<forall>v \<in> set (butlast (c' # ws)). inside nKey aKey v"
      using ws(1,3) c' by (cases cs; cases "d + word_of_nat len \<le> word_of_nat nKey") (auto split: if_splits)
    then show ?thesis using True 1 2(1) ws(1,2) by auto
  next
    case False
    then show ?thesis by auto
  qed
qed auto

section \<open>Properties\<close>

text \<open>
  C17: for any registers, \<^verbatim>\<open>OP_MakeRecord\<close> makes the record the file format describes: the length of the
  header, the serial types, then the contents, with a tail of zero bytes possibly left to the blob's
  \<^verbatim>\<open>nZero\<close>. It writes only into the block it has sized (a write outside it would be \<open>None\<close>), and fails
  only when the record is longer than the limit or the allocator refuses a block.
\<close>

theorem make_record_builds_format:
  assumes "alloc_ok alloc" and "\<forall>v \<in> set vs. ser_ok v" and "length vs < 2 ^ 28"
  shows "\<exists>r. OP_MakeRecord vs ff limit pOut alloc = Some r \<and>
    (r = Inl no_mem \<and> (\<exists>n. alloc n = None) \<or> r = Inl too_big \<and> limit < length (record_bytes ff vs)
     \<or> (\<exists>out. r = Inr out \<and> blob out = record_bytes ff vs))"
  using make_record_ok [OF assms, of ff limit pOut] make_record_no_mem [of vs ff limit pOut alloc] by blast

definition reg :: "u16 \<Rightarrow> u64 \<Rightarrow> u8 list \<Rightarrow> nat \<Rightarrow> Val" where
  "reg f u z nZ = \<lparr>val_mem = \<lparr>mem_z = z, mem_n = length z, mem_enc = SQLITE_UTF8, mem_flags = f, mem_nZero = nZ, mem_own = False, mem_block = []\<rparr>,
     val_u = u, val_uTemp = 0\<rparr>"

definition some_regs :: "Val list" where
  "some_regs = [reg MEM_Int (- 300) [] 0, reg MEM_Null 0 [] 0, reg (MEM_Blob OR MEM_Zero) 0 [7] 2, reg MEM_Str 0 [104, 105] 0]"

lemma some_regs_ok: "\<forall>v \<in> set some_regs. ser_ok v" "length some_regs = 4"
  by (simp_all add: some_regs_def reg_def ser_ok_def zeros_def MEM_Int_def MEM_Real_def MEM_Null_def MEM_Zero_def
      MEM_Str_def MEM_Blob_def)

theorem make_record_builds_format_witness:
  "\<exists>out. OP_MakeRecord some_regs 4 1000 (val_mem (reg MEM_Null 0 [] 0)) (\<lambda>n. Some (replicate n 0)) = Some (Inr out)
    \<and> blob out = record_bytes 4 some_regs"
proof -
  have "\<not> 1000 < length (record_bytes 4 some_regs)" by code_simp
  then show ?thesis
    using make_record_builds_format [OF replicate_alloc_ok some_regs_ok(1), of 4 1000 "val_mem (reg MEM_Null 0 [] 0)"] some_regs_ok(2)
    by auto
qed

text \<open>
  C16: what \<^verbatim>\<open>OP_MakeRecord\<close> has made, \<^verbatim>\<open>sqlite3VdbeRecordUnpack\<close> takes apart into the same SQL values:
  integers of every size and sign, reals bit by bit (a NaN is NULL), texts, blobs and zero-filled
  blobs, NULLs, whatever follows the record in memory.
\<close>

theorem record_roundtrip:
  assumes "alloc_ok alloc" and "\<forall>v \<in> set vs. ser_ok v" and "length vs < 2 ^ 28" and "length vs \<le> length aMem"
    and "OP_MakeRecord vs ff limit pOut alloc = Some (Inr out)" and "length (blob out) < 2 ^ 31"
  shows "\<exists>ws. sqlite3VdbeRecordUnpack enc (length (blob out)) (blob out @ pad) aMem = Some ws
    \<and> map sql_value ws = map sql_value vs"
proof -
  have "blob out = record_bytes ff vs" using make_record_ok [OF assms(1-3), of ff limit pOut] assms(5) by auto
  then show ?thesis using unpack_record [OF assms(2-4)] assms(6) by simp
qed

theorem record_roundtrip_witness:
  "\<exists>out ws. OP_MakeRecord some_regs 4 1000 (val_mem (reg MEM_Null 0 [] 0)) (\<lambda>n. Some (replicate n 0)) = Some (Inr out)
    \<and> sqlite3VdbeRecordUnpack SQLITE_UTF8 (length (blob out)) (blob out @ []) (replicate 4 (reg 0 0 [] 0)) = Some ws
    \<and> map sql_value ws = map sql_value some_regs"
proof -
  let ?r = "OP_MakeRecord some_regs 4 1000 (val_mem (reg MEM_Null 0 [] 0)) (\<lambda>n. Some (replicate n 0))"
  have "case ?r of Some (Inr _) \<Rightarrow> True | _ \<Rightarrow> False" by code_simp
  then obtain out where out: "?r = Some (Inr out)" by (auto split: option.splits sum.splits)
  have "blob out = record_bytes 4 some_regs"
    using make_record_ok [OF replicate_alloc_ok some_regs_ok(1), of 4 1000 "val_mem (reg MEM_Null 0 [] 0)"] out
    by (auto simp: some_regs_ok)
  moreover have "length (record_bytes 4 some_regs) \<le> 100" by code_simp
  ultimately have "length (blob out) < 2 ^ 31" by simp
  then show ?thesis
    using record_roundtrip [OF replicate_alloc_ok some_regs_ok(1) _ _ out, of "replicate 4 (reg 0 0 [] 0)" SQLITE_UTF8 "[]"] out
    by (auto simp: some_regs_ok)
qed

text \<open>
  C18: unpacking never leaves the buffer, whatever its bytes: with eight bytes of padding behind the
  record every read succeeds, no more cells are filled than there are, and every text or blob that
  results lies inside the record.
\<close>

theorem unpack_stays_inside:
  assumes "0 < nKey" and "nKey < 2 ^ 31" and "nKey + 8 \<le> length aKey"
  shows "\<exists>ws. sqlite3VdbeRecordUnpack enc nKey aKey aMem = Some ws \<and> length ws \<le> length aMem
    \<and> (\<forall>v \<in> set ws. inside nKey aKey v)"
proof -
  have "9 \<le> length aKey" using assms by simp
  from get_varint_total [OF this] obtain szHdr k where h: "getVarint32 aKey = Some (szHdr, k)" .
  obtain ws d' where ws: "unpack_loop enc nKey aKey szHdr aMem (word_of_nat k) szHdr = Some (ws, d')"
      "length ws \<le> length aMem"
      "if d' \<le> word_of_nat nKey then \<forall>v \<in> set ws. inside nKey aKey v
       else (\<forall>v \<in> set (butlast ws). inside nKey aKey v) \<and> (ws = [] \<longrightarrow> d' = szHdr)"
    using unpack_loop_total [OF assms(2,3), of szHdr szHdr enc aMem "word_of_nat k"] by auto
  have "inside nKey aKey (mem_set_null v)" for v
    by (simp add: inside_def mem_set_null_def MEM_Null_def MEM_Str_def MEM_Blob_def)
  then show ?thesis
    using h ws by (auto simp: sqlite3VdbeRecordUnpack_def not_less split: if_splits)
qed

text \<open>A header that announces a longer text than there is.\<close>

theorem unpack_stays_inside_witness:
  "\<exists>ws. sqlite3VdbeRecordUnpack SQLITE_UTF8 3 ([2, 0xff, 0x7f] @ replicate 8 0) [reg 0 0 [] 0] = Some ws
    \<and> length ws \<le> length [reg 0 0 [] 0] \<and> (\<forall>v \<in> set ws. inside 3 ([2, 0xff, 0x7f] @ replicate 8 0) v)"
  by (rule unpack_stays_inside) simp_all

text \<open>
  The table of sizes and the formula of \<^verbatim>\<open>sqlite3VdbeSerialTypeLen\<close> agree with the reader: for every
  serial type, reserved ones included, the reader consumes exactly as many bytes.
\<close>

lemma serial_type_len_matches_reader:
  assumes "8 \<le> length buf"
  shows "map_option snd (sqlite3VdbeSerialGet buf t c) = Some (unat (sqlite3VdbeSerialTypeLen t))"
proof -
  have rd: "rd buf i = Some (buf ! i)" if "i < 8" for i using that assms by (simp add: rd_def)
  have small: "unat (sqlite3SmallTypeSizes ! unat t) =
      (if 12 \<le> t then unat ((t - 12) div 2) else [0, 1, 2, 3, 4, 6, 8, 8, 0, 0, 0, 0] ! unat t)" if "unat t < 128"
    by (rule word_table [OF _ that]) code_simp
  have big: "12 \<le> t" if "128 \<le> t" using that by (simp add: word_le_nat_alt)
  have len: "unat (sqlite3VdbeSerialTypeLen t) =
      (if 12 \<le> t then unat ((t - 12) div 2) else [0, 1, 2, 3, 4, 6, 8, 8, 0, 0, 0, 0] ! unat t)"
    using small big by (auto simp: sqlite3VdbeSerialTypeLen_def word_le_nat_alt unsigned_ucast_eq take_bit_nat_eq_self)
  show ?thesis
  proof (cases "12 \<le> t")
    case True
    then have "t \<noteq> k" if "unat k < 12" for k using that by (auto simp: word_le_nat_alt)
    then show ?thesis using True len by (simp add: sqlite3VdbeSerialGet_def Let_def)
  next
    case False
    then have "unat t < 12" by (simp add: word_le_nat_alt)
    have "t \<in> {0, 1, 2, 3, 4, 5, 6, 7, 8, 9, 10, 11}"
      by (rule word_table [OF _ \<open>unat t < 12\<close>]) code_simp
    then show ?thesis
      using rd False len by (elim insertE) (simp_all add: sqlite3VdbeSerialGet_def serialGet_def int_reads Let_def)
  qed
qed

end
