(* ===== verification/Like.thy ===== *)
theory Like
  imports CType Utf
begin

text \<open>
  The LIKE and GLOB matcher of \<^verbatim>\<open>src/func.c\<close>: \<^verbatim>\<open>patternCompare\<close>, its two interfaces and the SQL function.

  A NUL-terminated string is the list of the bytes before the terminator; a pointer into it is a
  suffix. Reading a character at the terminator gives 0 and leaves nothing: the code never reads on
  after a 0. \<open>zEscaped\<close>, a pointer that is only compared with the pattern pointer, is the number of
  bytes behind it.
\<close>

record compareInfo =
  matchAll :: u8
  matchOne :: u8
  matchSet :: u8
  noCase :: bool

definition globInfo :: compareInfo where
  "globInfo = \<lparr>matchAll = 0x2a, matchOne = 0x3f, matchSet = 0x5b, noCase = False\<rparr>"

definition likeInfoNorm :: compareInfo where
  "likeInfoNorm = \<lparr>matchAll = 0x25, matchOne = 0x5f, matchSet = 0, noCase = True\<rparr>"

definition likeInfoAlt :: compareInfo where
  "likeInfoAlt = \<lparr>matchAll = 0x25, matchOne = 0x5f, matchSet = 0, noCase = False\<rparr>"

definition SQLITE_MATCH :: nat where "SQLITE_MATCH = 0"
definition SQLITE_NOMATCH :: nat where "SQLITE_NOMATCH = 1"
definition SQLITE_NOWILDCARDMATCH :: nat where "SQLITE_NOWILDCARDMATCH = 2"

section \<open>Characters\<close>

text \<open>\<^verbatim>\<open>sqlite3Utf8Read(&z)\<close>: the character and the moved pointer.\<close>

definition read_char :: "u8 list \<Rightarrow> u32 \<times> u8 list" where
  "read_char z = (let (c, n) = sqlite3Utf8Read z in (c, drop n z))"

definition Utf8Read :: "u8 list \<Rightarrow> u32 \<times> u8 list" where
  "Utf8Read z = (if zc z 0 < 0x80 then (ucast (zc z 0), drop 1 z) else read_char z)"

text \<open>The case macros on a character: the tables are indexed by its low byte.\<close>

definition char_upper :: "u32 \<Rightarrow> u32" where
  "char_upper x = x AND NOT (ucast (sqlite3CtypeMap ! unat (ucast x :: u8) AND 0x20))"

definition char_lower :: "u32 \<Rightarrow> u32" where
  "char_lower x = ucast (sqlite3UpperToLower ! unat (ucast x :: u8))"

text \<open>\<^verbatim>\<open>strcspn\<close>: the string from the first byte that is one of \<open>stop\<close>, or its end.\<close>

definition strcspn_skip :: "u8 list \<Rightarrow> u8 list \<Rightarrow> u8 list" where
  "strcspn_skip stop z = dropWhile (\<lambda>b. b \<notin> set stop) z"

lemma read_char_length: "z \<noteq> [] \<Longrightarrow> length (snd (read_char z)) < length z"
  by (cases z) (auto simp: read_char_def sqlite3Utf8Read_def Let_def split: prod.splits dest: utf8_tail_length)

lemma read_char_length_le: "length (snd (read_char z)) \<le> length z"
  by (cases "z = []") (use read_char_length [of z] in \<open>auto simp: read_char_def sqlite3Utf8Read_def\<close>)

lemma Utf8Read_length: "z \<noteq> [] \<Longrightarrow> length (snd (Utf8Read z)) < length z"
  using read_char_length [of z] by (cases z) (auto simp: Utf8Read_def)

lemma Utf8Read_shorter: "(c, y) = Utf8Read z \<Longrightarrow> z \<noteq> [] \<Longrightarrow> length y < length z"
  using Utf8Read_length [of z] by (metis snd_conv)

lemma read_char_shorter: "(c, y) = read_char z \<Longrightarrow> z \<noteq> [] \<Longrightarrow> length y < length z"
  using read_char_length [of z] by (metis snd_conv)

lemma Utf8Read_nz: "(c, y) = Utf8Read z \<Longrightarrow> c \<noteq> 0 \<Longrightarrow> length y < length z"
  using Utf8Read_shorter [of c y z] by (cases "z = []") (auto simp: Utf8Read_def zc_def read_char_def)

lemma read_char_le: "(c, y) = read_char z \<Longrightarrow> length y \<le> length z"
  using read_char_length_le [of z] by (metis snd_conv)

lemma read_char_Nil [simp]: "read_char [] = (0, [])"
  by (simp add: read_char_def sqlite3Utf8Read_def)

lemma Utf8Read_Nil [simp]: "Utf8Read [] = (0, [])"
  by (simp add: Utf8Read_def)

section \<open>The loops\<close>

text \<open>
  \<^verbatim>\<open>while( (c=Utf8Read(zPattern)) == matchAll || c == matchOne )\<close>: the character after the wildcards,
  the pattern before and after that character and the rest of the string; \<open>None\<close> when the string
  ends before the \<^verbatim>\<open>?\<close> wildcards do.
\<close>

function skip_wild :: "compareInfo \<Rightarrow> u8 list \<Rightarrow> u8 list \<Rightarrow> (u32 \<times> u8 list \<times> u8 list) option" where
  "skip_wild pInfo zPattern zString =
     (let (c, zPattern') = Utf8Read zPattern in
      if zPattern \<noteq> [] \<and> c = ucast (matchAll pInfo) then skip_wild pInfo zPattern' zString
      else if zPattern \<noteq> [] \<and> c = ucast (matchOne pInfo) then
        let (c2, zString) = read_char zString in
        if c2 = 0 then None else skip_wild pInfo zPattern' zString
      else Some (c, zPattern', zString))"
  by pat_completeness auto
termination
  by (relation "measure (\<lambda>(i, p, z). length p)") (auto dest: Utf8Read_shorter)

declare skip_wild.simps [simp del]

lemma skip_wild_length:
  "skip_wild pInfo zPattern zString = Some (c, zPattern', zString') \<Longrightarrow>
    length zPattern' \<le> length zPattern \<and> (c \<noteq> 0 \<longrightarrow> length zPattern' < length zPattern)"
proof (induction pInfo zPattern zString rule: skip_wild.induct)
  case (1 pInfo zPattern zString)
  obtain d z where d: "Utf8Read zPattern = (d, z)" by (metis surj_pair)
  have z: "zPattern \<noteq> [] \<Longrightarrow> length z < length zPattern" "zPattern = [] \<Longrightarrow> d = 0 \<and> z = []"
    using Utf8Read_length [of zPattern] d by auto
  note S = 1(3) [unfolded skip_wild.simps [of pInfo zPattern zString] d prod.case Let_def]
  show ?case
  proof (cases "zPattern = []")
    case True
    then show ?thesis using S z(2) by auto
  next
    case False
    obtain c2 y where y: "read_char zString = (c2, y)" by (metis surj_pair)
    show ?thesis
      using S 1(1) [OF refl d [symmetric]] 1(2) [OF refl d [symmetric] _ _ refl y [symmetric]] y False z(1)
      by (auto split: if_splits)
  qed
qed

text \<open>
  The three searches behind a \<^verbatim>\<open>*\<close>: for a bracket, for one of the bytes \<open>stop\<close>, for a character; \<open>f\<close> is
  the comparison of the rest of the pattern.
\<close>

function set_search :: "(u8 list \<Rightarrow> nat) \<Rightarrow> u8 list \<Rightarrow> nat" where
  "set_search f zString =
     (if zString = [] then SQLITE_NOWILDCARDMATCH
      else if f zString \<noteq> SQLITE_NOMATCH then f zString
      else set_search f (SQLITE_SKIP_UTF8 zString))"
  by pat_completeness auto
termination
proof (relation "measure (\<lambda>(f, z). length z)")
  fix f and z :: "u8 list"
  assume "z \<noteq> []"
  then show "((f, SQLITE_SKIP_UTF8 z), f, z) \<in> measure (\<lambda>(f, z). length z)"
    using SKIP_UTF8_length by (cases z) (simp_all add: less_Suc_eq_le del: SQLITE_SKIP_UTF8.simps)
qed simp

function stop_search :: "u8 list \<Rightarrow> (u8 list \<Rightarrow> nat) \<Rightarrow> u8 list \<Rightarrow> nat" where
  "stop_search stop f zString =
     (case strcspn_skip stop zString of
        [] \<Rightarrow> SQLITE_NOWILDCARDMATCH
      | _ # zString \<Rightarrow> if f zString \<noteq> SQLITE_NOMATCH then f zString else stop_search stop f zString)"
  by pat_completeness auto
termination
proof (relation "measure (\<lambda>(s, f, z). length z)")
  fix stop f and z z' :: "u8 list" and b
  assume "strcspn_skip stop z = b # z'"
  then show "((stop, f, z'), stop, f, z) \<in> measure (\<lambda>(s, f, z). length z)"
    using length_dropWhile_le [of "\<lambda>b. b \<notin> set stop" z] by (simp add: strcspn_skip_def)
qed simp

function char_search :: "u32 \<Rightarrow> (u8 list \<Rightarrow> nat) \<Rightarrow> u8 list \<Rightarrow> nat" where
  "char_search c f zString =
     (let (c2, zString) = Utf8Read zString in
      if c2 = 0 then SQLITE_NOWILDCARDMATCH
      else if c2 \<noteq> c then char_search c f zString
      else if f zString \<noteq> SQLITE_NOMATCH then f zString
      else char_search c f zString)"
  by pat_completeness auto
termination
proof (relation "measure (\<lambda>(c, f, z). length z)")
  fix c f and z z' :: "u8 list" and x c2
  assume "x = Utf8Read z" "(c2, z') = x" "c2 \<noteq> 0"
  then show "((c, f, z'), c, f, z) \<in> measure (\<lambda>(c, f, z). length z)"
    "((c, f, z'), c, f, z) \<in> measure (\<lambda>(c, f, z). length z)"
    using Utf8Read_length [of z] by (cases "z = []"; auto simp: prod_eq_iff)+
qed simp

declare set_search.simps [simp del] stop_search.simps [simp del] char_search.simps [simp del]

text \<open>The inside of a bracket: the last character read, whether \<open>c\<close> was in it, and the rest of the pattern.\<close>

function set_loop :: "u32 \<Rightarrow> u32 \<Rightarrow> u32 \<Rightarrow> bool \<Rightarrow> u8 list \<Rightarrow> u32 \<times> bool \<times> u8 list" where
  "set_loop c c2 prior_c seen zPattern =
     (if c2 \<noteq> 0 \<and> c2 \<noteq> 0x5d then
        if c2 = 0x2d \<and> zc zPattern 0 \<noteq> 0x5d \<and> zc zPattern 0 \<noteq> 0 \<and> prior_c > 0 then
          let (c2, zPattern) = read_char zPattern;
              seen = (seen \<or> c \<ge> prior_c \<and> c \<le> c2);
              (c2, zPattern) = read_char zPattern
          in set_loop c c2 0 seen zPattern
        else
          let seen = (seen \<or> c = c2); prior_c = c2; (c2, zPattern) = read_char zPattern
          in set_loop c c2 prior_c seen zPattern
      else (c2, seen, zPattern))"
  by pat_completeness auto

termination
proof (relation "measure (\<lambda>(c, c2, p, s, z). length z + of_bool (c2 \<noteq> 0))", goal_cases)
  case (2 c c2 prior_c seen z x c3 z1 seen' x' c4 z2)
  then have "z \<noteq> []" by auto
  then have "length z1 < length z" using 2 read_char_shorter by blast
  moreover have "length z2 + of_bool (c4 \<noteq> 0) \<le> length z1"
    using 2 by (cases "z1 = []") (auto dest: read_char_shorter)
  ultimately show ?case using 2(1) by simp
next
  case (3 c c2 prior_c seen z seen' p x c3 z1)
  then show ?case by (cases "z = []") (auto dest: read_char_shorter)
qed simp

declare set_loop.simps [simp del]

text \<open>Whether the bracket that starts at \<open>zPattern\<close> is closed and accepts \<open>c\<close>, and the pattern behind it.\<close>

definition match_set :: "u32 \<Rightarrow> u8 list \<Rightarrow> bool \<times> u8 list" where
  "match_set c zPattern =
     (let (c2, zPattern) = read_char zPattern;
          invert = (c2 = 0x5e);
          (c2, zPattern) = (if invert then read_char zPattern else (c2, zPattern));
          first = (c2 = 0x5d);
          seen = (first \<and> c = 0x5d);
          (c2, zPattern) = (if first then read_char zPattern else (c2, zPattern));
          (c2, seen, zPattern) = set_loop c c2 0 seen zPattern
      in (\<not> (c2 = 0 \<or> seen = invert), zPattern))"

lemma set_loop_length: "set_loop c c2 p seen z = (c', s', z') \<Longrightarrow> length z' \<le> length z"
proof (induction c c2 p seen z rule: set_loop.induct)
  case (1 c c2 p seen z)
  then show ?case
    using read_char_length_le [of z] read_char_length_le [of "snd (read_char z)"]
    by (fastforce simp: set_loop.simps [of c c2 p seen z] Let_def split: if_splits prod.splits)
qed

lemma match_set_length: "match_set c z = (ok, z') \<Longrightarrow> length z' \<le> length z"
  using read_char_length_le [of z] read_char_length_le [of "snd (read_char z)"]
    read_char_length_le [of "snd (read_char (snd (read_char z)))"]
  by (auto simp: match_set_def Let_def split: prod.splits if_splits dest!: set_loop_length)

section \<open>The comparison\<close>

text \<open>Whether the characters \<open>c\<close> of the pattern and \<open>c2\<close> of the string go together.\<close>

definition same_char :: "compareInfo \<Rightarrow> u32 \<Rightarrow> u32 \<Rightarrow> bool \<Rightarrow> bool" where
  "same_char pInfo c c2 escaped \<longleftrightarrow>
     c = c2
     \<or> noCase pInfo \<and> char_lower c = char_lower c2 \<and> c < 0x80 \<and> c2 < 0x80
     \<or> c = ucast (matchOne pInfo) \<and> \<not> escaped \<and> c2 \<noteq> 0"

function patternCompare :: "compareInfo \<Rightarrow> u32 \<Rightarrow> nat option \<Rightarrow> u8 list \<Rightarrow> u8 list \<Rightarrow> nat" where
  "patternCompare pInfo matchOther zEscaped zPattern zString =
     (let (c, z) = Utf8Read zPattern in
      if c = 0 then (if zString = [] then SQLITE_MATCH else SQLITE_NOMATCH)
      else if c = ucast (matchAll pInfo) then
        (case skip_wild pInfo z zString of
           None \<Rightarrow> SQLITE_NOWILDCARDMATCH
         | Some (c, z', zString) \<Rightarrow>
             if c = 0 then SQLITE_MATCH
             else if c = matchOther \<and> matchSet pInfo \<noteq> 0 then
               set_search (\<lambda>s. patternCompare pInfo matchOther None
                 (drop (length zPattern - (length z' + 1)) zPattern) s) zString
             else
               let (c, z') = (if c = matchOther then read_char z' else (c, z')) in
               if c = 0 then SQLITE_NOWILDCARDMATCH
               else if c \<le> 0x80 then
                 stop_search (if noCase pInfo then [ucast (char_upper c), ucast (char_lower c)] else [ucast c])
                   (\<lambda>s. patternCompare pInfo matchOther None z' s) zString
               else char_search c (\<lambda>s. patternCompare pInfo matchOther None z' s) zString)
      else if c = matchOther \<and> matchSet pInfo \<noteq> 0 then
        let (c, zString) = read_char zString in
        if c = 0 then SQLITE_NOMATCH
        else let (ok, z) = match_set c z in
          if ok then patternCompare pInfo matchOther zEscaped z zString else SQLITE_NOMATCH
      else
        let (c, z, zEscaped) =
          (if c = matchOther then let (c, z) = read_char z in (c, z, Some (length z)) else (c, z, zEscaped)) in
        if c = 0 then SQLITE_NOMATCH
        else let (c2, zString) = Utf8Read zString in
          if same_char pInfo c c2 (zEscaped = Some (length z))
          then patternCompare pInfo matchOther zEscaped z zString else SQLITE_NOMATCH)"
  by pat_completeness auto
termination
proof (relation "measure (\<lambda>(i, m, e, p, s). length p)", goal_cases)
  case (2 i m e p s x c y w c3 w2 z' s' s'')
  then have "length y < length p" "length z' < length y"
    using Utf8Read_nz [of c y p] skip_wild_length [of i y s] by auto
  then show ?case by simp
next
  case (3 i m e p s x c y w c3 w2 z' s' v c4 z'' s'')
  then have "length y < length p" "length z' \<le> length y" "length z'' \<le> length z'"
    using Utf8Read_nz [of c y p] skip_wild_length [of i y s] by (auto dest: read_char_le split: if_splits)
  then show ?case by simp
next
  case (4 i m e p s x c y w c3 w2 z' s' v c4 z'' s'')
  then have "length y < length p" "length z' \<le> length y" "length z'' \<le> length z'"
    using Utf8Read_nz [of c y p] skip_wild_length [of i y s] by (auto dest: read_char_le split: if_splits)
  then show ?case by simp
next
  case (5 i m e p s x c y v d s' w ok z')
  then have "length y < length p" "length z' \<le> length y"
    using Utf8Read_nz [of c y p] match_set_length [of d y ok z'] by auto
  then show ?case by simp
next
  case (6 i m e p s x c y v c2 w z' e' x' d s')
  then have "length y < length p" using Utf8Read_nz [of c y p] by auto
  moreover have "length z' \<le> length y"
    using 6(6-8) by (auto simp: Let_def dest: read_char_le read_char_le [OF sym] split: if_splits prod.splits)
  ultimately show ?case by simp
qed simp

declare patternCompare.simps [simp del]

definition sqlite3_strglob :: "u8 list \<Rightarrow> u8 list \<Rightarrow> nat" where
  "sqlite3_strglob zGlobPattern zString = patternCompare globInfo 0x5b None zGlobPattern zString"

definition sqlite3_strlike :: "u8 list \<Rightarrow> u8 list \<Rightarrow> u32 \<Rightarrow> nat" where
  "sqlite3_strlike zPattern zStr esc = patternCompare likeInfoNorm esc None zPattern zStr"

text \<open>
  The SQL function: no result, an error, or a truth value. Of an argument it looks at whether it is a blob
  (\<^verbatim>\<open>SQLITE_LIKE_DOESNT_MATCH_BLOBS\<close> is on) and at its text, \<open>None\<close> for NULL. The limit is that on the length of a
  pattern.
\<close>

record like_arg =
  arg_blob :: bool
  arg_text :: "u8 list option"

datatype like_result = No_result | Pattern_too_complex | Escape_not_single | Like_result bool

definition likeFunc :: "compareInfo \<Rightarrow> nat \<Rightarrow> like_arg \<Rightarrow> like_arg \<Rightarrow> u8 list option option \<Rightarrow> like_result" where
  "likeFunc pInfo limit arg0 arg1 zEsc =
     (if arg_blob arg0 \<or> arg_blob arg1 then Like_result False else
      let zB = arg_text arg0; zA = arg_text arg1;
          nPat = (case zB of None \<Rightarrow> 0 | Some z \<Rightarrow> length z);
          result = (\<lambda>escape. case (zA, zB) of
            (Some zA, Some zB) \<Rightarrow> Like_result (patternCompare pInfo escape None zB zA = SQLITE_MATCH)
          | _ \<Rightarrow> No_result)
      in if nPat > limit then Pattern_too_complex
         else case zEsc of
           None \<Rightarrow> result (ucast (matchSet pInfo))
         | Some None \<Rightarrow> No_result
         | Some (Some zEsc) \<Rightarrow>
             if sqlite3Utf8CharLen zEsc None \<noteq> 1 then Escape_not_single
             else result (fst (sqlite3Utf8Read zEsc)))"

end
