(* ===== verification/LikeFacts.thy ===== *)
theory LikeFacts
  imports Like UtfText
begin

text \<open>
  What LIKE and GLOB match, defined on characters: a pattern is a list of items, each one any sequence
  or one character of a set, and matching is the existence of a way to split the string. The code
  works on bytes, gives up early (its third answer) and never tries the remaining starting points of
  an outer \<^verbatim>\<open>*\<close> once an inner one has failed. The lemmas show that it computes the definition.
\<close>

section \<open>Characters of a string\<close>

definition chars :: "u8 list \<Rightarrow> u32 list" where
  "chars z = decode READ_UTF8 z"

lemma tail_bits:
  "utf8_tail c z = (c', r) \<Longrightarrow> \<exists>y. z = y @ r \<and> (\<forall>b \<in> set y. 0x80 \<le> b)"
proof (induction c z rule: utf8_tail.induct)
  case (2 c b z)
  have "b AND 0xc0 = 0x80 \<Longrightarrow> 0x80 \<le> b"
    by (rule byte_table [where P = "\<lambda>b. b AND 0xc0 = 0x80 \<longrightarrow> 0x80 \<le> b", THEN mp]) code_simp
  show ?case
  proof (cases "b AND 0xc0 = 0x80")
    case True
    then obtain y where "z = y @ r \<and> (\<forall>b \<in> set y. 0x80 \<le> b)" using 2 by auto
    then show ?thesis using True \<open>b AND 0xc0 = 0x80 \<Longrightarrow> 0x80 \<le> b\<close> by (intro exI [of _ "b # y"]) auto
  qed (use 2 in auto)
qed auto

text \<open>One character: a low byte by itself, or several high bytes whose code is not a low one.\<close>

lemma read_cases:
  assumes "z \<noteq> []"
  obtains (low) b r where "z = b # r" "b < 0x80" "read_char z = (ucast b, r)" "READ_UTF8 z = Some (ucast b, r)"
    | (high) c y r where "z = y @ r" "y \<noteq> []" "\<forall>b \<in> set y. 0x80 \<le> b" "0x80 \<le> c" "read_char z = (c, r)"
        "READ_UTF8 z = Some (c, r)"
proof -
  obtain b x where z: "z = b # x" using assms by (cases z) auto
  show thesis
  proof (cases "b < 0xc0")
    case True
    then have rd: "READ_UTF8 z = Some (ucast b, x)" "read_char z = (ucast b, x)"
      by (auto simp: z read_char_def sqlite3Utf8Read_def)
    show thesis
    proof (cases "b < 0x80")
      case True
      then show thesis using low z rd by blast
    next
      case False
      then have "0x80 \<le> (ucast b :: u32)"
        by (simp add: word_le_nat_alt word_less_nat_alt unsigned_ucast_eq take_bit_nat_eq_self)
      then show thesis using high [of "[b]" x] z rd False by simp
    qed
  next
    case False
    obtain c r where t: "utf8_tail (ucast (sqlite3Utf8Trans1 ! unat (b - 0xc0))) x = (c, r)" by (metis surj_pair)
    then obtain y where y: "x = y @ r" "\<forall>b \<in> set y. 0x80 \<le> b" using tail_bits by blast
    have b: "0x80 \<le> b" using False by (simp add: word_le_nat_alt word_less_nat_alt)
    have "READ_UTF8 z = Some (utf8_check c, r)" using False t by (simp add: z not_less)
    moreover have "read_char z = (utf8_check c, r)"
      using False t y(1) by (simp add: read_char_def sqlite3Utf8Read_def z not_less)
    moreover have "0x80 \<le> utf8_check c" by (auto simp: utf8_check_def)
    ultimately show thesis using high [of "b # y" r] z y b by simp
  qed
qed

lemma chars_Nil [simp]: "chars [] = []"
  by (simp add: chars_def decode.simps [of _ "[]"])

lemma chars_read: "READ_UTF8 z = Some (c, r) \<Longrightarrow> chars z = c # chars r"
  using READ_UTF8_length [of z c r] by (simp add: chars_def decode.simps [of _ z])

lemma chars_eq_Nil [simp]: "chars z = [] \<longleftrightarrow> z = []"
proof (cases "z = []")
  case False
  then show ?thesis by (cases rule: read_cases) (use False chars_read in auto)
qed simp

lemma Utf8Read_eq: "Utf8Read z = read_char z"
proof (cases "z = []")
  case False
  then show ?thesis
  proof (cases rule: read_cases)
    case (high c y r)
    then have "\<not> zc z 0 < 0x80" by (cases y) auto
    then show ?thesis by (simp add: Utf8Read_def)
  qed (simp add: Utf8Read_def)
qed simp

lemma low_char: "(b :: u8) < 0x80 \<Longrightarrow> (ucast b :: u32) < 0x80 \<and> ucast (ucast b :: u32) = b"
  by (rule byte_table [where P = "\<lambda>b. b < 0x80 \<longrightarrow> (ucast b :: u32) < 0x80 \<and> ucast (ucast b :: u32) = b", THEN mp])
     code_simp

lemma read_chars:
  assumes "cstring z" and "z \<noteq> []"
  obtains c r where "read_char z = (c, r)" "c \<noteq> 0" "chars z = c # chars r" "cstring r" "length r < length z"
    "SQLITE_SKIP_UTF8 z = r" "c < 0x80 \<longrightarrow> z = ucast c # r \<and> (ucast c :: u8) < 0x80"
    "\<not> c < 0x80 \<longrightarrow> (\<exists>y. z = y @ r \<and> y \<noteq> [] \<and> (\<forall>b \<in> set y. 0x80 \<le> b))"
  using assms(2)
proof (cases rule: read_cases)
  case (low b r)
  have "(ucast b :: u32) \<noteq> 0" using low_char [OF low(2)] low(1) assms(1) by auto
  then show thesis
    using that [of "ucast b" r] low assms(1) low_char [OF low(2)] chars_read [OF low(4)] SKIP_READ [OF low(4)] by simp
next
  case (high c y r)
  have "\<not> c < 0x80" "c \<noteq> 0" using high(4) by auto
  then show thesis
    using that [of c r] high assms(1) chars_read [OF high(6)] SKIP_READ [OF high(6)] by (auto simp: cstring_def)
qed

section \<open>What a pattern matches\<close>

datatype item = Any | One "u32 \<Rightarrow> bool"

fun matches :: "item list \<Rightarrow> u32 list \<Rightarrow> bool" where
  "matches [] t \<longleftrightarrow> t = []"
| "matches (Any # p) [] \<longleftrightarrow> matches p []"
| "matches (Any # p) (x # t) \<longleftrightarrow> matches p (x # t) \<or> matches (Any # p) t"
| "matches (One P # p) [] \<longleftrightarrow> False"
| "matches (One P # p) (x # t) \<longleftrightarrow> P x \<and> matches p t"

text \<open>A character of the pattern matches itself, and in LIKE the other case of itself.\<close>

definition literal :: "compareInfo \<Rightarrow> u32 \<Rightarrow> u32 \<Rightarrow> bool" where
  "literal pInfo c x \<longleftrightarrow> x = c \<or> noCase pInfo \<and> char_lower c = char_lower x \<and> c < 0x80 \<and> x < 0x80"

text \<open>
  The inside of a bracket, up to its end, as ranges: a hyphen between two characters makes a range;
  the character after a range does not begin another.
\<close>

fun ranges :: "u32 \<Rightarrow> u32 list \<Rightarrow> ((u32 \<times> u32) list \<times> u32 list) option" where
  "ranges prior [] = None"
| "ranges prior [c] = (if c = 0x5d then Some ([], []) else None)"
| "ranges prior (c # d # ds) =
     (if c = 0x5d then Some ([], d # ds)
      else if c = 0x2d \<and> d \<noteq> 0x5d \<and> prior > 0
      then map_option (\<lambda>(rs, r). ((prior, d) # rs, r)) (ranges 0 ds)
      else map_option (\<lambda>(rs, r). ((c, c) # rs, r)) (ranges c (d # ds)))"

definition in_ranges :: "(u32 \<times> u32) list \<Rightarrow> u32 \<Rightarrow> bool" where
  "in_ranges rs x \<longleftrightarrow> (\<exists>(lo, hi) \<in> set rs. lo \<le> x \<and> x \<le> hi)"

text \<open>A bracket: \<open>^\<close> inverts it, a closing bracket at its beginning is a member.\<close>

definition bracket :: "u32 list \<Rightarrow> ((u32 \<Rightarrow> bool) \<times> u32 list) option" where
  "bracket cs =
     (let (invert, cs) = (case cs of c # ds \<Rightarrow> if c = 0x5e then (True, ds) else (False, cs) | [] \<Rightarrow> (False, []));
          (first, cs) = (case cs of c # ds \<Rightarrow> if c = 0x5d then ([(c, c)], ds) else ([], cs) | [] \<Rightarrow> ([], []))
      in map_option (\<lambda>(rs, r). (\<lambda>x. in_ranges (first @ rs) x \<noteq> invert, r)) (ranges 0 cs))"

lemma ranges_length: "ranges p cs = Some (rs, r) \<Longrightarrow> length r < length cs"
proof (induction p cs arbitrary: rs rule: ranges.induct)
  case (3 p c d ds)
  then consider "c = 0x5d" "r = d # ds" | rs' where "ranges 0 ds = Some (rs', r)" "c = 0x2d \<and> d \<noteq> 0x5d \<and> p > 0" "c \<noteq> 0x5d"
    | rs' where "ranges c (d # ds) = Some (rs', r)" "\<not> (c = 0x2d \<and> d \<noteq> 0x5d \<and> p > 0)" "c \<noteq> 0x5d"
    by (auto split: if_splits)
  then show ?case by cases (use 3(1,2) in \<open>force+\<close>)
qed (auto split: if_splits)

lemma bracket_length: "bracket cs = Some (P, r) \<Longrightarrow> length r < length cs"
proof -
  assume b: "bracket cs = Some (P, r)"
  define f where "f P cs = (case cs of c # ds \<Rightarrow> if P c then ds else cs | [] \<Rightarrow> [])" for P :: "u32 \<Rightarrow> bool" and cs
  have f: "length (f P cs) \<le> length cs" for P cs by (simp add: f_def split: list.split)
  have "\<exists>rs. ranges 0 (f (\<lambda>c. c = 0x5d) (f (\<lambda>c. c = 0x5e) cs)) = Some (rs, r)"
    using b unfolding bracket_def Let_def f_def by (auto split: list.splits if_splits)
  then obtain rs where "ranges 0 (f (\<lambda>c. c = 0x5d) (f (\<lambda>c. c = 0x5e) cs)) = Some (rs, r)" ..
  from ranges_length [OF this] f [of "\<lambda>c. c = 0x5d" "f (\<lambda>c. c = 0x5e) cs"] f [of "\<lambda>c. c = 0x5e" cs]
  show ?thesis by simp
qed

text \<open>
  The items of a pattern. An escape character at the end, or a bracket that is never closed, matches
  nothing.
\<close>

function items :: "compareInfo \<Rightarrow> u32 \<Rightarrow> u32 list \<Rightarrow> item list" where
  "items pInfo esc [] = []"
| "items pInfo esc (c # cs) =
     (if c = ucast (matchAll pInfo) then Any # items pInfo esc cs
      else if c = esc then
        if matchSet pInfo \<noteq> 0 then
          (case bracket cs of None \<Rightarrow> [One (\<lambda>x. False)] | Some (P, r) \<Rightarrow> One P # items pInfo esc r)
        else (case cs of [] \<Rightarrow> [One (\<lambda>x. False)] | d # ds \<Rightarrow> One (literal pInfo d) # items pInfo esc ds)
      else if c = ucast (matchOne pInfo) then One (\<lambda>x. True) # items pInfo esc cs
      else One (literal pInfo c) # items pInfo esc cs)"
  by pat_completeness auto
termination
  by (relation "measure (\<lambda>(i, e, cs). length cs)") (auto dest: bracket_length)

declare items.simps(2) [simp del]

section \<open>The searches\<close>

lemma matches_Any: "matches (Any # p) t \<longleftrightarrow> (\<exists>u v. t = u @ v \<and> matches p v)"
proof (induction t)
  case (Cons x t)
  have "(\<exists>u v. x # t = u @ v \<and> matches p v) \<longleftrightarrow> matches p (x # t) \<or> (\<exists>u v. t = u @ v \<and> matches p v)"
    by (auto simp: Cons_eq_append_conv)
  then show ?case using Cons by simp
qed simp

lemma Any_One: "matches (Any # One P # q) (x # t) \<Longrightarrow> matches (Any # q) t"
proof -
  assume "matches (Any # One P # q) (x # t)"
  then obtain u v where "x # t = u @ v" "matches (One P # q) v" using matches_Any by blast
  then obtain y w where "x # t = u @ y # w" "matches q w" by (cases v) auto
  then have "\<exists>u'. t = u' @ w" by (cases u) auto
  then show ?thesis using \<open>matches q w\<close> matches_Any by blast
qed

text \<open>An answer of the comparison of a pattern: the third answer rules out every later starting point.\<close>

definition answers :: "nat \<Rightarrow> item list \<Rightarrow> u32 list \<Rightarrow> bool" where
  "answers r p t \<longleftrightarrow> (r = SQLITE_MATCH \<longleftrightarrow> matches p t) \<and> r \<in> {SQLITE_MATCH, SQLITE_NOMATCH, SQLITE_NOWILDCARDMATCH}
     \<and> (r = SQLITE_NOWILDCARDMATCH \<longrightarrow> \<not> matches (Any # p) t)"

definition best :: "item list \<Rightarrow> u32 list \<Rightarrow> nat" where
  "best p t = (if matches p t then SQLITE_MATCH else SQLITE_NOWILDCARDMATCH)"

lemmas answer_codes = SQLITE_MATCH_def SQLITE_NOMATCH_def SQLITE_NOWILDCARDMATCH_def

lemma set_search_ok:
  assumes f: "\<And>s. cstring s \<Longrightarrow> answers (f s) p (chars s)" and p: "\<not> matches p []"
  shows "cstring s \<Longrightarrow> set_search f s = best (Any # p) (chars s)"
  using f
proof (induction f s rule: set_search.induct)
  case (1 f s)
  show ?case
  proof (cases "s = []")
    case True
    then show ?thesis using p by (simp add: set_search.simps [of f "[]"] best_def)
  next
    case False
    from 1(2) False obtain c r where r: "chars s = c # chars r" "cstring r" "SQLITE_SKIP_UTF8 s = r"
      by (rule read_chars)
    have "answers (f s) p (chars s)" using 1(2,3) by blast
    moreover have "f s = SQLITE_NOMATCH \<Longrightarrow> set_search f r = best (Any # p) (chars r)"
      using 1(1) [OF False] 1(3) r(2,3) by blast
    ultimately show ?thesis
      using False r by (auto simp: set_search.simps [of f s] best_def answers_def answer_codes)
  qed
qed

lemma char_search_ok:
  assumes f: "\<And>s. cstring s \<Longrightarrow> answers (f s) q (chars s)"
  shows "cstring s \<Longrightarrow> char_search c f s = best (Any # One (\<lambda>x. x = c) # q) (chars s)"
  using f
proof (induction c f s rule: char_search.induct)
  case (1 c f s)
  show ?case
  proof (cases "s = []")
    case True
    then show ?thesis by (simp add: char_search.simps [of c f "[]"] best_def)
  next
    case False
    from 1(3) False obtain d r where r: "read_char s = (d, r)" "d \<noteq> 0" "chars s = d # chars r" "cstring r"
      by (rule read_chars)
    note IH = 1(1,2) [unfolded Utf8Read_eq r(1), OF refl refl r(2)]
    have S: "char_search c f s = (if d \<noteq> c then char_search c f r
        else if f r \<noteq> SQLITE_NOMATCH then f r else char_search c f r)"
      using r(2) by (simp add: char_search.simps [of c f s] Utf8Read_eq r(1))
    have "answers (f r) q (chars r)" using 1(4) r(4) by blast
    moreover have "char_search c f r = best (Any # One (\<lambda>x. x = c) # q) (chars r)" if "d \<noteq> c \<or> f r = SQLITE_NOMATCH"
      using that IH r(4) 1(4) by blast
    ultimately show ?thesis
      using S r(3) Any_One [of "\<lambda>x. x = c" q d "chars r"]
      by (auto simp: best_def answers_def answer_codes split: if_splits)
  qed
qed

lemma strcspn_chars:
  assumes "\<forall>b. b \<in> set stop \<longleftrightarrow> b < 0x80 \<and> P (ucast b :: u32)" and "\<forall>x. P x \<longrightarrow> x < 0x80"
  shows "cstring z \<Longrightarrow> (case strcspn_skip stop z of [] \<Rightarrow> \<forall>x \<in> set (chars z). \<not> P x
    | b # r \<Rightarrow> \<exists>u. chars z = u @ ucast b # chars r \<and> (\<forall>x \<in> set u. \<not> P x) \<and> P (ucast b) \<and> cstring r)"
proof (induction z rule: length_induct)
  case (1 z)
  show ?case
  proof (cases "z = []")
    case True
    then show ?thesis by (simp add: strcspn_skip_def)
  next
    case False
    from 1(2) False obtain c r where r0: "read_char z = (c, r)" "c \<noteq> 0"
      and r: "chars z = c # chars r" "cstring r" "length r < length z"
      and skip_z: "SQLITE_SKIP_UTF8 z = r"
      and r': "c < 0x80 \<longrightarrow> z = ucast c # r \<and> (ucast c :: u8) < 0x80"
        "\<not> c < 0x80 \<longrightarrow> (\<exists>y. z = y @ r \<and> y \<noteq> [] \<and> (\<forall>b \<in> set y. 0x80 \<le> b))"
      by (rule read_chars)
    have IH: "case strcspn_skip stop r of [] \<Rightarrow> \<forall>x \<in> set (chars r). \<not> P x
      | b # r' \<Rightarrow> \<exists>u. chars r = u @ ucast b # chars r' \<and> (\<forall>x \<in> set u. \<not> P x) \<and> P (ucast b) \<and> cstring r'"
      using 1(1) r(2,3) by blast
    have skip: "?thesis" if "strcspn_skip stop z = strcspn_skip stop r" "\<not> P c"
      using IH that r(1) by (auto split: list.splits intro: exI [of _ "c # _"])
    show ?thesis
    proof (cases "c < 0x80")
      case True
      have cc: "ucast (ucast c :: u8) = c"
        by (rule word_table [where P = "\<lambda>c :: u32. ucast (ucast c :: u8) = c" and n = 128], code_simp)
           (use True in \<open>simp add: word_less_nat_alt\<close>)
      show ?thesis
      proof (cases "P c")
        case True
        then have "strcspn_skip stop z = ucast c # r"
          using r'(1) \<open>c < 0x80\<close> cc assms(1) by (simp add: strcspn_skip_def)
        then show ?thesis using r(1,2) True cc by (auto intro: exI [of _ "[]"])
      next
        case False
        then show ?thesis using r'(1) \<open>c < 0x80\<close> cc assms(1) by (intro skip) (auto simp: strcspn_skip_def)
      qed
    next
      case high: False
      then obtain y where y: "z = y @ r" "\<forall>b \<in> set y. 0x80 \<le> b" using r'(2) by blast
      then have "\<forall>b \<in> set y. b \<notin> set stop" using assms(1) by (auto simp: not_less [symmetric])
      then have "strcspn_skip stop z = strcspn_skip stop r"
        unfolding y(1) strcspn_skip_def by (intro dropWhile_append2) simp
      then show ?thesis using high assms(2) by (intro skip) auto
    qed
  qed
qed

lemma Any_skip:
  "\<forall>x \<in> set u. \<not> P x \<Longrightarrow> matches (Any # One P # q) (u @ t) \<longleftrightarrow> matches (Any # One P # q) t"
  by (induction u) simp_all

lemma stop_search_ok:
  assumes f: "\<And>s. cstring s \<Longrightarrow> answers (f s) q (chars s)"
    and P: "\<forall>b. b \<in> set stop \<longleftrightarrow> b < 0x80 \<and> P (ucast b :: u32)" "\<forall>x. P x \<longrightarrow> x < 0x80"
  shows "cstring s \<Longrightarrow> stop_search stop f s = best (Any # One P # q) (chars s)"
  using f P
proof (induction stop f s rule: stop_search.induct)
  case (1 stop f s)
  note skip = strcspn_chars [OF 1(4,5,2)]
  show ?case
  proof (cases "strcspn_skip stop s")
    case Nil
    then have "\<not> matches (Any # One P # q) (chars s @ [])" using skip by (subst Any_skip) simp_all
    then show ?thesis using Nil by (simp add: stop_search.simps [of stop f s] best_def)
  next
    case (Cons b r)
    then obtain u where u: "chars s = u @ ucast b # chars r" "\<forall>x \<in> set u. \<not> P x" "P (ucast b)" "cstring r"
      using skip by auto
    have "answers (f r) q (chars r)" using 1(3) u(4) by blast
    moreover have "f r = SQLITE_NOMATCH \<Longrightarrow> stop_search stop f r = best (Any # One P # q) (chars r)"
      using 1(1) [OF Cons] u(4) 1(3-5) by blast
    moreover have "matches (Any # One P # q) (chars s) \<longleftrightarrow> matches q (chars r) \<or> matches (Any # One P # q) (chars r)"
      using u by (simp add: Any_skip)
    ultimately show ?thesis
      using Cons Any_One [of P q "ucast b" "chars r"] u(3)
      by (auto simp: stop_search.simps [of stop f s] best_def answers_def answer_codes split: if_splits)
  qed
qed

section \<open>Brackets\<close>

text \<open>The characters still to come when \<open>c\<close> has been read and \<open>z\<close> is left.\<close>

definition pending :: "u32 \<Rightarrow> u8 list \<Rightarrow> u32 list" where
  "pending c z = (if c = 0 then [] else c # chars z)"

lemma pending_read: "cstring z \<Longrightarrow> read_char z = (c, z') \<Longrightarrow> pending c z' = chars z \<and> cstring z'"
  by (cases "z = []") (auto simp: pending_def elim: read_chars)

lemma zc_bracket:
  assumes "cstring z" and "chars z = d # ds"
  shows "zc z 0 = 0x5d \<longleftrightarrow> d = 0x5d" and "zc z 0 \<noteq> 0"
proof -
  have z: "z \<noteq> []" using assms(2) by auto
  from assms(1) z obtain c r where r0: "read_char z = (c, r)" "c \<noteq> 0"
      and r: "chars z = c # chars r" "cstring r" "length r < length z" and sk: "SQLITE_SKIP_UTF8 z = r"
      and r': "c < 0x80 \<longrightarrow> z = ucast c # r \<and> (ucast c :: u8) < 0x80"
        "\<not> c < 0x80 \<longrightarrow> (\<exists>y. z = y @ r \<and> y \<noteq> [] \<and> (\<forall>b \<in> set y. 0x80 \<le> b))"
    by (rule read_chars)
  have "c = d" using r(1) assms(2) by simp
  show "zc z 0 \<noteq> 0" using z assms(1) by (cases z) auto
  show "zc z 0 = 0x5d \<longleftrightarrow> d = 0x5d"
  proof (cases "d < 0x80")
    case True
    have "(ucast d :: u8) = 0x5d \<longleftrightarrow> d = 0x5d"
      by (rule word_table [where P = "\<lambda>d :: u32. (ucast d :: u8) = 0x5d \<longleftrightarrow> d = 0x5d" and n = 128], code_simp)
         (use True in \<open>simp add: word_less_nat_alt\<close>)
    then show ?thesis using True r'(1) \<open>c = d\<close> by simp
  next
    case False
    then obtain y where "z = y @ r" "y \<noteq> []" "\<forall>b \<in> set y. 0x80 \<le> b" using r'(2) \<open>c = d\<close> by blast
    then have "0x80 \<le> zc z 0" by (cases y) auto
    then show ?thesis using False by auto
  qed
qed

lemma in_ranges_simps: "in_ranges [] x = False" "in_ranges ((lo, hi) # rs) x \<longleftrightarrow> lo \<le> x \<and> x \<le> hi \<or> in_ranges rs x"
  by (auto simp: in_ranges_def)

lemma set_loop_ok:
  "cstring z \<Longrightarrow> (case ranges prior (pending c2 z) of
      None \<Rightarrow> fst (set_loop x c2 prior seen z) = 0
    | Some (rs, r) \<Rightarrow> \<exists>z'. set_loop x c2 prior seen z = (0x5d, seen \<or> in_ranges rs x, z') \<and> chars z' = r \<and> cstring z')"
proof (induction x c2 prior seen z rule: set_loop.induct)
  case (1 x c2 prior seen z)
  note S = set_loop.simps [of x c2 prior seen z]
  consider "c2 = 0" | "c2 = 0x5d" | (loop) "c2 \<noteq> 0" "c2 \<noteq> 0x5d" by blast
  then show ?case
  proof cases
    case 1
    then show ?thesis by (simp add: set_loop.simps [of x 0] pending_def)
  next
    case 2
    then have "ranges prior (pending c2 z) = Some ([], chars z)" by (cases "chars z") (simp_all add: pending_def)
    then show ?thesis using 2 1(3) by (simp add: set_loop.simps [of x "0x5d"] in_ranges_simps)
  next
    case loop
    obtain c3 z1 where r: "read_char z = (c3, z1)" by (metis surj_pair)
    then have p: "pending c3 z1 = chars z" "cstring z1" using pending_read [OF 1(3)] by simp_all
    have cs: "pending c2 z = c2 # chars z" using loop(1) by (simp add: pending_def)
    let ?range = "c2 = 0x2d \<and> zc z 0 \<noteq> 0x5d \<and> zc z 0 \<noteq> 0 \<and> prior > 0"
    show ?thesis
    proof (cases ?range)
      case True
      then have "z \<noteq> []" by auto
      then obtain d ds where d: "chars z = d # ds" by (cases "chars z") auto
      then have c3: "c3 = d" "chars z1 = ds" using p(1) by (auto simp: pending_def split: if_splits)
      obtain c4 z2 where r2: "read_char z1 = (c4, z2)" by (metis surj_pair)
      then have p2: "pending c4 z2 = chars z1" "cstring z2" using pending_read [OF p(2)] by simp_all
      let ?seen = "seen \<or> x \<ge> prior \<and> x \<le> c3"
      have "set_loop x c2 prior seen z = set_loop x c4 0 ?seen z2" using S loop True r r2 by simp
      moreover have "ranges prior (c2 # chars z) = map_option (\<lambda>(rs, r). ((prior, d) # rs, r)) (ranges 0 ds)"
        using True loop(2) d zc_bracket(1) [OF 1(3) d] by simp
      moreover have "case ranges 0 (pending c4 z2) of None \<Rightarrow> fst (set_loop x c4 0 ?seen z2) = 0
        | Some (rs, r) \<Rightarrow> \<exists>z'. set_loop x c4 0 ?seen z2 = (0x5d, ?seen \<or> in_ranges rs x, z') \<and> chars z' = r \<and> cstring z'"
        using 1(1) [OF _ True r [symmetric] refl refl r2 [symmetric] refl p2(2)] loop by simp
      ultimately show ?thesis
        using p2(1) c3 cs by (auto simp: in_ranges_simps split: option.splits)
    next
      case False
      have "set_loop x c2 prior seen z = set_loop x c3 c2 (seen \<or> x = c2) z1" using S loop False r by simp
      moreover have "ranges prior (c2 # chars z) = map_option (\<lambda>(rs, r). ((c2, c2) # rs, r)) (ranges c2 (chars z))"
      proof (cases "chars z")
        case (Cons d ds)
        then show ?thesis using False loop(2) zc_bracket [OF 1(3) Cons] by auto
      qed (use loop(2) in simp)
      moreover have "case ranges c2 (pending c3 z1) of None \<Rightarrow> fst (set_loop x c3 c2 (seen \<or> x = c2) z1) = 0
        | Some (rs, r) \<Rightarrow> \<exists>z'. set_loop x c3 c2 (seen \<or> x = c2) z1 = (0x5d, (seen \<or> x = c2) \<or> in_ranges rs x, z')
            \<and> chars z' = r \<and> cstring z'"
        using 1(2) [OF _ False refl refl r [symmetric] refl p(2)] loop by simp
      ultimately show ?thesis
        using p(1) cs by (auto simp: in_ranges_simps split: option.splits)
    qed
  qed
qed

lemma match_set_ok:
  assumes "cstring z"
  shows "case bracket (chars z) of None \<Rightarrow> \<not> fst (match_set x z)
    | Some (P, r) \<Rightarrow> \<exists>z'. match_set x z = (P x, z') \<and> chars z' = r \<and> cstring z'"
proof -
  obtain c2 z1 where r: "read_char z = (c2, z1)" by (metis surj_pair)
  have p1: "pending c2 z1 = chars z" "cstring z1" using pending_read [OF assms r] by simp_all
  let ?invert = "c2 = 0x5e"
  obtain c3 z2 where r2: "(if ?invert then read_char z1 else (c2, z1)) = (c3, z2)" by (metis surj_pair)
  let ?cs = "if ?invert then chars z1 else chars z"
  have p2: "pending c3 z2 = ?cs" "cstring z2"
    using r2 p1 pending_read [OF p1(2), of c3 z2] by (auto split: if_splits)
  have cs: "(case chars z of c # ds \<Rightarrow> if c = 0x5e then (True, ds) else (False, chars z) | [] \<Rightarrow> (False, [])) = (?invert, ?cs)"
    unfolding p1(1) [symmetric] by (simp add: pending_def)
  let ?first = "c3 = 0x5d"
  obtain c4 z3 where r3: "(if ?first then read_char z2 else (c3, z2)) = (c4, z3)" by (metis surj_pair)
  let ?ds = "if ?first then chars z2 else ?cs"
  have p3: "pending c4 z3 = ?ds" "cstring z3"
    using r3 p2 pending_read [OF p2(2), of c4 z3] by (auto split: if_splits)
  have ds: "(case ?cs of c # ds \<Rightarrow> if c = 0x5d then ([(c, c)], ds) else ([], ?cs) | [] \<Rightarrow> ([], []))
      = (if ?first then [(0x5d, 0x5d)] else [], ?ds)"
    unfolding p2(1) [symmetric] by (simp add: pending_def)
  have B: "bracket (chars z) = map_option (\<lambda>(rs, r). (\<lambda>x. in_ranges ((if ?first then [(0x5d, 0x5d)] else []) @ rs) x \<noteq> ?invert, r))
      (ranges 0 ?ds)"
    unfolding bracket_def Let_def cs prod.case ds ..
  have M: "match_set x z = (let (c, seen, z') = set_loop x c4 0 (?first \<and> x = 0x5d) z3 in (\<not> (c = 0 \<or> seen = ?invert), z'))"
    unfolding match_set_def Let_def r prod.case r2 r3 ..
  have first: "in_ranges ((if ?first then [(0x5d, 0x5d)] else []) @ rs) x \<longleftrightarrow> ?first \<and> x = 0x5d \<or> in_ranges rs x" for rs
    by (auto simp: in_ranges_simps)
  note L = set_loop_ok [OF p3(2), where prior = 0 and ?c2.0 = c4 and x = x and seen = "?first \<and> x = 0x5d", unfolded p3(1)]
  show ?thesis
  proof (cases "ranges 0 ?ds")
    case None
    then show ?thesis using L by (simp only: B M option.case option.map) (simp add: split_beta)
  next
    case (Some rr)
    obtain rs r where rr: "rr = (rs, r)" by (cases rr)
    then obtain z' where z': "set_loop x c4 0 (?first \<and> x = 0x5d) z3 = (0x5d, (?first \<and> x = 0x5d) \<or> in_ranges rs x, z')"
        "chars z' = r" "cstring z'"
      using L unfolding Some rr by auto
    show ?thesis unfolding B M Some rr z'(1) using z'(2,3) first by simp
  qed
qed

section \<open>Wildcards\<close>

lemma Any_Any: "matches (Any # Any # p) t \<longleftrightarrow> matches (Any # p) t"
  unfolding matches_Any [of "Any # p"] matches_Any [of p] by (metis append.assoc append_Nil)

lemma Any_some: "matches (Any # One (\<lambda>x. True) # p) t \<longleftrightarrow> t \<noteq> [] \<and> matches (Any # p) (tl t)"
proof (cases t)
  case (Cons x y)
  have "matches (Any # One (\<lambda>x. True) # p) (x # y) \<longleftrightarrow> matches (Any # p) y"
  proof
    show "matches (Any # p) y" if "matches (Any # One (\<lambda>x. True) # p) (x # y)" using Any_One [OF that] .
    assume "matches (Any # p) y"
    then obtain u v where "y = u @ v" "matches p v" using matches_Any by blast
    moreover obtain w a where "x # u = w @ [a]" by (metis append_butlast_last_id list.distinct(1))
    ultimately have "x # y = w @ a # v" "matches (One (\<lambda>x. True) # p) (a # v)" by auto
    then show "matches (Any # One (\<lambda>x. True) # p) (x # y)" using matches_Any by blast
  qed
  then show ?thesis using Cons by simp
qed simp

text \<open>The wildcards and the escape character are different characters.\<close>

definition info_ok :: "compareInfo \<Rightarrow> u32 \<Rightarrow> bool" where
  "info_ok pInfo esc \<longleftrightarrow> esc \<noteq> ucast (matchAll pInfo) \<and> esc \<noteq> ucast (matchOne pInfo) \<and> (matchSet pInfo \<noteq> 0 \<longrightarrow> esc < 0x80)"

lemma skip_wild_ok:
  "info_ok pInfo esc \<Longrightarrow> cstring z \<Longrightarrow> cstring s \<Longrightarrow> (case skip_wild pInfo z s of
      None \<Rightarrow> \<not> matches (Any # items pInfo esc (chars z)) (chars s)
    | Some (c, z', s') \<Rightarrow> cstring z' \<and> cstring s'
        \<and> matches (Any # items pInfo esc (chars z)) (chars s)
          = matches (Any # items pInfo esc (pending c z')) (chars s')
        \<and> (c = 0 \<longrightarrow> z' = [])
        \<and> (c \<noteq> 0 \<longrightarrow> c \<noteq> ucast (matchAll pInfo) \<and> c \<noteq> ucast (matchOne pInfo)
            \<and> set (c # chars z') \<subseteq> set (chars z) \<and> (c < 0x80 \<longrightarrow> (\<exists>y. z = y @ ucast c # z'))))"
proof (induction pInfo z s rule: skip_wild.induct)
  case (1 pInfo z s)
  note S = skip_wild.simps [of pInfo z s]
  show ?case
  proof (cases "z = []")
    case True
    then show ?thesis using 1(5) by (simp add: skip_wild.simps [of pInfo "[]"] pending_def)
  next
    case False
    from 1(4) False obtain c r where r0: "read_char z = (c, r)" "c \<noteq> 0"
      and r: "chars z = c # chars r" "cstring r" "length r < length z" and sk: "SQLITE_SKIP_UTF8 z = r"
      and r': "c < 0x80 \<longrightarrow> z = ucast c # r \<and> (ucast c :: u8) < 0x80"
        "\<not> c < 0x80 \<longrightarrow> (\<exists>y. z = y @ r \<and> y \<noteq> [] \<and> (\<forall>b \<in> set y. 0x80 \<le> b))"
      by (rule read_chars)
    have U: "Utf8Read z = (c, r)" using r0(1) by (simp add: Utf8Read_eq)
    have suffix: "\<exists>y. z = y @ r" using r' by (cases "c < 0x80") auto
    consider (all) "c = ucast (matchAll pInfo)" | (one) "c \<noteq> ucast (matchAll pInfo)" "c = ucast (matchOne pInfo)"
      | (other) "c \<noteq> ucast (matchAll pInfo)" "c \<noteq> ucast (matchOne pInfo)" by blast
    then show ?thesis
    proof cases
      case all
      have i: "items pInfo esc (chars z) = Any # items pInfo esc (chars r)" using all by (simp add: r(1) items.simps(2))
      have k: "skip_wild pInfo z s = skip_wild pInfo r s" using S U False all by simp
      show ?thesis
        unfolding i k Any_Any
        using 1(1) [OF refl U [symmetric] conjI [OF False all] 1(3) r(2) 1(5)] suffix
        by (auto split: option.splits simp: r(1))
    next
      case one
      then have c_esc: "c \<noteq> esc" using 1(3) by (auto simp: info_ok_def)
      have i: "items pInfo esc (chars z) = One (\<lambda>x. True) # items pInfo esc (chars r)"
        using one c_esc by (simp add: r(1) items.simps(2))
      obtain d s' where d: "read_char s = (d, s')" by (metis surj_pair)
      then have p: "pending d s' = chars s" "cstring s'" using pending_read [OF 1(5)] by simp_all
      have k: "skip_wild pInfo z s = (if d = 0 then None else skip_wild pInfo r s')"
        using S U False one d by simp
      show ?thesis
      proof (cases "d = 0")
        case True
        then show ?thesis using p(1) by (simp add: k i Any_some pending_def)
      next
        case d0: False
        then have "chars s = d # chars s'" using p(1) [symmetric] by (simp only: pending_def if_False)
        then have t: "chars s \<noteq> [] \<and> tl (chars s) = chars s'" by (metis list.sel(3) list.distinct(1))
        have "\<not> (z \<noteq> [] \<and> c = ucast (matchAll pInfo))" "z \<noteq> [] \<and> c = ucast (matchOne pInfo)" using one False by auto
        note IH = 1(2) [OF refl U [symmetric] this refl d [symmetric] d0 1(3) r(2) p(2)]
        have h: "matches (Any # items pInfo esc (chars z)) (chars s) = matches (Any # items pInfo esc (chars r)) (chars s')"
          unfolding i Any_some using t by simp
        show ?thesis
          unfolding k if_not_P [OF d0] h using IH suffix by (auto split: option.splits simp: r(1))
      qed
    next
      case other
      have k: "skip_wild pInfo z s = Some (c, r, s)" using S U False other by simp
      show ?thesis
        unfolding k using other r r' r0(2) 1(5) by (auto simp: pending_def intro: exI [of _ "[]"])
    qed
  qed
qed

section \<open>Case\<close>

lemma lower_byte: "b < 0x80 \<Longrightarrow> char_lower (ucast (b :: u8)) = ucast (UpperToLower b)"
  using low_char [of b] by (simp add: char_lower_def UpperToLower_def)

lemma upper_byte: "(b :: u8) < 0x80 \<Longrightarrow> (ucast (char_upper (ucast b)) :: u8) = (if 0x61 \<le> b \<and> b \<le> 0x7a then b - 0x20 else b)"
  by (rule byte_table [where P = "\<lambda>b. b < 0x80 \<longrightarrow>
      (ucast (char_upper (ucast b)) :: u8) = (if 0x61 \<le> b \<and> b \<le> 0x7a then b - 0x20 else b)", THEN mp]) code_simp

lemma same_lower:
  assumes "(b :: u8) < 0x80" and "k < 0x80"
  shows "UpperToLower b = UpperToLower k \<longleftrightarrow> b = (if 0x61 \<le> k \<and> k \<le> 0x7a then k - 0x20 else k) \<or> b = UpperToLower k"
proof -
  have add: "unat (x + 0x20) = unat x + 32" if "x \<le> 0x5a" for x :: u8
    using that by (simp add: word_le_nat_alt unat_word_ariths)
  have sub: "unat (x - 0x20) = unat x - 32" if "0x61 \<le> x" for x :: u8
    using that by (subst unat_sub) (simp_all add: word_le_nat_alt)
  show ?thesis
    using assms add [of b] add [of k] sub [of k]
    by (auto simp: UpperToLower_eq word_unat_eq_iff word_le_nat_alt word_less_nat_alt split: if_splits)
qed

lemma ucast_eq: "(ucast (a :: u8) :: u32) = ucast b \<longleftrightarrow> a = b"
proof
  assume "(ucast a :: u32) = ucast b"
  then have "unat (ucast a :: u32) = unat (ucast b :: u32)" by simp
  then show "a = b" by (simp add: unsigned_ucast_eq take_bit_nat_eq_self word_unat_eq_iff)
qed simp

lemma stop_bytes:
  assumes "c < 0x80"
    and stop: "stop = (if noCase pInfo then [ucast (char_upper c), ucast (char_lower c)] else [ucast c :: u8])"
  shows "\<forall>b. b \<in> set stop \<longleftrightarrow> b < 0x80 \<and> literal pInfo c (ucast b)"
proof -
  obtain k :: u8 where k: "c = ucast k" "k < 0x80"
  proof
    show "c = ucast (ucast c :: u8)" "(ucast c :: u8) < 0x80"
      by (rule word_table [where P = "\<lambda>c :: u32. c = ucast (ucast c :: u8)" and n = 128], code_simp)
         (use assms(1) in \<open>simp add: word_less_nat_alt\<close>,
          rule word_table [where P = "\<lambda>c :: u32. (ucast c :: u8) < 0x80" and n = 128], code_simp,
          use assms(1) in \<open>simp add: word_less_nat_alt\<close>)
  qed
  have low: "UpperToLower k < 0x80" "ucast (ucast (UpperToLower k) :: u32) = UpperToLower k"
    by (rule byte_table [where P = "\<lambda>k. k < 0x80 \<longrightarrow> UpperToLower k < 0x80", THEN mp], code_simp, rule k(2))
       (rule bit_word_eqI, auto simp: bit_simps dest: bit_imp_le_length)
  have up: "(if 0x61 \<le> k \<and> k \<le> 0x7a then k - 0x20 else k) < 0x80"
    by (rule byte_table [where P = "\<lambda>k :: u8. k < 0x80 \<longrightarrow> (if 0x61 \<le> k \<and> k \<le> 0x7a then k - 0x20 else k) < 0x80", THEN mp],
        code_simp, rule k(2))
  show ?thesis
  proof
    fix b :: u8
    have lit: "literal pInfo c (ucast b) \<longleftrightarrow> b = k \<or> noCase pInfo \<and> UpperToLower k = UpperToLower b" if "b < 0x80"
      using that k low_char [OF k(2)] low_char [OF that] lower_byte [OF k(2)] lower_byte [OF that]
      by (auto simp: literal_def ucast_eq)
    have "b \<in> set stop \<longleftrightarrow> (if noCase pInfo then b = (if 0x61 \<le> k \<and> k \<le> 0x7a then k - 0x20 else k) \<or> b = UpperToLower k else b = k)"
      using k low low_char [OF k(2)] by (auto simp: stop upper_byte lower_byte)
    then show "b \<in> set stop \<longleftrightarrow> b < 0x80 \<and> literal pInfo c (ucast b)"
      using lit same_lower [of b k] k(2) low(1) up by auto
  qed
qed

section \<open>The comparison\<close>

lemma best_answers: "answers (best (Any # p) t) (Any # p) t"
  by (simp add: best_def answers_def answer_codes Any_Any)

lemma answers_One:
  assumes "answers r q t" and "P x"
  shows "answers r (One P # q) (x # t)"
  using assms Any_One [of P q x t] by (auto simp: answers_def)

lemma answers_no: "\<not> matches p t \<Longrightarrow> answers SQLITE_NOMATCH p t"
  by (simp add: answers_def answer_codes)

lemma search_ok:
  assumes f: "\<And>s. cstring s \<Longrightarrow> answers (f s) q (chars s)" and s: "cstring s" and c: "c \<noteq> 0x80"
  shows "(if c \<le> 0x80 then
      stop_search (if noCase pInfo then [ucast (char_upper c), ucast (char_lower c)] else [ucast c]) f s
    else char_search c f s) = best (Any # One (literal pInfo c) # q) (chars s)"
proof (cases "c \<le> 0x80")
  case True
  then have c: "c < 0x80" using c by simp
  have "\<forall>x. literal pInfo c x \<longrightarrow> x < 0x80" using c by (auto simp: literal_def)
  from stop_search_ok [OF f stop_bytes [OF c refl] this s] show ?thesis using True by simp
next
  case False
  then have "literal pInfo c = (\<lambda>x. x = c)" by (intro ext) (auto simp: literal_def)
  then show ?thesis using False char_search_ok [OF f s] by simp
qed

lemma ranges_set: "ranges p cs = Some (rs, r) \<Longrightarrow> set r \<subseteq> set cs"
  by (induction p cs arbitrary: rs rule: ranges.induct) (auto split: if_splits)

lemma bracket_set: "bracket cs = Some (P, r) \<Longrightarrow> set r \<subseteq> set cs"
proof -
  assume b: "bracket cs = Some (P, r)"
  define f where "f P cs = (case cs of c # ds \<Rightarrow> if P c then ds else cs | [] \<Rightarrow> [])" for P :: "u32 \<Rightarrow> bool" and cs
  have f: "set (f P cs) \<subseteq> set cs" for P cs by (auto simp: f_def split: list.split)
  have "\<exists>rs. ranges 0 (f (\<lambda>c. c = 0x5d) (f (\<lambda>c. c = 0x5e) cs)) = Some (rs, r)"
    using b unfolding bracket_def Let_def f_def by (auto split: list.splits if_splits)
  then obtain rs where "ranges 0 (f (\<lambda>c. c = 0x5d) (f (\<lambda>c. c = 0x5e) cs)) = Some (rs, r)" ..
  from ranges_set [OF this] f [of "\<lambda>c. c = 0x5d" "f (\<lambda>c. c = 0x5e) cs"] f [of "\<lambda>c. c = 0x5e" cs]
  show ?thesis by blast
qed

lemma chars_low: "c < 0x80 \<Longrightarrow> chars (ucast c # z) = c # chars z"
proof -
  assume c: "c < 0x80"
  have "ucast (ucast c :: u8) = c \<and> \<not> 0xc0 \<le> (ucast c :: u8)"
    by (rule word_table [where P = "\<lambda>c :: u32. ucast (ucast c :: u8) = c \<and> \<not> 0xc0 \<le> (ucast c :: u8)" and n = 128], code_simp)
       (use c in \<open>simp add: word_less_nat_alt\<close>)
  then have "READ_UTF8 (ucast c # z) = Some (c, z)" by simp
  then show ?thesis by (rule chars_read)
qed

lemma lower_nonzero: "c \<noteq> 0 \<Longrightarrow> c < 0x80 \<Longrightarrow> char_lower c \<noteq> char_lower 0"
  by (rule word_table [where P = "\<lambda>c. c \<noteq> 0 \<longrightarrow> char_lower c \<noteq> char_lower 0" and n = 128, THEN mp], code_simp)
     (simp_all add: word_less_nat_alt)

lemma same_char_literal:
  assumes "c \<noteq> 0" and "c = ucast (matchOne pInfo) \<longrightarrow> escaped"
  shows "same_char pInfo c x escaped \<longleftrightarrow> x \<noteq> 0 \<and> literal pInfo c x"
  using assms lower_nonzero [of c] by (auto simp: same_char_def literal_def)

lemma same_char_one:
  assumes "c \<noteq> 0" and "c = ucast (matchOne pInfo)" and "\<not> escaped"
  shows "same_char pInfo c x escaped \<longleftrightarrow> x \<noteq> 0"
  using assms lower_nonzero [of c] by (auto simp: same_char_def)

lemma matches_only_Any: "matches [Any] t"
  by (induction t) simp_all

lemma no_match: "\<not> matches (Any # [One (\<lambda>x. False)]) t"
  by (induction t) simp_all

text \<open>The pattern does not contain the character 0x80, and \<open>zEscaped\<close> is not ahead of the pattern.\<close>

definition before :: "nat option \<Rightarrow> u8 list \<Rightarrow> bool" where
  "before e z \<longleftrightarrow> (case e of None \<Rightarrow> True | Some n \<Rightarrow> length z \<le> n)"

lemma patternCompare_ok:
  "info_ok pInfo esc \<Longrightarrow> cstring z \<Longrightarrow> cstring s \<Longrightarrow> 0x80 \<notin> set (chars z) \<Longrightarrow> before e z \<Longrightarrow>
    answers (patternCompare pInfo esc e z s) (items pInfo esc (chars z)) (chars s)"
proof (induction "length z" arbitrary: e z s rule: less_induct)
  case less
  note info = less(2) and z_ok = less(3) and s_ok = less(4) and z80 = less(5)
  note S = patternCompare.simps [of pInfo esc e z s]
  have IH: "answers (patternCompare pInfo esc e' z' s') (items pInfo esc (chars z')) (chars s')"
    if "length z' < length z" "cstring z'" "cstring s'" "0x80 \<notin> set (chars z')" "before e' z'" for e' z' s'
    using less(1) [OF that(1) info that(2-5)] .
  show ?case
  proof (cases "z = []")
    case True
    then show ?thesis
      by (auto simp: patternCompare.simps [of pInfo esc e "[]"] answers_def answer_codes)
  next
    case False
    from z_ok False obtain c r where r0: "read_char z = (c, r)" "c \<noteq> 0"
      and r: "chars z = c # chars r" "cstring r" "length r < length z" and sk: "SQLITE_SKIP_UTF8 z = r"
      and r': "c < 0x80 \<longrightarrow> z = ucast c # r \<and> (ucast c :: u8) < 0x80"
        "\<not> c < 0x80 \<longrightarrow> (\<exists>y. z = y @ r \<and> y \<noteq> [] \<and> (\<forall>b \<in> set y. 0x80 \<le> b))"
      by (rule read_chars)
    have U: "Utf8Read z = (c, r)" using r0(1) by (simp add: Utf8Read_eq)
    consider (all) "c = ucast (matchAll pInfo)"
      | (set) "c \<noteq> ucast (matchAll pInfo)" "c = esc" "matchSet pInfo \<noteq> 0"
      | (single) "c \<noteq> ucast (matchAll pInfo)" "\<not> (c = esc \<and> matchSet pInfo \<noteq> 0)" by blast
    then show ?thesis
    proof cases
      case all
      have i: "items pInfo esc (chars z) = Any # items pInfo esc (chars r)" using all by (simp add: r(1) items.simps(2))
      have suffix: "\<exists>y. z = y @ r" using r' by (cases "c < 0x80") auto
      have "patternCompare pInfo esc e z s = best (Any # items pInfo esc (chars r)) (chars s)"
      proof (cases "skip_wild pInfo r s")
        case None
        then have "\<not> matches (Any # items pInfo esc (chars r)) (chars s)"
          using skip_wild_ok [OF info r(2) s_ok] by simp
        then show ?thesis using None S U r0(2) all by (simp add: best_def)
      next
        case (Some t)
        obtain c1 z1 s1 where t: "t = (c1, z1, s1)" by (metis surj_pair)
        have k: "cstring z1" "cstring s1"
            "matches (Any # items pInfo esc (chars r)) (chars s) = matches (Any # items pInfo esc (pending c1 z1)) (chars s1)"
          and k0: "c1 \<noteq> 0 \<Longrightarrow> c1 \<noteq> ucast (matchAll pInfo) \<and> c1 \<noteq> ucast (matchOne pInfo)
            \<and> set (c1 # chars z1) \<subseteq> set (chars r) \<and> (c1 < 0x80 \<longrightarrow> (\<exists>y. r = y @ ucast c1 # z1))"
          using skip_wild_ok [OF info r(2) s_ok] unfolding Some t by auto
        have len: "length z1 \<le> length r" using skip_wild_length [of pInfo r s c1 z1 s1] Some t by simp
        show ?thesis
        proof (cases "c1 = 0")
          case True
          then show ?thesis
            using S U r0(2) all Some t k(3) by (simp add: best_def pending_def matches_only_Any)
        next
          case c1: False
          have best: "best (Any # items pInfo esc (chars r)) (chars s) = best (Any # items pInfo esc (c1 # chars z1)) (chars s1)"
            using k(3) c1 by (simp add: best_def pending_def)
          have z80': "0x80 \<notin> set (c1 # chars z1)" using k0 [OF c1] z80 r(1) by auto
          have IH': "answers (patternCompare pInfo esc None z' s') (items pInfo esc (chars z')) (chars s')"
            if "length z' \<le> length r" "cstring z'" "0x80 \<notin> set (chars z')" "cstring s'" for z' s'
            using that r(3) by (intro IH) (simp_all add: before_def)
          show ?thesis
          proof (cases "c1 = esc \<and> matchSet pInfo \<noteq> 0")
            case True
            then have low: "c1 < 0x80" using info by (simp add: info_ok_def)
            then obtain y where y: "r = y @ ucast c1 # z1" using k0 [OF c1] by blast
            then have "drop (length z - (length z1 + 1)) z = ucast c1 # z1" using suffix by auto
            then have P: "patternCompare pInfo esc e z s
                = set_search (\<lambda>s'. patternCompare pInfo esc None (ucast c1 # z1) s') s1"
              using S U r0(2) all Some t c1 True by simp
            show ?thesis
              unfolding best P chars_low [OF low, symmetric]
            proof (rule set_search_ok [OF IH' _ k(2)])
              show "length (ucast c1 # z1) \<le> length r" "cstring (ucast c1 # z1)"
                using y r(2) by (auto simp: cstring_def)
              show "0x80 \<notin> set (chars (ucast c1 # z1))" using z80' chars_low [OF low] by simp
              show "\<not> matches (items pInfo esc (chars (ucast c1 # z1))) []"
                unfolding chars_low [OF low] using True k0 [OF c1] by (simp add: items.simps(2) split: option.split)
            qed
          next
            case no_set: False
            obtain d z2 where d: "(if c1 = esc then read_char z1 else (c1, z1)) = (d, z2)" by (metis surj_pair)
            have P: "patternCompare pInfo esc e z s = (if d = 0 then SQLITE_NOWILDCARDMATCH
                else if d \<le> 0x80 then
                  stop_search (if noCase pInfo then [ucast (char_upper d), ucast (char_lower d)] else [ucast d])
                    (\<lambda>s'. patternCompare pInfo esc None z2 s') s1
                else char_search d (\<lambda>s'. patternCompare pInfo esc None z2 s') s1)"
              unfolding S U prod.case Let_def if_not_P [OF r0(2)] if_P [OF all] Some t option.case if_not_P [OF c1]
                if_not_P [OF no_set] d ..
            show ?thesis
            proof (cases "d = 0")
              case True
              then have e: "c1 = esc" "read_char z1 = (0, z2)" using d c1 by (auto split: if_splits)
              have "pending 0 z2 = chars z1" using pending_read [OF k(1) e(2)] by simp
              then have "chars z1 = []" unfolding pending_def by simp
              with e(1) have "items pInfo esc (c1 # chars z1) = [One (\<lambda>x. False)]"
                using no_set k0 [OF c1] by (simp add: items.simps(2))
              then show ?thesis unfolding best P using True by (simp add: best_def no_match)
            next
              case d0: False
              have z2: "cstring z2" "length z2 \<le> length z1" "0x80 \<notin> set (d # chars z2)"
                  "items pInfo esc (c1 # chars z1) = One (literal pInfo d) # items pInfo esc (chars z2)"
              proof -
                have "cstring z2 \<and> length z2 \<le> length z1 \<and> 0x80 \<notin> set (d # chars z2)
                  \<and> items pInfo esc (c1 # chars z1) = One (literal pInfo d) # items pInfo esc (chars z2)"
                proof (cases "c1 = esc")
                  case True
                  then have rd: "read_char z1 = (d, z2)" using d by simp
                  have "chars z1 = d # chars z2" "cstring z2"
                    using pending_read [OF k(1) rd] d0 by (simp_all add: pending_def)
                  then show ?thesis
                    using True no_set z80' k0 [OF c1] read_char_le [OF rd [symmetric]] by (simp add: items.simps(2))
                next
                  case False
                  then show ?thesis using d z80' k(1) k0 [OF c1] by (simp add: items.simps(2))
                qed
                then show "cstring z2" "length z2 \<le> length z1" "0x80 \<notin> set (d # chars z2)"
                  "items pInfo esc (c1 # chars z1) = One (literal pInfo d) # items pInfo esc (chars z2)" by simp_all
              qed
              show ?thesis
                unfolding best P if_not_P [OF d0] z2(4)
              proof (rule search_ok [OF IH' k(2)])
                show "length z2 \<le> length r" using z2(2) len by simp
              qed (use z2 in auto)
            qed
          qed
        qed
      qed
      then show ?thesis unfolding i by (simp only: best_answers)
    next
      case set
      have i: "items pInfo esc (chars z) = (case bracket (chars r) of None \<Rightarrow> [One (\<lambda>x. False)] | Some (P, q) \<Rightarrow> One P # items pInfo esc q)"
        using set by (simp add: r(1) items.simps(2))
      obtain d s1 where d: "read_char s = (d, s1)" by (metis surj_pair)
      have p: "pending d s1 = chars s" "cstring s1" using pending_read [OF s_ok d] by simp_all
      have P: "patternCompare pInfo esc e z s = (if d = 0 then SQLITE_NOMATCH else
          let (ok, z1) = match_set d r in if ok then patternCompare pInfo esc e z1 s1 else SQLITE_NOMATCH)"
        using S U r0(2) set d by simp
      show ?thesis
      proof (cases "d = 0")
        case True
        then have "chars s = []" using p(1) by (simp add: pending_def)
        then have "\<not> matches (items pInfo esc (chars z)) (chars s)" by (simp add: i split: option.split)
        then show ?thesis using P True answers_no by simp
      next
        case d0: False
        then have t: "chars s = d # chars s1" using p(1) [symmetric] by (simp only: pending_def if_False)
        show ?thesis
        proof (cases "bracket (chars r)")
          case None
          then have "\<not> fst (match_set d r)" using match_set_ok [OF r(2), of d] by simp
          then show ?thesis using P d0 answers_no [of "[One (\<lambda>x. False)]"] by (simp add: i None t split_beta)
        next
          case (Some b)
          obtain Q q where b: "b = (Q, q)" by (cases b)
          then obtain z1 where z1: "match_set d r = (Q d, z1)" "chars z1 = q" "cstring z1"
            using match_set_ok [OF r(2), of d] Some by auto
          show ?thesis
          proof (cases "Q d")
            case True
            have "answers (patternCompare pInfo esc e z1 s1) (items pInfo esc (chars z1)) (chars s1)"
            proof (rule IH)
              show l: "length z1 < length z" using match_set_length [OF z1(1)] r(3) by simp
              show "0x80 \<notin> set (chars z1)" using bracket_set [of "chars r" Q q] Some b z1(2) z80 r(1) by auto
              show "before e z1" using less(6) l by (auto simp: before_def split: option.splits)
            qed (use z1 p in simp_all)
            then show ?thesis using P d0 z1(1,2) True answers_One [of _ _ _ Q d] by (simp add: i Some b t)
          next
            case False
            then show ?thesis using P d0 z1(1) answers_no [of "One Q # items pInfo esc q"] by (simp add: i Some b t)
          qed
        qed
      qed
    next
      case single
      have "\<exists>P d r1 e1. (if c = esc then let (c, z) = read_char r in (c, z, Some (length z)) else (c, r, e)) = (d, r1, e1)
        \<and> (if d = 0 then items pInfo esc (chars z) = [One (\<lambda>x. False)]
           else items pInfo esc (chars z) = One P # items pInfo esc (chars r1) \<and> cstring r1 \<and> length r1 < length z
             \<and> set (chars r1) \<subseteq> set (chars z) \<and> before e1 r1
             \<and> (\<forall>x. same_char pInfo d x (e1 = Some (length r1)) \<longleftrightarrow> x \<noteq> 0 \<and> P x))"
      proof (cases "c = esc")
        case True
        obtain d r1 where d: "read_char r = (d, r1)" by (metis surj_pair)
        have p: "pending d r1 = chars r" "cstring r1" using pending_read [OF r(2) d] by simp_all
        show ?thesis
        proof (cases "d = 0")
          case True
          then have "chars r = []" using p(1) by (simp add: pending_def)
          then show ?thesis using \<open>c = esc\<close> single d True r(1) by (simp add: items.simps(2))
        next
          case d0: False
          then have t: "chars r = d # chars r1" using p(1) [symmetric] by (simp only: pending_def if_False)
          have "\<forall>x. same_char pInfo d x True \<longleftrightarrow> x \<noteq> 0 \<and> literal pInfo d x" using same_char_literal [OF d0] by simp
          then show ?thesis
            using True single d d0 t p(2) r(1,3) read_char_le [OF d [symmetric]]
            by (auto simp: items.simps(2) before_def intro!: exI [of _ "literal pInfo d"])
        qed
      next
        case False
        let ?P = "if c = ucast (matchOne pInfo) then (\<lambda>x. True) else literal pInfo c"
        have ne: "e \<noteq> Some (length r)" using less(6) r(3) by (auto simp: before_def)
        have "\<forall>x. same_char pInfo c x False \<longleftrightarrow> x \<noteq> 0 \<and> ?P x"
        proof (cases "c = ucast (matchOne pInfo)")
          case True
          then show ?thesis using same_char_one [OF r0(2), of pInfo False] by simp
        next
          case False
          then show ?thesis using same_char_literal [OF r0(2), of pInfo False] by simp
        qed
        then show ?thesis
          using False single r ne r0(2) less(6)
          by (intro exI [of _ ?P] exI [of _ c] exI [of _ r] exI [of _ e])
             (auto simp: items.simps(2) before_def split: option.splits)
      qed
      then obtain P d r1 e1 where d: "(if c = esc then let (c, z) = read_char r in (c, z, Some (length z)) else (c, r, e)) = (d, r1, e1)"
        and i: "if d = 0 then items pInfo esc (chars z) = [One (\<lambda>x. False)]
           else items pInfo esc (chars z) = One P # items pInfo esc (chars r1) \<and> cstring r1 \<and> length r1 < length z
             \<and> set (chars r1) \<subseteq> set (chars z) \<and> before e1 r1
             \<and> (\<forall>x. same_char pInfo d x (e1 = Some (length r1)) \<longleftrightarrow> x \<noteq> 0 \<and> P x)"
        by blast
      obtain x s1 where x: "read_char s = (x, s1)" by (metis surj_pair)
      have p: "pending x s1 = chars s" "cstring s1" using pending_read [OF s_ok x] by simp_all
      have N: "\<not> (c = esc \<and> matchSet pInfo \<noteq> 0)" using single by blast
      have C: "patternCompare pInfo esc e z s = (if d = 0 then SQLITE_NOMATCH
          else if same_char pInfo d x (e1 = Some (length r1)) then patternCompare pInfo esc e1 r1 s1 else SQLITE_NOMATCH)"
        using S U r0(2) single(1) x d by (simp only: Utf8Read_eq N prod.case Let_def if_False if_True)
      show ?thesis
      proof (cases "d = 0")
        case True
        then have "\<not> matches (items pInfo esc (chars z)) (chars s)" using i by (cases "chars s") simp_all
        then show ?thesis using C True answers_no by simp
      next
        case d0: False
        then have i: "items pInfo esc (chars z) = One P # items pInfo esc (chars r1)" "cstring r1" "length r1 < length z"
             "set (chars r1) \<subseteq> set (chars z)" "before e1 r1"
             "\<And>x. same_char pInfo d x (e1 = Some (length r1)) \<longleftrightarrow> x \<noteq> 0 \<and> P x"
          using i by auto
        show ?thesis
        proof (cases "x \<noteq> 0 \<and> P x")
          case True
          then have t: "chars s = x # chars s1" using p(1) [symmetric] by (simp only: pending_def if_False)
          have "answers (patternCompare pInfo esc e1 r1 s1) (items pInfo esc (chars r1)) (chars s1)"
            using i(2-5) p(2) z80 by (intro IH) auto
          then show ?thesis using C d0 i(6) True answers_One [of _ _ _ P x] by (simp add: i(1) t)
        next
          case False
          then have "\<not> matches (items pInfo esc (chars z)) (chars s)"
            using p(1) by (auto simp: i(1) pending_def simp flip: p(1) split: if_splits)
          then show ?thesis using C d0 i(6) False answers_no by simp
        qed
      qed
    qed
  qed
qed

section \<open>Properties\<close>

text \<open>
  C30: GLOB matches exactly what its pattern describes: \<open>*\<close> any characters, \<open>?\<close> one character, a bracket
  one character in (or, after \<open>^\<close>, not in) its ranges, any other character itself; a bracket that is
  never closed matches nothing. This holds for strings of any bytes without a NUL, read as UTF-8,
  and patterns without the character 0x80 (which the search for a low byte mistakes for the last byte
  of other characters). It covers the early exit and the pruned search of the code.
\<close>

theorem glob_matches_pattern:
  assumes "cstring p" and "cstring s" and "0x80 \<notin> set (chars p)"
  shows "sqlite3_strglob p s = 0 \<longleftrightarrow> matches (items globInfo 0x5b (chars p)) (chars s)"
proof -
  have "info_ok globInfo 0x5b" by (simp add: info_ok_def globInfo_def)
  from patternCompare_ok [OF this assms, of None] show ?thesis
    by (simp add: before_def answers_def sqlite3_strglob_def SQLITE_MATCH_def)
qed

text \<open>\<^verbatim>\<open>*[b-d]?\<close> against \<^verbatim>\<open>abcx\<close>.\<close>

theorem glob_matches_pattern_witness:
  "sqlite3_strglob [0x2a, 0x5b, 0x62, 0x2d, 0x64, 0x5d, 0x3f] [0x61, 0x62, 0x63, 0x78] = 0"
proof -
  let ?p = "[0x2a, 0x5b, 0x62, 0x2d, 0x64, 0x5d, 0x3f] :: u8 list" and ?s = "[0x61, 0x62, 0x63, 0x78] :: u8 list"
  have p: "chars ?p = [0x2a, 0x5b, 0x62, 0x2d, 0x64, 0x5d, 0x3f]" and s: "chars ?s = [0x61, 0x62, 0x63, 0x78]"
    by code_simp+
  have "matches (items globInfo 0x5b (chars ?p)) (chars ?s)"
    unfolding p s
    by (simp add: items.simps globInfo_def bracket_def in_ranges_def)
  then show ?thesis using glob_matches_pattern [of ?p ?s] p by simp
qed

text \<open>
  C31: LIKE, with or without an escape character other than its two wildcards, matches exactly what its
  pattern describes: \<open>%\<close> any characters, \<open>_\<close> one character, an escaped character that character, any
  other one itself, in both cases of the letters A to Z. A pattern that ends in the escape character
  matches nothing. This holds for patterns without the character 0x80, as for GLOB.
\<close>

theorem like_matches_pattern:
  assumes "cstring p" and "cstring s" and "0x80 \<notin> set (chars p)" and "esc \<noteq> 0x25" and "esc \<noteq> 0x5f"
  shows "sqlite3_strlike p s esc = 0 \<longleftrightarrow> matches (items likeInfoNorm esc (chars p)) (chars s)"
proof -
  have "info_ok likeInfoNorm esc" using assms(4,5) by (simp add: info_ok_def likeInfoNorm_def)
  from patternCompare_ok [OF this assms(1-3), of None] show ?thesis
    by (simp add: before_def answers_def sqlite3_strlike_def SQLITE_MATCH_def)
qed

text \<open>\<^verbatim>\<open>%A!_\<close> with the escape character \<open>!\<close> against \<^verbatim>\<open>bba_\<close>.\<close>

theorem like_matches_pattern_witness:
  "sqlite3_strlike [0x25, 0x41, 0x21, 0x5f] [0x62, 0x62, 0x61, 0x5f] 0x21 = 0"
proof -
  let ?p = "[0x25, 0x41, 0x21, 0x5f] :: u8 list" and ?s = "[0x62, 0x62, 0x61, 0x5f] :: u8 list"
  have p: "chars ?p = [0x25, 0x41, 0x21, 0x5f]" and s: "chars ?s = [0x62, 0x62, 0x61, 0x5f]" by code_simp+
  have l: "literal likeInfoNorm 0x41 0x61" "literal likeInfoNorm 0x5f 0x5f" by (code_simp, code_simp)
  have "matches (items likeInfoNorm 0x21 (chars ?p)) (chars ?s)"
    unfolding p s using l by (simp add: items.simps likeInfoNorm_def)
  then show ?thesis using like_matches_pattern [of ?p ?s "0x21"] p by simp
qed

text \<open>
  The excluded pattern: behind a \<open>*\<close> the character U+0080 is found in the last byte of U+00C0, although
  the pattern describes no such text.
\<close>

lemma glob_search_of_0x80:
  "sqlite3_strglob [0x2a, 0xc2, 0x80] [0xc3, 0x80] = 0"
  "\<not> matches (items globInfo 0x5b (chars [0x2a, 0xc2, 0x80])) (chars [0xc3, 0x80])"
proof -
  show "sqlite3_strglob [0x2a, 0xc2, 0x80] [0xc3, 0x80] = 0" by code_simp
  have p: "chars [0x2a, 0xc2, 0x80] = [0x2a, 0x80]" and s: "chars [0xc3, 0x80] = [0xc0]" by code_simp+
  show "\<not> matches (items globInfo 0x5b (chars [0x2a, 0xc2, 0x80])) (chars [0xc3, 0x80])"
    unfolding p s by (simp add: items.simps globInfo_def literal_def)
qed

end
