(* ===== verification/RecCmp.thy ===== *)
theory RecCmp
  imports CType RecordFmt
begin

text \<open>
  Comparing records: the built-in collating sequences of \<^verbatim>\<open>src/main.c\<close>, and from \<^verbatim>\<open>src/vdbeaux.c\<close> the
  comparison of two values, of an integer with a \<^verbatim>\<open>double\<close>, and of a record with an unpacked key, with
  the two fast versions and the function that chooses among them.

  A C \<^verbatim>\<open>int\<close> that is only a comparison result is an \<open>int\<close>; \<open>None\<close> is an access outside a buffer or
  an operation without a defined result. The sign that \<^verbatim>\<open>memcmp\<close> returns is that of the difference of the first
  bytes that differ.
\<close>

section \<open>Collating sequences\<close>

fun memcmp_loop :: "u8 list \<Rightarrow> u8 list \<Rightarrow> int" where
  "memcmp_loop (a # p) (b # q) = (if a = b then memcmp_loop p q else uint a - uint b)"
| "memcmp_loop p q = 0"

definition memcmp :: "u8 list \<Rightarrow> u8 list \<Rightarrow> nat \<Rightarrow> int option" where
  "memcmp p q n = (if n \<le> length p \<and> n \<le> length q then Some (memcmp_loop (take n p) (take n q)) else None)"

text \<open>\<^verbatim>\<open>allSpaces\<close> on the bytes \<open>z\<close>, tested from the last one.\<close>

fun allSpaces_loop :: "u8 list \<Rightarrow> bool" where
  "allSpaces_loop [] = True"
| "allSpaces_loop (b # z) = (if b = 0x20 then allSpaces_loop z else False)"

definition allSpaces :: "u8 list \<Rightarrow> bool" where
  "allSpaces z = allSpaces_loop (rev z)"

text \<open>The collating functions get the two strings with their exact lengths.\<close>

definition binCollFunc :: "bool \<Rightarrow> u8 list \<Rightarrow> u8 list \<Rightarrow> int" where
  "binCollFunc padFlag pKey1 pKey2 =
     (let n = (if length pKey1 < length pKey2 then length pKey1 else length pKey2);
          rc = memcmp_loop (take n pKey1) (take n pKey2)
      in if rc = 0 then
           if padFlag \<and> allSpaces (drop n pKey1) \<and> allSpaces (drop n pKey2) then rc
           else int (length pKey1) - int (length pKey2)
         else rc)"

definition nocaseCollatingFunc :: "u8 list \<Rightarrow> u8 list \<Rightarrow> int" where
  "nocaseCollatingFunc pKey1 pKey2 =
     (let r = sqlite3_strnicmp (Some pKey1) (Some pKey2)
                (if length pKey1 < length pKey2 then int (length pKey1) else int (length pKey2))
      in if r = 0 then int (length pKey1) - int (length pKey2) else r)"

record CollSeq =
  coll_enc :: u8
  coll_xCmp :: "u8 list \<Rightarrow> u8 list \<Rightarrow> int"

section \<open>Integers and doubles\<close>

text \<open>
  A \<^verbatim>\<open>double\<close> that is no NaN is a multiple of \<open>2 ^ -1074\<close>: \<open>dbl_num\<close> is the multiple. An infinity is
  beyond every finite number, which is all a comparison asks.
\<close>

definition dbl_exp :: "u64 \<Rightarrow> nat" where "dbl_exp r = unat (drop_bit 52 r AND 0x7ff)"
definition dbl_frac :: "u64 \<Rightarrow> nat" where "dbl_frac r = unat (r AND 0xfffffffffffff)"

definition dbl_num :: "u64 \<Rightarrow> int" where
  "dbl_num r = (if bit r 63 then -1 else 1) *
     (if dbl_exp r = 0 then int (dbl_frac r) else int (2 ^ 52 + dbl_frac r) * 2 ^ (dbl_exp r - 1))"

definition dbl_unit :: int where "dbl_unit = 2 ^ 1074"

definition dbl_less :: "u64 \<Rightarrow> u64 \<Rightarrow> bool" where
  "dbl_less r s \<longleftrightarrow> \<not> sqlite3IsNaN r \<and> \<not> sqlite3IsNaN s \<and> dbl_num r < dbl_num s"

definition dbl_le :: "u64 \<Rightarrow> u64 \<Rightarrow> bool" where
  "dbl_le r s \<longleftrightarrow> \<not> sqlite3IsNaN r \<and> \<not> sqlite3IsNaN s \<and> dbl_num r \<le> dbl_num s"

text \<open>\<^verbatim>\<open>(i64)r\<close> drops the fraction; it has no defined result when that does not fit.\<close>

definition dbl_to_i64 :: "u64 \<Rightarrow> int option" where
  "dbl_to_i64 r =
     (let y = sgn (dbl_num r) * (\<bar>dbl_num r\<bar> div dbl_unit)
      in if sqlite3IsNaN r \<or> y < - (2 ^ 63) \<or> y \<ge> 2 ^ 63 then None else Some y)"

text \<open>
  \<^verbatim>\<open>(double)i\<close> for a 64-bit integer, rounded to the nearest and to even: \<open>k\<close> is the number of its bits.
  A significand that is rounded up to \<open>2 ^ 53\<close> carries into the exponent.
\<close>

fun bit_length :: "nat \<Rightarrow> nat" where
  "bit_length n = (if n = 0 then 0 else Suc (bit_length (n div 2)))"

declare bit_length.simps [simp del]

definition round_even :: "nat \<Rightarrow> nat \<Rightarrow> nat" where
  "round_even m s =
     (let q = m div 2 ^ s; t = 2 * (m mod 2 ^ s)
      in if t < 2 ^ s then q else if t > 2 ^ s then q + 1 else q + q mod 2)"

definition dbl_of_i64 :: "int \<Rightarrow> u64" where
  "dbl_of_i64 i =
     (if i = 0 then 0
      else let m = nat \<bar>i\<bar>; k = bit_length m;
               q = (if k \<le> 53 then m * 2 ^ (53 - k) else round_even m (k - 53))
           in word_of_nat ((k + 1021) * 2 ^ 52 + q) OR (if i < 0 then push_bit 63 1 else 0))"

text \<open>The branch for targets whose \<^verbatim>\<open>long double\<close> has eight bytes, such as the 64-bit ARM of the devices.\<close>

definition sqlite3IntFloatCompare :: "int \<Rightarrow> u64 \<Rightarrow> int option" where
  "sqlite3IntFloatCompare i r =
     (if dbl_less r 0xC3E0000000000000 then Some 1
      else if dbl_le 0x43E0000000000000 r then Some (-1)
      else do {
        y \<leftarrow> dbl_to_i64 r;
        if i < y then Some (-1)
        else if i > y then Some 1
        else let s = dbl_of_i64 i in
          if dbl_less s r then Some (-1) else if dbl_less r s then Some 1 else Some 0 })"

section \<open>Two values\<close>

text \<open>The bytes \<open>z[0..n-1]\<close> of the blob.\<close>

fun isAllZero :: "u8 list \<Rightarrow> nat \<Rightarrow> bool option" where
  "isAllZero z 0 = Some True"
| "isAllZero [] (Suc n) = None"
| "isAllZero (b # z) (Suc n) = (if b \<noteq> 0 then Some False else isAllZero z n)"

definition sqlite3BlobCompare :: "Mem \<Rightarrow> Mem \<Rightarrow> int option" where
  "sqlite3BlobCompare pB1 pB2 =
     (let n1 = mem_n pB1; n2 = mem_n pB2 in
      if (mem_flags pB1 OR mem_flags pB2) AND MEM_Zero \<noteq> 0 then
        if mem_flags pB1 AND mem_flags pB2 AND MEM_Zero \<noteq> 0 then
          Some (int (mem_nZero pB1) - int (mem_nZero pB2))
        else if mem_flags pB1 AND MEM_Zero \<noteq> 0 then do {
          z \<leftarrow> isAllZero (mem_z pB2) n2;
          Some (if \<not> z then -1 else int (mem_nZero pB1) - int n2) }
        else do {
          z \<leftarrow> isAllZero (mem_z pB1) n1;
          Some (if \<not> z then 1 else int n1 - int (mem_nZero pB2)) }
      else do {
        c \<leftarrow> memcmp (mem_z pB1) (mem_z pB2) (if n1 > n2 then n2 else n1);
        Some (if c \<noteq> 0 then c else int n1 - int n2) })"

definition sqlite3VdbeChangeEncoding :: "Mem \<Rightarrow> u8 \<Rightarrow> (nat \<Rightarrow> u8 list option) \<Rightarrow> (nat \<times> Mem) option" where
  "sqlite3VdbeChangeEncoding m desiredEnc alloc =
     (if mem_flags m AND MEM_Str = 0 \<or> mem_enc m = desiredEnc then Some (SQLITE_OK, m)
      else sqlite3VdbeMemTranslate m desiredEnc alloc)"

text \<open>
  \<^verbatim>\<open>valueToText\<close> and \<^verbatim>\<open>sqlite3ValueText\<close> for a value that is a string or a blob and for an encoding
  without the alignment flag: the value afterwards and whether the result is a pointer to its bytes
  rather than NULL.
\<close>

definition valueToText :: "Mem \<Rightarrow> u8 \<Rightarrow> (nat \<Rightarrow> u8 list option) \<Rightarrow> (bool \<times> Mem) option" where
  "valueToText m enc alloc = do {
     (rc, m) \<leftarrow> (if mem_flags m AND MEM_Zero \<noteq> 0 then sqlite3VdbeMemExpandBlob m alloc else Some (SQLITE_OK, m));
     if rc \<noteq> SQLITE_OK then Some (False, m)
     else do {
       let m = m\<lparr>mem_flags := mem_flags m OR MEM_Str\<rparr>;
       (rc, m) \<leftarrow> (if mem_enc m \<noteq> enc then sqlite3VdbeChangeEncoding m enc alloc else Some (SQLITE_OK, m));
       (rc, m) \<leftarrow> sqlite3VdbeMemNulTerminate m alloc;
       Some (rc = SQLITE_OK \<and> mem_enc m = enc, m) } }"

definition sqlite3ValueText :: "Mem \<Rightarrow> u8 \<Rightarrow> (nat \<Rightarrow> u8 list option) \<Rightarrow> (bool \<times> Mem) option" where
  "sqlite3ValueText m enc alloc =
     (if mem_flags m AND (MEM_Str OR MEM_Term) = MEM_Str OR MEM_Term \<and> mem_enc m = enc then Some (True, m)
      else if mem_flags m AND MEM_Null \<noteq> 0 then Some (False, m)
      else valueToText m enc alloc)"

text \<open>A shallow copy owns nothing: only a static string keeps its flags.\<close>

definition sqlite3VdbeMemShallowCopy :: "Mem \<Rightarrow> u16 \<Rightarrow> Mem" where
  "sqlite3VdbeMemShallowCopy pFrom srcType =
     pFrom\<lparr>mem_own := False, mem_block := [],
       mem_flags := (if mem_flags pFrom AND MEM_Static = 0
                     then mem_flags pFrom AND NOT (MEM_Dyn OR MEM_Static OR MEM_Ephem) OR srcType
                     else mem_flags pFrom)\<rparr>"

definition coll_call :: "CollSeq \<Rightarrow> Mem \<Rightarrow> Mem \<Rightarrow> int option" where
  "coll_call pColl m1 m2 =
     (if mem_n m1 \<le> length (mem_z m1) \<and> mem_n m2 \<le> length (mem_z m2)
      then Some (coll_xCmp pColl (take (mem_n m1) (mem_z m1)) (take (mem_n m2) (mem_z m2))) else None)"

text \<open>The result, and the error code when there is one.\<close>

definition vdbeCompareMemString ::
  "Mem \<Rightarrow> Mem \<Rightarrow> CollSeq \<Rightarrow> (nat \<Rightarrow> u8 list option) \<Rightarrow> (int \<times> nat option) option"
where
  "vdbeCompareMemString pMem1 pMem2 pColl alloc =
     (if mem_enc pMem1 = coll_enc pColl then do { rc \<leftarrow> coll_call pColl pMem1 pMem2; Some (rc, None) }
      else do {
        (v1, c1) \<leftarrow> sqlite3ValueText (sqlite3VdbeMemShallowCopy pMem1 MEM_Ephem) (coll_enc pColl) alloc;
        (v2, c2) \<leftarrow> sqlite3ValueText (sqlite3VdbeMemShallowCopy pMem2 MEM_Ephem) (coll_enc pColl) alloc;
        if \<not> v1 \<or> \<not> v2 then Some (0, Some SQLITE_NOMEM)
        else do { rc \<leftarrow> coll_call pColl c1 c2; Some (rc, None) } })"

definition sqlite3MemCompare ::
  "Val \<Rightarrow> Val \<Rightarrow> CollSeq option \<Rightarrow> (nat \<Rightarrow> u8 list option) \<Rightarrow> int option"
where
  "sqlite3MemCompare v1 v2 pColl alloc =
     (let f1 = mem_flags (val_mem v1); f2 = mem_flags (val_mem v2);
          i1 = sint (val_u v1); i2 = sint (val_u v2); r1 = val_u v1; r2 = val_u v2 in
      if (f1 OR f2) AND MEM_Null \<noteq> 0 then Some (uint (f2 AND MEM_Null) - uint (f1 AND MEM_Null))
      else if (f1 OR f2) AND (MEM_Int OR MEM_Real) \<noteq> 0 then
        if f1 AND f2 AND MEM_Int \<noteq> 0 then Some (if i1 < i2 then -1 else if i1 > i2 then 1 else 0)
        else if f1 AND f2 AND MEM_Real \<noteq> 0 then
          Some (if dbl_less r1 r2 then -1 else if dbl_less r2 r1 then 1 else 0)
        else if f1 AND MEM_Int \<noteq> 0 then
          if f2 AND MEM_Real \<noteq> 0 then sqlite3IntFloatCompare i1 r2 else Some (-1)
        else if f1 AND MEM_Real \<noteq> 0 then
          if f2 AND MEM_Int \<noteq> 0 then map_option uminus (sqlite3IntFloatCompare i2 r1) else Some (-1)
        else Some 1
      else if (f1 OR f2) AND MEM_Str \<noteq> 0 \<and> f1 AND MEM_Str = 0 then Some 1
      else if (f1 OR f2) AND MEM_Str \<noteq> 0 \<and> f2 AND MEM_Str = 0 then Some (-1)
      else case (if (f1 OR f2) AND MEM_Str \<noteq> 0 then pColl else None) of
        Some pColl \<Rightarrow> map_option fst (vdbeCompareMemString (val_mem v1) (val_mem v2) pColl alloc)
      | None \<Rightarrow> sqlite3BlobCompare (val_mem v1) (val_mem v2))"

section \<open>A record and an unpacked key\<close>


record KeyInfo =
  ki_enc :: u8
  nAllField :: nat
  aSortOrder :: "bool list"
  aColl :: "CollSeq option list"

record UnpackedRecord =
  pKeyInfo :: KeyInfo
  ur_aMem :: "Val list"
  ur_nField :: nat
  default_rc :: int
  errCode :: nat
  ur_r1 :: int
  ur_r2 :: int
  eqSeen :: bool

text \<open>The integers of \<^verbatim>\<open>vdbeRecordDecodeInt\<close> are read where the other reader reads them.\<close>

definition vdbeRecordDecodeInt :: "u32 \<Rightarrow> u8 list \<Rightarrow> u64 option" where
  "vdbeRecordDecodeInt serial_type aKey =
     (if serial_type = 0 \<or> serial_type = 1 then map_option scast (ONE_BYTE_INT aKey)
      else if serial_type = 2 then map_option scast (TWO_BYTE_INT aKey)
      else if serial_type = 3 then map_option scast (THREE_BYTE_INT aKey)
      else if serial_type = 4 then map_option scast (FOUR_BYTE_UINT aKey)
      else if serial_type = 5 then do {
        lo \<leftarrow> FOUR_BYTE_UINT (drop 2 aKey);
        hi \<leftarrow> TWO_BYTE_INT aKey;
        Some (ucast lo + push_bit 32 1 * scast hi) }
      else if serial_type = 6 then do {
        x \<leftarrow> FOUR_BYTE_UINT aKey;
        y \<leftarrow> FOUR_BYTE_UINT (drop 4 aKey);
        Some (push_bit 32 (ucast x) OR ucast y) }
      else Some (ucast (serial_type - 8)))"

text \<open>
  The comparison of one field: the serial type of the record's field and the result, or an error
  code. \<open>idx\<close> and \<open>d\<close> are where its type and its content are, \<open>i\<close> is its number.
\<close>

definition field_int :: "u8 list \<Rightarrow> u32 \<Rightarrow> u32 \<Rightarrow> Val \<Rightarrow> (u32 \<times> int) option" where
  "field_int aKey idx d pRhs = do {
     b \<leftarrow> rd aKey (unat idx);
     let serial_type = (ucast b :: u32);
     rc \<leftarrow> (if serial_type \<ge> 10 then Some 1
           else if serial_type = 0 then Some (-1)
           else if serial_type = 7 then do {
             (mem1, n) \<leftarrow> sqlite3VdbeSerialGet (drop (unat d) aKey) serial_type pRhs;
             map_option uminus (sqlite3IntFloatCompare (sint (val_u pRhs)) (val_u mem1)) }
           else do {
             lhs \<leftarrow> map_option sint (vdbeRecordDecodeInt serial_type (drop (unat d) aKey));
             let rhs = sint (val_u pRhs);
             Some (if lhs < rhs then -1 else if lhs > rhs then 1 else 0) });
     Some (serial_type, rc) }"

definition field_real :: "u8 list \<Rightarrow> u32 \<Rightarrow> u32 \<Rightarrow> Val \<Rightarrow> (u32 \<times> int) option" where
  "field_real aKey idx d pRhs = do {
     b \<leftarrow> rd aKey (unat idx);
     let serial_type = (ucast b :: u32);
     rc \<leftarrow> (if serial_type \<ge> 10 then Some 1
           else if serial_type = 0 then Some (-1)
           else do {
             (mem1, n) \<leftarrow> sqlite3VdbeSerialGet (drop (unat d) aKey) serial_type pRhs;
             if serial_type = 7 then
               Some (if dbl_less (val_u mem1) (val_u pRhs) then -1
                     else if dbl_less (val_u pRhs) (val_u mem1) then 1 else 0)
             else sqlite3IntFloatCompare (sint (val_u mem1)) (val_u pRhs) });
     Some (serial_type, rc) }"

definition field_string ::
  "KeyInfo \<Rightarrow> (nat \<Rightarrow> u8 list option) \<Rightarrow> nat \<Rightarrow> u8 list \<Rightarrow> u32 \<Rightarrow> u32 \<Rightarrow> nat \<Rightarrow> Val
    \<Rightarrow> (nat + u32 \<times> int \<times> nat option) option"
where
  "field_string ki alloc nKey aKey idx d i pRhs = do {
     (serial_type, k) \<leftarrow> getVarint32 (drop (unat idx) aKey);
     if serial_type < 12 then Some (Inr (serial_type, -1, None))
     else if serial_type AND 1 = 0 then Some (Inr (serial_type, 1, None))
     else
       let n = (serial_type - 12) div 2; m = val_mem pRhs in
       if d + n > word_of_nat nKey \<or> nAllField ki \<le> i then Some (Inl SQLITE_CORRUPT)
       else do {
         pColl \<leftarrow> rd (aColl ki) i;
         (case pColl of
            Some pColl \<Rightarrow> do {
              let mem1 = \<lparr>mem_z = drop (unat d) aKey, mem_n = unat n, mem_enc = ki_enc ki,
                          mem_flags = MEM_Str, mem_nZero = 0, mem_own = False, mem_block = []\<rparr>;
              (rc, err) \<leftarrow> vdbeCompareMemString mem1 m pColl alloc;
              Some (Inr (serial_type, rc, err)) }
          | None \<Rightarrow> do {
              rc \<leftarrow> memcmp (drop (unat d) aKey) (mem_z m) (min (unat n) (mem_n m));
              Some (Inr (serial_type, if rc = 0 then int (unat n) - int (mem_n m) else rc, None)) }) } }"

definition field_blob ::
  "nat \<Rightarrow> u8 list \<Rightarrow> u32 \<Rightarrow> u32 \<Rightarrow> Val \<Rightarrow> (nat + u32 \<times> int) option"
where
  "field_blob nKey aKey idx d pRhs = do {
     (serial_type, k) \<leftarrow> getVarint32 (drop (unat idx) aKey);
     if serial_type < 12 \<or> serial_type AND 1 \<noteq> 0 then Some (Inr (serial_type, -1))
     else
       let nStr = (serial_type - 12) div 2; m = val_mem pRhs in
       if d + nStr > word_of_nat nKey then Some (Inl SQLITE_CORRUPT)
       else if mem_flags m AND MEM_Zero \<noteq> 0 then do {
         z \<leftarrow> isAllZero (drop (unat d) aKey) (unat nStr);
         Some (Inr (serial_type, if \<not> z then 1 else int (unat nStr) - int (mem_nZero m))) }
       else do {
         rc \<leftarrow> memcmp (drop (unat d) aKey) (mem_z m) (min (unat nStr) (mem_n m));
         Some (Inr (serial_type, if rc = 0 then int (unat nStr) - int (mem_n m) else rc)) } }"

definition field_null :: "u8 list \<Rightarrow> u32 \<Rightarrow> (u32 \<times> int) option" where
  "field_null aKey idx = do {
     b \<leftarrow> rd aKey (unat idx);
     Some (ucast b, of_bool (b \<noteq> 0)) }"

definition compare_field ::
  "KeyInfo \<Rightarrow> (nat \<Rightarrow> u8 list option) \<Rightarrow> nat \<Rightarrow> u8 list \<Rightarrow> u32 \<Rightarrow> u32 \<Rightarrow> nat \<Rightarrow> Val
    \<Rightarrow> (nat + u32 \<times> int \<times> nat option) option"
where
  "compare_field ki alloc nKey aKey idx d i pRhs =
     (let f = mem_flags (val_mem pRhs);
          plain = map_option (\<lambda>(t, rc). Inr (t, rc, None)) in
      if f AND MEM_Int \<noteq> 0 then plain (field_int aKey idx d pRhs)
      else if f AND MEM_Real \<noteq> 0 then plain (field_real aKey idx d pRhs)
      else if f AND MEM_Str \<noteq> 0 then field_string ki alloc nKey aKey idx d i pRhs
      else if f AND MEM_Blob \<noteq> 0 then
        map_option (map_sum id (\<lambda>(t, rc). (t, rc, None))) (field_blob nKey aKey idx d pRhs)
      else plain (field_null aKey idx))"

text \<open>
  The loop over the fields of the key that are left, with the result and the record afterwards. The
  code always looks at one field before it tests whether there are more.
\<close>

fun record_loop ::
  "(nat \<Rightarrow> u8 list option) \<Rightarrow> nat \<Rightarrow> u8 list \<Rightarrow> u32 \<Rightarrow> UnpackedRecord \<Rightarrow> u32 \<Rightarrow> u32 \<Rightarrow> nat \<Rightarrow> Val list
    \<Rightarrow> (int \<times> UnpackedRecord) option"
where
  "record_loop alloc nKey aKey szHdr p idx d i [] = None"
| "record_loop alloc nKey aKey szHdr p idx d i (pRhs # rest) = do {
     r \<leftarrow> compare_field (pKeyInfo p) alloc nKey aKey idx d i pRhs;
     (case r of
        Inl e \<Rightarrow> Some (0, p\<lparr>errCode := e\<rparr>)
      | Inr (serial_type, rc, err) \<Rightarrow>
          let p = (case err of None \<Rightarrow> p | Some e \<Rightarrow> p\<lparr>errCode := e\<rparr>) in
          if rc \<noteq> 0 then do {
            desc \<leftarrow> rd (aSortOrder (pKeyInfo p)) i;
            Some (if desc then - rc else rc, p) }
          else
            let d = d + sqlite3VdbeSerialTypeLen serial_type;
                idx = idx + word_of_nat (sqlite3VarintLen (ucast serial_type)) in
            if rest \<noteq> [] \<and> idx < szHdr \<and> d \<le> word_of_nat nKey
            then record_loop alloc nKey aKey szHdr p idx d (i + 1) rest
            else Some (default_rc p, p\<lparr>eqSeen := True\<rparr>)) }"

text \<open>The fields of the key are the first \<open>nField\<close> of its cells.\<close>

definition sqlite3VdbeRecordCompareWithSkip ::
  "(nat \<Rightarrow> u8 list option) \<Rightarrow> nat \<Rightarrow> u8 list \<Rightarrow> UnpackedRecord \<Rightarrow> bool \<Rightarrow> (int \<times> UnpackedRecord) option"
where
  "sqlite3VdbeRecordCompareWithSkip alloc nKey1 aKey1 pPKey2 bSkip = do {
     (idx1, szHdr1, d1, i) \<leftarrow>
       (if bSkip then do {
          (s1, k) \<leftarrow> getVarint32 (drop 1 aKey1);
          b \<leftarrow> rd aKey1 0;
          Some (1 + k, ucast b, ucast b + sqlite3VdbeSerialTypeLen s1, 1) }
        else do {
          (szHdr1, k) \<leftarrow> getVarint32 aKey1;
          Some (k, szHdr1, szHdr1, 0) });
     if d1 > word_of_nat nKey1 then Some (0, pPKey2\<lparr>errCode := SQLITE_CORRUPT\<rparr>)
     else record_loop alloc nKey1 aKey1 szHdr1 pPKey2 (word_of_nat idx1) d1 i
            (drop i (take (ur_nField pPKey2) (ur_aMem pPKey2))) }"

definition sqlite3VdbeRecordCompare ::
  "(nat \<Rightarrow> u8 list option) \<Rightarrow> nat \<Rightarrow> u8 list \<Rightarrow> UnpackedRecord \<Rightarrow> (int \<times> UnpackedRecord) option"
where
  "sqlite3VdbeRecordCompare alloc nKey1 pKey1 pPKey2 =
     sqlite3VdbeRecordCompareWithSkip alloc nKey1 pKey1 pPKey2 False"

section \<open>The fast versions\<close>

text \<open>The integer at the start of the content for the serial types 1 to 6, 8 and 9; \<open>None\<close> for other types.\<close>

definition first_int :: "u8 \<Rightarrow> u8 list \<Rightarrow> u64 option option" where
  "first_int serial_type aKey =
     (if serial_type = 1 then Some (map_option scast (ONE_BYTE_INT aKey))
      else if serial_type = 2 then Some (map_option scast (TWO_BYTE_INT aKey))
      else if serial_type = 3 then Some (map_option scast (THREE_BYTE_INT aKey))
      else if serial_type = 4 then Some (map_option scast (FOUR_BYTE_UINT aKey))
      else if serial_type = 5 then Some (do {
        lo \<leftarrow> FOUR_BYTE_UINT (drop 2 aKey);
        hi \<leftarrow> TWO_BYTE_INT aKey;
        Some (ucast lo + push_bit 32 1 * scast hi) })
      else if serial_type = 6 then Some (do {
        x \<leftarrow> FOUR_BYTE_UINT aKey;
        y \<leftarrow> FOUR_BYTE_UINT (drop 4 aKey);
        Some (push_bit 32 (ucast x) OR ucast y) })
      else if serial_type = 8 then Some (Some 0)
      else if serial_type = 9 then Some (Some 1)
      else None)"

definition vdbeRecordCompareInt ::
  "(nat \<Rightarrow> u8 list option) \<Rightarrow> nat \<Rightarrow> u8 list \<Rightarrow> UnpackedRecord \<Rightarrow> (int \<times> UnpackedRecord) option"
where
  "vdbeRecordCompareInt alloc nKey1 pKey1 pPKey2 = do {
     szHdr \<leftarrow> rd pKey1 0;
     serial_type \<leftarrow> rd pKey1 1;
     (case first_int serial_type (drop (unat (szHdr AND 0x3F)) pKey1) of
        None \<Rightarrow> sqlite3VdbeRecordCompare alloc nKey1 pKey1 pPKey2
      | Some r \<Rightarrow> do {
          lhs \<leftarrow> map_option sint r;
          v \<leftarrow> map_option (\<lambda>m. sint (val_u m)) (rd (ur_aMem pPKey2) 0);
          if v > lhs then Some (ur_r1 pPKey2, pPKey2)
          else if v < lhs then Some (ur_r2 pPKey2, pPKey2)
          else if ur_nField pPKey2 > 1 then sqlite3VdbeRecordCompareWithSkip alloc nKey1 pKey1 pPKey2 True
          else Some (default_rc pPKey2, pPKey2\<lparr>eqSeen := True\<rparr>) }) }"

text \<open>The serial type is kept in an \<^verbatim>\<open>int\<close>.\<close>

definition vdbeRecordCompareString ::
  "(nat \<Rightarrow> u8 list option) \<Rightarrow> nat \<Rightarrow> u8 list \<Rightarrow> UnpackedRecord \<Rightarrow> (int \<times> UnpackedRecord) option"
where
  "vdbeRecordCompareString alloc nKey1 aKey1 pPKey2 = do {
     (t, k) \<leftarrow> getVarint32 (drop 1 aKey1);
     let serial_type = sint t;
     if serial_type < 12 then Some (ur_r1 pPKey2, pPKey2)
     else if t AND 1 = 0 then Some (ur_r2 pPKey2, pPKey2)
     else do {
       szHdr \<leftarrow> map_option unat (rd aKey1 0);
       let nStr = nat ((serial_type - 12) div 2);
       if szHdr + nStr > nKey1 then Some (0, pPKey2\<lparr>errCode := SQLITE_CORRUPT\<rparr>)
       else do {
         m \<leftarrow> map_option val_mem (rd (ur_aMem pPKey2) 0);
         res \<leftarrow> memcmp (drop szHdr aKey1) (mem_z m) (min (mem_n m) nStr);
         let res = (if res = 0 then int nStr - int (mem_n m) else res);
         if res = 0 then
           if ur_nField pPKey2 > 1 then sqlite3VdbeRecordCompareWithSkip alloc nKey1 aKey1 pPKey2 True
           else Some (default_rc pPKey2, pPKey2\<lparr>eqSeen := True\<rparr>)
         else Some (if res > 0 then ur_r2 pPKey2 else ur_r1 pPKey2, pPKey2) } } }"

datatype RecordCompare = RecordCompare | RecordCompareInt | RecordCompareString

definition sqlite3VdbeFindCompare :: "UnpackedRecord \<Rightarrow> (RecordCompare \<times> UnpackedRecord) option" where
  "sqlite3VdbeFindCompare p =
     (if nAllField (pKeyInfo p) \<le> 13 then do {
        flags \<leftarrow> map_option (\<lambda>m. mem_flags (val_mem m)) (rd (ur_aMem p) 0);
        desc \<leftarrow> rd (aSortOrder (pKeyInfo p)) 0;
        let p = (if desc then p\<lparr>ur_r1 := 1, ur_r2 := -1\<rparr> else p\<lparr>ur_r1 := -1, ur_r2 := 1\<rparr>);
        if flags AND MEM_Int \<noteq> 0 then Some (RecordCompareInt, p)
        else if flags AND (MEM_Real OR MEM_Null OR MEM_Blob) = 0 then do {
          c \<leftarrow> rd (aColl (pKeyInfo p)) 0;
          Some (if c = None then RecordCompareString else RecordCompare, p) }
        else Some (RecordCompare, p) }
      else Some (RecordCompare, p))"

definition record_compare ::
  "RecordCompare \<Rightarrow> (nat \<Rightarrow> u8 list option) \<Rightarrow> nat \<Rightarrow> u8 list \<Rightarrow> UnpackedRecord \<Rightarrow> (int \<times> UnpackedRecord) option"
where
  "record_compare f = (case f of
     RecordCompare \<Rightarrow> sqlite3VdbeRecordCompare
   | RecordCompareInt \<Rightarrow> vdbeRecordCompareInt
   | RecordCompareString \<Rightarrow> vdbeRecordCompareString)"

end
