(* ===== verification/Collation.thy ===== *)
theory Collation
  imports Prelude
begin

text \<open>
  The contract of a comparison function: the sign of its result says which argument comes first, and
  the function is a total preorder. A collating sequence has to keep it, an index is searched with it,
  and it carries over to lists.
\<close>

locale collation =
  fixes cmp :: "'a \<Rightarrow> 'a \<Rightarrow> int"
  assumes anti: "sgn (cmp y x) = - sgn (cmp x y)"
    and le_trans: "cmp x y \<le> 0 \<Longrightarrow> cmp y z \<le> 0 \<Longrightarrow> cmp x z \<le> 0"
begin

lemma swap: "cmp y x < 0 \<longleftrightarrow> 0 < cmp x y" "cmp y x = 0 \<longleftrightarrow> cmp x y = 0" "0 < cmp y x \<longleftrightarrow> cmp x y < 0"
  using anti [of y x] by (auto simp: sgn_if split: if_splits)

lemma refl: "cmp x x = 0"
  using swap(1) [of x x] swap(3) [of x x] by linarith

lemma le_total: "cmp x y \<le> 0 \<or> cmp y x \<le> 0"
  using swap(1) [of x y] by linarith

lemma eq_cong:
  assumes "cmp x y = 0"
  shows "sgn (cmp x z) = sgn (cmp y z)"
proof -
  have "cmp x y \<le> 0" "cmp y x \<le> 0" using assms swap(2) [of x y] by simp_all
  then have "cmp x z \<le> 0 \<longleftrightarrow> cmp y z \<le> 0" "cmp z x \<le> 0 \<longleftrightarrow> cmp z y \<le> 0" by (blast intro: le_trans)+
  then have "cmp x z < 0 \<longleftrightarrow> cmp y z < 0" "0 < cmp x z \<longleftrightarrow> 0 < cmp y z"
    using swap [of x z] swap [of y z] by linarith+
  then show ?thesis by (auto simp: sgn_if)
qed

lemma less_trans:
  assumes "cmp x y < 0" and "cmp y z \<le> 0"
  shows "cmp x z < 0"
proof (rule ccontr)
  assume "\<not> cmp x z < 0"
  then have "cmp z x \<le> 0" using swap(1) [of x z] by linarith
  then have "cmp y x \<le> 0" using assms(2) le_trans by blast
  then show False using assms(1) swap(1) [of x y] by linarith
qed

end

section \<open>Comparisons that are orders\<close>

definition num_cmp :: "int \<Rightarrow> int \<Rightarrow> int" where
  "num_cmp x y = (if x < y then -1 else if x > y then 1 else 0)"

text \<open>The values of a key, compared as numbers.\<close>

lemma collation_key: "collation (\<lambda>x y. num_cmp (k x) (k y))"
  by unfold_locales (auto simp: num_cmp_def split: if_splits)

text \<open>Only the sign matters.\<close>

lemma collation_sgn:
  assumes "collation c" and "\<And>x y. sgn (d x y) = sgn (c x y)"
  shows "collation d"
proof
  have le: "d x y \<le> 0 \<longleftrightarrow> c x y \<le> 0" for x y using assms(2) [of x y] by (auto simp: sgn_if split: if_splits)
  show "sgn (d y x) = - sgn (d x y)" for x y unfolding assms(2) by (rule collation.anti [OF assms(1)])
  show "d x y \<le> 0 \<Longrightarrow> d y z \<le> 0 \<Longrightarrow> d x z \<le> 0" for x y z unfolding le by (rule collation.le_trans [OF assms(1)])
qed

text \<open>Lists compared item by item; a list comes after its proper prefixes.\<close>

fun lex_cmp :: "('a \<Rightarrow> 'a \<Rightarrow> int) \<Rightarrow> 'a list \<Rightarrow> 'a list \<Rightarrow> int" where
  "lex_cmp c [] [] = 0"
| "lex_cmp c [] (y # ys) = -1"
| "lex_cmp c (x # xs) [] = 1"
| "lex_cmp c (x # xs) (y # ys) = (if c x y \<noteq> 0 then c x y else lex_cmp c xs ys)"

context collation begin

lemma lex_anti: "sgn (lex_cmp cmp ys xs) = - sgn (lex_cmp cmp xs ys)"
proof (induction xs arbitrary: ys)
  case Nil
  show ?case by (cases ys) simp_all
next
  case (Cons x xs)
  show ?case
  proof (cases ys)
    case (Cons y ys')
    then show ?thesis using Cons.IH [of ys'] anti [of y x] swap(2) [of x y] by simp
  qed simp
qed

lemma lex_le_trans: "lex_cmp cmp xs ys \<le> 0 \<Longrightarrow> lex_cmp cmp ys zs \<le> 0 \<Longrightarrow> lex_cmp cmp xs zs \<le> 0"
proof (induction xs arbitrary: ys zs)
  case Nil
  then show ?case by (cases zs) simp_all
next
  case (Cons x xs)
  obtain y ys' where ys: "ys = y # ys'" using Cons.prems(1) by (cases ys) simp_all
  obtain z zs' where zs: "zs = z # zs'" using Cons.prems(2) ys by (cases zs) simp_all
  have le: "cmp x y \<le> 0" "cmp y z \<le> 0" using Cons.prems ys zs by (auto split: if_splits)
  show ?case
  proof (cases "cmp x y = 0 \<and> cmp y z = 0")
    case True
    then have "cmp x z = 0" using eq_cong [of x y z] by (simp add: sgn_if split: if_splits)
    then show ?thesis using Cons True ys zs by auto
  next
    case False
    then have "cmp x z < 0"
    proof (cases "cmp x y = 0")
      case True
      then have "cmp y z < 0" using False le by simp
      then show ?thesis using eq_cong [OF True, of z] by (simp add: sgn_if split: if_splits)
    next
      case False
      then show ?thesis using le by (intro less_trans [of x y z]) simp_all
    qed
    then show ?thesis using zs by simp
  qed
qed

lemma lex: "collation (lex_cmp cmp)"
  by unfold_locales (rule lex_anti, rule lex_le_trans)

end

end
