(* ===== verification/DblFacts.thy ===== *)
theory DblFacts
  imports RecCmp RecordFacts Collation
begin

text \<open>
  The comparison of an integer with a \<^verbatim>\<open>double\<close> is exact: no rounding of the integer shows in the
  answer.
\<close>

section \<open>The fields of a double\<close>

lemma dbl_exp_nat: "dbl_exp r = unat r div 2 ^ 52 mod 2 ^ 11"
proof -
  have "drop_bit 52 r AND 0x7ff = take_bit 11 (drop_bit 52 r)" using take_bit_eq_mask [of 11 "drop_bit 52 r"] by (simp add: mask_eq_exp_minus_1)
  then show ?thesis by (simp add: dbl_exp_def take_bit_eq_mod drop_bit_eq_div unat_div unat_mod)
qed

lemma dbl_frac_nat: "dbl_frac r = unat r mod 2 ^ 52"
proof -
  have "r AND 0xfffffffffffff = take_bit 52 r" using take_bit_eq_mask [of 52 r] by (simp add: mask_eq_exp_minus_1)
  then show ?thesis by (simp add: dbl_frac_def take_bit_eq_mod unat_mod)
qed

lemma dbl_frac_less: "dbl_frac r < 2 ^ 52"
  by (simp add: dbl_frac_nat)

lemma IsNaN_iff: "sqlite3IsNaN r \<longleftrightarrow> dbl_exp r = 2047 \<and> dbl_frac r \<noteq> 0"
proof -
  have "unat w = 2047 \<longleftrightarrow> w = 0x7ff" "unat w = 0 \<longleftrightarrow> w = 0" for w :: u64
    using word_unat_eq_iff [of w "0x7ff"] by (simp_all add: unat_eq_zero)
  then show ?thesis unfolding sqlite3IsNaN_def dbl_exp_def dbl_frac_def by (simp only:)
qed

lemma sign_fields:
  "dbl_exp (w OR push_bit 63 1) = dbl_exp w" "dbl_frac (w OR push_bit 63 1) = dbl_frac w"
proof -
  have "drop_bit 52 (push_bit 63 1) AND 0x7ff = (0 :: u64)" "push_bit 63 1 AND 0xfffffffffffff = (0 :: u64)"
    by (code_simp, code_simp)
  then show "dbl_exp (w OR push_bit 63 1) = dbl_exp w" "dbl_frac (w OR push_bit 63 1) = dbl_frac w"
    by (simp_all add: dbl_exp_def dbl_frac_def bit.conj_disj_distrib2)
qed

text \<open>A double with the fields \<open>e\<close> and \<open>f\<close>.\<close>

lemma dbl_num_fields:
  assumes "0 < e" and "e < 2047" and "f < 2 ^ 52"
  shows "dbl_num (word_of_nat (e * 2 ^ 52 + f) OR (if neg then push_bit 63 1 else 0)) =
      (if neg then -1 else 1) * (int (2 ^ 52 + f) * 2 ^ (e - 1))" (is "dbl_num ?r = _")
    and "\<not> sqlite3IsNaN (word_of_nat (e * 2 ^ 52 + f) OR (if neg then push_bit 63 1 else 0))"
proof -
  let ?w = "word_of_nat (e * 2 ^ 52 + f) :: u64"
  have "e * 2 ^ 52 + f < 2047 * 2 ^ 52" using assms by simp
  then have u: "unat ?w = e * 2 ^ 52 + f" unfolding unat_of_nat by simp
  have ef: "dbl_exp ?w = e" "dbl_frac ?w = f" unfolding dbl_exp_nat dbl_frac_nat u using assms by simp_all
  then have ef': "dbl_exp ?r = e" "dbl_frac ?r = f" using sign_fields [of ?w] by simp_all
  have "(e * 2 ^ 52 + f) div 2 ^ 63 = 0" using assms by simp
  then have "\<not> bit (unat ?w) 63" unfolding u bit_iff_odd by simp
  then have "\<not> bit ?w 63" by (simp add: bit_unsigned_iff)
  then have "bit ?r 63 \<longleftrightarrow> neg" by (simp add: bit_simps)
  then show "dbl_num ?r = (if neg then -1 else 1) * (int (2 ^ 52 + f) * 2 ^ (e - 1))"
    using ef' assms(1) by (simp add: dbl_num_def)
  show "\<not> sqlite3IsNaN ?r" using ef' assms(2) by (simp add: IsNaN_iff)
qed

section \<open>Integers that are doubles\<close>

lemma bit_length_bounds: "0 < n \<Longrightarrow> 0 < bit_length n \<and> 2 ^ (bit_length n - 1) \<le> n \<and> n < 2 ^ bit_length n"
proof (induction n rule: bit_length.induct)
  case (1 n)
  show ?case
  proof (cases "n div 2 = 0")
    case True
    then have "n = 1" using 1(2) by simp
    then show ?thesis by (simp add: bit_length.simps [of 0] bit_length.simps [of "Suc 0"])
  next
    case False
    then have "0 < bit_length (n div 2)" "2 ^ (bit_length (n div 2) - 1) \<le> n div 2" "n div 2 < 2 ^ bit_length (n div 2)"
      using 1 by simp_all
    then have "2 * 2 ^ (bit_length (n div 2) - 1) \<le> n" "n < 2 * 2 ^ bit_length (n div 2)" "0 < bit_length (n div 2)"
      by linarith+
    then show ?thesis
      using 1(2) by (simp add: bit_length.simps [of n] power_eq_if [of 2 "bit_length (n div 2)"])
  qed
qed

lemma bit_length_unique:
  assumes "2 ^ (k - 1) \<le> n" and "n < 2 ^ k" and "0 < k"
  shows "bit_length n = k"
proof -
  have "0 < n" using assms(1) by (metis gr0I leD zero_less_numeral zero_less_power)
  from bit_length_bounds [OF this] assms have "(2 :: nat) ^ (bit_length n - 1) < 2 ^ k" "(2 :: nat) ^ (k - 1) < 2 ^ bit_length n"
      "0 < bit_length n" by linarith+
  then show ?thesis using assms(3) by (simp add: power_strict_increasing_iff)
qed

text \<open>The conversion is exact when the integer has at most 53 significant bits.\<close>

lemma dbl_of_i64_exact:
  assumes "\<bar>i\<bar> < 2 ^ 53 \<or> nat \<bar>i\<bar> = M * 2 ^ j \<and> 2 ^ 52 \<le> M \<and> M < 2 ^ 53 \<and> j \<le> 11"
  shows "dbl_num (dbl_of_i64 i) = i * dbl_unit \<and> \<not> sqlite3IsNaN (dbl_of_i64 i)"
proof (cases "i = 0")
  case True
  then show ?thesis
    by (simp add: dbl_of_i64_def dbl_num_def dbl_exp_def dbl_frac_def sqlite3IsNaN_def)
next
  case False
  let ?m = "nat \<bar>i\<bar>" and ?k = "bit_length (nat \<bar>i\<bar>)"
  let ?q = "if ?k \<le> 53 then ?m * 2 ^ (53 - ?k) else round_even ?m (?k - 53)"
  have k: "0 < ?k" "2 ^ (?k - 1) \<le> ?m" "?m < 2 ^ ?k" using bit_length_bounds [of ?m] False by simp_all
  have "?k \<le> 64 \<and> 2 ^ 52 \<le> ?q \<and> ?q < 2 ^ 53 \<and> ?q * 2 ^ (?k + 1021) = ?m * 2 ^ 1074"
  proof (cases "?k \<le> 53")
    case True
    have "2 ^ (?k - 1) * 2 ^ (53 - ?k) \<le> ?m * 2 ^ (53 - ?k)" "?m * 2 ^ (53 - ?k) < 2 ^ ?k * 2 ^ (53 - ?k)"
      using k by simp_all
    then have "2 ^ 52 \<le> ?m * 2 ^ (53 - ?k)" "?m * 2 ^ (53 - ?k) < 2 ^ 53"
      using True k(1) by (simp_all flip: power_add)
    moreover have "(2 :: nat) ^ (53 - ?k) * 2 ^ (?k + 1021) = 2 ^ 1074" using True by (simp flip: power_add)
    ultimately show ?thesis using True by (simp only: if_True mult.assoc) simp
  next
    case big: False
    have "\<not> \<bar>i\<bar> < 2 ^ 53"
    proof
      assume "\<bar>i\<bar> < 2 ^ 53"
      then have "?m < 2 ^ 53" by simp
      then have "(2 :: nat) ^ (?k - 1) < 2 ^ 53" using k(2) by linarith
      then have "?k - 1 < 53" by (rule power_less_imp_less_exp [rotated]) simp
      then show False using big by simp
    qed
    then have M: "?m = M * 2 ^ j" "2 ^ 52 \<le> M" "M < 2 ^ 53" "j \<le> 11" using assms by simp_all
    have "2 ^ 52 * 2 ^ j \<le> M * 2 ^ j" "M * 2 ^ j < 2 ^ 53 * 2 ^ j" using M(2,3) by simp_all
    then have kj: "?k = 53 + j" unfolding M(1) by (intro bit_length_unique) (simp_all add: power_add)
    then have q: "?q = M" using big M(1) by (simp add: round_even_def)
    have "M * 2 ^ (?k + 1021) = ?m * 2 ^ 1074" unfolding kj unfolding M(1) by (simp add: power_add)
    then show ?thesis unfolding q using M(2-4) kj by simp
  qed
  then have q: "?k \<le> 64" "2 ^ 52 \<le> ?q" "?q < 2 ^ 53" "?q * 2 ^ (?k + 1021) = ?m * 2 ^ 1074" by blast+
  have rest: "Q - 2 ^ 52 < 2 ^ 52 \<and> (K + 1021) * 2 ^ 52 + Q = (K + 1022) * 2 ^ 52 + (Q - 2 ^ 52) \<and> 2 ^ 52 + (Q - 2 ^ 52) = Q"
    if "2 ^ 52 \<le> Q" "Q < 2 ^ 53" for Q K :: nat
    using that by simp
  define f where "f = ?q - 2 ^ 52"
  have f: "f < 2 ^ 52" "(?k + 1021) * 2 ^ 52 + ?q = (?k + 1022) * 2 ^ 52 + f" "2 ^ 52 + f = ?q"
    using rest [OF q(2,3), of ?k] unfolding f_def by blast+
  have D: "dbl_of_i64 i = word_of_nat ((?k + 1022) * 2 ^ 52 + f) OR (if i < 0 then push_bit 63 1 else 0)"
    using False f(2) by (simp only: dbl_of_i64_def Let_def if_False)
  have "?k + 1022 - 1 = ?k + 1021" by simp
  moreover have "int (nat \<bar>i\<bar>) = \<bar>i\<bar>" by simp
  ultimately have "int ?q * 2 ^ (?k + 1022 - 1) = \<bar>i\<bar> * dbl_unit"
    using arg_cong [OF q(4), of int] unfolding dbl_unit_def by (simp only: of_nat_mult of_nat_power of_nat_numeral)
  moreover have "dbl_num (dbl_of_i64 i) = (if i < 0 then -1 else 1) * (int ?q * 2 ^ (?k + 1022 - 1))"
    unfolding D f(3) [symmetric] using q(1) f(1) by (intro dbl_num_fields) simp_all
  moreover have "\<not> sqlite3IsNaN (dbl_of_i64 i)" unfolding D using q(1) f(1) by (intro dbl_num_fields) simp_all
  ultimately show ?thesis by simp
qed

section \<open>The comparison\<close>

lemma dbl_limits:
  "dbl_num 0xC3E0000000000000 = - (2 ^ 63) * dbl_unit" "\<not> sqlite3IsNaN 0xC3E0000000000000"
  "dbl_num 0x43E0000000000000 = 2 ^ 63 * dbl_unit" "\<not> sqlite3IsNaN 0x43E0000000000000"
proof -
  have "word_of_nat (1086 * 2 ^ 52 + 0) OR push_bit 63 1 = (0xC3E0000000000000 :: u64)"
    "word_of_nat (1086 * 2 ^ 52 + 0) OR 0 = (0x43E0000000000000 :: u64)" by simp_all
  with dbl_num_fields [of 1086 0 True] dbl_num_fields [of 1086 0 False]
  show "dbl_num 0xC3E0000000000000 = - (2 ^ 63) * dbl_unit" "\<not> sqlite3IsNaN 0xC3E0000000000000"
    "dbl_num 0x43E0000000000000 = 2 ^ 63 * dbl_unit" "\<not> sqlite3IsNaN 0x43E0000000000000"
    by (simp_all add: dbl_unit_def)
qed

text \<open>A double that is at least \<open>2 ^ 53\<close> in size is an integer with 53 significant bits.\<close>

lemma large_double:
  assumes "2 ^ 53 * dbl_unit \<le> \<bar>dbl_num r\<bar>" and "\<bar>dbl_num r\<bar> \<le> 2 ^ 63 * dbl_unit"
  shows "\<exists>M j. \<bar>dbl_num r\<bar> = int (M * 2 ^ j) * dbl_unit \<and> 2 ^ 52 \<le> M \<and> M < 2 ^ 53 \<and> j \<le> 11"
proof -
  let ?e = "dbl_exp r" and ?M = "2 ^ 52 + dbl_frac r"
  have e0: "?e \<noteq> 0"
  proof
    assume "?e = 0"
    then have "\<bar>dbl_num r\<bar> < 2 ^ 52" using dbl_frac_less [of r] by (simp add: dbl_num_def abs_mult)
    moreover have "(2 :: int) ^ 52 \<le> 2 ^ 53 * dbl_unit" by (simp add: dbl_unit_def)
    ultimately show False using assms(1) by linarith
  qed
  have X: "\<bar>dbl_num r\<bar> = int (?M * 2 ^ (?e - 1))" using e0 by (simp add: dbl_num_def abs_mult)
  have M: "2 ^ 52 \<le> ?M" "?M < 2 ^ 53" using dbl_frac_less [of r] by simp_all
  have "?M * 2 ^ (?e - 1) < 2 ^ 53 * 2 ^ (?e - 1)" "2 ^ 52 * 2 ^ (?e - 1) \<le> ?M * 2 ^ (?e - 1)" using M by simp_all
  moreover have "int (2 ^ 53 * 2 ^ 1074) \<le> int (?M * 2 ^ (?e - 1))" "int (?M * 2 ^ (?e - 1)) \<le> int (2 ^ 63 * 2 ^ 1074)"
    using assms unfolding X by (simp_all add: dbl_unit_def)
  ultimately have lt: "(2 :: nat) ^ (53 + 1074) < 2 ^ (53 + (?e - 1))" and le: "(2 :: nat) ^ (52 + (?e - 1)) \<le> 2 ^ (63 + 1074)"
    unfolding of_nat_le_iff power_add by linarith+
  have "53 + 1074 < 53 + (?e - 1)" by (rule power_less_imp_less_exp [OF _ lt]) simp
  moreover have "52 + (?e - 1) \<le> 63 + 1074" by (rule power_le_imp_le_exp [OF _ le]) simp
  ultimately have e: "1074 < ?e - 1" "?e - 1 \<le> 1085" by simp_all
  have "(2 :: nat) ^ (?e - 1) = 2 ^ (?e - 1 - 1074 + 1074)" using e(1) by (simp only: le_add_diff_inverse2 less_imp_le)
  then have "(2 :: nat) ^ (?e - 1) = 2 ^ (?e - 1 - 1074) * 2 ^ 1074" by (simp only: power_add)
  then have "\<bar>dbl_num r\<bar> = int (?M * 2 ^ (?e - 1 - 1074)) * dbl_unit" unfolding X by (simp add: dbl_unit_def)
  moreover have "?e - 1 - 1074 \<le> 11" using e(2) by simp
  ultimately show ?thesis using M by blast
qed

lemma int_float_compare:
  assumes i: "- (2 ^ 63) \<le> i" "i < 2 ^ 63" and r: "\<not> sqlite3IsNaN r"
  shows "sqlite3IntFloatCompare i r = Some (num_cmp (i * dbl_unit) (dbl_num r))"
proof -
  let ?X = "dbl_num r" and ?U = dbl_unit
  have U: "0 < ?U" by (simp add: dbl_unit_def)
  have lo: "- (2 ^ 63) * ?U \<le> i * ?U" and hi: "i * ?U < 2 ^ 63 * ?U"
    using i U by (simp_all only: mult_le_cancel_right_pos mult_less_cancel_right_pos)
  consider "?X < - (2 ^ 63) * ?U" | "2 ^ 63 * ?U \<le> ?X" | (mid) "- (2 ^ 63) * ?U \<le> ?X" "?X < 2 ^ 63 * ?U" by linarith
  then show ?thesis
  proof cases
    case 1
    then have "dbl_less r 0xC3E0000000000000" using r by (simp only: dbl_less_def dbl_limits) simp
    then show ?thesis using 1 lo by (simp add: sqlite3IntFloatCompare_def num_cmp_def)
  next
    case 2
    then have "\<not> dbl_less r 0xC3E0000000000000" "dbl_le 0x43E0000000000000 r"
      using r U by (simp_all only: dbl_less_def dbl_le_def dbl_limits) simp_all
    then show ?thesis using 2 hi by (simp add: sqlite3IntFloatCompare_def num_cmp_def)
  next
    case mid
    define a y where "a = \<bar>?X\<bar> div ?U" and "y = sgn ?X * a"
    have a: "a * ?U \<le> \<bar>?X\<bar>" "\<bar>?X\<bar> < (a + 1) * ?U" "0 \<le> a"
      using U pos_mod_sign [OF U, of "\<bar>?X\<bar>"] pos_mod_bound [OF U, of "\<bar>?X\<bar>"] div_mult_mod_eq [of "\<bar>?X\<bar>" ?U]
      by (simp_all only: a_def distrib_right pos_imp_zdiv_nonneg_iff abs_ge_zero mult_1)
    have pos: "y = a \<and> a * ?U \<le> ?X \<and> ?X < (a + 1) * ?U" if "0 \<le> ?X"
      using a that by (cases "?X = 0") (auto simp: y_def a_def)
    have neg: "y = - a \<and> - ((a + 1) * ?U) < ?X \<and> ?X \<le> - (a * ?U)" if "?X < 0"
      using a that by (auto simp: y_def)
    have "y < 2 ^ 63 \<and> - (2 ^ 63) \<le> y"
    proof (cases "0 \<le> ?X")
      case True
      then have "a * ?U < 2 ^ 63 * ?U" using pos mid by linarith
      then show ?thesis using True pos a(3) U by (simp only: mult_less_cancel_right_pos) simp
    next
      case False
      then have "a * ?U \<le> 2 ^ 63 * ?U" using neg mid by linarith
      then show ?thesis using False neg a(3) U by (simp only: mult_le_cancel_right_pos) simp
    qed
    then have y: "dbl_to_i64 r = Some y" using r by (simp add: dbl_to_i64_def y_def a_def)
    have N: "\<not> dbl_less r 0xC3E0000000000000" "\<not> dbl_le 0x43E0000000000000 r"
      using mid by (simp_all only: dbl_less_def dbl_le_def dbl_limits) simp_all
    have mono: "x * ?U \<le> z * ?U" if "x \<le> z" for x z using that U by simp
    consider "i < y" | "y < i" | (eq) "i = y" by linarith
    then show ?thesis
    proof cases
      case 1
      have "i * ?U < ?X"
      proof (cases "0 \<le> ?X")
        case True
        then show ?thesis using pos [OF True] mult_strict_right_mono [OF 1 U] by simp
      next
        case False
        then show ?thesis using neg mono [of i "- (a + 1)"] 1 by (simp add: algebra_simps)
      qed
      then show ?thesis using 1 N y by (simp add: sqlite3IntFloatCompare_def num_cmp_def)
    next
      case 2
      have "?X < i * ?U"
      proof (cases "0 \<le> ?X")
        case True
        then show ?thesis using pos mono [of "a + 1" i] 2 by simp
      next
        case False
        then show ?thesis using neg mult_strict_right_mono [OF 2 U] by simp
      qed
      then show ?thesis using 2 N y by (simp add: sqlite3IntFloatCompare_def num_cmp_def)
    next
      case eq
      have ia: "\<bar>i\<bar> = a" using eq a(3) pos neg by (cases "0 \<le> ?X") auto
      have "dbl_num (dbl_of_i64 i) = i * dbl_unit \<and> \<not> sqlite3IsNaN (dbl_of_i64 i)"
      proof (cases "\<bar>i\<bar> < 2 ^ 53")
        case True
        then show ?thesis by (intro dbl_of_i64_exact) simp
      next
        case False
        then have "2 ^ 53 * ?U \<le> \<bar>?X\<bar>" "\<bar>?X\<bar> \<le> 2 ^ 63 * ?U" using mono [of "2 ^ 53" a] a(1) ia mid by linarith+
        then obtain M j where Mj: "\<bar>?X\<bar> = int (M * 2 ^ j) * ?U" "2 ^ 52 \<le> M" "M < 2 ^ 53" "j \<le> 11"
          using large_double by blast
        then have "a = int (M * 2 ^ j)" using U by (simp add: a_def)
        then have "nat \<bar>i\<bar> = M * 2 ^ j" using ia by (simp only: nat_int)
        then show ?thesis using Mj by (intro dbl_of_i64_exact) blast
      qed
      then show ?thesis
        using eq N y r by (simp add: sqlite3IntFloatCompare_def num_cmp_def dbl_less_def Let_def)
    qed
  qed
qed

end
