(* ===== verification/CompareFacts.thy ===== *)
theory CompareFacts
  imports DblFacts
begin

text \<open>
  Comparing two values: the built-in collating sequences keep the contract of a collating sequence,
  except RTRIM; and \<^verbatim>\<open>sqlite3MemCompare\<close> computes the documented order of SQL values, which is a total
  preorder whenever the collating sequence is.
\<close>

section \<open>BINARY\<close>

definition byte_cmp :: "u8 \<Rightarrow> u8 \<Rightarrow> int" where
  "byte_cmp a b = uint a - uint b"

interpretation byte: collation byte_cmp
  by unfold_locales (auto simp: byte_cmp_def sgn_if)

abbreviation bin_cmp :: "u8 list \<Rightarrow> u8 list \<Rightarrow> int" where
  "bin_cmp \<equiv> lex_cmp byte_cmp"

interpretation bin: collation bin_cmp
  by (rule byte.lex)

lemma byte_cmp_0 [simp]: "byte_cmp a b = 0 \<longleftrightarrow> a = b"
  by (simp add: byte_cmp_def word_uint_eq_iff)

lemma memcmp_loop_Cons: "memcmp_loop (a # p) (b # q) = (if a = b then memcmp_loop p q else byte_cmp a b)"
  by (simp add: byte_cmp_def)

lemma memcmp_bin:
  "sgn (if memcmp_loop (take (min (length p) (length q)) p) (take (min (length p) (length q)) q) = 0
        then int (length p) - int (length q)
        else memcmp_loop (take (min (length p) (length q)) p) (take (min (length p) (length q)) q))
    = sgn (bin_cmp p q)"
proof (induction p arbitrary: q)
  case Nil
  show ?case by (cases q) simp_all
next
  case (Cons a p)
  show ?case
  proof (cases q)
    case (Cons b q')
    then show ?thesis using Cons.IH [of q'] by (cases "a = b") (auto simp: memcmp_loop_Cons simp del: memcmp_loop.simps(1) split: if_splits)
  qed simp
qed

lemma binCollFunc_bin: "sgn (binCollFunc False p q) = sgn (bin_cmp p q)"
proof -
  have "(if length p < length q then length p else length q) = min (length p) (length q)" by (simp add: min_def)
  then show ?thesis unfolding binCollFunc_def Let_def memcmp_bin [of p q, symmetric] by (simp only: simp_thms if_False)
qed

interpretation binary: collation "binCollFunc False"
  by (rule collation_sgn [OF bin.collation_axioms binCollFunc_bin])

section \<open>NOCASE\<close>

text \<open>
  The comparison stops at a NUL byte in both strings and then goes by length.
\<close>

fun nc_cmp :: "u8 list \<Rightarrow> u8 list \<Rightarrow> int" where
  "nc_cmp [] [] = 0"
| "nc_cmp [] (y # ys) = -1"
| "nc_cmp (x # xs) [] = 1"
| "nc_cmp (x # xs) (y # ys) =
     (if UpperToLower x \<noteq> UpperToLower y then uint (UpperToLower x) - uint (UpperToLower y)
      else if x = 0 then int (length xs) - int (length ys) else nc_cmp xs ys)"

lemma fold_zero: "UpperToLower x = UpperToLower 0 \<longleftrightarrow> x = 0"
  by (rule byte_table [where P = "\<lambda>x. UpperToLower x = UpperToLower 0 \<longleftrightarrow> x = 0"]) code_simp

lemma nc_anti: "sgn (nc_cmp ys xs) = - sgn (nc_cmp xs ys)"
proof (induction xs arbitrary: ys)
  case Nil
  show ?case by (cases ys) simp_all
next
  case (Cons x xs)
  show ?case
  proof (cases ys)
    case (Cons y ys')
    then show ?thesis using Cons.IH [of ys'] fold_zero [of x] fold_zero [of y] by (auto simp: sgn_if split: if_splits)
  qed simp
qed

lemma nc_le_trans: "nc_cmp xs ys \<le> 0 \<Longrightarrow> nc_cmp ys zs \<le> 0 \<Longrightarrow> nc_cmp xs zs \<le> 0"
proof (induction xs arbitrary: ys zs)
  case Nil
  then show ?case by (cases zs) simp_all
next
  case (Cons x xs)
  obtain y ys' where ys: "ys = y # ys'" using Cons.prems(1) by (cases ys) simp_all
  obtain z zs' where zs: "zs = z # zs'" using Cons.prems(2) ys by (cases zs) simp_all
  have lt: "uint v - uint w \<le> 0 \<longleftrightarrow> uint v \<le> uint w" for v w :: u8 by simp
  have le: "uint (UpperToLower x) \<le> uint (UpperToLower y)" "uint (UpperToLower y) \<le> uint (UpperToLower z)"
    using Cons.prems ys zs by (auto split: if_splits)
  show ?case
  proof (cases "UpperToLower x = UpperToLower y \<and> UpperToLower y = UpperToLower z")
    case True
    then have "x = 0 \<longleftrightarrow> y = 0" "y = 0 \<longleftrightarrow> z = 0" using fold_zero [of x] fold_zero [of y] fold_zero [of z] by auto
    then show ?thesis using Cons True ys zs by (auto split: if_splits)
  next
    case False
    then have "uint (UpperToLower x) < uint (UpperToLower z)"
      using le by (metis order.not_eq_order_implies_strict order.strict_trans1 order.strict_trans2 word_uint_eq_iff)
    then show ?thesis using zs by auto
  qed
qed

interpretation nc: collation nc_cmp
  by unfold_locales (rule nc_anti, rule nc_le_trans)

lemma nocase_loop:
  "sgn (if strnicmp_loop p q (int (min (length p) (length q))) = 0 then int (length p) - int (length q)
        else strnicmp_loop p q (int (min (length p) (length q)))) = sgn (nc_cmp p q)"
proof (induction p arbitrary: q)
  case Nil
  show ?case by (cases q) (simp_all add: strnicmp_loop.simps [of "[]"])
next
  case (Cons a p)
  show ?case
  proof (cases q)
    case Nil
    then show ?thesis by (simp add: strnicmp_loop.simps [of "a # p"])
  next
    case q: (Cons b q')
    have n: "int (min (length (a # p)) (length q)) = int (min (length p) (length q')) + 1" using q by simp
    have "strnicmp_loop (a # p) q (int (min (length (a # p)) (length q))) =
        (if a \<noteq> 0 \<and> UpperToLower a = UpperToLower b then strnicmp_loop p q' (int (min (length p) (length q')))
         else uint (UpperToLower a) - uint (UpperToLower b))"
      unfolding n q by (subst strnicmp_loop.simps) (simp add: fold_diff_def)
    then show ?thesis
      using Cons [of q'] q fold_zero [of b] by (cases "a = 0"; cases "UpperToLower a = UpperToLower b") (auto simp: word_uint_eq_iff)
  qed
qed

lemma nocase_nc: "sgn (nocaseCollatingFunc p q) = sgn (nc_cmp p q)"
proof -
  have "(if length p < length q then int (length p) else int (length q)) = int (min (length p) (length q))" by (simp add: min_def)
  then show ?thesis
    unfolding nocaseCollatingFunc_def Let_def nocase_loop [of p q, symmetric] sqlite3_strnicmp_def option.case by (simp only:)
qed

interpretation nocase: collation nocaseCollatingFunc
  by (rule collation_sgn [OF nc.collation_axioms nocase_nc])

section \<open>The order of values\<close>

primrec rank :: "sql_value \<Rightarrow> nat" where
  "rank SNull = 0"
| "rank (SInt i) = 1"
| "rank (SReal r) = 1"
| "rank (SText s) = 2"
| "rank (SBlob b) = 3"

text \<open>Numbers in units of the smallest double.\<close>

fun magnitude :: "sql_value \<Rightarrow> int" where
  "magnitude (SInt i) = i * dbl_unit"
| "magnitude (SReal r) = dbl_num r"
| "magnitude v = 0"

definition value_cmp :: "(u8 list \<Rightarrow> u8 list \<Rightarrow> int) \<Rightarrow> sql_value \<Rightarrow> sql_value \<Rightarrow> int" where
  "value_cmp coll x y =
     (if rank x \<noteq> rank y then int (rank x) - int (rank y)
      else case (x, y) of
        (SText p, SText q) \<Rightarrow> coll p q
      | (SBlob p, SBlob q) \<Rightarrow> bin_cmp p q
      | _ \<Rightarrow> num_cmp (magnitude x) (magnitude y))"

lemma value_cmp_simps:
  "rank x \<noteq> rank y \<Longrightarrow> value_cmp coll x y = int (rank x) - int (rank y)"
  "rank x = 1 \<Longrightarrow> rank y = 1 \<Longrightarrow> value_cmp coll x y = num_cmp (magnitude x) (magnitude y)"
  "value_cmp coll SNull SNull = 0" "value_cmp coll (SText p) (SText q) = coll p q"
  "value_cmp coll (SBlob p) (SBlob q) = bin_cmp p q"
  by (auto simp: value_cmp_def num_cmp_def split: sql_value.splits)

lemma rank_cases:
  obtains (null) "x = SNull" | (num) "rank x = 1" | (text_case) p where "x = SText p" | (blobs) p where "x = SBlob p"
  by (cases x) auto

lemma num_le_trans: "num_cmp a b \<le> 0 \<Longrightarrow> num_cmp b c \<le> 0 \<Longrightarrow> num_cmp a c \<le> 0"
  by (auto simp: num_cmp_def split: if_splits)

lemma num_anti: "sgn (num_cmp b a) = - sgn (num_cmp a b)"
  by (auto simp: num_cmp_def)

lemma collation_value:
  assumes "collation coll"
  shows "collation (value_cmp coll)"
proof
  note coll_anti = collation.anti [OF assms] and coll_trans = collation.le_trans [OF assms]
  fix x y z
  show "sgn (value_cmp coll y x) = - sgn (value_cmp coll x y)"
  proof (cases "rank x = rank y")
    case True
    then show ?thesis
    proof (cases x rule: rank_cases)
      case null
      then show ?thesis using True by (cases y) (simp_all add: value_cmp_simps)
    next
      case num
      then show ?thesis using True num_anti [of "magnitude y" "magnitude x"] by (simp add: value_cmp_simps(2))
    next
      case (text_case p)
      then obtain q where "y = SText q" using True by (cases y) simp_all
      then show ?thesis using text_case coll_anti [of q p] by (simp add: value_cmp_simps)
    next
      case (blobs p)
      then obtain q where "y = SBlob q" using True by (cases y) simp_all
      then show ?thesis using blobs bin.anti [of q p] by (simp add: value_cmp_simps)
    qed
  qed (simp add: value_cmp_simps(1) sgn_if)
  assume le: "value_cmp coll x y \<le> 0" "value_cmp coll y z \<le> 0"
  then have r: "rank x \<le> rank y" "rank y \<le> rank z"
    using value_cmp_simps(1) [of x y coll] value_cmp_simps(1) [of y z coll] by linarith+
  show "value_cmp coll x z \<le> 0"
  proof (cases "rank x = rank y \<and> rank y = rank z")
    case True
    show ?thesis
    proof (cases x rule: rank_cases)
      case null
      then show ?thesis using True by (cases z) (simp_all add: value_cmp_simps)
    next
      case num
      then show ?thesis using True le num_le_trans by (simp add: value_cmp_simps(2))
    next
      case (text_case p)
      then obtain q r where "y = SText q" "z = SText r" using True by (cases y; cases z) simp_all
      then show ?thesis using text_case le coll_trans by (simp add: value_cmp_simps)
    next
      case (blobs p)
      then obtain q r where "y = SBlob q" "z = SBlob r" using True by (cases y; cases z) simp_all
      then show ?thesis using blobs le bin.le_trans by (simp add: value_cmp_simps)
    qed
  next
    case False
    then have "rank x < rank z" using r by linarith
    then show ?thesis by (simp add: value_cmp_simps(1))
  qed
qed

section \<open>Two cells\<close>

text \<open>The flags as single bits.\<close>

lemma flag_bits:
  "(f :: u16) AND MEM_Null = 0 \<longleftrightarrow> \<not> bit f 0" "f AND MEM_Str = 0 \<longleftrightarrow> \<not> bit f 1" "f AND MEM_Int = 0 \<longleftrightarrow> \<not> bit f 2"
  "f AND MEM_Real = 0 \<longleftrightarrow> \<not> bit f 3" "f AND MEM_Blob = 0 \<longleftrightarrow> \<not> bit f 4" "f AND MEM_Zero = 0 \<longleftrightarrow> \<not> bit f 14"
  "f AND (MEM_Int OR MEM_Real) = 0 \<longleftrightarrow> \<not> bit f 2 \<and> \<not> bit f 3"
proof -
  have "MEM_Int OR MEM_Real = 0x000C" by (simp add: MEM_Int_def MEM_Real_def)
  moreover have "f AND 0x000C = 0 \<longleftrightarrow> \<not> bit f 2 \<and> \<not> bit f 3"
  proof -
    have "0x000C = (4 OR 8 :: u16)" by simp
    then have "f AND 0x000C = (f AND 4) OR (f AND 8)" by (simp only: bit.conj_disj_distrib)
    then show ?thesis
      using and_exp_eq_0_iff_not_bit [of f 2] and_exp_eq_0_iff_not_bit [of f 3] by (simp add: or_eq_0_iff)
  qed
  ultimately show "f AND (MEM_Int OR MEM_Real) = 0 \<longleftrightarrow> \<not> bit f 2 \<and> \<not> bit f 3" by simp
qed (use and_exp_eq_0_iff_not_bit [of f 0] and_exp_eq_0_iff_not_bit [of f 1] and_exp_eq_0_iff_not_bit [of f 2]
    and_exp_eq_0_iff_not_bit [of f 3] and_exp_eq_0_iff_not_bit [of f 4] and_exp_eq_0_iff_not_bit [of f 14]
    in \<open>simp_all add: MEM_Null_def MEM_Str_def MEM_Int_def MEM_Real_def MEM_Blob_def MEM_Zero_def\<close>)

lemma flag_both:
  "(f :: u16) AND g AND MEM_Int = 0 \<longleftrightarrow> \<not> (bit f 2 \<and> bit g 2)" "f AND g AND MEM_Real = 0 \<longleftrightarrow> \<not> (bit f 3 \<and> bit g 3)"
  "f AND g AND MEM_Zero = 0 \<longleftrightarrow> \<not> (bit f 14 \<and> bit g 14)"
  unfolding and.assoc [symmetric] flag_bits by (simp_all add: bit_and_iff)

lemmas flag_tests = flag_bits flag_both bit_or_iff

text \<open>
  A cell that can be compared: NULL or a value, at most one of the two numbers, no NaN, all its bytes there, zeros to append
  only behind an empty blob.
\<close>

definition cell_ok :: "Val \<Rightarrow> bool" where
  "cell_ok v \<longleftrightarrow>
     (let m = val_mem v; f = mem_flags m in
      ser_ok v \<and> \<not> (bit f 2 \<and> bit f 3) \<and> (bit f 3 \<longrightarrow> \<not> sqlite3IsNaN (val_u v))
      \<and> (bit f 14 \<longrightarrow> \<not> bit f 0 \<and> mem_n m = 0) \<and> (bit f 0 \<longleftrightarrow> \<not> (bit f 1 \<or> bit f 2 \<or> bit f 3 \<or> bit f 4)))"

lemma cell_cases:
  assumes "cell_ok v"
  obtains (null) "bit (mem_flags (val_mem v)) 0" "\<not> bit (mem_flags (val_mem v)) 14" "sql_value v = SNull"
        "\<not> bit (mem_flags (val_mem v)) 1" "\<not> bit (mem_flags (val_mem v)) 2" "\<not> bit (mem_flags (val_mem v)) 3"
        "\<not> bit (mem_flags (val_mem v)) 4"
    | (int) "\<not> bit (mem_flags (val_mem v)) 0" "bit (mem_flags (val_mem v)) 2" "\<not> bit (mem_flags (val_mem v)) 3"
        "sql_value v = SInt (sint (val_u v))"
    | (real) "\<not> bit (mem_flags (val_mem v)) 0" "\<not> bit (mem_flags (val_mem v)) 2" "bit (mem_flags (val_mem v)) 3"
        "\<not> sqlite3IsNaN (val_u v)" "sql_value v = SReal (val_u v)"
    | (str) "\<not> bit (mem_flags (val_mem v)) 0" "\<not> bit (mem_flags (val_mem v)) 2" "\<not> bit (mem_flags (val_mem v)) 3"
        "bit (mem_flags (val_mem v)) 1" "\<not> bit (mem_flags (val_mem v)) 14" "mem_n (val_mem v) \<le> length (mem_z (val_mem v))"
        "sql_value v = SText (take (mem_n (val_mem v)) (mem_z (val_mem v)))"
    | (bytes) "\<not> bit (mem_flags (val_mem v)) 0" "\<not> bit (mem_flags (val_mem v)) 2" "\<not> bit (mem_flags (val_mem v)) 3"
        "\<not> bit (mem_flags (val_mem v)) 1" "bit (mem_flags (val_mem v)) 4" "\<not> bit (mem_flags (val_mem v)) 14" "mem_n (val_mem v) \<le> length (mem_z (val_mem v))"
        "sql_value v = SBlob (take (mem_n (val_mem v)) (mem_z (val_mem v)))"
    | (zero) "\<not> bit (mem_flags (val_mem v)) 0" "\<not> bit (mem_flags (val_mem v)) 2" "\<not> bit (mem_flags (val_mem v)) 3"
        "\<not> bit (mem_flags (val_mem v)) 1" "bit (mem_flags (val_mem v)) 4" "bit (mem_flags (val_mem v)) 14" "mem_n (val_mem v) = 0"
        "sql_value v = SBlob (replicate (mem_nZero (val_mem v)) 0)"
proof -
  note d = cell_ok_def ser_ok_def sql_value_def zeros_def Let_def flag_bits
  show thesis
    apply (cases "bit (mem_flags (val_mem v)) 0")
    subgoal using assms by (intro null) (auto simp: d)
    apply (cases "bit (mem_flags (val_mem v)) 2")
    subgoal using assms by (intro int) (auto simp: d)
    apply (cases "bit (mem_flags (val_mem v)) 3")
    subgoal using assms by (intro real) (auto simp: d)
    apply (cases "bit (mem_flags (val_mem v)) 1")
    subgoal using assms by (intro str) (auto simp: d)
    apply (cases "bit (mem_flags (val_mem v)) 14")
    subgoal using assms by (intro zero) (auto simp: d)
    subgoal using assms by (intro bytes) (auto simp: d)
    done
qed

lemma memcmp_Some: "n \<le> length p \<Longrightarrow> n \<le> length q \<Longrightarrow> memcmp p q n = Some (memcmp_loop (take n p) (take n q))"
  by (simp add: memcmp_def)

text \<open>The prefix comparison of the code on two byte strings inside buffers.\<close>

lemma memcmp_prefix:
  assumes "n1 \<le> length p" and "n2 \<le> length q"
  shows "\<exists>c. memcmp p q (min n1 n2) = Some c
    \<and> sgn (if c = 0 then int n1 - int n2 else c) = sgn (bin_cmp (take n1 p) (take n2 q))"
proof -
  have "take (min n1 n2) (take n1 p) = take (min n1 n2) p" "take (min n1 n2) (take n2 q) = take (min n1 n2) q"
    "length (take n1 p) = n1" "length (take n2 q) = n2"
    using assms by (simp_all add: min_def)
  then show ?thesis using assms memcmp_bin [of "take n1 p" "take n2 q"] by (simp only: memcmp_Some min.coboundedI1 min.coboundedI2) blast
qed

lemma isAllZero_iff: "n \<le> length z \<Longrightarrow> isAllZero z n = Some (take n z = replicate n 0)"
  by (induction z n rule: isAllZero.induct) auto

lemma zero_byte: "b \<noteq> 0 \<Longrightarrow> byte_cmp 0 b < 0"
  using uint_ge_0 [of b] by (auto simp: byte_cmp_def word_uint_eq_iff less_le)

lemma bin_zeros:
  "sgn (bin_cmp (replicate k 0) p) = sgn (if p = replicate (length p) 0 then int k - int (length p) else -1)"
proof (induction k arbitrary: p)
  case 0
  show ?case by (cases p) auto
next
  case (Suc k)
  show ?case
  proof (cases p)
    case (Cons b q)
    then show ?thesis using Suc.IH [of q] zero_byte [of b] by (cases "b = 0") simp_all
  qed simp
qed

lemma neg_sgn: "- sgn (int a - int b) = sgn (int b - int a)"
  by (simp add: sgn_if)

lemma blob_compare:
  assumes "cell_ok v" and "cell_ok w" and "sql_value v = SBlob p" and "sql_value w = SBlob q"
  shows "\<exists>c. sqlite3BlobCompare (val_mem v) (val_mem w) = Some c \<and> sgn c = sgn (bin_cmp p q)"
proof -
  have comm: "(if n1 > n2 then n2 else n1) = min n1 n2" for n1 n2 :: nat by (simp add: min_def)
  show ?thesis
    using assms(1)
  proof (cases rule: cell_cases)
    case v: bytes
    show ?thesis
      using assms(2)
    proof (cases rule: cell_cases)
      case w: bytes
      then show ?thesis
        using v assms(3,4) memcmp_prefix [OF v(7) w(7)]
        by (auto simp: sqlite3BlobCompare_def comm Let_def flag_tests split: if_splits)
    next
      case w: zero
      then show ?thesis
        using v assms(3,4) bin_zeros [of "mem_nZero (val_mem w)" p] bin.anti [of p "replicate (mem_nZero (val_mem w)) 0"]
        by (auto simp: sqlite3BlobCompare_def Let_def flag_tests isAllZero_iff neg_sgn split: if_splits)
    qed (use assms(4) in simp_all)
  next
    case v: zero
    show ?thesis
      using assms(2)
    proof (cases rule: cell_cases)
      case w: bytes
      then show ?thesis
        using v assms(3,4) bin_zeros [of "mem_nZero (val_mem v)" q]
        by (auto simp: sqlite3BlobCompare_def Let_def flag_tests isAllZero_iff split: if_splits)
    next
      case w: zero
      then show ?thesis
        using v assms(3,4) bin_zeros [of "mem_nZero (val_mem v)" q]
        by (auto simp: sqlite3BlobCompare_def Let_def flag_tests)
    qed (use assms(4) in simp_all)
  qed (use assms(3) in simp_all)
qed

text \<open>
  What a key column compares texts with: its collating sequence, if that works on the encoding the
  texts are in, or bytes.
\<close>

definition coll_fun :: "CollSeq option \<Rightarrow> u8 list \<Rightarrow> u8 list \<Rightarrow> int" where
  "coll_fun pColl = (case pColl of None \<Rightarrow> bin_cmp | Some c \<Rightarrow> coll_xCmp c)"

definition coll_fits :: "CollSeq option \<Rightarrow> u8 \<Rightarrow> bool" where
  "coll_fits pColl enc \<longleftrightarrow> (case pColl of None \<Rightarrow> True | Some c \<Rightarrow> coll_enc c = enc)"

lemma sint_range: "- (2 ^ 63) \<le> sint (u :: u64)" "sint (u :: u64) < 2 ^ 63"
  using sint_range_size [of u] by (simp_all add: word_size)

lemma int_float_word:
  "\<not> sqlite3IsNaN r \<Longrightarrow> sqlite3IntFloatCompare (sint (i :: u64)) r = Some (num_cmp (sint i * dbl_unit) (dbl_num r))"
  by (rule int_float_compare [OF sint_range])

lemma num_cmp_refl [simp]: "num_cmp a a = 0"
  by (simp add: num_cmp_def)

lemma num_cmp_neg: "num_cmp b a = - num_cmp a b"
  by (simp add: num_cmp_def)

lemma num_cmp_scale [simp]: "num_cmp (i * dbl_unit) (j * dbl_unit) = num_cmp i j"
  by (simp add: num_cmp_def dbl_unit_def)

lemma mem_compare:
  assumes "cell_ok v" and "cell_ok w" and "coll_fits pColl (mem_enc (val_mem v))"
  shows "\<exists>c. sqlite3MemCompare v w pColl alloc = Some c \<and> sgn c = sgn (value_cmp (coll_fun pColl) (sql_value v) (sql_value w))"
proof -
  note d = sqlite3MemCompare_def Let_def flag_tests value_cmp_def
  have real: "(if dbl_less a b then -1 else if dbl_less b a then 1 else 0) = num_cmp (dbl_num a) (dbl_num b)"
    if "\<not> sqlite3IsNaN a" "\<not> sqlite3IsNaN b" for a b
    using that by (simp add: dbl_less_def num_cmp_def)
  have int: "(if a < b then -1 else if b < a then 1 else 0) = num_cmp a b" for a b
    by (simp add: num_cmp_def)
  have null_bit: "uint (f AND MEM_Null) = of_bool (bit f 0)" for f :: u16
    by (simp add: MEM_Null_def and_one_eq mod_2_eq_odd bit_0)
  have N: "sql_value v = SNull \<or> sql_value w = SNull \<longleftrightarrow> bit (mem_flags (val_mem v)) 0 \<or> bit (mem_flags (val_mem w)) 0"
    using assms(1,2) by (elim cell_cases) simp_all
  show ?thesis
  proof (cases "sql_value v = SNull \<or> sql_value w = SNull")
    case True
    then show ?thesis
      using assms(1,2) by (elim cell_cases) (simp_all add: d null_bit)
  next
    case nn: False
    show ?thesis
      using assms(1)
    proof (cases rule: cell_cases)
      case v: int
      show ?thesis
        using assms(2) by (cases rule: cell_cases) (use v nn in \<open>simp_all add: d int int_float_word\<close>)
    next
      case v: real
      show ?thesis
        using assms(2) by (cases rule: cell_cases)
          (use v nn in \<open>simp_all add: d real int_float_word num_cmp_neg [of "dbl_num (val_u v)" "sint (val_u w) * dbl_unit"]\<close>)
    next
      case v: str
      show ?thesis
        using assms(2)
      proof (cases rule: cell_cases)
        case w: str
        show ?thesis
        proof (cases pColl)
          case None
          have comm: "(if n1 > n2 then n2 else n1) = min n1 n2" for n1 n2 :: nat by (simp add: min_def)
          show ?thesis
            using v w None memcmp_prefix [OF v(6) w(6)]
            by (auto simp: d coll_fun_def sqlite3BlobCompare_def comm split: if_splits)
        next
          case (Some c)
          then show ?thesis
            using v w assms(3) by (simp add: d coll_fun_def coll_fits_def vdbeCompareMemString_def coll_call_def)
        qed
      qed (use v nn in \<open>simp_all add: d\<close>)
    next
      case v: bytes
      show ?thesis
        using assms(2) by (cases rule: cell_cases) (use v nn blob_compare [OF assms(1,2)] in \<open>auto simp: d\<close>)
    next
      case v: zero
      show ?thesis
        using assms(2) by (cases rule: cell_cases) (use v nn blob_compare [OF assms(1,2)] in \<open>auto simp: d\<close>)
    qed (use nn in simp_all)
  qed
qed

section \<open>Properties\<close>

text \<open>
  C22: \<^verbatim>\<open>sqlite3IntFloatCompare\<close> is exact: for every 64-bit integer and every double that is no NaN it has a
  defined result, whose sign is that of the difference of the two numbers (\<open>dbl_num\<close> counts units of
  \<open>2 ^ -1074\<close>, and \<open>dbl_unit\<close> is the number of units in 1). The rounding of \<^verbatim>\<open>(double)i\<close> and the truncation of
  \<^verbatim>\<open>(i64)r\<close> never show.
\<close>

theorem int_float_compare_exact:
  assumes "\<not> sqlite3IsNaN r"
  shows "\<exists>c. sqlite3IntFloatCompare (sint (i :: u64)) r = Some c \<and> sgn c = sgn (sint i * dbl_unit - dbl_num r)"
  using int_float_word [OF assms, of i] by (simp add: num_cmp_def)

text \<open>The integer \<open>2 ^ 53 + 1\<close> is above the double \<open>2 ^ 53\<close>, to which it would be rounded.\<close>

theorem int_float_compare_exact_witness:
  "\<exists>c. sqlite3IntFloatCompare (sint (0x20000000000001 :: u64)) 0x4340000000000000 = Some c \<and> 0 < c"
proof -
  have n: "\<not> sqlite3IsNaN 0x4340000000000000" by code_simp
  have "word_of_nat (1076 * 2 ^ 52 + 0) OR 0 = (0x4340000000000000 :: u64)" by simp
  then have "dbl_num 0x4340000000000000 = 2 ^ 53 * dbl_unit"
    using dbl_num_fields(1) [of 1076 0 False] by (simp add: dbl_unit_def)
  moreover have "sint (0x20000000000001 :: u64) = 2 ^ 53 + 1" by simp
  ultimately show ?thesis
    using int_float_compare_exact [OF n, of "0x20000000000001"] by (auto simp: dbl_unit_def sgn_if split: if_splits)
qed

text \<open>
  C21: \<^verbatim>\<open>sqlite3MemCompare\<close> computes the documented order: NULL, then numbers by value, integers and doubles
  mixed, then texts by the collating sequence, then blobs byte by byte, zero-filled ones included. If
  the collating sequence is a total preorder, so is the comparison of values.
\<close>

theorem mem_compare_is_value_order:
  assumes "cell_ok v" and "cell_ok w" and "coll_fits pColl (mem_enc (val_mem v))" and "collation (coll_fun pColl)"
  shows "(\<exists>c. sqlite3MemCompare v w pColl alloc = Some c
        \<and> sgn c = sgn (value_cmp (coll_fun pColl) (sql_value v) (sql_value w)))
    \<and> sgn (value_cmp (coll_fun pColl) y x) = - sgn (value_cmp (coll_fun pColl) x y)
    \<and> (value_cmp (coll_fun pColl) x y \<le> 0 \<longrightarrow> value_cmp (coll_fun pColl) y z \<le> 0 \<longrightarrow> value_cmp (coll_fun pColl) x z \<le> 0)"
  using mem_compare [OF assms(1-3)] collation.anti [OF collation_value [OF assms(4)]]
    collation.le_trans [OF collation_value [OF assms(4)]] by blast

text \<open>An integer comes before a text.\<close>

theorem mem_compare_is_value_order_witness:
  "\<exists>c. sqlite3MemCompare (reg MEM_Int 7 [] 0) (reg MEM_Str 0 [0x37] 0) None (\<lambda>n. None) = Some c \<and> c < 0"
proof -
  have "cell_ok (reg MEM_Int 7 [] 0)" "cell_ok (reg MEM_Str 0 [0x37] 0)"
    by (simp_all add: cell_ok_def ser_ok_def reg_def zeros_def flag_bits MEM_Int_def MEM_Str_def)
  moreover have "coll_fits None SQLITE_UTF8" "collation (coll_fun None)"
    by (simp_all add: coll_fits_def coll_fun_def bin.collation_axioms)
  moreover have "sql_value (reg MEM_Int 7 [] 0) = SInt 7" "sql_value (reg MEM_Str 0 [0x37] 0) = SText [0x37]"
    by (simp_all add: sql_value_def reg_def flag_bits MEM_Int_def MEM_Str_def)
  ultimately show ?thesis
    using mem_compare_is_value_order [of "reg MEM_Int 7 [] 0" "reg MEM_Str 0 [0x37] 0" None "\<lambda>n. None" SNull SNull SNull]
    by (auto simp: reg_def value_cmp_def sgn_if split: if_splits)
qed

text \<open>
  Two of the three built-in collating sequences, BINARY and NOCASE, are total preorders on all byte
  strings, with embedded NUL bytes and of different lengths too.
\<close>

lemma builtin_collations_are_orders:
  assumes "c = binCollFunc False \<or> c = nocaseCollatingFunc"
  shows "sgn (c y x) = - sgn (c x y) \<and> (c x y \<le> 0 \<longrightarrow> c y z \<le> 0 \<longrightarrow> c x z \<le> 0)"
  using assms binary.anti [of y x] nocase.anti [of y x] binary.le_trans [of x y z] nocase.le_trans [of x y z] by blast

section \<open>RTRIM\<close>

definition rtrim :: "u8 list \<Rightarrow> u8 list" where
  "rtrim z = rev (dropWhile (\<lambda>b. b = 0x20) (rev z))"

lemma allSpaces_iff: "allSpaces z \<longleftrightarrow> (\<forall>b \<in> set z. b = 0x20)"
proof -
  have "allSpaces_loop y \<longleftrightarrow> (\<forall>b \<in> set y. b = 0x20)" for y by (induction y) auto
  then show ?thesis by (simp add: allSpaces_def)
qed

lemma rtrim_Nil: "rtrim z = [] \<longleftrightarrow> allSpaces z"
  by (simp add: rtrim_def allSpaces_iff dropWhile_eq_Nil_conv)

lemma rtrim_Cons: "rtrim (b # z) = (if b = 0x20 \<and> allSpaces z then [] else b # rtrim z)"
proof (cases "allSpaces z")
  case True
  then have "dropWhile (\<lambda>b. b = 0x20) (rev z @ [b]) = dropWhile (\<lambda>b. b = 0x20) [b]"
    by (intro dropWhile_append2) (simp add: allSpaces_iff)
  moreover have "rtrim z = []" using True by (simp add: rtrim_Nil)
  ultimately show ?thesis using True unfolding rtrim_def [of "b # z"] by simp
next
  case False
  then obtain c where "c \<in> set (rev z)" "c \<noteq> 0x20" by (auto simp: allSpaces_iff)
  then have "dropWhile (\<lambda>b. b = 0x20) (rev z @ [b]) = dropWhile (\<lambda>b. b = 0x20) (rev z) @ [b]" by (intro dropWhile_append1)
  then show ?thesis using False by (simp add: rtrim_def)
qed

text \<open>RTRIM as a recursion.\<close>

fun pad_cmp :: "u8 list \<Rightarrow> u8 list \<Rightarrow> int" where
  "pad_cmp (a # p) (b # q) = (if a = b then pad_cmp p q else byte_cmp a b)"
| "pad_cmp [] q = (if allSpaces q then 0 else - int (length q))"
| "pad_cmp (a # p) [] = (if allSpaces (a # p) then 0 else int (length (a # p)))"

lemma binCollFunc_pad: "sgn (binCollFunc True p q) = sgn (pad_cmp p q)"
proof (induction p q rule: pad_cmp.induct)
  case (1 a p b q)
  have "sgn (binCollFunc True (a # p) (b # q)) = (if a = b then sgn (binCollFunc True p q) else sgn (byte_cmp a b))"
    by (simp add: binCollFunc_def Let_def memcmp_loop_Cons del: memcmp_loop.simps(1))
  then show ?case using 1 by simp
qed (simp_all add: binCollFunc_def allSpaces_iff)

lemma pad_cmp_rtrim:
  "\<forall>b \<in> set p \<union> set q. 0x20 \<le> b \<Longrightarrow> sgn (pad_cmp p q) = sgn (bin_cmp (rtrim p) (rtrim q))"
proof (induction p q rule: pad_cmp.induct)
  case (1 a p b q)
  have *: "0x20 < x \<longleftrightarrow> x \<noteq> 0x20" if "0x20 \<le> x" for x :: u8 using that by auto
  show ?case
  proof (cases "a = b")
    case True
    then show ?thesis using 1 by (cases "rtrim p"; cases "rtrim q") (auto simp: rtrim_Cons rtrim_Nil [symmetric])
  next
    case False
    then have "a \<noteq> 0x20 \<or> b \<noteq> 0x20" by auto
    moreover have "byte_cmp a b < 0" if "a = 0x20" using that 1(2) False * [of b] by (simp add: byte_cmp_def word_less_def)
    moreover have "0 < byte_cmp a b" if "b = 0x20" using that 1(2) False * [of a] by (simp add: byte_cmp_def word_less_def)
    ultimately show ?thesis using False by (auto simp: rtrim_Cons sgn_if)
  qed
next
  case (2 q)
  then show ?case by (cases "rtrim q") (auto simp: rtrim_Nil [symmetric] rtrim_def [of "[]"])
next
  case (3 a p)
  then show ?case by (cases "rtrim (a # p)") (auto simp: rtrim_Nil [symmetric] rtrim_def [of "[]"])
qed

text \<open>
  C40: on texts without control characters, the bytes below the space, RTRIM is the order of BINARY on the texts without
  their trailing spaces, as it is meant to be. With a control character it is no order: any text that ends in
  one lies strictly between the text without it and that text with a space in its place, which are equal to
  each other.
\<close>

theorem rtrim_is_not_transitive:
  assumes "\<forall>b \<in> set p \<union> set q. 0x20 \<le> b" and "c < 0x20"
  shows "sgn (binCollFunc True p q) = sgn (binCollFunc False (rtrim p) (rtrim q))
    \<and> binCollFunc True x (x @ [0x20]) = 0 \<and> binCollFunc True x (x @ [c]) < 0 \<and> binCollFunc True (x @ [c]) (x @ [0x20]) < 0"
proof -
  have "sgn (pad_cmp x (x @ [0x20])) = 0 \<and> sgn (pad_cmp x (x @ [c])) = -1 \<and> sgn (pad_cmp (x @ [c]) (x @ [0x20])) = -1"
    using assms(2) by (induction x) (auto simp: allSpaces_iff byte_cmp_def word_less_def)
  then have "sgn (binCollFunc True x (x @ [0x20])) = 0 \<and> sgn (binCollFunc True x (x @ [c])) = -1
      \<and> sgn (binCollFunc True (x @ [c]) (x @ [0x20])) = -1"
    by (simp only: binCollFunc_pad)
  moreover have "sgn (binCollFunc True p q) = sgn (binCollFunc False (rtrim p) (rtrim q))"
    unfolding binCollFunc_pad binCollFunc_bin by (rule pad_cmp_rtrim [OF assms(1)])
  ultimately show ?thesis by (simp add: sgn_if split: if_splits)
qed

theorem rtrim_is_not_transitive_witness:
  "sgn (binCollFunc True [0x61, 0x20] [0x61, 0x21]) = sgn (binCollFunc False [0x61] [0x61, 0x21])
    \<and> binCollFunc True [0x61] [0x61, 0x20] = 0 \<and> binCollFunc True [0x61] [0x61, 0x09] < 0 \<and> binCollFunc True [0x61, 0x09] [0x61, 0x20] < 0"
  using rtrim_is_not_transitive [of "[0x61, 0x20]" "[0x61, 0x21]" "0x09" "[0x61]"] by (simp add: rtrim_def)

end
