(* ===== verification/RecCmpFacts.thy ===== *)
theory RecCmpFacts
  imports CompareFacts
begin

text \<open>
  Comparing a record with an unpacked key gives the lexical order of the values that the record was
  made of, and the two fast versions answer as the general one does on every key they are chosen for.
\<close>

section \<open>The fields of a record\<close>

text \<open>A value that a record can be made of and compared: no NaN, and no NULL marked as unchanged.\<close>

definition stored_ok :: "Val \<Rightarrow> bool" where
  "stored_ok v \<longleftrightarrow>
     (let f = mem_flags (val_mem v) in
      ser_ok v \<and> \<not> (bit f 2 \<and> bit f 3) \<and> (bit f 3 \<longrightarrow> \<not> sqlite3IsNaN (val_u v)) \<and> \<not> (bit f 0 \<and> bit f 14))"

lemma stored_cases:
  assumes "stored_ok v"
  obtains (null) "ser_type v ff = 0" "content v ff = []" "sql_value v = SNull"
    | (bool) u where "ser_type v ff = 8 + ucast u" "u = 0 \<or> u = 1" "content v ff = []" "sql_value v = SInt (sint (u :: u64))"
    | (int) t len u where "ser_type v ff = t" "(t, len) \<in> int_types" "content v ff = be (unat len) u"
        "signed_take_bit (8 * unat len - 1) u = u" "sql_value v = SInt (sint u)"
    | (real) u where "ser_type v ff = 7" "content v ff = be 8 u" "\<not> sqlite3IsNaN u" "sql_value v = SReal u"
    | (str) "ser_type v ff = bytes_type (length (content v ff)) True" "length (content v ff) < 2 ^ 30"
        "sql_value v = SText (content v ff)"
    | (blob) "ser_type v ff = bytes_type (length (content v ff)) False" "length (content v ff) < 2 ^ 30"
        "sql_value v = SBlob (content v ff)"
proof -
  let ?f = "mem_flags (val_mem v)"
  have ok: "ser_ok v" and f: "\<not> (bit ?f 2 \<and> bit ?f 3)" "bit ?f 3 \<longrightarrow> \<not> sqlite3IsNaN (val_u v)" "\<not> (bit ?f 0 \<and> bit ?f 14)"
    using assms by (simp_all add: stored_ok_def Let_def)
  show thesis
    using ok
  proof (cases rule: ser_type_cases [where ff = ff])
    case n: null
    show thesis
      using n f by (intro null) (simp_all add: ser_type_def content_def stored_def sql_value_def flag_bits sqlite3VdbeSerialType_def)
  next
    case n: number
    show thesis
    proof (cases "bit ?f 2")
      case True
      have i: "?f AND MEM_Int \<noteq> 0" using True by (simp add: flag_bits)
      from n True have v: "sql_value v = SInt (sint (val_u v))" "content v ff = be (unat (snd (sqlite3VdbeSerialType v ff))) (val_u v)"
        by (simp_all add: sql_value_def content_def stored_def flag_bits)
      from int_serial_type [OF n(1) i, of ff] consider
          "sqlite3VdbeSerialType v ff = (8, 0)" "val_u v = 0" | "sqlite3VdbeSerialType v ff = (9, 0)" "val_u v = 1"
        | t len where "sqlite3VdbeSerialType v ff = (t, len)" "(t, len) \<in> int_types"
            "signed_take_bit (8 * unat len - 1) (val_u v) = val_u v"
        by blast
      then show thesis
      proof cases
        case 1
        then show thesis using n v by (intro bool [of 0]) simp_all
      next
        case 2
        then show thesis using n v by (intro bool [of 1]) simp_all
      next
        case 3
        then show thesis using n v by (intro int [of t len "val_u v"]) simp_all
      qed
    next
      case False
      then have r: "bit ?f 3" using n(3) by (auto simp: flag_bits)
      have "sqlite3VdbeSerialType v ff = (7, 8)"
        using n(1) False r by (simp add: sqlite3VdbeSerialType_def Let_def flag_bits)
      then show thesis
        using n False r f by (intro real [of "val_u v"]) (simp_all add: content_def stored_def sql_value_def flag_bits)
    qed
  next
    case b: bytes
    have l: "length (content v ff) = mem_n (val_mem v) + zeros v" using b by (simp add: content_def stored_def Let_def)
    show thesis
    proof (cases "bit ?f 1")
      case True
      then show thesis
        using b by (intro str) (simp_all only: l, simp_all add: content_def stored_def sql_value_def flag_bits Let_def)
    next
      case False
      then show thesis
        using b by (intro blob) (simp_all only: l, simp_all add: content_def stored_def sql_value_def flag_bits Let_def)
    qed
  qed
qed

lemma int_types_facts: "(t, len) \<in> int_types \<Longrightarrow> t \<noteq> 0 \<and> t < 7 \<and> t < 128 \<and> t < 12 \<and> \<not> 10 \<le> t \<and> \<not> 12 \<le> t \<and> t \<noteq> 7"
  by (auto simp: int_types_def word_le_nat_alt)

lemma type_large: "t = bytes_type n str \<Longrightarrow> n < 2 ^ 30 \<Longrightarrow> 10 \<le> t \<and> \<not> t < 12 \<and> t \<noteq> 0"
  using bytes_type_facts(1) [of n str] order_trans [of 10 12 t] by auto

text \<open>The content is as long as its type says.\<close>

lemma type_length:
  assumes "stored_ok v"
  shows "unat (sqlite3VdbeSerialTypeLen (ser_type v ff)) = length (content v ff)"
proof -
  have ok: "ser_ok v" using assms by (simp add: stored_ok_def Let_def)
  obtain c' where "sqlite3VdbeSerialGet (content v ff @ replicate 8 0) (ser_type v ff) v = Some (c', length (content v ff))"
    using value_roundtrip [OF ok] by blast
  then show ?thesis
    using serial_type_len_matches_reader [of "content v ff @ replicate 8 0" "ser_type v ff" v] by simp
qed

text \<open>The first byte of a serial type, which is all that a numeric key looks at.\<close>

lemma first_byte:
  assumes "drop idx aKey = fst (putVarint32 t) @ X"
  obtains b where "rd aKey idx = Some b" and "(ucast b :: u32) = t \<or> 128 \<le> t \<and> 128 \<le> (ucast b :: u32)"
proof -
  obtain b z where p: "fst (putVarint32 t) = b # z" using putVarint32_nonempty [of t] by (cases "fst (putVarint32 t)") auto
  have rd: "rd aKey idx = Some b"
    using assms p rd_drop [of idx aKey 0] by (metis append_Cons rd_Cons_0 add_0_right)
  show thesis
  proof (cases "b < 0x80")
    case True
    have "getVarint32 (fst (putVarint32 t)) = Some (ucast b, 1)" unfolding p using True by (simp add: getVarint32_def)
    then show thesis using get_put32 [of t "[]"] that rd by simp
  next
    case False
    have b: "128 \<le> (ucast b :: u32) \<longleftrightarrow> \<not> b < 0x80"
      by (rule byte_table [where P = "\<lambda>b. 128 \<le> (ucast b :: u32) \<longleftrightarrow> \<not> b < 0x80"]) code_simp
    have "\<not> t < 0x80"
    proof
      assume t: "t < 0x80"
      then have "b = ucast t" using p by (simp add: putVarint32_def)
      moreover have "(ucast t :: u8) < 0x80"
        by (rule word_table [where P = "\<lambda>t :: u32. (ucast t :: u8) < 0x80" and n = 128], code_simp)
           (use t in \<open>simp add: word_less_nat_alt\<close>)
      ultimately show False using False by simp
    qed
    then show thesis using that [OF rd] b False by (simp add: not_less)
  qed
qed

lemma first_byte_type:
  assumes "drop idx aKey = fst (putVarint32 t) @ X"
  obtains b where "rd aKey idx = Some b" and "t < 128 \<longrightarrow> (ucast b :: u32) = t" and "10 \<le> t \<longrightarrow> 10 \<le> (ucast b :: u32)"
proof -
  obtain b where b: "rd aKey idx = Some b" "(ucast b :: u32) = t \<or> 128 \<le> t \<and> 128 \<le> (ucast b :: u32)"
    using first_byte [OF assms] .
  have "10 \<le> (ucast b :: u32)" if "128 \<le> (ucast b :: u32)" using order_trans [OF _ that, of 10] by simp
  then show thesis using that [OF b(1)] b(2) by (cases "t < 128") (auto simp: not_less)
qed

lemma decode_int:
  assumes "(t, len) \<in> int_types"
  shows "vdbeRecordDecodeInt t (be (unat len) u @ r) = Some (signed_take_bit (8 * unat len - 1) u)"
proof -
  have "TWO_BYTE_INT (be 6 u @ r) = TWO_BYTE_INT (be 2 (drop_bit 32 u) @ (be 4 u @ r))"
    by (simp add: be_split)
  then obtain hi where hi: "TWO_BYTE_INT (be 6 u @ r) = Some hi" "scast hi = signed_take_bit 15 (drop_bit 32 u)"
    using get_2 [of "drop_bit 32 u" "be 4 u @ r"] by auto
  have hi8: "FOUR_BYTE_UINT (be 8 u @ r) = Some (ucast (drop_bit 32 u))"
    using get_4u [of "drop_bit 32 u" "be 4 u @ r"] by (simp add: be_split)
  have s4: "scast (ucast u :: u32) = signed_take_bit 31 (u :: u64)"
    by (rule eq64_by_bits) (simp add: upt_64 bit_simps)
  have or: "push_bit 32 (ucast (ucast (drop_bit 32 u) :: u32)) OR ucast (ucast u :: u32) = (u :: u64)"
    by (rule eq64_by_bits) (simp add: upt_64 bit_simps)
  note d = vdbeRecordDecodeInt_def drop_be get_4u
  have 6: "vdbeRecordDecodeInt 5 (be 6 u @ r) = Some (signed_take_bit 47 u)"
    using hi two_halves(1) [of u] by (simp add: d push_bit_eq_mult mult.commute)
  have 8: "vdbeRecordDecodeInt 6 (be 8 u @ r) = Some u" using hi8 or by (simp add: d)
  show ?thesis
    using assms get_1 [of u r] get_2 [of u r] get_3 [of u r] s4 6 8 signed_63 [of u]
    unfolding int_types_def by (elim insertE) (auto simp: d simp del: be.simps)
qed

section \<open>One field\<close>

lemma num_cmp_units [simp]:
  "num_cmp dbl_unit (j * dbl_unit) = num_cmp 1 j" "num_cmp 0 (j * dbl_unit) = num_cmp 0 j"
  using num_cmp_scale [of 1 j] num_cmp_scale [of 0 j] by simp_all

lemma num_cmp_if: "(if a < b then -1 else if b < a then 1 else 0) = num_cmp a b"
  by (simp add: num_cmp_def)

lemma field_int_ok:
  assumes v: "stored_ok v" and t: "drop (unat idx) aKey = fst (putVarint32 (ser_type v ff)) @ X"
    and c: "drop (unat d) aKey = content v ff @ Y" and w: "sql_value w = SInt (sint (val_u w))"
  shows "\<exists>t rc. field_int aKey idx d w = Some (t, rc) \<and> (rc = 0 \<longrightarrow> t = ser_type v ff)
    \<and> sgn rc = sgn (value_cmp coll (sql_value v) (sql_value w))"
proof -
  obtain b where b: "rd aKey (unat idx) = Some b" "ser_type v ff < 128 \<longrightarrow> (ucast b :: u32) = ser_type v ff"
      "10 \<le> ser_type v ff \<longrightarrow> 10 \<le> (ucast b :: u32)"
    using first_byte_type [OF t] .
  show ?thesis
    using v
  proof (cases rule: stored_cases [where ff = ff])
    case null
    then have "(ucast b :: u32) = 0" using b(2) by auto
    then show ?thesis using null b(1) w by (simp add: field_int_def value_cmp_def)
  next
    case (bool u)
    then have "(ucast b :: u32) = 8 + ucast u" using b(2) by auto
    then show ?thesis
      using bool(2) bool(1,3,4) b(1) w
      by (elim disjE) (simp_all add: field_int_def value_cmp_def vdbeRecordDecodeInt_def num_cmp_if Let_def)
  next
    case (int t len u)
    then have bt: "(ucast b :: u32) = t" using b(2) int_types_facts [of t len] by simp
    have "\<not> 10 \<le> t" "t \<noteq> 0" "t \<noteq> 7" using int_types_facts [OF int(2)] by blast+
    then show ?thesis
      using int b(1) bt w c decode_int [OF int(2), of u Y] by (auto simp: field_int_def value_cmp_def num_cmp_if Let_def)
  next
    case (real u)
    then have bt: "(ucast b :: u32) = 7" using b(2) by auto
    show ?thesis
      using real b(1) bt w c get_real [of u Y w] int_float_word [OF real(3), of "val_u w"]
        num_cmp_neg [of "dbl_num u" "sint (val_u w) * dbl_unit"]
      by (simp add: field_int_def value_cmp_def)
  next
    case str
    have "10 \<le> (ucast b :: u32)" using b(3) type_large [OF str(1,2)] by simp
    then show ?thesis using str b(1) w by (simp add: field_int_def value_cmp_def)
  next
    case blob
    have "10 \<le> (ucast b :: u32)" using b(3) type_large [OF blob(1,2)] by simp
    then show ?thesis using blob b(1) w by (simp add: field_int_def value_cmp_def)
  qed
qed

lemma field_real_ok:
  assumes v: "stored_ok v" and t: "drop (unat idx) aKey = fst (putVarint32 (ser_type v ff)) @ X"
    and c: "drop (unat d) aKey = content v ff @ Y" and w: "sql_value w = SReal (val_u w)" "\<not> sqlite3IsNaN (val_u w)"
  shows "\<exists>t rc. field_real aKey idx d w = Some (t, rc) \<and> (rc = 0 \<longrightarrow> t = ser_type v ff)
    \<and> sgn rc = sgn (value_cmp coll (sql_value v) (sql_value w))"
proof -
  obtain b where b: "rd aKey (unat idx) = Some b" "ser_type v ff < 128 \<longrightarrow> (ucast b :: u32) = ser_type v ff"
      "10 \<le> ser_type v ff \<longrightarrow> 10 \<le> (ucast b :: u32)"
    using first_byte_type [OF t] .
  show ?thesis
    using v
  proof (cases rule: stored_cases [where ff = ff])
    case null
    then have "(ucast b :: u32) = 0" using b(2) by auto
    then show ?thesis using null b(1) w by (simp add: field_real_def value_cmp_def)
  next
    case (bool u)
    then have "(ucast b :: u32) = 8 + ucast u" using b(2) by auto
    then show ?thesis
      using bool(2) bool(1,3,4) b(1) w int_float_word [OF w(2), of 0] int_float_word [OF w(2), of 1]
      by (elim disjE) (simp_all add: field_real_def value_cmp_def sqlite3VdbeSerialGet_def mem_int_def)
  next
    case (int t len u)
    then have bt: "(ucast b :: u32) = t" using b(2) int_types_facts [of t len] by simp
    have "\<not> 10 \<le> t" "t \<noteq> 0" "t \<noteq> 7" using int_types_facts [OF int(2)] by blast+
    then show ?thesis
      using int b(1) bt w c get_int [OF int(2), of u Y w] int_float_word [OF w(2), of u]
      by (simp add: field_real_def value_cmp_def mem_int_def)
  next
    case (real u)
    then have bt: "(ucast b :: u32) = 7" using b(2) by auto
    show ?thesis
      using real b(1) bt w c get_real [of u Y w] by (simp add: field_real_def value_cmp_def dbl_less_def num_cmp_def)
  next
    case str
    have "10 \<le> (ucast b :: u32)" using b(3) type_large [OF str(1,2)] by simp
    then show ?thesis using str b(1) w by (simp add: field_real_def value_cmp_def)
  next
    case blob
    have "10 \<le> (ucast b :: u32)" using b(3) type_large [OF blob(1,2)] by simp
    then show ?thesis using blob b(1) w by (simp add: field_real_def value_cmp_def)
  qed
qed

lemma field_null_ok:
  assumes v: "stored_ok v" and t: "drop (unat idx) aKey = fst (putVarint32 (ser_type v ff)) @ X"
    and w: "sql_value w = SNull"
  shows "\<exists>t rc. field_null aKey idx = Some (t, rc) \<and> (rc = 0 \<longrightarrow> t = ser_type v ff)
    \<and> sgn rc = sgn (value_cmp coll (sql_value v) (sql_value w))"
proof -
  obtain b where b: "rd aKey (unat idx) = Some b" "ser_type v ff < 128 \<longrightarrow> (ucast b :: u32) = ser_type v ff"
      "10 \<le> ser_type v ff \<longrightarrow> 10 \<le> (ucast b :: u32)"
    using first_byte_type [OF t] .
  have b0: "b = 0 \<longleftrightarrow> (ucast b :: u32) = 0"
    by (rule byte_table [where P = "\<lambda>b. b = 0 \<longleftrightarrow> (ucast b :: u32) = 0"]) code_simp
  show ?thesis
    using v
  proof (cases rule: stored_cases [where ff = ff])
    case null
    then have "b = 0" using b(2) b0 by simp
    then show ?thesis using null b(1) w by (simp add: field_null_def value_cmp_def)
  next
    case (bool u)
    then have "b \<noteq> 0" using b(2) b0 by auto
    then show ?thesis using bool b(1) w by (simp add: field_null_def value_cmp_def)
  next
    case (int t len u)
    then have "b \<noteq> 0" using b(2) b0 int_types_facts [of t len] by simp
    then show ?thesis using int b(1) w by (simp add: field_null_def value_cmp_def)
  next
    case (real u)
    then have "b \<noteq> 0" using b(2) b0 by simp
    then show ?thesis using real b(1) w by (simp add: field_null_def value_cmp_def)
  next
    case str
    then have "b \<noteq> 0" using b(3) b0 type_large [OF str(1,2)] by auto
    then show ?thesis using str b(1) w by (simp add: field_null_def value_cmp_def)
  next
    case blob
    then have "b \<noteq> 0" using b(3) b0 type_large [OF blob(1,2)] by auto
    then show ?thesis using blob b(1) w by (simp add: field_null_def value_cmp_def)
  qed
qed

text \<open>A text or blob of the record lies before its end.\<close>

lemma content_bounds:
  assumes "drop (unat d) aKey = p @ Y" and "unat d + length p \<le> nKey" and "nKey < 2 ^ 31" and "unat n = length p"
  shows "\<not> (d :: u32) + n > word_of_nat nKey" and "length p \<le> length (drop (unat d) aKey)"
    and "take (length p) (drop (unat d) aKey) = p"
proof -
  have "unat (d + n) = unat d + length p" using assms by (subst unat_add_lem [THEN iffD1]) simp_all
  then show "\<not> d + n > word_of_nat nKey" using assms by (simp add: word_less_nat_alt unat_of_nat)
qed (simp_all add: assms(1))

lemma type_small:
  assumes "stored_ok v" and "rank (sql_value v) < 2"
  shows "ser_type v ff < 12"
  using assms(1) assms(2) by (cases rule: stored_cases [where ff = ff])
    (auto dest: int_types_facts)

lemma field_string_ok:
  assumes v: "stored_ok v" and t: "drop (unat idx) aKey = fst (putVarint32 (ser_type v ff)) @ X"
    and c: "drop (unat d) aKey = content v ff @ Y" and n: "unat d + length (content v ff) \<le> nKey" "nKey < 2 ^ 31"
    and w: "sql_value w = SText (take (mem_n (val_mem w)) (mem_z (val_mem w)))" "mem_n (val_mem w) \<le> length (mem_z (val_mem w))"
    and i: "i < nAllField ki" "i < length (aColl ki)" "coll_fits (aColl ki ! i) (ki_enc ki)"
  shows "\<exists>rc. field_string ki alloc nKey aKey idx d i w = Some (Inr (ser_type v ff, rc, None))
    \<and> sgn rc = sgn (value_cmp (coll_fun (aColl ki ! i)) (sql_value v) (sql_value w))"
proof -
  have g: "getVarint32 (drop (unat idx) aKey) = Some (ser_type v ff, length (fst (putVarint32 (ser_type v ff))))"
    unfolding t by (rule get_put32)
  note d = field_string_def value_cmp_def Let_def
  consider (small) "rank (sql_value v) < 2" | (big) "\<not> rank (sql_value v) < 2" by blast
  then show ?thesis
  proof cases
    case small
    then show ?thesis using type_small [OF v small, of ff] g w by (simp add: d sgn_if)
  next
    case big
    show ?thesis
      using v
    proof (cases rule: stored_cases [where ff = ff])
      case str
      let ?n = "(ser_type v ff - 12) div 2" and ?p = "content v ff"
      have T: "\<not> ser_type v ff < 12" "ser_type v ff AND 1 \<noteq> 0" "unat ?n = length ?p"
        using bytes_type_facts [OF str(2), of True] str(1) by (simp_all add: not_less)
      note B = content_bounds [OF c n T(3)]
      show ?thesis
      proof (cases "aColl ki ! i")
        case None
        obtain k where k: "memcmp (drop (unat d) aKey) (mem_z (val_mem w)) (min (length ?p) (mem_n (val_mem w))) = Some k"
            "sgn (if k = 0 then int (length ?p) - int (mem_n (val_mem w)) else k)
              = sgn (bin_cmp (take (length ?p) (drop (unat d) aKey)) (take (mem_n (val_mem w)) (mem_z (val_mem w))))"
          using memcmp_prefix [OF B(2) w(2)] by blast
        show ?thesis
          using g T(1,2) B(1) i(1,2) None k w str(3) unfolding d T(3) B(3) by (cases "k = 0") (simp_all add: rd_def T(3) coll_fun_def)
      next
        case (Some pc)
        then have "coll_enc pc = ki_enc ki" using i(3) by (simp add: coll_fits_def)
        then show ?thesis
          using g T(1,2) B i(1,2) Some w str(3) unfolding d
          by (simp add: rd_def T(3) coll_fun_def vdbeCompareMemString_def coll_call_def)
      qed
    next
      case blob
      have "\<not> ser_type v ff < 12" "ser_type v ff AND 1 = 0"
        using bytes_type_facts [OF blob(2), of False] blob(1) by (simp_all add: not_less)
      then show ?thesis using g blob w by (simp add: d)
    qed (use big in simp_all)
  qed
qed

lemma field_blob_ok:
  assumes v: "stored_ok v" and t: "drop (unat idx) aKey = fst (putVarint32 (ser_type v ff)) @ X"
    and c: "drop (unat d) aKey = content v ff @ Y" and n: "unat d + length (content v ff) \<le> nKey" "nKey < 2 ^ 31"
    and w: "cell_ok w" "sql_value w = SBlob q"
  shows "\<exists>rc. field_blob nKey aKey idx d w = Some (Inr (ser_type v ff, rc))
    \<and> sgn rc = sgn (value_cmp coll (sql_value v) (sql_value w))"
proof -
  have g: "getVarint32 (drop (unat idx) aKey) = Some (ser_type v ff, length (fst (putVarint32 (ser_type v ff))))"
    unfolding t by (rule get_put32)
  note d = field_blob_def value_cmp_def Let_def
  consider (small) "rank (sql_value v) < 2" | (big) "\<not> rank (sql_value v) < 2" by blast
  then show ?thesis
  proof cases
    case small
    then show ?thesis using type_small [OF v small, of ff] g w by (simp add: d sgn_if)
  next
    case big
    show ?thesis
      using v
    proof (cases rule: stored_cases [where ff = ff])
      case str
      have "\<not> ser_type v ff < 12" "ser_type v ff AND 1 \<noteq> 0"
        using bytes_type_facts [OF str(2), of True] str(1) by (simp_all add: not_less)
      then show ?thesis using g str w by (simp add: d)
    next
      case blob
      let ?n = "(ser_type v ff - 12) div 2" and ?p = "content v ff"
      have T: "\<not> ser_type v ff < 12" "ser_type v ff AND 1 = 0" "unat ?n = length ?p"
        using bytes_type_facts [OF blob(2), of False] blob(1) by (simp_all add: not_less)
      note B = content_bounds [OF c n T(3)]
      show ?thesis
        using w(1)
      proof (cases rule: cell_cases)
        case b: bytes
        obtain k where k: "memcmp (drop (unat d) aKey) (mem_z (val_mem w)) (min (length ?p) (mem_n (val_mem w))) = Some k"
            "sgn (if k = 0 then int (length ?p) - int (mem_n (val_mem w)) else k)
              = sgn (bin_cmp (take (length ?p) (drop (unat d) aKey)) (take (mem_n (val_mem w)) (mem_z (val_mem w))))"
          using memcmp_prefix [OF B(2) b(7)] by blast
        show ?thesis
          using g T(1,2) B(1) k b blob(3) unfolding d T(3) B(3) by (cases "k = 0") (simp_all add: T(3) flag_bits)
      next
        case z: zero
        have "isAllZero (drop (unat d) aKey) (length ?p) = Some (?p = replicate (length ?p) 0)"
          using isAllZero_iff [OF B(2)] B(3) by simp
        moreover have "sgn (bin_cmp ?p (replicate (mem_nZero (val_mem w)) 0)) =
            sgn (if ?p = replicate (length ?p) 0 then int (length ?p) - int (mem_nZero (val_mem w)) else 1)"
          using bin_zeros [of "mem_nZero (val_mem w)" ?p] bin.anti [of ?p "replicate (mem_nZero (val_mem w)) 0"]
          by (simp add: neg_sgn)
        ultimately show ?thesis
          using g T(1,2) B(1) z blob(3) unfolding d T(3) by (simp add: T(3) flag_bits)
      qed (use w in simp_all)
    qed (use big in simp_all)
  qed
qed

text \<open>Any field against any cell.\<close>

lemma compare_field_ok:
  assumes v: "stored_ok v" and t: "drop (unat idx) aKey = fst (putVarint32 (ser_type v ff)) @ X"
    and c: "drop (unat d) aKey = content v ff @ Y" and n: "unat d + length (content v ff) \<le> nKey" "nKey < 2 ^ 31"
    and w: "cell_ok w" and i: "i < nAllField ki" "i < length (aColl ki)" "coll_fits (aColl ki ! i) (ki_enc ki)"
  shows "\<exists>t rc. compare_field ki alloc nKey aKey idx d i w = Some (Inr (t, rc, None)) \<and> (rc = 0 \<longrightarrow> t = ser_type v ff)
    \<and> sgn rc = sgn (value_cmp (coll_fun (aColl ki ! i)) (sql_value v) (sql_value w))"
  using w
proof (cases rule: cell_cases)
  case null
  then show ?thesis using field_null_ok [OF v t null(3)] by (fastforce simp: compare_field_def flag_bits Let_def)
next
  case int
  then show ?thesis using field_int_ok [OF v t c int(4)] by (fastforce simp: compare_field_def flag_bits Let_def)
next
  case real
  then show ?thesis using field_real_ok [OF v t c real(5,4)] by (fastforce simp: compare_field_def flag_bits Let_def)
next
  case str
  then show ?thesis using field_string_ok [OF v t c n str(7,6) i] by (fastforce simp: compare_field_def flag_bits Let_def)
next
  case bytes
  then show ?thesis using field_blob_ok [OF v t c n w bytes(8)] by (fastforce simp: compare_field_def flag_bits Let_def)
next
  case zero
  then show ?thesis using field_blob_ok [OF v t c n w zero(8)] by (fastforce simp: compare_field_def flag_bits Let_def)
qed

section \<open>The whole record\<close>

text \<open>
  The order of rows of values under a key: the first column in which they differ decides, in its
  direction; when one row ends, the default.
\<close>

fun key_cmp :: "KeyInfo \<Rightarrow> int \<Rightarrow> nat \<Rightarrow> sql_value list \<Rightarrow> sql_value list \<Rightarrow> int" where
  "key_cmp ki dflt i (x # xs) (y # ys) =
     (let r = value_cmp (coll_fun (aColl ki ! i)) x y in
      if r \<noteq> 0 then (if aSortOrder ki ! i then - r else r) else key_cmp ki dflt (i + 1) xs ys)"
| "key_cmp ki dflt i _ _ = dflt"

text \<open>The columns of a key have collating sequences for the encoding of the database, and directions.\<close>

definition key_ok :: "KeyInfo \<Rightarrow> nat \<Rightarrow> bool" where
  "key_ok ki n \<longleftrightarrow> n \<le> nAllField ki \<and> n \<le> length (aColl ki) \<and> n \<le> length (aSortOrder ki)
     \<and> (\<forall>c \<in> set (aColl ki). coll_fits c (ki_enc ki))"

lemma of_nat_u32: "n < 2 ^ 32 \<Longrightarrow> unat (word_of_nat n :: u32) = n"
  by (simp add: unat_of_nat)

text \<open>What a comparison leaves: the key itself, or with the mark that an equal record was seen.\<close>

definition outcome :: "UnpackedRecord \<Rightarrow> int \<Rightarrow> UnpackedRecord \<Rightarrow> int \<Rightarrow> bool" where
  "outcome p r q k \<longleftrightarrow> sgn r = sgn k \<and> (q = p \<or> q = p\<lparr>eqSeen := True\<rparr> \<and> r = default_rc p)"

lemma record_loop_ok:
  assumes "\<forall>v \<in> set vs. stored_ok v" and "\<forall>w \<in> set ws. cell_ok w" and "vs \<noteq> []" and "ws \<noteq> []"
    and "key_ok (pKeyInfo p) (i + length ws)" and "nKey < 2 ^ 31"
    and "drop j aKey = header ff vs @ X" and "j + length (header ff vs) = sz" and "sz < 2 ^ 31"
    and "drop d aKey = concat (map (\<lambda>v. content v ff) vs) @ R"
    and "d + length (concat (map (\<lambda>v. content v ff) vs)) \<le> nKey"
  shows "\<exists>r q. record_loop alloc nKey aKey (word_of_nat sz) p (word_of_nat j) (word_of_nat d) i ws = Some (r, q)
    \<and> outcome p r q (key_cmp (pKeyInfo p) (default_rc p) i (map sql_value vs) (map sql_value ws))"
  using assms
proof (induction vs arbitrary: ws j d i X)
  case Nil
  then show ?case by simp
next
  case (Cons v vs)
  obtain w ws' where ws: "ws = w # ws'" using Cons.prems(4) by (cases ws) simp_all
  let ?h = "fst (putVarint32 (ser_type v ff))" and ?c = "content v ff" and ?ki = "pKeyInfo p"
  have j: "unat (word_of_nat j :: u32) = j" and d: "unat (word_of_nat d :: u32) = d"
    using Cons.prems(6,8,9,11) by (simp_all add: of_nat_u32)
  have i: "i < nAllField ?ki" "i < length (aColl ?ki)" "coll_fits (aColl ?ki ! i) (ki_enc ?ki)" "i < length (aSortOrder ?ki)"
    using Cons.prems(5) ws by (auto simp: key_ok_def)
  obtain t rc where f: "compare_field ?ki alloc nKey aKey (word_of_nat j) (word_of_nat d) i w = Some (Inr (t, rc, None))"
      "rc = 0 \<longrightarrow> t = ser_type v ff" "sgn rc = sgn (value_cmp (coll_fun (aColl ?ki ! i)) (sql_value v) (sql_value w))"
    using compare_field_ok [of v "word_of_nat j" aKey ff "header ff vs @ X" "word_of_nat d"
        "concat (map (\<lambda>v. content v ff) vs) @ R" nKey w i ?ki alloc] Cons.prems j d i ws by auto
  let ?k = "value_cmp (coll_fun (aColl ?ki ! i)) (sql_value v) (sql_value w)"
  show ?case
  proof (cases "rc = 0")
    case False
    then have "?k \<noteq> 0" using f(3) by (auto simp: sgn_if split: if_splits)
    then show ?thesis
      using f(1,3) False i(4) ws by (simp add: rd_def outcome_def Let_def)
  next
    case True
    then have k0: "?k = 0" using f(3) by (simp add: sgn_if split: if_splits)
    have t: "t = ser_type v ff" using True f(2) by simp
    have "sqlite3VdbeSerialTypeLen t = word_of_nat (length ?c)"
      unfolding t by (subst type_length [symmetric]) (use Cons.prems(1) in simp_all)
    then have next_d: "word_of_nat d + sqlite3VdbeSerialTypeLen t = word_of_nat (d + length ?c)" by simp
    have next_j: "word_of_nat j + word_of_nat (sqlite3VarintLen (ucast t)) = (word_of_nat (j + length ?h) :: u32)"
      using length_put_VarintLen [of t] t by simp
    have lt: "(word_of_nat (j + length ?h) :: u32) < word_of_nat sz \<longleftrightarrow> vs \<noteq> []"
    proof -
      have "j + length ?h < 2 ^ 31" using Cons.prems(8,9) by simp
      then have "(word_of_nat (j + length ?h) :: u32) < word_of_nat sz \<longleftrightarrow> j + length ?h < sz"
        using Cons.prems(9) unfolding word_less_nat_alt by (subst (1 2) of_nat_u32) simp_all
      also have "\<dots> \<longleftrightarrow> vs \<noteq> []"
        using Cons.prems(8) putVarint32_nonempty by (cases vs) auto
      finally show ?thesis .
    qed
    have le: "(word_of_nat (d + length ?c) :: u32) \<le> word_of_nat nKey"
      using Cons.prems(6,11) unfolding word_le_nat_alt by (subst (1 2) of_nat_u32) simp_all
    have L: "record_loop alloc nKey aKey (word_of_nat sz) p (word_of_nat j) (word_of_nat d) i ws =
        (if ws' \<noteq> [] \<and> vs \<noteq> []
         then record_loop alloc nKey aKey (word_of_nat sz) p (word_of_nat (j + length ?h)) (word_of_nat (d + length ?c)) (i + 1) ws'
         else Some (default_rc p, p\<lparr>eqSeen := True\<rparr>))"
      using f(1) True ws lt le unfolding next_d [symmetric] next_j [symmetric] by (simp add: Let_def)
    show ?thesis
    proof (cases "ws' \<noteq> [] \<and> vs \<noteq> []")
      case True
      have "drop (j + length ?h) aKey = header ff vs @ X"
        using arg_cong [OF Cons.prems(7), of "drop (length ?h)"] by (simp add: add.commute)
      moreover have "drop (d + length ?c) aKey = concat (map (\<lambda>v. content v ff) vs) @ R"
        using arg_cong [OF Cons.prems(10), of "drop (length ?c)"] by (simp add: add.commute)
      ultimately obtain r q where rq: "record_loop alloc nKey aKey (word_of_nat sz) p (word_of_nat (j + length ?h))
            (word_of_nat (d + length ?c)) (i + 1) ws' = Some (r, q)"
          "outcome p r q (key_cmp ?ki (default_rc p) (i + 1) (map sql_value vs) (map sql_value ws'))"
        using Cons.IH [of ws' "i + 1" "j + length ?h" X "d + length ?c"] Cons.prems True ws by auto
      show ?thesis using L True rq k0 ws by (simp add: Let_def)
    next
      case False
      then have "key_cmp ?ki (default_rc p) (i + 1) (map sql_value vs) (map sql_value ws') = default_rc p"
        by (cases vs; cases ws') auto
      then show ?thesis using L False k0 ws by (auto simp: outcome_def Let_def)
    qed
  qed
qed

text \<open>The bytes of a record, and where its parts begin.\<close>

lemma record_parts:
  assumes "length vs < 2 ^ 28"
  shows "getVarint32 (record_bytes ff vs @ pad) =
      Some (word_of_nat (make_header_size (length (header ff vs))), length (fst (putVarint32 (word_of_nat (make_header_size (length (header ff vs)))))))"
    and "length (fst (putVarint32 (word_of_nat (make_header_size (length (header ff vs)))))) + length (header ff vs)
      = make_header_size (length (header ff vs))"
    and "drop (length (fst (putVarint32 (word_of_nat (make_header_size (length (header ff vs))))))) (record_bytes ff vs @ pad)
      = header ff vs @ concat (map (\<lambda>v. content v ff) vs) @ pad"
    and "drop (make_header_size (length (header ff vs))) (record_bytes ff vs @ pad) = concat (map (\<lambda>v. content v ff) vs) @ pad"
    and "length (record_bytes ff vs) = make_header_size (length (header ff vs)) + length (concat (map (\<lambda>v. content v ff) vs))"
proof -
  let ?H = "make_header_size (length (header ff vs))"
  let ?p = "fst (putVarint32 (word_of_nat ?H))"
  have r: "record_bytes ff vs @ pad = ?p @ header ff vs @ concat (map (\<lambda>v. content v ff) vs) @ pad"
    by (simp add: record_bytes_def)
  show tot: "length ?p + length (header ff vs) = ?H"
    using header_total(1) header_length [of ff vs] assms by simp
  show "getVarint32 (record_bytes ff vs @ pad) = Some (word_of_nat ?H, length ?p)" unfolding r by (rule get_put32)
  show "drop (length ?p) (record_bytes ff vs @ pad) = header ff vs @ concat (map (\<lambda>v. content v ff) vs) @ pad" unfolding r by simp
  show "drop ?H (record_bytes ff vs @ pad) = concat (map (\<lambda>v. content v ff) vs) @ pad"
    using append_eq_conv_conj [of "?p @ header ff vs" "concat (map (\<lambda>v. content v ff) vs) @ pad" "record_bytes ff vs @ pad"] tot r
    by simp
  show "length (record_bytes ff vs) = ?H + length (concat (map (\<lambda>v. content v ff) vs))"
    using tot by (simp add: record_bytes_def)
qed

text \<open>A key that can be used: its cells, at most as many as it has columns.\<close>

definition unpacked_ok :: "UnpackedRecord \<Rightarrow> bool" where
  "unpacked_ok p \<longleftrightarrow> 0 < ur_nField p \<and> ur_nField p \<le> length (ur_aMem p) \<and> key_ok (pKeyInfo p) (ur_nField p)
     \<and> (\<forall>w \<in> set (ur_aMem p). cell_ok w)"

abbreviation key_values :: "UnpackedRecord \<Rightarrow> sql_value list" where
  "key_values p \<equiv> map sql_value (take (ur_nField p) (ur_aMem p))"

lemma record_compare_ok:
  assumes vs: "\<forall>v \<in> set vs. stored_ok v" "vs \<noteq> []" "length vs < 2 ^ 28" and p: "unpacked_ok p"
    and l: "length (record_bytes ff vs) < 2 ^ 31"
  shows "\<exists>r q. sqlite3VdbeRecordCompare alloc (length (record_bytes ff vs)) (record_bytes ff vs @ pad) p = Some (r, q)
    \<and> outcome p r q (key_cmp (pKeyInfo p) (default_rc p) 0 (map sql_value vs) (key_values p))"
proof -
  let ?rec = "record_bytes ff vs" and ?H = "make_header_size (length (header ff vs))"
  note P = record_parts(1,3,4) [OF vs(3), of ff pad] record_parts(2,5) [OF vs(3), of ff]
  have "\<not> (word_of_nat ?H :: u32) > word_of_nat (length ?rec)"
    using P(4,5) l unfolding word_less_nat_alt by (subst (1 2) of_nat_u32) simp_all
  moreover have "take (ur_nField p) (ur_aMem p) \<noteq> []" "\<forall>w \<in> set (take (ur_nField p) (ur_aMem p)). cell_ok w"
      "key_ok (pKeyInfo p) (0 + length (take (ur_nField p) (ur_aMem p)))"
    using p by (auto simp: unpacked_ok_def dest: in_set_takeD)
  ultimately show ?thesis
    using record_loop_ok [OF vs(1) _ vs(2), of "take (ur_nField p) (ur_aMem p)" p 0 "length ?rec" _ "?rec @ pad" ff
        "concat (map (\<lambda>v. content v ff) vs) @ pad" ?H ?H pad alloc] P l
    by (simp add: sqlite3VdbeRecordCompare_def sqlite3VdbeRecordCompareWithSkip_def)
qed

section \<open>The fast versions\<close>

lemma byte_of_nat:
  "(ucast (word_of_nat n :: u32) :: u8) = word_of_nat n" "n < 256 \<Longrightarrow> (ucast (word_of_nat n :: u8) :: u32) = word_of_nat n"
  by (simp_all add: word_unat_eq_iff unsigned_ucast_eq unat_of_nat take_bit_eq_mod mod_mod_cancel)

text \<open>With at most 13 columns the size of the header is one byte, followed by the first type.\<close>

lemma short_header:
  assumes "vs = v # vs'" and "length vs \<le> 13"
  shows "length (header ff vs) \<le> 65" and "make_header_size (length (header ff vs)) = Suc (length (header ff vs))"
    and "fst (putVarint32 (word_of_nat (make_header_size (length (header ff vs))))) = [word_of_nat (Suc (length (header ff vs)))]"
    and "rd (record_bytes ff vs @ pad) 0 = Some (word_of_nat (Suc (length (header ff vs))))"
    and "drop 1 (record_bytes ff vs @ pad) =
      fst (putVarint32 (ser_type v ff)) @ header ff vs' @ concat (map (\<lambda>v. content v ff) vs) @ pad"
proof -
  show l: "length (header ff vs) \<le> 65" using header_length [of ff vs] assms(2) by simp
  then show H: "make_header_size (length (header ff vs)) = Suc (length (header ff vs))" by (simp add: make_header_size_def)
  have "(word_of_nat (Suc (length (header ff vs))) :: u32) < 0x80"
    unfolding word_less_nat_alt by (subst of_nat_u32) (use l in simp_all)
  then show p: "fst (putVarint32 (word_of_nat (make_header_size (length (header ff vs))))) = [word_of_nat (Suc (length (header ff vs)))]"
    unfolding H by (simp only: putVarint32_def if_True byte_of_nat fst_conv)
  have r: "record_bytes ff vs @ pad =
      word_of_nat (Suc (length (header ff vs))) # header ff vs @ concat (map (\<lambda>v. content v ff) vs) @ pad"
    by (simp only: record_bytes_def p append_Cons append_Nil append_assoc)
  show "rd (record_bytes ff vs @ pad) 0 = Some (word_of_nat (Suc (length (header ff vs))))" unfolding r by (rule rd_Cons_0)
  have "header ff vs = fst (putVarint32 (ser_type v ff)) @ header ff vs'" using assms(1) by simp
  then show "drop 1 (record_bytes ff vs @ pad) =
      fst (putVarint32 (ser_type v ff)) @ header ff vs' @ concat (map (\<lambda>v. content v ff) vs) @ pad"
    unfolding r by (simp only: One_nat_def drop_Suc_Cons drop_0 append_assoc)
qed

lemma skip_ok:
  assumes vs: "\<forall>v \<in> set vs. stored_ok v" "vs = v # vs'" "vs' \<noteq> []" "length vs \<le> 13"
    and p: "unpacked_ok p" "take (ur_nField p) (ur_aMem p) = w # ws'" "ws' \<noteq> []"
    and l: "length (record_bytes ff vs) < 2 ^ 31"
  shows "\<exists>r q. sqlite3VdbeRecordCompareWithSkip alloc (length (record_bytes ff vs)) (record_bytes ff vs @ pad) p True = Some (r, q)
    \<and> outcome p r q (key_cmp (pKeyInfo p) (default_rc p) 1 (map sql_value vs') (map sql_value ws'))"
proof -
  let ?rec = "record_bytes ff vs" and ?H = "Suc (length (header ff vs))" and ?h = "fst (putVarint32 (ser_type v ff))"
  let ?c = "content v ff"
  note S = short_header [OF vs(2,4), of ff] short_header(4,5) [OF vs(2,4), of ff pad]
  have n28: "length vs < 2 ^ 28" using vs(4) by simp
  note P = record_parts(4) [OF n28, of ff pad] record_parts(2,5) [OF n28, of ff]
  have g: "getVarint32 (drop 1 (?rec @ pad)) = Some (ser_type v ff, length ?h)" unfolding S(5) by (rule get_put32)
  have len: "length ?rec = ?H + length (concat (map (\<lambda>v. content v ff) vs))" using P(3) S(2) by simp
  have b: "(ucast (word_of_nat ?H :: u8) :: u32) = word_of_nat ?H"
    by (rule byte_of_nat) (use S(1) in simp)
  have t: "sqlite3VdbeSerialTypeLen (ser_type v ff) = word_of_nat (length ?c)"
    by (subst type_length [symmetric]) (use vs(1,2) in simp_all)
  have d: "ucast (word_of_nat ?H :: u8) + sqlite3VdbeSerialTypeLen (ser_type v ff) = (word_of_nat (?H + length ?c) :: u32)"
    unfolding b t by simp
  have le: "\<not> (word_of_nat (?H + length ?c) :: u32) > word_of_nat (length ?rec)"
    using len l vs(2) unfolding word_less_nat_alt by (subst (1 2) of_nat_u32) simp_all
  have ws: "\<forall>w \<in> set ws'. cell_ok w" "drop 1 (take (ur_nField p) (ur_aMem p)) = ws'"
    "key_ok (pKeyInfo p) (1 + length ws')"
  proof -
    have "set ws' \<subseteq> set (take (ur_nField p) (ur_aMem p))" using p(2) by auto
    then show "\<forall>w \<in> set ws'. cell_ok w" using p(1) by (auto simp: unpacked_ok_def dest: in_set_takeD)
    show "drop 1 (take (ur_nField p) (ur_aMem p)) = ws'" using p(2) by simp
    have "ur_nField p = 1 + length ws'" using p(1) arg_cong [OF p(2), of length] by (simp add: unpacked_ok_def)
    then show "key_ok (pKeyInfo p) (1 + length ws')" using p(1) by (simp add: unpacked_ok_def)
  qed
  have D: "drop (1 + length ?h) (?rec @ pad) = header ff vs' @ concat (map (\<lambda>v. content v ff) vs) @ pad"
  proof -
    have "drop (1 + length ?h) (?rec @ pad) = drop (length ?h) (drop 1 (?rec @ pad))" by (simp only: drop_drop add.commute)
    then show ?thesis unfolding S(5) by simp
  qed
  have C: "drop (?H + length ?c) (?rec @ pad) = concat (map (\<lambda>v. content v ff) vs') @ pad"
  proof -
    have "drop (?H + length ?c) (?rec @ pad) = drop (length ?c) (drop ?H (?rec @ pad))" by (simp only: drop_drop add.commute)
    then show ?thesis unfolding P(1) [unfolded S(2)] using vs(2) by simp
  qed
  obtain r q where "record_loop alloc (length ?rec) (?rec @ pad) (word_of_nat ?H) p (word_of_nat (1 + length ?h))
        (word_of_nat (?H + length ?c)) 1 ws' = Some (r, q)"
      "outcome p r q (key_cmp (pKeyInfo p) (default_rc p) 1 (map sql_value vs') (map sql_value ws'))"
    using record_loop_ok [of vs' ws' p 1 "length ?rec" "1 + length ?h" "?rec @ pad" ff
        "concat (map (\<lambda>v. content v ff) vs) @ pad" ?H "?H + length ?c" pad alloc] vs ws(1,3) p(3) l D C len S(1) by auto
  then show ?thesis
    by (simp only: sqlite3VdbeRecordCompareWithSkip_def if_True g S(4) Option.bind.bind_lunit prod.case b d [unfolded b]
        le if_False ws(2)) blast
qed

text \<open>Equal first fields: the answer of the rest, or the default.\<close>

definition rest_ok :: "(nat \<Rightarrow> u8 list option) \<Rightarrow> nat \<Rightarrow> u8 list \<Rightarrow> UnpackedRecord \<Rightarrow> int \<Rightarrow> bool" where
  "rest_ok alloc nKey rec p k \<longleftrightarrow>
     (\<exists>r q. (if ur_nField p > 1 then sqlite3VdbeRecordCompareWithSkip alloc nKey rec p True
            else Some (default_rc p, p\<lparr>eqSeen := True\<rparr>)) = Some (r, q) \<and> outcome p r q k)"

lemma rest_ok:
  assumes vs: "\<forall>v \<in> set vs. stored_ok v" "vs = v # vs'" "length vs \<le> 13"
    and p: "unpacked_ok p" "take (ur_nField p) (ur_aMem p) = w # ws'" "ur_nField p = 1 \<or> 2 \<le> length vs"
    and l: "length (record_bytes ff vs) < 2 ^ 31"
    and k: "value_cmp (coll_fun (aColl (pKeyInfo p) ! 0)) (sql_value v) (sql_value w) = 0"
  shows "rest_ok alloc (length (record_bytes ff vs)) (record_bytes ff vs @ pad) p
    (key_cmp (pKeyInfo p) (default_rc p) 0 (map sql_value vs) (key_values p))"
proof -
  have n: "ur_nField p = 1 + length ws'" using p(1) arg_cong [OF p(2), of length] by (simp add: unpacked_ok_def)
  show ?thesis
  proof (cases "ws' = []")
    case True
    then have "key_cmp (pKeyInfo p) (default_rc p) 0 (map sql_value vs) (key_values p) = default_rc p"
      using k p(2) vs(2) by (cases vs') (simp_all add: Let_def)
    then show ?thesis using n True by (simp add: rest_ok_def outcome_def)
  next
    case False
    then have "vs' \<noteq> []" using n p(3) vs(2) by auto
    from skip_ok [OF vs(1,2) this vs(3) p(1,2) False l, of alloc pad] show ?thesis
      using n False k p(2) vs(2) by (simp add: rest_ok_def Let_def)
  qed
qed

lemma first_int_decode:
  "first_int b a = (if b \<in> {1, 2, 3, 4, 5, 6, 8, 9} then Some (vdbeRecordDecodeInt (ucast b) a) else None)"
  by (auto simp: first_int_def vdbeRecordDecodeInt_def)

lemma byte_seven: "(ucast (b :: u8) :: u32) = 7 \<longleftrightarrow> b = 7"
  by (rule byte_table [where P = "\<lambda>b. (ucast b :: u32) = 7 \<longleftrightarrow> b = 7"]) code_simp

text \<open>The integer that the fast version finds, exactly when the field is one.\<close>

lemma first_int_ok:
  assumes vs: "\<forall>v \<in> set vs. stored_ok v" "vs = v # vs'" "length vs \<le> 13"
  shows "\<exists>b. rd (record_bytes ff vs @ pad) 1 = Some b
    \<and> (case first_int b (drop (unat (word_of_nat (Suc (length (header ff vs))) AND 0x3F :: u8)) (record_bytes ff vs @ pad)) of
         None \<Rightarrow> True | Some r \<Rightarrow> \<exists>u. r = Some u \<and> sql_value v = SInt (sint u))"
proof -
  let ?rec = "record_bytes ff vs @ pad" and ?H = "Suc (length (header ff vs))" and ?t = "ser_type v ff"
  note S = short_header(1,2) [OF vs(2,3), of ff] short_header(5) [OF vs(2,3), of ff pad]
  have n28: "length vs < 2 ^ 28" using vs(3) by simp
  obtain b where b: "rd ?rec 1 = Some b" "?t < 128 \<longrightarrow> (ucast b :: u32) = ?t" "10 \<le> ?t \<longrightarrow> 10 \<le> (ucast b :: u32)"
    using first_byte_type [OF S(3)] .
  have len: "\<not> 10 \<le> (ucast b :: u32)" if "b \<in> {1, 2, 3, 4, 5, 6, 8, 9}"
    using that by (auto simp: word_le_nat_alt)
  show ?thesis
  proof (cases "b \<in> {1, 2, 3, 4, 5, 6, 8, 9}")
    case False
    then show ?thesis using b(1) by (intro exI [of _ b]) (simp add: first_int_decode)
  next
    case True
    have "stored_ok v" using vs(1,2) by simp
    then have "\<exists>u. vdbeRecordDecodeInt (ucast b) (drop (unat (word_of_nat ?H AND 0x3F :: u8)) ?rec) = Some u \<and> sql_value v = SInt (sint u)"
    proof (cases rule: stored_cases [where ff = ff])
      case null
      then show ?thesis using b(2) True by auto
    next
      case (bool u)
      then have "(ucast b :: u32) = 8 + ucast u" using b(2) by auto
      then show ?thesis using bool by (auto simp: vdbeRecordDecodeInt_def)
    next
      case (int t n u)
      then have bt: "(ucast b :: u32) = t" using b(2) int_types_facts [of t n] by simp
      have "t \<le> 127" using int_types_facts [OF int(2)] by (auto simp: word_le_nat_alt word_less_nat_alt)
      then have "length (fst (putVarint32 ?t)) = 1" using int(1) length_putVarint32(1) [of ?t] by simp
      then have "length (header ff vs) \<le> 61" using header_length [of ff vs'] vs(2,3) by simp
      then have H: "unat (word_of_nat ?H AND 0x3F :: u8) = ?H"
      proof -
        assume h: "length (header ff vs) \<le> 61"
        have "(word_of_nat ?H AND 0x3F :: u8) = take_bit 6 (word_of_nat ?H)"
          using take_bit_eq_mask [of 6 "word_of_nat ?H :: u8"] by (simp add: mask_eq_exp_minus_1)
        then have "unat (word_of_nat ?H AND 0x3F :: u8) = take_bit 6 (unat (word_of_nat ?H :: u8))"
          by (simp only: unsigned_take_bit_eq)
        moreover have "unat (word_of_nat ?H :: u8) = ?H" unfolding unat_of_nat using h by simp
        ultimately show ?thesis using h by (simp only: take_bit_eq_mod) simp
      qed
      have D: "drop ?H ?rec = be (unat n) u @ concat (map (\<lambda>v. content v ff) vs') @ pad"
        using record_parts(4) [OF n28, of ff pad] S(2) int(3) vs(2) by simp
      show ?thesis unfolding H D bt using int decode_int [OF int(2)] by simp
    next
      case (real u)
      then have "b = 7" using b(2) byte_seven [of b] by simp
      then show ?thesis using True by simp
    next
      case str
      then show ?thesis using len [OF True] b(3) type_large [OF str(1,2)] by simp
    next
      case blob
      then show ?thesis using len [OF True] b(3) type_large [OF blob(1,2)] by simp
    qed
    then show ?thesis using b(1) True by (intro exI [of _ b]) (simp add: first_int_decode)
  qed
qed

lemma compare_int_ok:
  assumes vs: "\<forall>v \<in> set vs. stored_ok v" "vs \<noteq> []" "length vs \<le> 13"
    and p: "unpacked_ok p" "ur_nField p = 1 \<or> 2 \<le> length vs" "bit (mem_flags (val_mem (ur_aMem p ! 0))) 2"
    and r: "if aSortOrder (pKeyInfo p) ! 0 then ur_r1 p = 1 \<and> ur_r2 p = -1 else ur_r1 p = -1 \<and> ur_r2 p = 1"
    and l: "length (record_bytes ff vs) < 2 ^ 31"
  shows "\<exists>r q. vdbeRecordCompareInt alloc (length (record_bytes ff vs)) (record_bytes ff vs @ pad) p = Some (r, q)
    \<and> outcome p r q (key_cmp (pKeyInfo p) (default_rc p) 0 (map sql_value vs) (key_values p))"
proof -
  let ?rec = "record_bytes ff vs"
  obtain v vs' where vs': "vs = v # vs'" using vs(2) by (cases vs) simp_all
  obtain w aMem' where mem: "ur_aMem p = w # aMem'" using p(1) by (cases "ur_aMem p") (auto simp: unpacked_ok_def)
  obtain ws' where ws: "take (ur_nField p) (ur_aMem p) = w # ws'"
    using p(1) mem by (cases "ur_nField p") (auto simp: unpacked_ok_def)
  have w: "sql_value w = SInt (sint (val_u w))"
  proof -
    have "cell_ok w" using p(1) mem by (simp add: unpacked_ok_def)
    then show ?thesis using p(3) mem by (cases rule: cell_cases) simp_all
  qed
  have n28: "length vs < 2 ^ 28" using vs(3) by simp
  note S = short_header(4) [OF vs' vs(3), of ff pad]
  obtain b where b: "rd (?rec @ pad) 1 = Some b"
      "case first_int b (drop (unat (word_of_nat (Suc (length (header ff vs))) AND 0x3F :: u8)) (?rec @ pad)) of
         None \<Rightarrow> True | Some r \<Rightarrow> \<exists>u. r = Some u \<and> sql_value v = SInt (sint u)"
    using first_int_ok [OF vs(1) vs' vs(3)] by blast
  show ?thesis
  proof (cases "first_int b (drop (unat (word_of_nat (Suc (length (header ff vs))) AND 0x3F :: u8)) (?rec @ pad))")
    case None
    then have "vdbeRecordCompareInt alloc (length ?rec) (?rec @ pad) p = sqlite3VdbeRecordCompare alloc (length ?rec) (?rec @ pad) p"
      by (simp only: vdbeRecordCompareInt_def S b(1) Option.bind.bind_lunit option.case)
    then show ?thesis using record_compare_ok [OF vs(1,2) n28 p(1) l] by simp
  next
    case (Some x)
    then obtain u where u: "x = Some u" "sql_value v = SInt (sint u)" using b(2) by auto
    let ?c = "value_cmp (coll_fun (aColl (pKeyInfo p) ! 0)) (sql_value v) (sql_value w)"
    have c: "?c = num_cmp (sint u) (sint (val_u w))" using u w by (simp add: value_cmp_def)
    have rd0: "rd (ur_aMem p) 0 = Some w" using mem by simp
    have L: "vdbeRecordCompareInt alloc (length ?rec) (?rec @ pad) p =
        (if sint (val_u w) > sint u then Some (ur_r1 p, p) else if sint (val_u w) < sint u then Some (ur_r2 p, p)
         else if ur_nField p > 1 then sqlite3VdbeRecordCompareWithSkip alloc (length ?rec) (?rec @ pad) p True
         else Some (default_rc p, p\<lparr>eqSeen := True\<rparr>))"
      using Some u(1) by (simp only: vdbeRecordCompareInt_def S b(1) Option.bind.bind_lunit option.case option.map rd0)
    consider "sint (val_u w) > sint u" | "sint (val_u w) < sint u" | "sint u = sint (val_u w)" by linarith
    then show ?thesis
    proof cases
      case 1
      then show ?thesis using L r c ws vs' by (auto simp: outcome_def num_cmp_def Let_def split: if_splits)
    next
      case 2
      then show ?thesis using L r c ws vs' by (auto simp: outcome_def num_cmp_def Let_def split: if_splits)
    next
      case 3
      then have "?c = 0" using c by simp
      from rest_ok [OF vs(1) vs' vs(3) p(1) ws p(2) l this, of alloc pad] show ?thesis
        using 3 unfolding L rest_ok_def by simp
    qed
  qed
qed

lemma compare_string_ok:
  assumes vs: "\<forall>v \<in> set vs. stored_ok v" "vs \<noteq> []" "length vs \<le> 13"
    and p: "unpacked_ok p" "ur_nField p = 1 \<or> 2 \<le> length vs" "aColl (pKeyInfo p) ! 0 = None"
      "sql_value (ur_aMem p ! 0) = SText (take (mem_n (val_mem (ur_aMem p ! 0))) (mem_z (val_mem (ur_aMem p ! 0))))"
      "mem_n (val_mem (ur_aMem p ! 0)) \<le> length (mem_z (val_mem (ur_aMem p ! 0)))"
    and r: "if aSortOrder (pKeyInfo p) ! 0 then ur_r1 p = 1 \<and> ur_r2 p = -1 else ur_r1 p = -1 \<and> ur_r2 p = 1"
    and l9: "length (record_bytes ff vs) \<le> 1000000000"
  shows "\<exists>r q. vdbeRecordCompareString alloc (length (record_bytes ff vs)) (record_bytes ff vs @ pad) p = Some (r, q)
    \<and> outcome p r q (key_cmp (pKeyInfo p) (default_rc p) 0 (map sql_value vs) (key_values p))"
proof -
  let ?rec = "record_bytes ff vs" and ?H = "Suc (length (header ff vs))"
  obtain v vs' where vs': "vs = v # vs'" using vs(2) by (cases vs) simp_all
  obtain w aMem' where mem: "ur_aMem p = w # aMem'" using p(1) by (cases "ur_aMem p") (auto simp: unpacked_ok_def)
  obtain ws' where ws: "take (ur_nField p) (ur_aMem p) = w # ws'"
    using p(1) mem by (cases "ur_nField p") (auto simp: unpacked_ok_def)
  have w: "sql_value w = SText (take (mem_n (val_mem w)) (mem_z (val_mem w)))" "mem_n (val_mem w) \<le> length (mem_z (val_mem w))"
    using p(4,5) mem by simp_all
  have n28: "length vs < 2 ^ 28" using vs(3) by simp
  let ?t = "ser_type v ff" and ?k = "length (fst (putVarint32 (ser_type v ff)))"
  note S = short_header(1,2) [OF vs' vs(3), of ff] short_header(4,5) [OF vs' vs(3), of ff pad]
  have g: "getVarint32 (drop 1 (?rec @ pad)) = Some (?t, ?k)" unfolding S(4) by (rule get_put32)
  have rd0: "rd (ur_aMem p) 0 = Some w" using mem by simp
  have v: "stored_ok v" using vs(1) vs' by simp
  have l: "length (record_bytes ff vs) < 2 ^ 31" using l9 by simp
  have c9: "length (content v ff) \<le> 1000000000" using record_parts(5) [OF n28, of ff] l9 vs' by simp
  let ?c = "value_cmp bin_cmp (sql_value v) (sql_value w)"
  have key: "key_cmp (pKeyInfo p) (default_rc p) 0 (map sql_value vs) (key_values p) =
      (if ?c \<noteq> 0 then if aSortOrder (pKeyInfo p) ! 0 then - ?c else ?c
       else key_cmp (pKeyInfo p) (default_rc p) 1 (map sql_value vs') (map sql_value ws'))"
    using ws vs' p(3) by (simp add: Let_def coll_fun_def)
  have lt: "outcome p (ur_r1 p) p (if aSortOrder (pKeyInfo p) ! 0 then - c else c)" if "c < 0" for c
    using that r by (auto simp: outcome_def split: if_splits)
  have gt: "outcome p (ur_r2 p) p (if aSortOrder (pKeyInfo p) ! 0 then - c else c)" if "c > 0" for c
    using that r by (auto simp: outcome_def split: if_splits)
  have positive: "sint t = int (unat t)" if "unat t < 2 ^ 31" for t :: u32
  proof -
    have "int (unat t) < int (2 ^ 31)" using that by (simp only: of_nat_less_iff)
    then have "uint t < 2 ^ 31" by simp
    moreover have "- (2 ^ 31) \<le> uint t" by (rule order_trans [OF _ uint_ge_0]) simp
    ultimately show ?thesis by (simp add: sint_uint signed_take_bit_int_eq_self)
  qed
  note d = vdbeRecordCompareString_def Let_def
  consider (small) "rank (sql_value v) < 2" | (big) "\<not> rank (sql_value v) < 2" by blast
  then show ?thesis
  proof cases
    case small
    have "unat ?t < 12" using type_small [OF v small, of ff] by (simp add: word_less_nat_alt)
    moreover from this have "sint ?t = int (unat ?t)" by (intro positive) simp
    ultimately have "sint ?t < 12" by linarith
    moreover have "?c < 0" using small w by (simp add: value_cmp_def)
    ultimately show ?thesis using g key lt [of ?c] by (simp add: d)
  next
    case big
    show ?thesis
      using v
    proof (cases rule: stored_cases [where ff = ff])
      case blob
      have "unat ?t = 2 * length (content v ff) + 12" using unat_bytes_type [OF blob(2), of False] blob(1) by simp
      moreover from this have "sint ?t = int (unat ?t)" using c9 by (intro positive) simp
      ultimately have "\<not> sint ?t < 12" by linarith
      moreover have "?t AND 1 = 0" using bytes_type_facts(2) [OF blob(2), of False] blob(1) by simp
      moreover have "?c > 0" using blob w by (simp add: value_cmp_def)
      ultimately show ?thesis using g key gt [of ?c] by (simp add: d)
    next
      case str
      let ?p = "content v ff"
      have "unat ?t = 2 * length ?p + 13" using unat_bytes_type [OF str(2), of True] str(1) by simp
      moreover from this have "sint ?t = int (unat ?t)" using c9 by (intro positive) simp
      ultimately have s: "sint ?t = 2 * int (length ?p) + 13" by linarith
      have odd: "?t AND 1 \<noteq> 0" using bytes_type_facts(2) [OF str(2), of True] str(1) by simp
      have n: "nat ((sint ?t - 12) div 2) = length ?p" unfolding s by simp
      have H: "map_option unat (rd (?rec @ pad) 0) = Some ?H"
        unfolding S(3) option.map unat_of_nat using S(1) by simp
      have D: "drop ?H (?rec @ pad) = ?p @ concat (map (\<lambda>v. content v ff) vs') @ pad"
        using record_parts(4) [OF n28, of ff pad] S(2) vs' by simp
      have len: "\<not> ?H + length ?p > length ?rec" using record_parts(5) [OF n28, of ff] S(2) vs' by simp
      have P: "length ?p \<le> length (drop ?H (?rec @ pad))" "take (length ?p) (drop ?H (?rec @ pad)) = ?p" unfolding D by simp_all
      obtain k where k: "memcmp (drop ?H (?rec @ pad)) (mem_z (val_mem w)) (min (mem_n (val_mem w)) (length ?p)) = Some k"
          "sgn (if k = 0 then int (length ?p) - int (mem_n (val_mem w)) else k) = sgn ?c"
        using memcmp_prefix [OF P(1) w(2)] P(2) str(3) w(1) by (auto simp: value_cmp_def min.commute)
      let ?res = "if k = 0 then int (length ?p) - int (mem_n (val_mem w)) else k"
      have L: "vdbeRecordCompareString alloc (length ?rec) (?rec @ pad) p =
          (if ?res = 0 then
             if ur_nField p > 1 then sqlite3VdbeRecordCompareWithSkip alloc (length ?rec) (?rec @ pad) p True
             else Some (default_rc p, p\<lparr>eqSeen := True\<rparr>)
           else Some (if ?res > 0 then ur_r2 p else ur_r1 p, p))"
        using s odd n len k(1)
        by (simp only: d g H Option.bind.bind_lunit prod.case option.map rd0) (simp add: not_less)
      show ?thesis
      proof (cases "?res = 0")
        case True
        then have "?c = 0" using k(2) by (metis sgn_0 sgn_0_0)
        then have "value_cmp (coll_fun (aColl (pKeyInfo p) ! 0)) (sql_value v) (sql_value w) = 0"
          using p(3) by (simp add: coll_fun_def)
        from rest_ok [OF vs(1) vs' vs(3) p(1) ws p(2) l this, of alloc pad] show ?thesis
          unfolding L rest_ok_def using True by (simp only: simp_thms if_True)
      next
        case False
        then have "?c < 0 \<longleftrightarrow> ?res < 0" "?c > 0 \<longleftrightarrow> ?res > 0" "?c \<noteq> 0" using k(2) by (auto simp: sgn_if split: if_splits)
        then show ?thesis unfolding L key using False lt [of ?c] gt [of ?c] by (cases "?res > 0") auto
      qed
    qed (use big in simp_all)
  qed
qed

section \<open>Properties\<close>

text \<open>
  C19: comparing a record made by \<^verbatim>\<open>OP_MakeRecord\<close> with an unpacked key gives the order of the two rows of
  values: the first column in which they differ decides, by its collating sequence and direction, and
  \<open>default_rc\<close> does when the shorter one ends. No read leaves the record, the error code stays as it is,
  and of the key only the mark for an equal record may change.
\<close>

theorem record_compare_is_key_order:
  assumes "\<forall>v \<in> set vs. stored_ok v" and "vs \<noteq> []" and "length vs < 2 ^ 28" and "unpacked_ok p"
    and "length (record_bytes ff vs) < 2 ^ 31"
  shows "\<exists>r q. sqlite3VdbeRecordCompare alloc (length (record_bytes ff vs)) (record_bytes ff vs @ pad) p = Some (r, q)
    \<and> outcome p r q (key_cmp (pKeyInfo p) (default_rc p) 0 (map sql_value vs) (key_values p))"
  by (rule record_compare_ok [OF assms])

text \<open>A key of two columns, the second descending, and a row to look for.\<close>

definition some_key :: UnpackedRecord where
  "some_key = \<lparr>pKeyInfo = \<lparr>ki_enc = SQLITE_UTF8, nAllField = 2, aSortOrder = [False, True], aColl = [None, None]\<rparr>,
     ur_aMem = [reg MEM_Int 5 [] 0, reg MEM_Str 0 [0x62] 0], ur_nField = 2, default_rc = 0, errCode = 0,
     ur_r1 = 0, ur_r2 = 0, eqSeen = False\<rparr>"

definition some_row :: "Val list" where
  "some_row = [reg MEM_Int 5 [] 0, reg MEM_Str 0 [0x61] 0]"

lemma some_key_ok: "unpacked_ok some_key" "\<forall>v \<in> set some_row. stored_ok v" "some_row \<noteq> []" "length some_row = 2"
  by (simp_all add: some_key_def some_row_def unpacked_ok_def key_ok_def coll_fits_def cell_ok_def stored_ok_def
      ser_ok_def reg_def zeros_def flag_bits MEM_Int_def MEM_Str_def)

lemma some_row_length: "length (record_bytes 4 some_row) \<le> 100"
  by code_simp

lemma some_key_cmp: "key_cmp (pKeyInfo some_key) (default_rc some_key) 0 (map sql_value some_row) (key_values some_key) = 1"
  by (simp add: some_key_def some_row_def sql_value_def reg_def flag_bits MEM_Int_def MEM_Str_def value_cmp_def
      coll_fun_def byte_cmp_def Let_def)

theorem record_compare_is_key_order_witness:
  "\<exists>r q. sqlite3VdbeRecordCompare (\<lambda>n. None) (length (record_bytes 4 some_row)) (record_bytes 4 some_row @ []) some_key = Some (r, q)
    \<and> sgn r = 1"
  using record_compare_is_key_order [OF some_key_ok(2,3) _ some_key_ok(1), of 4 "\<lambda>n. None" "[]"] some_row_length
  by (auto simp: some_key_ok(4) some_key_cmp outcome_def)

text \<open>
  C20: whichever comparison \<^verbatim>\<open>sqlite3VdbeFindCompare\<close> chooses for a key, the general one, the one for integers
  or the one for texts, it gives the same order, with the results \<open>r1\<close> and \<open>r2\<close> it has prepared. The
  record has at most as many columns as the key knows, at least two if the key has, and the largest
  length the library allows by default.
\<close>

theorem find_compare_is_sound:
  assumes "\<forall>v \<in> set vs. stored_ok v" and "vs \<noteq> []" and "length vs < 2 ^ 28" and "unpacked_ok p"
    and "length vs \<le> nAllField (pKeyInfo p)" and "ur_nField p = 1 \<or> 2 \<le> length vs"
    and "length (record_bytes ff vs) \<le> 1000000000" and "sqlite3VdbeFindCompare p = Some (f, p')"
  shows "\<exists>r q. record_compare f alloc (length (record_bytes ff vs)) (record_bytes ff vs @ pad) p' = Some (r, q)
    \<and> outcome p' r q (key_cmp (pKeyInfo p) (default_rc p) 0 (map sql_value vs) (key_values p))"
proof -
  let ?w = "ur_aMem p ! 0" and ?desc = "aSortOrder (pKeyInfo p) ! 0"
  let ?q = "if ?desc then p\<lparr>ur_r1 := 1, ur_r2 := -1\<rparr> else p\<lparr>ur_r1 := -1, ur_r2 := 1\<rparr>"
  have q: "unpacked_ok ?q" "pKeyInfo ?q = pKeyInfo p" "ur_aMem ?q = ur_aMem p" "ur_nField ?q = ur_nField p"
      "default_rc ?q = default_rc p"
      "if ?desc then ur_r1 ?q = 1 \<and> ur_r2 ?q = -1 else ur_r1 ?q = -1 \<and> ur_r2 ?q = 1"
    using assms(4) by (simp_all add: unpacked_ok_def)
  have l: "length (record_bytes ff vs) < 2 ^ 31" using assms(7) by simp
  have w: "?w \<in> set (ur_aMem p)" using assms(4) by (intro nth_mem) (auto simp: unpacked_ok_def)
  have c: "rd (ur_aMem p) 0 = Some ?w" "rd (aSortOrder (pKeyInfo p)) 0 = Some ?desc"
      "rd (aColl (pKeyInfo p)) 0 = Some (aColl (pKeyInfo p) ! 0)" "cell_ok ?w"
    using assms(4) w by (auto simp: unpacked_ok_def key_ok_def rd_def)
  let ?fl = "mem_flags (val_mem ?w)"
  have m: "?fl AND (MEM_Real OR MEM_Null OR MEM_Blob) = 0 \<longleftrightarrow> \<not> bit ?fl 3 \<and> \<not> bit ?fl 0 \<and> \<not> bit ?fl 4"
    by (simp add: bit.conj_disj_distrib or_eq_0_iff flag_bits)
  have general: ?thesis if "f = RecordCompare" "p' = ?q \<or> p' = p"
    using that record_compare_ok [OF assms(1-3) q(1) l, of alloc pad] record_compare_ok [OF assms(1-4) l, of alloc pad]
    unfolding q(2-5) record_compare_def by auto
  show ?thesis
  proof (cases "nAllField (pKeyInfo p) \<le> 13")
    case False
    then show ?thesis using assms(8) by (intro general) (simp_all add: sqlite3VdbeFindCompare_def)
  next
    case True
    then have n: "length vs \<le> 13" using assms(5) by simp
    have F: "sqlite3VdbeFindCompare p =
        (if bit ?fl 2 then Some (RecordCompareInt, ?q)
         else if \<not> bit ?fl 3 \<and> \<not> bit ?fl 0 \<and> \<not> bit ?fl 4 then
           Some (if aColl (pKeyInfo p) ! 0 = None then RecordCompareString else RecordCompare, ?q)
         else Some (RecordCompare, ?q))"
      using True c by (simp add: sqlite3VdbeFindCompare_def Let_def m flag_bits)
    consider (int) "bit ?fl 2" "f = RecordCompareInt" "p' = ?q"
      | (str) "\<not> bit ?fl 2" "\<not> bit ?fl 3" "\<not> bit ?fl 0" "\<not> bit ?fl 4" "aColl (pKeyInfo p) ! 0 = None" "f = RecordCompareString" "p' = ?q"
      | (other) "f = RecordCompare" "p' = ?q"
      using assms(8) unfolding F by (auto split: if_splits)
    then show ?thesis
    proof cases
      case int
      from compare_int_ok [OF assms(1,2) n q(1), of ff alloc pad] show ?thesis
        using int assms(6) q(6) l unfolding q(2-5) by (simp add: record_compare_def)
    next
      case str
      from c(4) have s: "sql_value ?w = SText (take (mem_n (val_mem ?w)) (mem_z (val_mem ?w)))"
        "mem_n (val_mem ?w) \<le> length (mem_z (val_mem ?w))"
        using str by (elim cell_cases; simp)+
      from compare_string_ok [OF assms(1,2) n q(1), of ff alloc pad] show ?thesis
        using str assms(6,7) q(6) s unfolding q(2-5) by (simp add: record_compare_def)
    next
      case other
      then show ?thesis by (intro general) simp_all
    qed
  qed
qed

text \<open>The same key and row, through the version for integers.\<close>

theorem find_compare_is_sound_witness:
  "\<exists>p' r q. sqlite3VdbeFindCompare some_key = Some (RecordCompareInt, p')
    \<and> record_compare RecordCompareInt (\<lambda>n. None) (length (record_bytes 4 some_row)) (record_bytes 4 some_row @ []) p' = Some (r, q)
    \<and> sgn r = 1"
proof -
  obtain p' where p': "sqlite3VdbeFindCompare some_key = Some (RecordCompareInt, p')"
    by (simp add: sqlite3VdbeFindCompare_def some_key_def reg_def MEM_Int_def)
  have "length some_row \<le> nAllField (pKeyInfo some_key)" by (simp add: some_key_ok(4) some_key_def)
  from find_compare_is_sound [OF some_key_ok(2,3) _ some_key_ok(1) this _ _ p', of 4 "\<lambda>n. None" "[]"] some_row_length
  obtain r q where "record_compare RecordCompareInt (\<lambda>n. None) (length (record_bytes 4 some_row)) (record_bytes 4 some_row @ []) p' = Some (r, q)"
      "outcome p' r q (key_cmp (pKeyInfo some_key) (default_rc some_key) 0 (map sql_value some_row) (key_values some_key))"
    by (auto simp: some_key_ok(4))
  then show ?thesis using p' unfolding some_key_cmp by (auto simp: outcome_def)
qed

end
