(* ===== verification/Prng.thy ===== *)
theory Prng
  imports Prelude "HOL-Library.Multiset"
begin

text \<open>
  The pseudo-random number generator of \<^verbatim>\<open>src/random.c\<close>, RC4. The array has 256 bytes and is indexed by
  bytes, so every access is inside. What the operating system answers, the 256 bytes of a seed, is an
  argument.
\<close>

record sqlite3PrngType =
  isInit :: bool
  prng_i :: u8
  prng_j :: u8
  prng_s :: "u8 list"

text \<open>Static storage is zeroed.\<close>

definition sqlite3Prng :: sqlite3PrngType where
  "sqlite3Prng = \<lparr>isInit = False, prng_i = 0, prng_j = 0, prng_s = replicate 256 0\<rparr>"

text \<open>
  The second loop of the seeding from the index \<open>i\<close> on. Here \<^verbatim>\<open>t\<close> is the byte at \<^verbatim>\<open>j\<close>, and in \<^verbatim>\<open>i\<close> the result of the
  exchange is the same.
\<close>

fun seed_loop :: "u8 list \<Rightarrow> nat \<Rightarrow> nat \<Rightarrow> u8 \<times> u8 list \<Rightarrow> u8 \<times> u8 list" where
  "seed_loop k i 0 (j, s) = (j, s)"
| "seed_loop k i (Suc n) (j, s) =
     (let j = j + (s ! i + k ! i);
          t = s ! unat j;
          s = s[unat j := s ! i];
          s = s[i := t]
      in seed_loop k (i + 1) n (j, s))"

definition prng_seed :: "u8 list \<Rightarrow> sqlite3PrngType \<Rightarrow> sqlite3PrngType" where
  "prng_seed k p =
     (let s = map word_of_nat [0..<256];
          (j, s) = seed_loop k 0 256 (0, s)
      in p\<lparr>isInit := True, prng_i := 0, prng_j := j, prng_s := s\<rparr>)"

text \<open>One byte.\<close>

definition prng_step :: "sqlite3PrngType \<Rightarrow> u8 \<times> sqlite3PrngType" where
  "prng_step p =
     (let i = prng_i p + 1;
          t = prng_s p ! unat i;
          j = prng_j p + t;
          s = (prng_s p)[unat i := prng_s p ! unat j];
          s = s[unat j := t];
          t = t + s ! unat i
      in (s ! unat t, p\<lparr>prng_i := i, prng_j := j, prng_s := s\<rparr>))"

primrec prng_bytes :: "nat \<Rightarrow> sqlite3PrngType \<Rightarrow> u8 list \<times> sqlite3PrngType" where
  "prng_bytes 0 p = ([], p)"
| "prng_bytes (Suc n) p =
     (let (b, p) = prng_step p; (bs, p) = prng_bytes n p in (b # bs, p))"

text \<open>
  \<^verbatim>\<open>sqlite3_randomness\<close>: the bytes written to the buffer, and the state. The buffer may be NULL; \<open>init_ok\<close>
  tells whether \<^verbatim>\<open>sqlite3_initialize\<close> succeeded.
\<close>

definition sqlite3_randomness :: "bool \<Rightarrow> u8 list \<Rightarrow> int \<Rightarrow> bool \<Rightarrow> sqlite3PrngType \<Rightarrow> u8 list \<times> sqlite3PrngType" where
  "sqlite3_randomness init_ok k N has_buf p =
     (if \<not> init_ok then ([], p)
      else if N \<le> 0 \<or> \<not> has_buf then ([], p\<lparr>isInit := False\<rparr>)
      else prng_bytes (nat N) (if \<not> isInit p then prng_seed k p else p))"

text \<open>
  The test control keeps a copy of the generator, \<^verbatim>\<open>sqlite3SavedPrng\<close>, the second component of the pair, and puts
  it back.
\<close>

definition sqlite3PrngSaveState :: "sqlite3PrngType \<times> sqlite3PrngType \<Rightarrow> sqlite3PrngType \<times> sqlite3PrngType" where
  "sqlite3PrngSaveState pq = (fst pq, fst pq)"

definition sqlite3PrngRestoreState :: "sqlite3PrngType \<times> sqlite3PrngType \<Rightarrow> sqlite3PrngType \<times> sqlite3PrngType" where
  "sqlite3PrngRestoreState pq = (snd pq, snd pq)"

text \<open>The states that the two can be in. The saved copy is zeroed at the start as well.\<close>

inductive prng_reach :: "sqlite3PrngType \<times> sqlite3PrngType \<Rightarrow> bool" where
  start: "prng_reach (sqlite3Prng, sqlite3Prng)"
| call: "prng_reach (p, q) \<Longrightarrow> length k = 256 \<Longrightarrow> prng_reach (snd (sqlite3_randomness init_ok k N has_buf p), q)"
| save: "prng_reach pq \<Longrightarrow> prng_reach (sqlite3PrngSaveState pq)"
| restore: "prng_reach pq \<Longrightarrow> prng_reach (sqlite3PrngRestoreState pq)"

section \<open>The array is a permutation\<close>

definition all_bytes :: "u8 multiset" where
  "all_bytes = mset (map word_of_nat [0..<256])"

text \<open>Two stores that exchange two entries.\<close>

lemma mset_exchange:
  assumes "a < length s" and "b < length s"
  shows "mset (s[a := s ! b, b := s ! a]) = mset s"
  using assms(2,1) by (rule mset_swap)

lemma seed_loop_mset:
  "length s = 256 \<Longrightarrow> i + n \<le> 256 \<Longrightarrow> mset (snd (seed_loop k i n (j, s))) = mset s"
proof (induction n arbitrary: i j s)
  case (Suc n)
  let ?j = "j + (s ! i + k ! i)"
  have b: "unat ?j < 256" using unsigned_less [of ?j] by simp
  have "mset (s[unat ?j := s ! i, i := s ! unat ?j]) = mset s" using b Suc(2,3) by (intro mset_exchange) simp_all
  then show ?case using Suc(1) [of "s[unat ?j := s ! i, i := s ! unat ?j]" "i + 1" ?j] Suc(2,3) by (simp add: Let_def)
qed simp

lemma prng_seed_mset: "mset (prng_s (prng_seed k p)) = all_bytes" "isInit (prng_seed k p)"
  using seed_loop_mset [of "map word_of_nat [0..<256]" 0 256 k 0]
  by (simp_all add: prng_seed_def all_bytes_def Let_def case_prod_beta)

lemma prng_step_mset:
  assumes "length (prng_s p) = 256"
  shows "mset (prng_s (snd (prng_step p))) = mset (prng_s p)" and "isInit (snd (prng_step p)) = isInit p"
proof -
  let ?i = "prng_i p + 1"
  let ?j = "prng_j p + prng_s p ! unat ?i"
  have "unat ?i < 256" "unat ?j < 256" using unsigned_less [of ?i] unsigned_less [of ?j] by simp_all
  then show "mset (prng_s (snd (prng_step p))) = mset (prng_s p)"
    using mset_exchange [of "unat ?i" "prng_s p" "unat ?j"] assms by (simp add: prng_step_def Let_def)
qed (simp add: prng_step_def Let_def)

lemma mset_all_bytes_length: "mset s = all_bytes \<Longrightarrow> length s = 256"
  unfolding all_bytes_def by (drule mset_eq_length) simp

lemma prng_bytes_mset:
  "mset (prng_s p) = all_bytes \<Longrightarrow>
    mset (prng_s (snd (prng_bytes n p))) = all_bytes \<and> isInit (snd (prng_bytes n p)) = isInit p \<and> length (fst (prng_bytes n p)) = n"
proof (induction n arbitrary: p)
  case (Suc n)
  note l = mset_all_bytes_length [OF Suc(2)]
  show ?case using Suc(1) [of "snd (prng_step p)"] Suc(2) prng_step_mset [OF l] by (simp add: Let_def case_prod_beta)
qed simp

lemma prng_bytes_append:
  "prng_bytes (m + n) p = (let (bs, p) = prng_bytes m p; (cs, p) = prng_bytes n p in (bs @ cs, p))"
  by (induction m arbitrary: p) (simp_all add: Let_def split: prod.splits)

definition prng_ok :: "sqlite3PrngType \<Rightarrow> bool" where
  "prng_ok p \<longleftrightarrow> isInit p \<longrightarrow> mset (prng_s p) = all_bytes"

lemma randomness_ok: "prng_ok p \<Longrightarrow> prng_ok (snd (sqlite3_randomness init_ok k N has_buf p))"
  using prng_bytes_mset [of p "nat N"] prng_bytes_mset [of "prng_seed k p" "nat N"] prng_seed_mset [of k p]
  by (auto simp: sqlite3_randomness_def prng_ok_def split: if_splits)

lemma reach_ok: "prng_reach pq \<Longrightarrow> prng_ok (fst pq) \<and> prng_ok (snd pq)"
proof (induction rule: prng_reach.induct)
  case start
  then show ?case by (simp add: sqlite3Prng_def prng_ok_def)
qed (simp_all add: randomness_ok sqlite3PrngSaveState_def sqlite3PrngRestoreState_def)

section \<open>A step can be undone\<close>

definition prng_unstep :: "sqlite3PrngType \<Rightarrow> sqlite3PrngType" where
  "prng_unstep p =
     (let i = prng_i p; j = prng_j p; t = prng_s p ! unat j
      in p\<lparr>prng_i := i - 1, prng_j := j - t, prng_s := (prng_s p)[unat i := t, unat j := prng_s p ! unat i]\<rparr>)"

lemma unstep_step:
  assumes "length (prng_s p) = 256"
  shows "prng_unstep (snd (prng_step p)) = p"
proof -
  let ?i = "prng_i p + 1"
  let ?j = "prng_j p + prng_s p ! unat ?i"
  have b: "unat ?i < 256" "unat ?j < 256" using unsigned_less [of ?i] unsigned_less [of ?j] by simp_all
  show ?thesis
    using b assms
    by (cases "unat ?i = unat ?j")
       (auto simp: prng_unstep_def prng_step_def Let_def list_eq_iff_nth_eq nth_list_update intro!: sqlite3PrngType.equality)
qed

section \<open>Properties\<close>

text \<open>
  C37: in every state that calls, resets, failed initialisations, new seeds, saves and restores can lead to, the
  array of an initialised generator holds every byte exactly once, in the generator and in its saved copy.
  A call that has a buffer writes exactly \<open>N\<close> bytes and leaves the generator initialised.
\<close>

theorem random_state_is_permutation:
  assumes "prng_reach (p, q)" and "0 < N"
  shows "(isInit p \<longrightarrow> mset (prng_s p) = all_bytes) \<and> (isInit q \<longrightarrow> mset (prng_s q) = all_bytes)
    \<and> length (fst (sqlite3_randomness True k N True p)) = nat N
    \<and> isInit (snd (sqlite3_randomness True k N True p))"
  using reach_ok [OF assms(1)] prng_bytes_mset [of p "nat N"] prng_bytes_mset [of "prng_seed k p" "nat N"]
    prng_seed_mset [of k p] assms(2)
  by (auto simp: sqlite3_randomness_def prng_ok_def)

theorem random_state_is_permutation_witness:
  "length (fst (sqlite3_randomness True (replicate 256 7) 5 True sqlite3Prng)) = 5"
  using random_state_is_permutation [OF prng_reach.start, of 5 "replicate 256 7"] by simp

text \<open>
  The bytes do not depend on how they are asked for: two calls give the bytes and the state of one call
  for both numbers together, and the seed offered to the second call has no part in it. No step loses
  anything of the state: it can be undone.
\<close>

lemma random_calls_split:
  assumes "prng_reach (p, q)" and "0 < M" and "0 < N"
  shows "sqlite3_randomness True k (M + N) True p =
      (let (bs, p') = sqlite3_randomness True k M True p; (cs, p'') = sqlite3_randomness True k' N True p' in (bs @ cs, p''))
    \<and> (isInit p \<longrightarrow> prng_unstep (snd (prng_step p)) = p)"
proof -
  have n: "nat (M + N) = nat M + nat N" using assms by simp
  have i: "isInit (snd (prng_bytes m p)) = isInit p" if "isInit p" for m p using that
    by (induction m arbitrary: p) (simp_all add: Let_def prng_step_def case_prod_beta)
  have init: "isInit (if \<not> isInit p then prng_seed k p else p)" by (simp add: prng_seed_mset(2))
  have "sqlite3_randomness True k (M + N) True p =
      (let (bs, p') = sqlite3_randomness True k M True p; (cs, p'') = sqlite3_randomness True k' N True p' in (bs @ cs, p''))"
    using i [OF init, of "nat M"] init assms(2,3)
    by (auto simp: sqlite3_randomness_def n prng_bytes_append Let_def split: prod.splits)
  moreover have "mset (prng_s p) = all_bytes" if "isInit p"
    using reach_ok [OF assms(1)] that by (simp add: prng_ok_def)
  ultimately show ?thesis using unstep_step mset_all_bytes_length by blast
qed

end
