(* ===== verification/WalIndex.thy ===== *)
theory WalIndex
  imports Interfaces
begin

text \<open>
  The wal-index of \<^verbatim>\<open>src/wal.c\<close>: which frame of the write-ahead log holds the newest version of a page.

  \<^item> A page of the index is an array of page numbers, one for each frame, and a hash table of 8192
    slots that hold one-based positions in that array. The first page has room for 34 numbers less: the space
    of the header, which is a separate part of the model.
  \<^item> \<^verbatim>\<open>aPgno\<close> is shifted by one in the code (\<^verbatim>\<open>&aPgno[-1]\<close>); the entry \<open>k\<close> is the element \<open>k - 1\<close> of the list.
  \<^item> Page numbers and slots have their width. A frame number is a \<open>nat\<close>: the index has a slot of memory for every
    frame, so the numbers stay far below the range of \<^verbatim>\<open>u32\<close>; the bound is a part of the invariant.
  \<^item> What the allocator and the file system answer when a page is mapped is an argument, \<open>wal_env\<close>, and
    may be anything. An access to a page that is not mapped, or outside an array, is \<open>None\<close>.
\<close>

section \<open>The contract of the index\<close>

text \<open>
  The linear search that the code compares the result with under \<^verbatim>\<open>SQLITE_ENABLE_EXPENSIVE_ASSERT\<close>, over
  the page numbers of the frames in order.
\<close>

fun latest :: "'p list \<Rightarrow> nat \<Rightarrow> nat \<Rightarrow> 'p \<Rightarrow> nat" where
  "latest log lo 0 p = 0"
| "latest log lo (Suc f) p = (if Suc f < lo then 0 else if log ! f = p then Suc f else latest log lo f p)"

text \<open>
  What the readers of an index rely on. The state holds the pages of all frames, \<open>mark\<close> is the last committed
  frame; a step of the writer leaves the committed frames alone and moves the mark only forward.
\<close>

locale frame_index =
  fixes rep :: "'s \<Rightarrow> 'p list \<Rightarrow> bool"
    and mark :: "'s \<Rightarrow> nat"
    and find :: "'s \<Rightarrow> nat \<Rightarrow> 'p \<Rightarrow> nat option"
    and step :: "'s \<Rightarrow> 's \<Rightarrow> bool"
    and lo :: nat
  assumes mark_le: "rep s log \<Longrightarrow> mark s \<le> length log"
    and find_latest: "rep s log \<Longrightarrow> hi \<le> mark s \<Longrightarrow> find s hi p = Some (latest log lo hi p)"
    and step_keeps: "rep s log \<Longrightarrow> step s s' \<Longrightarrow>
      \<exists>log'. rep s' log' \<and> mark s \<le> mark s' \<and> take (mark s) log' = take (mark s) log"
begin

lemma steps_keep:
  "step\<^sup>*\<^sup>* s s' \<Longrightarrow> rep s log \<Longrightarrow> \<exists>log'. rep s' log' \<and> mark s \<le> mark s' \<and> take (mark s) log' = take (mark s) log"
proof (induction rule: rtranclp_induct)
  case (step t u)
  then obtain log1 where 1: "rep t log1" "mark s \<le> mark t" "take (mark s) log1 = take (mark s) log" by blast
  obtain log2 where 2: "rep u log2" "mark t \<le> mark u" "take (mark t) log2 = take (mark t) log1" using step_keeps [OF 1(1) step(2)] by blast
  have "take (mark s) log2 = take (mark s) log1" using arg_cong [OF 2(3), of "take (mark s)"] 1(2) by (simp add: min_absorb1)
  with 1 2 show ?case by (intro exI [of _ log2]) simp
qed auto

lemma latest_take: "hi \<le> m \<Longrightarrow> take m log = take m log' \<Longrightarrow> latest log lo hi p = latest log' lo hi p"
proof (induction hi)
  case (Suc hi)
  then have "log ! hi = log' ! hi" using nth_take [of hi m log] nth_take [of hi m log'] by simp
  then show ?case using Suc by simp
qed simp

lemma snapshot:
  assumes "step\<^sup>*\<^sup>* s s'" and "rep s log" and "hi \<le> mark s"
  shows "find s' hi p = find s hi p"
proof -
  obtain log' where "rep s' log'" "mark s \<le> mark s'" "take (mark s) log' = take (mark s) log" using steps_keep [OF assms(1,2)] by blast
  then show ?thesis using find_latest [OF assms(2,3)] find_latest [of s' log' hi p] latest_take [OF assms(3)] assms(3) by simp
qed

end

section \<open>The state\<close>

record WalPage =
  aPgno :: "u32 list"
  aHash :: "u16 list"

record WalIndexHdr =
  iVersion :: u32
  hdr_unused :: u32
  iChange :: u32
  hdr_isInit :: u8
  bigEndCksum :: u8
  hdr_szPage :: u16
  mxFrame :: u32
  nPage :: u32
  aFrameCksum :: "u32 \<times> u32"
  aSalt :: "u8 list"
  aCksum :: "u32 \<times> u32"

record WalCkptInfo =
  nBackfill :: u32
  aReadMark :: "u32 list"
  nBackfillAttempted :: u32

definition READMARK_NOT_USED :: u32 where "READMARK_NOT_USED = 0xffffffff"

datatype walMode = WAL_NORMAL_MODE | WAL_EXCLUSIVE_MODE | WAL_HEAPMEMORY_MODE

text \<open>
  An open log. The two copies of the header and the checkpoint information at the start of the
  index are \<open>aHdr0\<close>, \<open>aHdr1\<close> and \<open>ckptInfo\<close>; \<^verbatim>\<open>nWiData\<close> is the length of \<open>apWiData\<close>.
\<close>

record Wal =
  apWiData :: "WalPage option list"
  aHdr0 :: WalIndexHdr
  aHdr1 :: WalIndexHdr
  ckptInfo :: WalCkptInfo
  wal_szPage :: nat
  readLock :: int
  exclusiveMode :: walMode
  writeLock :: bool
  readOnly :: nat
  bShmUnreliable :: bool
  wal_hdr :: WalIndexHdr
  minFrame :: u32
  iReCksum :: u32
  nCkpt :: u32

record wal_env =
  e_realloc :: "nat \<Rightarrow> bool"
  e_zero :: "nat \<Rightarrow> bool"
  e_map :: "nat \<Rightarrow> bool \<Rightarrow> nat \<times> WalPage option"

definition WAL_SHM_RDONLY :: nat where "WAL_SHM_RDONLY = 2"

definition HASHTABLE_NPAGE :: nat where "HASHTABLE_NPAGE = 4096"
definition HASHTABLE_NSLOT :: nat where "HASHTABLE_NSLOT = 8192"
definition HASHTABLE_NPAGE_ONE :: nat where "HASHTABLE_NPAGE_ONE = 4096 - 136 div 4"

text \<open>How many frames the page \<open>i\<close> of the index has room for, and a page of zeros.\<close>

definition npage :: "nat \<Rightarrow> nat" where
  "npage i = (if i = 0 then HASHTABLE_NPAGE_ONE else HASHTABLE_NPAGE)"

definition zero_page :: "nat \<Rightarrow> WalPage" where
  "zero_page i = \<lparr>aPgno = replicate (npage i) 0, aHash = replicate HASHTABLE_NSLOT 0\<rparr>"

section \<open>Mapping a page\<close>

definition walIndexPageRealloc :: "wal_env \<Rightarrow> Wal \<Rightarrow> nat \<Rightarrow> nat \<times> WalPage option \<times> Wal" where
  "walIndexPageRealloc e w iPage =
     (if length (apWiData w) \<le> iPage \<and> \<not> e_realloc e iPage then (SQLITE_NOMEM, None, w)
      else
        let w = (if length (apWiData w) \<le> iPage
                 then w\<lparr>apWiData := apWiData w @ replicate (iPage + 1 - length (apWiData w)) None\<rparr> else w)
        in if exclusiveMode w = WAL_HEAPMEMORY_MODE then
             if e_zero e iPage
             then (SQLITE_OK, Some (zero_page iPage), w\<lparr>apWiData := (apWiData w)[iPage := Some (zero_page iPage)]\<rparr>)
             else (SQLITE_NOMEM, None, w\<lparr>apWiData := (apWiData w)[iPage := None]\<rparr>)
           else
             let (rc, p) = e_map e iPage (writeLock w);
                 w = w\<lparr>apWiData := (apWiData w)[iPage := p]\<rparr>
             in if rc mod 256 = SQLITE_READONLY
                then (if rc = SQLITE_READONLY then SQLITE_OK else rc, p, w\<lparr>readOnly := readOnly w OR WAL_SHM_RDONLY\<rparr>)
                else (rc, p, w))"

definition walIndexPage :: "wal_env \<Rightarrow> Wal \<Rightarrow> nat \<Rightarrow> nat \<times> WalPage option \<times> Wal" where
  "walIndexPage e w iPage =
     (if length (apWiData w) \<le> iPage \<or> apWiData w ! iPage = None then walIndexPageRealloc e w iPage
      else (SQLITE_OK, apWiData w ! iPage, w))"

section \<open>The hash tables\<close>

definition walHash :: "u32 \<Rightarrow> nat" where
  "walHash iPage = unat ((iPage * 383) AND (word_of_nat HASHTABLE_NSLOT - 1))"

definition walNextHash :: "nat \<Rightarrow> nat" where
  "walNextHash iPriorHash = (iPriorHash + 1) AND (HASHTABLE_NSLOT - 1)"

definition walZero :: "nat \<Rightarrow> nat" where
  "walZero iHash = (if iHash = 0 then 0 else HASHTABLE_NPAGE_ONE + (iHash - 1) * HASHTABLE_NPAGE)"

text \<open>
  \<^verbatim>\<open>walHashGet\<close>: the code, the page with the two arrays, \<^verbatim>\<open>iZero\<close>. A page that is still not mapped
  when the code is \<^verbatim>\<open>SQLITE_OK\<close> is a null pointer.
\<close>

definition walHashGet :: "wal_env \<Rightarrow> Wal \<Rightarrow> nat \<Rightarrow> nat \<times> WalPage option \<times> nat \<times> Wal" where
  "walHashGet e w iHash = (let (rc, p, w) = walIndexPage e w iHash in (rc, p, walZero iHash, w))"

definition walFramePage :: "nat \<Rightarrow> nat" where
  "walFramePage iFrame = (iFrame + HASHTABLE_NPAGE - HASHTABLE_NPAGE_ONE - 1) div HASHTABLE_NPAGE"

definition walFramePgno :: "Wal \<Rightarrow> nat \<Rightarrow> u32 option" where
  "walFramePgno w iFrame =
     (let iHash = walFramePage iFrame
      in do {
        p \<leftarrow> rd (apWiData w) iHash;
        pg \<leftarrow> p;
        if iHash = 0 then (if iFrame = 0 then None else rd (aPgno pg) (iFrame - 1))
        else rd (aPgno pg) ((iFrame - 1 - HASHTABLE_NPAGE_ONE) mod HASHTABLE_NPAGE) })"

definition set_page :: "Wal \<Rightarrow> nat \<Rightarrow> WalPage \<Rightarrow> Wal" where
  "set_page w i pg = w\<lparr>apWiData := (apWiData w)[i := Some pg]\<rparr>"

text \<open>Both loops of the cleaning: the slots above the limit, and the numbers from there on.\<close>

definition clean_page :: "nat \<Rightarrow> WalPage \<Rightarrow> WalPage" where
  "clean_page iLimit pg =
     pg\<lparr>aHash := map (\<lambda>s. if unat s > iLimit then 0 else s) (aHash pg),
        aPgno := take iLimit (aPgno pg) @ replicate (length (aPgno pg) - iLimit) 0\<rparr>"

definition walCleanupHash :: "wal_env \<Rightarrow> Wal \<Rightarrow> Wal option" where
  "walCleanupHash e w =
     (let mx = unat (mxFrame (wal_hdr w))
      in if mx = 0 then Some w
         else let (rc, p, iZero, w) = walHashGet e w (walFramePage mx)
              in map_option (\<lambda>pg. set_page w (walFramePage mx) (clean_page (mx - iZero) pg)) p)"

text \<open>The search for a free slot: \<open>Some None\<close> when there were too many collisions.\<close>

fun free_slot :: "nat \<Rightarrow> u16 list \<Rightarrow> nat \<Rightarrow> nat option option" where
  "free_slot nCollide h iKey =
     do {
       s \<leftarrow> rd h iKey;
       if s = 0 then Some (Some iKey)
       else case nCollide of 0 \<Rightarrow> Some None | Suc n \<Rightarrow> free_slot n h (walNextHash iKey) }"

declare free_slot.simps [simp del]

definition walIndexAppend :: "wal_env \<Rightarrow> Wal \<Rightarrow> nat \<Rightarrow> u32 \<Rightarrow> (nat \<times> Wal) option" where
  "walIndexAppend e w iFrame iPage =
     (let iHash = walFramePage iFrame; (rc, p, iZero, w) = walHashGet e w iHash
      in if rc \<noteq> SQLITE_OK then Some (rc, w)
         else do {
           pg \<leftarrow> p;
           let idx = iFrame - iZero;
           let w = (if idx = 1
                then set_page w iHash (pg\<lparr>aPgno := replicate (length (aPgno pg)) 0, aHash := replicate (length (aHash pg)) 0\<rparr>)
                else w);
           pg \<leftarrow> apWiData w ! iHash;
           old \<leftarrow> rd (aPgno pg) (idx - 1);
           w \<leftarrow> (if old \<noteq> 0 then walCleanupHash e w else Some w);
           pg \<leftarrow> apWiData w ! iHash;
           k \<leftarrow> free_slot idx (aHash pg) (walHash iPage);
           (case k of
              None \<Rightarrow> Some (SQLITE_CORRUPT, w)
            | Some iKey \<Rightarrow> do {
                pgnos \<leftarrow> wr (aPgno pg) (idx - 1) iPage;
                slots \<leftarrow> wr (aHash pg) iKey (word_of_nat idx);
                Some (SQLITE_OK, set_page w iHash (pg\<lparr>aPgno := pgnos, aHash := slots\<rparr>)) }) })"

section \<open>Looking a page up\<close>

text \<open>The search of one table: \<open>Inl\<close> is the error of too many collisions.\<close>

fun find_slot :: "nat \<Rightarrow> WalPage \<Rightarrow> u32 \<Rightarrow> nat \<Rightarrow> nat \<Rightarrow> nat \<Rightarrow> nat \<Rightarrow> nat \<Rightarrow> (nat + nat) option" where
  "find_slot nCollide pg pgno iZero iLast iMin iKey iRead =
     do {
       s \<leftarrow> rd (aHash pg) iKey;
       if s = 0 then Some (Inr iRead)
       else do {
         let iFrame = unat s + iZero;
         hit \<leftarrow> (if iFrame \<le> iLast \<and> iFrame \<ge> iMin then map_option (\<lambda>p. p = pgno) (rd (aPgno pg) (unat s - 1)) else Some False);
         let iRead = (if hit then iFrame else iRead);
         (case nCollide of
            0 \<Rightarrow> Some (Inl SQLITE_CORRUPT)
          | Suc n \<Rightarrow> find_slot n pg pgno iZero iLast iMin (walNextHash iKey) iRead) } }"

declare find_slot.simps [simp del]

text \<open>The tables from \<open>iMinHash + n - 1\<close> down to \<open>iMinHash\<close>.\<close>

fun find_tables :: "wal_env \<Rightarrow> nat \<Rightarrow> nat \<Rightarrow> Wal \<Rightarrow> u32 \<Rightarrow> nat \<Rightarrow> nat \<Rightarrow> ((nat + nat) \<times> Wal) option" where
  "find_tables e iMinHash 0 w pgno iLast iMin = Some (Inr 0, w)"
| "find_tables e iMinHash (Suc n) w pgno iLast iMin =
     (let (rc, p, iZero, w) = walHashGet e w (iMinHash + n)
      in if rc \<noteq> SQLITE_OK then Some (Inl rc, w)
         else do {
           pg \<leftarrow> p;
           r \<leftarrow> find_slot HASHTABLE_NSLOT pg pgno iZero iLast iMin (walHash pgno) 0;
           (case r of
              Inl rc \<Rightarrow> Some (Inl rc, w)
            | Inr iRead \<Rightarrow> if iRead \<noteq> 0 then Some (Inr iRead, w) else find_tables e iMinHash n w pgno iLast iMin) })"

definition sqlite3WalFindFrame :: "wal_env \<Rightarrow> Wal \<Rightarrow> u32 \<Rightarrow> ((nat + nat) \<times> Wal) option" where
  "sqlite3WalFindFrame e w pgno =
     (let iLast = unat (mxFrame (wal_hdr w))
      in if iLast = 0 \<or> readLock w = 0 \<and> \<not> bShmUnreliable w then Some (Inr 0, w)
         else let iMinHash = walFramePage (unat (minFrame w))
              in find_tables e iMinHash (walFramePage iLast + 1 - iMinHash) w pgno iLast (unat (minFrame w)))"

section \<open>Going back\<close>

text \<open>The callback of the pager may fail with any code; the loop then stops.\<close>

fun undo_loop :: "(u32 \<Rightarrow> nat) \<Rightarrow> Wal \<Rightarrow> nat \<Rightarrow> nat \<Rightarrow> (nat \<times> u32 list) option" where
  "undo_loop xUndo w iFrame 0 = Some (SQLITE_OK, [])"
| "undo_loop xUndo w iFrame (Suc n) =
     do {
       p \<leftarrow> walFramePgno w iFrame;
       if xUndo p \<noteq> SQLITE_OK then Some (xUndo p, [p])
       else do { (rc, ps) \<leftarrow> undo_loop xUndo w (iFrame + 1) n; Some (rc, p # ps) } }"

text \<open>The code, the pages that the callback was called with in order, the log.\<close>

definition sqlite3WalUndo :: "wal_env \<Rightarrow> (u32 \<Rightarrow> nat) \<Rightarrow> Wal \<Rightarrow> (nat \<times> u32 list \<times> Wal) option" where
  "sqlite3WalUndo e xUndo w =
     (if writeLock w then
        let iMax = unat (mxFrame (wal_hdr w));
            w = w\<lparr>wal_hdr := aHdr0 w\<rparr>;
            mx = unat (mxFrame (wal_hdr w))
        in do {
          (rc, ps) \<leftarrow> undo_loop xUndo w (mx + 1) (iMax - mx);
          w \<leftarrow> (if iMax \<noteq> mx then walCleanupHash e w else Some w);
          Some (rc, ps, w) }
      else Some (SQLITE_OK, [], w))"

type_synonym wal_data = "u32 \<times> u32 \<times> u32 \<times> u32"

definition sqlite3WalSavepoint :: "Wal \<Rightarrow> wal_data" where
  "sqlite3WalSavepoint w =
     (mxFrame (wal_hdr w), fst (aFrameCksum (wal_hdr w)), snd (aFrameCksum (wal_hdr w)), nCkpt w)"

definition sqlite3WalSavepointUndo :: "wal_env \<Rightarrow> Wal \<Rightarrow> wal_data \<Rightarrow> (wal_data \<times> Wal) option" where
  "sqlite3WalSavepointUndo e w d =
     (let (d0, d1, d2, d3) = d;
          (d0, d3) = (if d3 \<noteq> nCkpt w then (0, nCkpt w) else (d0, d3))
      in if d0 < mxFrame (wal_hdr w)
         then map_option (\<lambda>w. ((d0, d1, d2, d3), w))
                (walCleanupHash e (w\<lparr>wal_hdr := (wal_hdr w)\<lparr>mxFrame := d0, aFrameCksum := (d1, d2)\<rparr>\<rparr>))
         else Some ((d0, d1, d2, d3), w))"

section \<open>The header of the index\<close>

definition BYTESWAP32 :: "u32 \<Rightarrow> u32" where
  "BYTESWAP32 x = push_bit 24 (x AND 0x000000FF) + push_bit 8 (x AND 0x0000FF00)
     + drop_bit 8 (x AND 0x00FF0000) + drop_bit 24 (x AND 0xFF000000)"

text \<open>Four bytes as the processor reads them, the lowest first, and back.\<close>

definition le32 :: "u8 \<Rightarrow> u8 \<Rightarrow> u8 \<Rightarrow> u8 \<Rightarrow> u32" where
  "le32 a b c d = ucast a OR push_bit 8 (ucast b) OR push_bit 16 (ucast c) OR push_bit 24 (ucast d)"

definition bytes32 :: "u32 \<Rightarrow> u8 list" where
  "bytes32 v = [ucast v, ucast (drop_bit 8 v), ucast (drop_bit 16 v), ucast (drop_bit 24 v)]"

text \<open>The length is a positive multiple of eight.\<close>

fun walChecksumBytes :: "bool \<Rightarrow> u8 list \<Rightarrow> u32 \<times> u32 \<Rightarrow> u32 \<times> u32" where
  "walChecksumBytes native (a0 # a1 # a2 # a3 # b0 # b1 # b2 # b3 # rest) (s1, s2) =
     (let x = (if native then le32 a0 a1 a2 a3 else BYTESWAP32 (le32 a0 a1 a2 a3));
          y = (if native then le32 b0 b1 b2 b3 else BYTESWAP32 (le32 b0 b1 b2 b3));
          s1 = s1 + (x + s2);
          s2 = s2 + (y + s1)
      in if rest = [] then (s1, s2) else walChecksumBytes native rest (s1, s2))"
| "walChecksumBytes native a s = s"

text \<open>The header as it lies in memory, up to the checksum.\<close>

definition hdr_bytes :: "WalIndexHdr \<Rightarrow> u8 list" where
  "hdr_bytes h = bytes32 (iVersion h) @ bytes32 (hdr_unused h) @ bytes32 (iChange h) @ [hdr_isInit h, bigEndCksum h]
     @ [ucast (hdr_szPage h), ucast (drop_bit 8 (hdr_szPage h))] @ bytes32 (mxFrame h) @ bytes32 (nPage h)
     @ bytes32 (fst (aFrameCksum h)) @ bytes32 (snd (aFrameCksum h)) @ aSalt h"

definition WALINDEX_MAX_VERSION :: u32 where "WALINDEX_MAX_VERSION = 3007000"

definition walIndexWriteHdr :: "Wal \<Rightarrow> Wal" where
  "walIndexWriteHdr w =
     (let h = (wal_hdr w)\<lparr>hdr_isInit := 1, iVersion := WALINDEX_MAX_VERSION\<rparr>;
          h = h\<lparr>aCksum := walChecksumBytes True (hdr_bytes h) (0, 0)\<rparr>
      in w\<lparr>wal_hdr := h, aHdr1 := h, aHdr0 := h\<rparr>)"

text \<open>The page size that a header stands for: 1 is 65536.\<close>

definition hdr_page_size :: "u16 \<Rightarrow> nat" where
  "hdr_page_size s = unat (s AND 0xfe00) + unat (s AND 0x0001) * 65536"

text \<open>
  \<^verbatim>\<open>walIndexTryHdr\<close>: whether the read was dirty, whether the header changed, the log. The two copies are
  what the connection reads from the shared memory.
\<close>

definition walIndexTryHdr :: "WalIndexHdr \<Rightarrow> WalIndexHdr \<Rightarrow> Wal \<Rightarrow> bool \<times> bool \<times> Wal" where
  "walIndexTryHdr h1 h2 w =
     (if h1 \<noteq> h2 then (True, False, w)
      else if hdr_isInit h1 = 0 then (True, False, w)
      else if walChecksumBytes True (hdr_bytes h1) (0, 0) \<noteq> aCksum h1 then (True, False, w)
      else if wal_hdr w \<noteq> h1 then (False, True, w\<lparr>wal_hdr := h1, wal_szPage := hdr_page_size (hdr_szPage h1)\<rparr>)
      else (False, False, w))"

section \<open>Publishing written frames\<close>

text \<open>
  The end of \<^verbatim>\<open>sqlite3WalFrames\<close>, after the frames are in the file: their pages are added to the index (the last one
  once more for every frame of padding), then the private header is updated, and on a commit the shared one. One answer of
  the file system for every frame, \<open>es\<close>.
\<close>

fun append_frames :: "(nat \<Rightarrow> wal_env) \<Rightarrow> Wal \<Rightarrow> nat \<Rightarrow> u32 list \<Rightarrow> (nat \<times> nat \<times> Wal) option" where
  "append_frames es w iFrame [] = Some (SQLITE_OK, iFrame, w)"
| "append_frames es w iFrame (p # ps) =
     do {
       let iFrame = iFrame + 1;
       (rc, w) \<leftarrow> walIndexAppend (es iFrame) w iFrame p;
       if rc = SQLITE_OK then append_frames es w iFrame ps else Some (rc, iFrame, w) }"

definition publish_frames :: "(nat \<Rightarrow> wal_env) \<Rightarrow> Wal \<Rightarrow> u32 list \<Rightarrow> nat \<Rightarrow> nat \<Rightarrow> u32 \<Rightarrow> bool \<Rightarrow> (nat \<times> Wal) option" where
  "publish_frames es w pgnos nExtra szPage nTruncate isCommit =
     do {
       (rc, iFrame, w) \<leftarrow> append_frames es w (unat (mxFrame (wal_hdr w))) (pgnos @ replicate nExtra (last pgnos));
       if rc \<noteq> SQLITE_OK then Some (rc, w)
       else
         let h = (wal_hdr w)\<lparr>hdr_szPage := word_of_nat ((szPage AND 0xff00) OR drop_bit 16 szPage), mxFrame := word_of_nat iFrame\<rparr>;
             h = (if isCommit then h\<lparr>iChange := iChange h + 1, nPage := nTruncate\<rparr> else h);
             w = w\<lparr>wal_hdr := h\<rparr>
         in Some (SQLITE_OK, if isCommit then walIndexWriteHdr w else w) }"

end
