(* ===== verification/WalTables.thy ===== *)
theory WalTables
  imports WalIndex
begin

text \<open>
  One hash table of the wal-index. \<open>slots_ok\<close> is its invariant: the slots hold the positions of the entries,
  each once, and on the way from the hash of an entry to its slot there are only entries that are older. So
  entries of the same page are found in the order of their age, and taking the newest entries out
  leaves a table that is as good.
\<close>

section \<open>Probing\<close>

definition probe :: "nat \<Rightarrow> nat \<Rightarrow> nat" where
  "probe s d = (s + d) mod HASHTABLE_NSLOT"

lemma probe_less [simp]: "probe s d < HASHTABLE_NSLOT"
  by (simp add: probe_def HASHTABLE_NSLOT_def)

lemma probe_0: "s < HASHTABLE_NSLOT \<Longrightarrow> probe s 0 = s"
  by (simp add: probe_def)

lemma nslot_mask: "n AND (HASHTABLE_NSLOT - 1) = n mod HASHTABLE_NSLOT"
proof -
  have "HASHTABLE_NSLOT - 1 = mask 13" by (simp add: HASHTABLE_NSLOT_def mask_eq_exp_minus_1)
  then have "n AND (HASHTABLE_NSLOT - 1) = n mod 2 ^ 13" by (simp only: take_bit_eq_mask [symmetric] take_bit_eq_mod)
  then show ?thesis by (simp add: HASHTABLE_NSLOT_def)
qed

lemma walNextHash_probe: "walNextHash (probe s d) = probe s (Suc d)"
  unfolding walNextHash_def nslot_mask probe_def by (simp add: mod_Suc_eq)

lemma walHash_less [simp]: "walHash p < HASHTABLE_NSLOT"
proof -
  have "word_of_nat HASHTABLE_NSLOT - 1 = (mask 13 :: u32)" by (simp add: HASHTABLE_NSLOT_def mask_eq_exp_minus_1)
  then have "walHash p = take_bit 13 (unat (p * 383))"
    by (simp only: walHash_def take_bit_eq_mask [symmetric] unsigned_take_bit_eq)
  then show ?thesis by (simp add: take_bit_eq_mod HASHTABLE_NSLOT_def)
qed

lemma mod_add_cancel:
  assumes "(s + d) mod n = (s + d') mod n" and "d' < n" and "d \<le> d'"
  shows "d = (d' :: nat)"
proof -
  have "n dvd (s + d') - (s + d)" using mod_eq_dvd_iff_nat [of "s + d" "s + d'" n] assms by simp
  then show ?thesis using assms(2,3) by (auto dest: dvd_imp_le)
qed

lemma probe_inj:
  assumes "probe s d = probe s d'" and "d < HASHTABLE_NSLOT" and "d' < HASHTABLE_NSLOT"
  shows "d = d'"
  using mod_add_cancel [of s d HASHTABLE_NSLOT d'] mod_add_cancel [of s d' HASHTABLE_NSLOT d] assms
  unfolding probe_def by (cases "d \<le> d'") simp_all

section \<open>The invariant\<close>

definition slots_ok :: "u16 list \<Rightarrow> u32 list \<Rightarrow> bool" where
  "slots_ok h ps \<longleftrightarrow>
     length h = HASHTABLE_NSLOT
     \<and> (\<forall>i < HASHTABLE_NSLOT. unat (h ! i) \<le> length ps)
     \<and> (\<forall>i < HASHTABLE_NSLOT. \<forall>j < HASHTABLE_NSLOT. h ! i = h ! j \<longrightarrow> h ! i \<noteq> 0 \<longrightarrow> i = j)
     \<and> (\<forall>k < length ps. \<exists>d < HASHTABLE_NSLOT. unat (h ! probe (walHash (ps ! k)) d) = Suc k
          \<and> (\<forall>d' < d. 0 < unat (h ! probe (walHash (ps ! k)) d') \<and> unat (h ! probe (walHash (ps ! k)) d') \<le> k))"

lemma slots_bound: "slots_ok h ps \<Longrightarrow> i < HASHTABLE_NSLOT \<Longrightarrow> unat (h ! i) \<le> length ps"
  by (simp add: slots_ok_def)

lemma slots_unique:
  "slots_ok h ps \<Longrightarrow> i < HASHTABLE_NSLOT \<Longrightarrow> j < HASHTABLE_NSLOT \<Longrightarrow> h ! i = h ! j \<Longrightarrow> h ! i \<noteq> 0 \<Longrightarrow> i = j"
  by (simp add: slots_ok_def)

lemma slots_path:
  assumes "slots_ok h ps" and "k < length ps"
  obtains d where "d < HASHTABLE_NSLOT" and "unat (h ! probe (walHash (ps ! k)) d) = Suc k"
    and "\<And>d'. d' < d \<Longrightarrow> 0 < unat (h ! probe (walHash (ps ! k)) d') \<and> unat (h ! probe (walHash (ps ! k)) d') \<le> k"
  using assms unfolding slots_ok_def by blast

text \<open>The first free slot after \<open>D\<close> others.\<close>

definition free_after :: "u16 list \<Rightarrow> nat \<Rightarrow> nat \<Rightarrow> bool" where
  "free_after h s D \<longleftrightarrow> h ! probe s D = 0 \<and> (\<forall>d < D. h ! probe s d \<noteq> 0)"

lemma free_exists:
  assumes ok: "slots_ok h ps" and "length ps < HASHTABLE_NSLOT"
  obtains D where "free_after h s D" and "D \<le> length ps"
proof -
  let ?f = "\<lambda>d. unat (h ! probe s d)"
  have "\<exists>d \<le> length ps. h ! probe s d = 0"
  proof (rule ccontr)
    assume "\<not> ?thesis"
    then have nz: "h ! probe s d \<noteq> 0" if "d \<le> length ps" for d using that by blast
    have "inj_on ?f {0..length ps}"
    proof (rule inj_onI)
      fix x y
      assume "x \<in> {0..length ps}" "y \<in> {0..length ps}" "?f x = ?f y"
      then have "probe s x = probe s y" using slots_unique [OF ok probe_less [of s x] probe_less [of s y]] nz by (auto simp: word_unat_eq_iff)
      then show "x = y" using probe_inj [of s x y] \<open>x \<in> _\<close> \<open>y \<in> _\<close> assms(2) by simp
    qed
    moreover have "?f ` {0..length ps} \<subseteq> {1..length ps}"
      using nz slots_bound [OF ok probe_less] by (auto simp: Suc_le_eq unat_gt_0)
    ultimately have "card {0..length ps} \<le> card {1..length ps}" using card_inj_on_le [of ?f "{0..length ps}" "{1..length ps}"] by simp
    then show False by simp
  qed
  then obtain d where d: "d \<le> length ps" "h ! probe s d = 0" by blast
  define D where "D = (LEAST d. h ! probe s d = 0)"
  have "h ! probe s D = 0" unfolding D_def by (rule LeastI) (rule d(2))
  moreover have "D \<le> d" unfolding D_def by (rule Least_le) (rule d(2))
  moreover have "h ! probe s d' \<noteq> 0" if "d' < D" for d' using not_less_Least that unfolding D_def by blast
  ultimately show thesis using d(1) by (intro that [of D]) (simp_all add: free_after_def)
qed

lemma free_slot_run:
  assumes "free_after h s D" and "length h = HASHTABLE_NSLOT"
  shows "d \<le> D \<Longrightarrow> D - d \<le> n \<Longrightarrow> free_slot n h (probe s d) = Some (Some (probe s D))"
proof (induction n arbitrary: d)
  case 0
  then have "d = D" by simp
  then show ?case using assms by (simp add: free_slot.simps [of 0] rd_def free_after_def)
next
  case (Suc n)
  show ?case
  proof (cases "d = D")
    case True
    then show ?thesis using assms by (simp add: free_slot.simps [of "Suc n"] rd_def free_after_def)
  next
    case False
    then have "h ! probe s d \<noteq> 0" using assms(1) Suc(2) by (simp add: free_after_def)
    then show ?thesis
      using Suc(1) [of "Suc d"] Suc(2,3) False assms(2) by (simp add: free_slot.simps [of "Suc n"] rd_def walNextHash_probe)
  qed
qed

section \<open>Adding, cleaning\<close>

lemma slots_ok_empty: "slots_ok (replicate HASHTABLE_NSLOT 0) []"
  by (simp add: slots_ok_def)

lemma slots_ok_add:
  assumes ok: "slots_ok h ps" and "length ps < HASHTABLE_NPAGE" and free: "free_after h (walHash p) D" and "D < HASHTABLE_NSLOT"
  shows "slots_ok (h[probe (walHash p) D := word_of_nat (Suc (length ps))]) (ps @ [p])"
proof -
  let ?n = "length ps"
  let ?i = "probe (walHash p) D"
  let ?h = "h[?i := word_of_nat (Suc ?n)]"
  have len: "length h = HASHTABLE_NSLOT" using ok by (simp add: slots_ok_def)
  have v: "unat (word_of_nat (Suc ?n) :: u16) = Suc ?n"
    using assms(2) by (simp add: unat_of_nat HASHTABLE_NPAGE_def del: of_nat_Suc)
  have at: "?h ! j = (if j = ?i then word_of_nat (Suc ?n) else h ! j)" for j
    using len by (simp add: nth_list_update)
  have old: "unat (h ! j) \<le> ?n" if "j < HASHTABLE_NSLOT" for j using slots_bound [OF ok that] .
  have zero: "h ! ?i = 0" using free by (simp add: free_after_def)
  have ne: "h ! j \<noteq> word_of_nat (Suc ?n)" if "j < HASHTABLE_NSLOT" for j using old [OF that] v by force
  have "unat (?h ! j) \<le> length (ps @ [p])" if "j < HASHTABLE_NSLOT" for j using old [OF that] v by (simp add: at del: of_nat_Suc)
  moreover have "i = j" if "i < HASHTABLE_NSLOT" "j < HASHTABLE_NSLOT" "?h ! i = ?h ! j" "?h ! i \<noteq> 0" for i j
    using that ne [OF that(1)] ne [OF that(2)] slots_unique [OF ok that(1,2)] unfolding at by (auto split: if_splits)
  moreover have "\<exists>d < HASHTABLE_NSLOT. unat (?h ! probe (walHash ((ps @ [p]) ! k)) d) = Suc k
      \<and> (\<forall>d' < d. 0 < unat (?h ! probe (walHash ((ps @ [p]) ! k)) d') \<and> unat (?h ! probe (walHash ((ps @ [p]) ! k)) d') \<le> k)"
    if "k < length (ps @ [p])" for k
  proof (cases "k < ?n")
    case True
    then obtain d where d: "d < HASHTABLE_NSLOT" "unat (h ! probe (walHash (ps ! k)) d) = Suc k"
      "\<And>d'. d' < d \<Longrightarrow> 0 < unat (h ! probe (walHash (ps ! k)) d') \<and> unat (h ! probe (walHash (ps ! k)) d') \<le> k"
      using slots_path [OF ok] by blast
    have same: "?h ! probe (walHash (ps ! k)) d' = h ! probe (walHash (ps ! k)) d'" if "d' \<le> d" for d'
      using d(2) d(3) [of d'] zero that unfolding at by (cases "d' = d") auto
    show ?thesis using d same by (intro exI [of _ d]) (simp add: nth_append True)
  next
    case False
    then have k: "k = ?n" using that by simp
    have "probe (walHash p) d' \<noteq> ?i" if "d' < D" for d' using probe_inj [of "walHash p" d' D] that assms(4) by auto
    then show ?thesis using free assms(4) v old [OF probe_less]
      by (intro exI [of _ D]) (simp add: k at free_after_def unat_gt_0 del: of_nat_Suc)
  qed
  ultimately show ?thesis by (simp add: slots_ok_def len)
qed

lemma slots_ok_clean:
  assumes ok: "slots_ok h ps" and "m \<le> length ps"
  shows "slots_ok (map (\<lambda>s. if unat s > m then 0 else s) h) (take m ps)"
proof -
  let ?c = "\<lambda>s :: u16. if unat s > m then 0 else s"
  have len: "length h = HASHTABLE_NSLOT" using ok by (simp add: slots_ok_def)
  have at: "map ?c h ! j = ?c (h ! j)" if "j < HASHTABLE_NSLOT" for j using that len by simp
  have "i = j" if "i < HASHTABLE_NSLOT" "j < HASHTABLE_NSLOT" "?c (h ! i) = ?c (h ! j)" "?c (h ! i) \<noteq> 0" for i j
    using that slots_unique [OF ok that(1,2)] by (auto split: if_splits)
  moreover have "\<exists>d < HASHTABLE_NSLOT. unat (map ?c h ! probe (walHash (take m ps ! k)) d) = Suc k
      \<and> (\<forall>d' < d. 0 < unat (map ?c h ! probe (walHash (take m ps ! k)) d') \<and> unat (map ?c h ! probe (walHash (take m ps ! k)) d') \<le> k)"
    if "k < length (take m ps)" for k
  proof -
    have k: "k < length ps" "k < m" using that by simp_all
    then obtain d where d: "d < HASHTABLE_NSLOT" "unat (h ! probe (walHash (ps ! k)) d) = Suc k"
      "\<And>d'. d' < d \<Longrightarrow> 0 < unat (h ! probe (walHash (ps ! k)) d') \<and> unat (h ! probe (walHash (ps ! k)) d') \<le> k"
      using slots_path [OF ok] by blast
    have "map ?c h ! probe (walHash (ps ! k)) d' = h ! probe (walHash (ps ! k)) d'" if "d' \<le> d" for d'
      using d(2) d(3) [of d'] k that unfolding at [OF probe_less] by (cases "d' = d") auto
    then show ?thesis using d k by (intro exI [of _ d]) simp
  qed
  ultimately show ?thesis unfolding slots_ok_def using len assms(2) by (auto simp: at)
qed

section \<open>Searching\<close>

text \<open>Whether the search takes what it finds at the distance \<open>d\<close>.\<close>

definition slot_hit :: "u16 list \<Rightarrow> u32 list \<Rightarrow> u32 \<Rightarrow> nat \<Rightarrow> nat \<Rightarrow> nat \<Rightarrow> nat \<Rightarrow> bool" where
  "slot_hit h ps p z iLast mn d \<longleftrightarrow>
     (let v = unat (h ! probe (walHash p) d) in v + z \<le> iLast \<and> mn \<le> v + z \<and> ps ! (v - 1) = p)"

lemma rd_prefix: "take (length ps) xs = ps \<Longrightarrow> k < length ps \<Longrightarrow> rd xs k = Some (ps ! k)"
proof -
  assume p: "take (length ps) xs = ps" and k: "k < length ps"
  have "length ps \<le> length xs" using arg_cong [OF p, of length] by simp
  moreover have "xs ! k = ps ! k" using nth_take [OF k, of xs] unfolding p by simp
  ultimately show ?thesis using k by (simp add: rd_def)
qed

lemma find_slot_run:
  assumes free: "free_after (aHash pg) (walHash p) D" and ok: "slots_ok (aHash pg) ps" and pre: "take (length ps) (aPgno pg) = ps"
  shows "d \<le> D \<Longrightarrow> D - d \<le> n \<Longrightarrow>
    \<exists>r'. find_slot n pg p z iLast mn (probe (walHash p) d) r = Some (Inr r')
      \<and> ((\<forall>d' \<in> {d..<D}. \<not> slot_hit (aHash pg) ps p z iLast mn d') \<and> r' = r
         \<or> (\<exists>d' \<in> {d..<D}. slot_hit (aHash pg) ps p z iLast mn d' \<and> r' = unat (aHash pg ! probe (walHash p) d') + z
              \<and> (\<forall>d'' \<in> {d'<..<D}. \<not> slot_hit (aHash pg) ps p z iLast mn d'')))"
proof (induction n arbitrary: d r)
  case 0
  then have "d = D" by simp
  then show ?case using assms by (simp add: find_slot.simps [of 0] rd_def free_after_def slots_ok_def)
next
  case (Suc n)
  let ?s = "aHash pg ! probe (walHash p) d"
  have len: "length (aHash pg) = HASHTABLE_NSLOT" using ok by (simp add: slots_ok_def)
  show ?case
  proof (cases "d = D")
    case True
    then show ?thesis using free len by (simp add: find_slot.simps [of "Suc n"] rd_def free_after_def)
  next
    case False
    let ?hit = "slot_hit (aHash pg) ps p z iLast mn d"
    have "?s \<noteq> 0" using free Suc(2) False by (simp add: free_after_def)
    then have s: "0 < unat ?s" "unat ?s \<le> length ps" using slots_bound [OF ok probe_less] by (simp_all add: unat_gt_0)
    have "rd (aPgno pg) (unat ?s - 1) = Some (ps ! (unat ?s - 1))" using rd_prefix [OF pre, of "unat ?s - 1"] s by simp
    then have "find_slot (Suc n) pg p z iLast mn (probe (walHash p) d) r
        = find_slot n pg p z iLast mn (probe (walHash p) (Suc d)) (if ?hit then unat ?s + z else r)"
      using \<open>?s \<noteq> 0\<close> len by (simp add: find_slot.simps [of "Suc n"] rd_def slot_hit_def Let_def walNextHash_probe)
    moreover have "{d..<D} = insert d {Suc d..<D}" using Suc(2) False by auto
    moreover have "{d<..<D} = {Suc d..<D}" by auto
    moreover have "Suc d \<le> D" "D - Suc d \<le> n" using Suc(2,3) False by simp_all
    ultimately show ?thesis using Suc(1) [of "Suc d" "if ?hit then unat ?s + z else r"] by (simp split: if_splits) blast+
  qed
qed

text \<open>What a search of one table finds: the newest entry of the page in the range, if there is one.\<close>

lemma find_slot_newest:
  assumes ok: "slots_ok (aHash pg) ps" and pre: "take (length ps) (aPgno pg) = ps" and "length ps < HASHTABLE_NSLOT"
  obtains r where "find_slot HASHTABLE_NSLOT pg p z iLast mn (walHash p) 0 = Some (Inr r)"
    and "r = 0 \<and> (\<forall>k < length ps. \<not> (ps ! k = p \<and> Suc k + z \<le> iLast \<and> mn \<le> Suc k + z))
      \<or> (\<exists>k < length ps. r = Suc k + z \<and> ps ! k = p \<and> r \<le> iLast \<and> mn \<le> r
          \<and> (\<forall>k'. k < k' \<and> k' < length ps \<longrightarrow> \<not> (ps ! k' = p \<and> Suc k' + z \<le> iLast \<and> mn \<le> Suc k' + z)))"
proof -
  let ?h = "aHash pg"
  let ?v = "\<lambda>d. unat (?h ! probe (walHash p) d)"
  let ?hit = "slot_hit ?h ps p z iLast mn"
  obtain D where D: "free_after ?h (walHash p) D" "D \<le> length ps" using free_exists [OF ok assms(3)] .
  obtain r where r: "find_slot HASHTABLE_NSLOT pg p z iLast mn (walHash p) 0 = Some (Inr r)"
    "(\<forall>d' \<in> {0..<D}. \<not> ?hit d') \<and> r = 0
     \<or> (\<exists>d' \<in> {0..<D}. ?hit d' \<and> r = ?v d' + z \<and> (\<forall>d'' \<in> {d'<..<D}. \<not> ?hit d''))"
    using find_slot_run [OF D(1) ok pre, of 0 HASHTABLE_NSLOT z iLast mn 0] D(2) assms(3) by (auto simp: probe_0)
  have entry: "\<exists>d < D. ?v d = Suc k \<and> (\<forall>d' < d. ?v d' \<le> k)" if k: "k < length ps" "ps ! k = p" for k
  proof -
    obtain d where d: "?v d = Suc k" "\<And>d'. d' < d \<Longrightarrow> 0 < ?v d' \<and> ?v d' \<le> k"
      using slots_path [OF ok k(1)] unfolding k(2) by blast
    have "d < D" using D(1) d by (metis free_after_def linorder_neqE_nat old.nat.distinct(2) unsigned_0 less_irrefl)
    with d show ?thesis by blast
  qed
  have vD: "0 < ?v d" "?v d \<le> length ps" if "d < D" for d
    using D(1) that slots_bound [OF ok probe_less] by (simp_all add: free_after_def unat_gt_0)
  have hit_k: "\<exists>d < D. ?v d = Suc k \<and> ?hit d \<and> (\<forall>d' < d. ?v d' \<le> k)"
    if "k < length ps" "ps ! k = p" "Suc k + z \<le> iLast" "mn \<le> Suc k + z" for k
    using entry [OF that(1,2)] that by (auto simp: slot_hit_def Let_def)
  show thesis
  proof (rule that [OF r(1)], insert r(2), elim disjE conjE bexE)
    assume "\<forall>d' \<in> {0..<D}. \<not> ?hit d'" "r = 0"
    then show "r = 0 \<and> (\<forall>k < length ps. \<not> (ps ! k = p \<and> Suc k + z \<le> iLast \<and> mn \<le> Suc k + z))
      \<or> (\<exists>k < length ps. r = Suc k + z \<and> ps ! k = p \<and> r \<le> iLast \<and> mn \<le> r
          \<and> (\<forall>k'. k < k' \<and> k' < length ps \<longrightarrow> \<not> (ps ! k' = p \<and> Suc k' + z \<le> iLast \<and> mn \<le> Suc k' + z)))"
      using hit_k by (metis atLeastLessThan_iff zero_le)
  next
    fix d
    assume d: "d \<in> {0..<D}" "?hit d" "r = ?v d + z" "\<forall>d'' \<in> {d<..<D}. \<not> ?hit d''"
    let ?k = "?v d - 1"
    have k: "Suc ?k = ?v d" "?k < length ps" using vD [of d] d(1) by auto
    have "\<not> (ps ! k' = p \<and> Suc k' + z \<le> iLast \<and> mn \<le> Suc k' + z)" if k': "?k < k'" "k' < length ps" for k'
    proof
      assume "ps ! k' = p \<and> Suc k' + z \<le> iLast \<and> mn \<le> Suc k' + z"
      then obtain d' where d': "d' < D" "?v d' = Suc k'" "?hit d'" using hit_k [OF k'(2)] by blast
      then have "d' \<le> d" using d(4) by (meson greaterThanLessThan_iff not_le)
      moreover have "d' \<noteq> d" using d'(2) k k'(1) by auto
      ultimately have "d' < d" by simp
      obtain e where e: "e < D" "?v e = Suc ?k" "\<forall>d' < e. ?v d' \<le> ?k" using entry [OF k(2)] d(2) by (auto simp: slot_hit_def Let_def)
      have "?h ! probe (walHash p) e = ?h ! probe (walHash p) d" using e(2) k(1) by (simp add: word_unat_eq_iff)
      then have "probe (walHash p) e = probe (walHash p) d"
        using slots_unique [OF ok probe_less probe_less] vD(1) [OF e(1)] by (metis unsigned_0 less_irrefl)
      then have "e = d" using probe_inj e(1) d(1) D(2) assms(3) by (meson atLeastLessThan_iff le_less_trans less_trans not_le)
      then show False using e(3) \<open>d' < d\<close> d'(2) k'(1) by auto
    qed
    then show "r = 0 \<and> (\<forall>k < length ps. \<not> (ps ! k = p \<and> Suc k + z \<le> iLast \<and> mn \<le> Suc k + z))
      \<or> (\<exists>k < length ps. r = Suc k + z \<and> ps ! k = p \<and> r \<le> iLast \<and> mn \<le> r
          \<and> (\<forall>k'. k < k' \<and> k' < length ps \<longrightarrow> \<not> (ps ! k' = p \<and> Suc k' + z \<le> iLast \<and> mn \<le> Suc k' + z)))"
      using d k by (intro disjI2 exI [of _ ?k]) (auto simp: slot_hit_def Let_def)
  qed
qed

end
