(* ===== verification/WalIndexFacts.thy ===== *)
theory WalIndexFacts
  imports WalTables
begin

text \<open>
  The wal-index as a whole holds the page numbers of the frames of the log, in order. Looking a page up finds
  what the linear search of the code's own assertion finds; appending, rolling back and savepoints
  change the log accordingly; and a reader does not see what the writer does after it started.
\<close>

section \<open>Where a frame is\<close>

lemma walFramePage_eq: "walFramePage f = (f + 33) div 4096"
  by (simp add: walFramePage_def HASHTABLE_NPAGE_def HASHTABLE_NPAGE_ONE_def)

lemma walZero_Suc: "walZero (Suc t) = walZero t + npage t"
  by (cases t) (simp_all add: walZero_def npage_def HASHTABLE_NPAGE_def HASHTABLE_NPAGE_ONE_def)

lemma walZero_eq: "walZero t + 34 = (if t = 0 then 34 else 4096 * t)"
  by (cases t) (simp_all add: walZero_def HASHTABLE_NPAGE_def HASHTABLE_NPAGE_ONE_def)

lemma npage_bounds: "4062 \<le> npage t" "npage t \<le> 4096"
  by (simp_all add: npage_def HASHTABLE_NPAGE_def HASHTABLE_NPAGE_ONE_def)

lemma walFramePage_iff: "0 < f \<Longrightarrow> walFramePage f = t \<longleftrightarrow> walZero t < f \<and> f \<le> walZero (Suc t)"
  using walZero_eq [of t] walZero_eq [of "Suc t"] by (auto simp: walFramePage_eq split: if_splits)

lemma walFramePage_mono: "f \<le> g \<Longrightarrow> walFramePage f \<le> walFramePage g"
  by (simp add: walFramePage_eq div_le_mono)

lemma walZero_mono: "t \<le> u \<Longrightarrow> walZero t \<le> walZero u"
  by (rule lift_Suc_mono_le [of walZero]) (simp_all add: walZero_Suc)

lemma walZero_framePage: "0 < f \<Longrightarrow> walZero (walFramePage f) < f" "0 < f \<Longrightarrow> f \<le> walZero (walFramePage f) + npage (walFramePage f)"
  using walFramePage_iff [of f "walFramePage f"] by (simp_all add: walZero_Suc)

lemma below_framePage: "t < walFramePage f \<Longrightarrow> walZero (Suc t) < f"
  using walZero_mono [of "Suc t" "walFramePage f"] walZero_framePage(1) [of f]
  by (cases "f = 0") (auto simp: walFramePage_eq)

section \<open>The invariant\<close>

definition page_shape :: "nat \<Rightarrow> WalPage \<Rightarrow> bool" where
  "page_shape t pg \<longleftrightarrow> length (aPgno pg) = npage t \<and> length (aHash pg) = HASHTABLE_NSLOT"

definition tab_ok :: "nat \<Rightarrow> WalPage \<Rightarrow> u32 list \<Rightarrow> bool" where
  "tab_ok t pg ps \<longleftrightarrow>
     length ps \<le> npage t \<and> aPgno pg = ps @ replicate (npage t - length ps) 0 \<and> slots_ok (aHash pg) ps"

definition wal_slice :: "nat \<Rightarrow> u32 list \<Rightarrow> u32 list" where
  "wal_slice t log = take (npage t) (drop (walZero t) log)"

text \<open>\<open>wi_ok wi log\<close>: the mapped pages hold the log, whose page numbers are not zero. Pages beyond the log may hold anything.\<close>

definition wi_ok :: "WalPage option list \<Rightarrow> u32 list \<Rightarrow> bool" where
  "wi_ok wi log \<longleftrightarrow>
     0 \<notin> set log \<and> length log < 2 ^ 32
     \<and> (\<forall>t pg. t < length wi \<longrightarrow> wi ! t = Some pg \<longrightarrow> page_shape t pg)
     \<and> (log \<noteq> [] \<longrightarrow> (\<forall>t \<le> walFramePage (length log). t < length wi
          \<and> (\<exists>pg. wi ! t = Some pg \<and> tab_ok t pg (wal_slice t log))))"

text \<open>What the file system promises of a mapping for the holder of the write lock: it extends the file.\<close>

definition env_ok :: "wal_env \<Rightarrow> bool" where
  "env_ok e \<longleftrightarrow> (\<forall>t b. case e_map e t b of (rc, p) \<Rightarrow>
     (b \<and> (rc = SQLITE_OK \<or> rc = SQLITE_READONLY) \<longrightarrow> p \<noteq> None) \<and> (\<forall>pg. p = Some pg \<longrightarrow> page_shape t pg))"

lemma tab_ok_shape: "tab_ok t pg ps \<Longrightarrow> page_shape t pg"
  by (auto simp: tab_ok_def page_shape_def slots_ok_def)

lemma zero_page_ok: "tab_ok t (zero_page t) []"
  by (simp add: tab_ok_def zero_page_def slots_ok_empty)

lemma wi_ok_page:
  assumes "wi_ok wi log" and "log \<noteq> []" and "t \<le> walFramePage (length log)"
  obtains pg where "t < length wi" and "wi ! t = Some pg" and "tab_ok t pg (wal_slice t log)"
  using assms unfolding wi_ok_def by blast

lemma length_wal_slice: "length (wal_slice t log) = min (npage t) (length log - walZero t)"
  by (simp add: wal_slice_def)

lemma nth_wal_slice: "k < length (wal_slice t log) \<Longrightarrow> wal_slice t log ! k = log ! (walZero t + k)"
  unfolding length_wal_slice by (cases "walZero t \<le> length log") (simp_all add: wal_slice_def nth_drop)

lemma wal_slice_full: "t < walFramePage (length log) \<Longrightarrow> length (wal_slice t log) = npage t"
  using below_framePage [of t "length log"] by (simp add: length_wal_slice walZero_Suc)

section \<open>Looking a page up\<close>

lemma latest_none: "(\<And>f. f < hi \<Longrightarrow> lo \<le> Suc f \<Longrightarrow> log ! f \<noteq> p) \<Longrightarrow> latest log lo hi p = 0"
  by (induction hi) auto

lemma latest_some:
  "f < hi \<Longrightarrow> lo \<le> Suc f \<Longrightarrow> log ! f = p \<Longrightarrow> (\<And>g. f < g \<Longrightarrow> g < hi \<Longrightarrow> log ! g \<noteq> p) \<Longrightarrow> latest log lo hi p = Suc f"
proof (induction hi)
  case (Suc hi)
  then show ?case by (cases "f = hi") (auto simp: less_Suc_eq)
qed simp

lemma latest_bounds: "latest log lo hi p \<noteq> 0 \<Longrightarrow> latest log lo hi p \<le> hi \<and> lo \<le> latest log lo hi p \<and> log ! (latest log lo hi p - 1) = p"
  by (induction hi) (auto split: if_splits)

lemma hash_get_mapped:
  "t < length (apWiData w) \<Longrightarrow> apWiData w ! t = Some pg \<Longrightarrow> walHashGet e w t = (SQLITE_OK, Some pg, walZero t, w)"
  by (simp add: walHashGet_def walIndexPage_def)

lemma find_tables_latest:
  assumes ok: "wi_ok (apWiData w) log" and iLast: "iLast \<le> length log" "log \<noteq> []"
  shows "iMin + n \<le> walFramePage iLast + 1 \<Longrightarrow>
    (\<And>f. walZero (iMin + n) \<le> f \<Longrightarrow> f < iLast \<Longrightarrow> mn \<le> Suc f \<Longrightarrow> log ! f \<noteq> p) \<Longrightarrow>
    (\<And>f. f < walZero iMin \<Longrightarrow> Suc f < mn) \<Longrightarrow>
    find_tables e iMin n w p iLast mn = Some (Inr (latest log mn iLast p), w)"
proof (induction n)
  case 0
  have "log ! f \<noteq> p" if "f < iLast" "mn \<le> Suc f" for f
    using 0(2) [of f] 0(3) [of f] that by (cases "f < walZero iMin") auto
  then show ?case using latest_none [of iLast mn log p] by simp
next
  case (Suc n)
  let ?t = "iMin + n"
  let ?ps = "wal_slice ?t log"
  have "?t \<le> walFramePage iLast" using Suc(2) by simp
  then have "?t \<le> walFramePage (length log)" using walFramePage_mono [OF iLast(1)] by simp
  then obtain pg where pg: "?t < length (apWiData w)" "apWiData w ! ?t = Some pg" "tab_ok ?t pg ?ps"
    using wi_ok_page [OF ok iLast(2)] by blast
  have ps: "slots_ok (aHash pg) ?ps" "take (length ?ps) (aPgno pg) = ?ps" "length ?ps < HASHTABLE_NSLOT"
    using pg(3) npage_bounds(2) [of ?t] by (auto simp: tab_ok_def HASHTABLE_NSLOT_def)
  have above: "log ! f \<noteq> p" if "walZero (Suc ?t) \<le> f" "f < iLast" "mn \<le> Suc f" for f
    using Suc(3) [of f] that by simp
  have at: "?ps ! k = log ! (walZero ?t + k)" if "k < length ?ps" for k using nth_wal_slice [OF that] .
  have cover: "f - walZero ?t < length ?ps" if "walZero ?t \<le> f" "f < iLast" "f < walZero (Suc ?t)" for f
    using that iLast(1) unfolding length_wal_slice walZero_Suc by linarith
  have step: "find_tables e iMin (Suc n) w p iLast mn =
      (case find_slot HASHTABLE_NSLOT pg p (walZero ?t) iLast mn (walHash p) 0 of None \<Rightarrow> None
       | Some (Inl rc) \<Rightarrow> Some (Inl rc, w)
       | Some (Inr r) \<Rightarrow> if r \<noteq> 0 then Some (Inr r, w) else find_tables e iMin n w p iLast mn)"
    using hash_get_mapped [OF pg(1,2)] by (simp add: SQLITE_OK_def split: option.split sum.split)
  obtain r where r: "find_slot HASHTABLE_NSLOT pg p (walZero ?t) iLast mn (walHash p) 0 = Some (Inr r)"
    "r = 0 \<and> (\<forall>k < length ?ps. \<not> (?ps ! k = p \<and> Suc k + walZero ?t \<le> iLast \<and> mn \<le> Suc k + walZero ?t))
      \<or> (\<exists>k < length ?ps. r = Suc k + walZero ?t \<and> ?ps ! k = p \<and> r \<le> iLast \<and> mn \<le> r
          \<and> (\<forall>k'. k < k' \<and> k' < length ?ps \<longrightarrow> \<not> (?ps ! k' = p \<and> Suc k' + walZero ?t \<le> iLast \<and> mn \<le> Suc k' + walZero ?t)))"
    by (rule find_slot_newest [OF ps, of p "walZero ?t" iLast mn])
  from r(2) show ?case
  proof (elim disjE exE conjE)
    assume "r = 0" and none: "\<forall>k < length ?ps. \<not> (?ps ! k = p \<and> Suc k + walZero ?t \<le> iLast \<and> mn \<le> Suc k + walZero ?t)"
    have "log ! f \<noteq> p" if "walZero ?t \<le> f" "f < iLast" "mn \<le> Suc f" for f
    proof (cases "f < walZero (Suc ?t)")
      case True
      then show ?thesis using none cover [OF that(1,2) True] at [OF cover [OF that(1,2) True]] that by force
    qed (use above that in auto)
    then show ?thesis using Suc(1) Suc(2,4) step r(1) \<open>r = 0\<close> by simp
  next
    fix k
    assume k: "k < length ?ps" "r = Suc k + walZero ?t" "?ps ! k = p" "r \<le> iLast" "mn \<le> r"
      and newest: "\<forall>k'. k < k' \<and> k' < length ?ps \<longrightarrow> \<not> (?ps ! k' = p \<and> Suc k' + walZero ?t \<le> iLast \<and> mn \<le> Suc k' + walZero ?t)"
    have "log ! g \<noteq> p" if "walZero ?t + k < g" "g < iLast" for g
    proof (cases "g < walZero (Suc ?t)")
      case True
      have g: "g - walZero ?t < length ?ps" using cover that True by simp
      then show ?thesis using newest [rule_format, of "g - walZero ?t"] at [OF g] that k by auto
    next
      case False
      then show ?thesis using above [of g] that k by simp
    qed
    then have "latest log mn iLast p = Suc (walZero ?t + k)" using k at [OF k(1)] by (intro latest_some) auto
    then show ?thesis using step r(1) k(2) by simp
  qed
qed

lemma find_frame_latest:
  assumes ok: "wi_ok (apWiData w) log" and hi: "unat (mxFrame (wal_hdr w)) \<le> length log" and lock: "readLock w \<noteq> 0 \<or> bShmUnreliable w"
  shows "sqlite3WalFindFrame e w p = Some (Inr (latest log (unat (minFrame w)) (unat (mxFrame (wal_hdr w))) p), w)"
proof -
  let ?iLast = "unat (mxFrame (wal_hdr w))"
  let ?mn = "unat (minFrame w)"
  let ?iMin = "walFramePage ?mn"
  show ?thesis
  proof (cases "?iLast = 0")
    case False
    then have "log \<noteq> []" using hi by auto
    have z: "Suc f < ?mn" if "f < walZero ?iMin" for f
      using that walZero_framePage(1) [of ?mn] by (cases "?mn = 0") (auto simp: walFramePage_eq walZero_def)
    have out: "\<not> ?iLast > walZero (walFramePage ?iLast + 1)" using walZero_framePage(2) [of ?iLast] False by (simp add: walZero_Suc)
    have "find_tables e ?iMin (walFramePage ?iLast + 1 - ?iMin) w p ?iLast ?mn = Some (Inr (latest log ?mn ?iLast p), w)"
    proof (cases "?iMin \<le> walFramePage ?iLast + 1")
      case True
      then show ?thesis
        using find_tables_latest [OF ok hi \<open>log \<noteq> []\<close>, of ?iMin "walFramePage ?iLast + 1 - ?iMin" ?mn p e] z out by simp
    next
      case False
      then have "?iLast < ?mn" using walFramePage_mono [of ?mn ?iLast] by (cases "?iLast < ?mn") auto
      then show ?thesis using latest_none [of ?iLast ?mn log p] False by simp
    qed
    then show ?thesis using False lock by (auto simp: sqlite3WalFindFrame_def Let_def)
  qed (simp add: sqlite3WalFindFrame_def)
qed

section \<open>Mapping a page\<close>

text \<open>Pages that are mapped stay as they are, and new ones have the right sizes.\<close>

definition wi_extends :: "WalPage option list \<Rightarrow> WalPage option list \<Rightarrow> bool" where
  "wi_extends wi wi' \<longleftrightarrow>
     (\<forall>t pg. t < length wi \<longrightarrow> wi ! t = Some pg \<longrightarrow> t < length wi' \<and> wi' ! t = Some pg)
     \<and> ((\<forall>t pg. t < length wi \<longrightarrow> wi ! t = Some pg \<longrightarrow> page_shape t pg)
        \<longrightarrow> (\<forall>t pg. t < length wi' \<longrightarrow> wi' ! t = Some pg \<longrightarrow> page_shape t pg))"

lemma wi_extends_refl [simp]: "wi_extends wi wi"
  by (simp add: wi_extends_def)

lemma wi_ok_extends: "wi_ok wi log \<Longrightarrow> wi_extends wi wi' \<Longrightarrow> wi_ok wi' log"
  unfolding wi_ok_def wi_extends_def by metis

lemma wi_extends_set:
  assumes "length wi \<le> t \<or> wi ! t = None" and "p = None \<or> page_shape t (the p)"
  shows "wi_extends wi ((wi @ replicate (t + 1 - length wi) None)[t := p])"
  using assms by (auto simp: wi_extends_def nth_list_update nth_append split: if_splits)

lemma zero_page_shape: "page_shape t (zero_page t)"
  by (simp add: page_shape_def zero_page_def)

text \<open>What walHashGet answers.\<close>

lemma hash_get:
  assumes "env_ok e" and "writeLock w"
  obtains rc p wi' ro where "walHashGet e w t = (rc, p, walZero t, w\<lparr>apWiData := wi', readOnly := ro\<rparr>)"
    and "wi_extends (apWiData w) wi'"
    and "rc = SQLITE_OK \<Longrightarrow> \<exists>pg. p = Some pg \<and> page_shape t pg \<and> t < length wi' \<and> wi' ! t = Some pg
      \<or> (\<exists>pg. p = Some pg \<and> t < length (apWiData w) \<and> apWiData w ! t = Some pg \<and> wi' = apWiData w)"
proof -
  let ?wi = "apWiData w"
  let ?grown = "?wi @ replicate (t + 1 - length ?wi) None"
  have grow: "apWiData (if length ?wi \<le> t then w\<lparr>apWiData := ?grown\<rparr> else w) = ?grown" by simp
  obtain c p where m: "e_map e t True = (c, p)" by (cases "e_map e t True")
  have shape: "p = None \<or> page_shape t (the p)" "c = SQLITE_OK \<or> c = SQLITE_READONLY \<Longrightarrow> p \<noteq> None"
    using spec [OF spec [OF assms(1) [unfolded env_ok_def], of t], of True] unfolding m by (cases p; auto)+
  show thesis
  proof (cases "length ?wi \<le> t \<or> ?wi ! t = None")
    case False
    then show thesis using that [of SQLITE_OK "?wi ! t" "readOnly w" ?wi] by (auto simp: walHashGet_def walIndexPage_def)
  next
    case unmapped: True
    consider "length ?wi \<le> t \<and> \<not> e_realloc e t" | "\<not> (length ?wi \<le> t \<and> \<not> e_realloc e t)" "exclusiveMode w = WAL_HEAPMEMORY_MODE"
      | "\<not> (length ?wi \<le> t \<and> \<not> e_realloc e t)" "exclusiveMode w \<noteq> WAL_HEAPMEMORY_MODE" by blast
    then show thesis
    proof cases
      case 1
      then show thesis using that [of SQLITE_NOMEM None "readOnly w" ?wi] unmapped
        by (auto simp: walHashGet_def walIndexPage_def walIndexPageRealloc_def result_codes)
    next
      case 2
      let ?p = "if e_zero e t then Some (zero_page t) else None"
      have g: "walHashGet e w t = (if e_zero e t then SQLITE_OK else SQLITE_NOMEM, ?p, walZero t, w\<lparr>apWiData := ?grown[t := ?p], readOnly := readOnly w\<rparr>)"
        using 2 unmapped grow by (auto simp: walHashGet_def walIndexPage_def walIndexPageRealloc_def Let_def)
      have x: "wi_extends ?wi (?grown[t := ?p])" using unmapped zero_page_shape by (intro wi_extends_set) auto
      show thesis by (rule that [OF g x]) (use zero_page_shape [of t] in \<open>auto simp: result_codes nth_list_update split: if_splits\<close>)
    next
      case 3
      let ?ro = "if c mod 256 = SQLITE_READONLY then readOnly w OR WAL_SHM_RDONLY else readOnly w"
      have g: "walHashGet e w t = (if c = SQLITE_READONLY then SQLITE_OK else c, p, walZero t, w\<lparr>apWiData := ?grown[t := p], readOnly := ?ro\<rparr>)"
        using 3 unmapped grow m assms(2)
        by (auto simp: walHashGet_def walIndexPage_def walIndexPageRealloc_def Let_def result_codes)
      have x: "wi_extends ?wi (?grown[t := p])" using unmapped shape(1) by (rule wi_extends_set)
      show thesis by (rule that [OF g x]) (use shape in \<open>auto simp: result_codes nth_list_update split: if_splits\<close>)
    qed
  qed
qed

section \<open>Adding a frame and cleaning up\<close>

lemma tab_add:
  assumes ok: "tab_ok t pg ps" and "length ps < npage t" and "length ps \<le> n"
  obtains i where "free_slot n (aHash pg) (walHash p) = Some (Some i)" and "i < HASHTABLE_NSLOT"
    and "tab_ok t (pg\<lparr>aPgno := (aPgno pg)[length ps := p], aHash := (aHash pg)[i := word_of_nat (Suc (length ps))]\<rparr>) (ps @ [p])"
proof -
  have s: "slots_ok (aHash pg) ps" and a: "aPgno pg = ps @ replicate (npage t - length ps) 0" using ok by (simp_all add: tab_ok_def)
  have len: "length (aHash pg) = HASHTABLE_NSLOT" using s by (simp add: slots_ok_def)
  have small: "length ps < HASHTABLE_NPAGE" "length ps < HASHTABLE_NSLOT"
    using assms(2) npage_bounds [of t] by (simp_all add: HASHTABLE_NPAGE_def HASHTABLE_NSLOT_def)
  obtain D where D: "free_after (aHash pg) (walHash p) D" "D \<le> length ps" using free_exists [OF s small(2)] .
  have "free_slot n (aHash pg) (walHash p) = Some (Some (probe (walHash p) D))"
    using free_slot_run [OF D(1) len, of 0 n] D(2) assms(3) by (simp add: probe_0)
  moreover have "slots_ok ((aHash pg)[probe (walHash p) D := word_of_nat (Suc (length ps))]) (ps @ [p])"
    using slots_ok_add [OF s small(1) D(1)] D(2) small(2) by simp
  moreover have "(aPgno pg)[length ps := p] = (ps @ [p]) @ replicate (npage t - length (ps @ [p])) 0"
    using assms(2) unfolding a by (cases "npage t - length ps") (simp_all add: list_update_append)
  ultimately show thesis using assms(2) by (intro that [of "probe (walHash p) D"]) (simp_all add: tab_ok_def)
qed

lemma tab_clean:
  assumes "tab_ok t pg ps" and "m \<le> length ps"
  shows "tab_ok t (clean_page m pg) (take m ps)"
  using assms slots_ok_clean [of "aHash pg" ps m] by (auto simp: tab_ok_def clean_page_def)

text \<open>The index after the page of a frame was replaced: later pages are forgotten.\<close>

lemma wi_ok_cut:
  assumes ok: "wi_ok wi log" and f: "0 < f" "f \<le> length log" and tab: "tab_ok (walFramePage f) pg (take (f - walZero (walFramePage f)) (wal_slice (walFramePage f) log))"
  shows "wi_ok (wi[walFramePage f := Some pg]) (take f log)"
proof -
  let ?t = "walFramePage f"
  have ne: "log \<noteq> []" using f by auto
  have mapped: "t < length wi \<and> (\<exists>pg. wi ! t = Some pg \<and> tab_ok t pg (wal_slice t log))" if "t \<le> ?t" for t
    using ok ne that walFramePage_mono [OF f(2)] unfolding wi_ok_def by (meson le_trans)
  have here: "wal_slice ?t (take f log) = take (f - walZero ?t) (wal_slice ?t log)"
    by (simp add: wal_slice_def drop_take min.commute)
  have before: "wal_slice t (take f log) = wal_slice t log" if "t < ?t" for t
    using below_framePage [OF that] by (simp add: wal_slice_def drop_take walZero_Suc)
  have "\<exists>pg'. wi[?t := Some pg] ! t = Some pg' \<and> tab_ok t pg' (wal_slice t (take f log))" if "t \<le> ?t" for t
    using mapped [OF that] before [of t] tab here that by (cases "t = ?t") auto
  moreover have "page_shape t pg'" if "t < length wi" "wi[?t := Some pg] ! t = Some pg'" for t pg'
    using that ok tab_ok_shape [OF tab] unfolding wi_ok_def by (cases "t = ?t") auto
  ultimately show ?thesis
    using ok mapped f(2) unfolding wi_ok_def by (auto simp: min_absorb2 dest: in_set_takeD)
qed

lemma wi_ok_push:
  assumes ok: "wi_ok wi log" and p: "p \<noteq> 0" "Suc (length log) < 2 ^ 32"
    and t: "t = walFramePage (Suc (length log))" "t < length wi" and tab: "tab_ok t pg (wal_slice t log @ [p])"
  shows "wi_ok (wi[t := Some pg]) (log @ [p])"
proof -
  have z: "walZero t < Suc (length log)" "Suc (length log) \<le> walZero t + npage t"
    using walZero_framePage [of "Suc (length log)"] t(1) by simp_all
  have here: "wal_slice t (log @ [p]) = wal_slice t log @ [p]" using z by (simp add: wal_slice_def Suc_le_eq)
  have before: "wal_slice u (log @ [p]) = wal_slice u log" if "u < t" for u
    using below_framePage [of u "Suc (length log)"] that t(1) by (simp add: wal_slice_def walZero_Suc)
  have old: "u < length wi \<and> (\<exists>pg. wi ! u = Some pg \<and> tab_ok u pg (wal_slice u log))" if "u < t" for u
  proof -
    have "log \<noteq> []" using that t(1) by (auto simp: walFramePage_eq)
    moreover have "u \<le> walFramePage (length log)"
      using below_framePage [of u "Suc (length log)"] that t(1) walFramePage_mono [of "walZero (Suc u)" "length log"]
        walFramePage_iff [of "walZero (Suc u)" u] npage_bounds [of u] by (simp add: walZero_Suc)
    ultimately show ?thesis using ok unfolding wi_ok_def by blast
  qed
  have "u < length wi \<and> (\<exists>pg'. wi[t := Some pg] ! u = Some pg' \<and> tab_ok u pg' (wal_slice u (log @ [p])))" if "u \<le> t" for u
    using old [of u] before [of u] tab here t(2) that by (cases "u = t") auto
  moreover have "page_shape u pg'" if "u < length wi" "wi[t := Some pg] ! u = Some pg'" for u pg'
    using that ok tab_ok_shape [OF tab] unfolding wi_ok_def by (cases "u = t") auto
  ultimately show ?thesis using ok p t(1) unfolding wi_ok_def by auto
qed

lemma cleanup_ok:
  assumes ok: "wi_ok (apWiData w) log" and mx: "unat (mxFrame (wal_hdr w)) \<le> length log"
  obtains wi' where "walCleanupHash e w = Some (w\<lparr>apWiData := wi'\<rparr>)" and "wi_ok wi' (take (unat (mxFrame (wal_hdr w))) log)"
    and "unat (mxFrame (wal_hdr w)) = 0 \<or> (\<exists>pg. apWiData w ! walFramePage (unat (mxFrame (wal_hdr w))) = Some pg
      \<and> wi' = (apWiData w)[walFramePage (unat (mxFrame (wal_hdr w)))
          := Some (clean_page (unat (mxFrame (wal_hdr w)) - walZero (walFramePage (unat (mxFrame (wal_hdr w))))) pg)])"
proof -
  let ?m = "unat (mxFrame (wal_hdr w))"
  let ?t = "walFramePage ?m"
  show thesis
  proof (cases "?m = 0")
    case True
    then show thesis using ok by (intro that [of "apWiData w"]) (auto simp: walCleanupHash_def wi_ok_def)
  next
    case False
    then have ne: "log \<noteq> []" using mx by auto
    obtain pg where pg: "?t < length (apWiData w)" "apWiData w ! ?t = Some pg" "tab_ok ?t pg (wal_slice ?t log)"
      using wi_ok_page [OF ok ne walFramePage_mono [OF mx]] .
    have "?m - walZero ?t \<le> length (wal_slice ?t log)"
      using walZero_framePage(2) [of ?m] False mx unfolding length_wal_slice by simp linarith
    then have "tab_ok ?t (clean_page (?m - walZero ?t) pg) (take (?m - walZero ?t) (wal_slice ?t log))"
      by (rule tab_clean [OF pg(3)])
    then have "wi_ok ((apWiData w)[?t := Some (clean_page (?m - walZero ?t) pg)]) (take ?m log)"
      using False mx by (intro wi_ok_cut [OF ok]) simp_all
    moreover have "walCleanupHash e w = Some (w\<lparr>apWiData := (apWiData w)[?t := Some (clean_page (?m - walZero ?t) pg)]\<rparr>)"
      using hash_get_mapped [OF pg(1,2), of e] False by (simp add: walCleanupHash_def Let_def set_page_def)
    ultimately show thesis using that pg(2) by blast
  qed
qed

lemma free_slot_push:
  assumes tab: "tab_ok t pg (wal_slice t log)" and "length (wal_slice t log) < npage t"
    and ok: "wi_ok wi log" and p: "p \<noteq> 0" "Suc (length log) < 2 ^ 32"
    and t: "t = walFramePage (Suc (length log))" "t < length wi" and n: "length (wal_slice t log) \<le> n"
  obtains i pg' where "free_slot n (aHash pg) (walHash p) = Some (Some i)" and "i < length (aHash pg)"
    and "pg' = pg\<lparr>aPgno := (aPgno pg)[length (wal_slice t log) := p], aHash := (aHash pg)[i := word_of_nat (Suc (length (wal_slice t log)))]\<rparr>"
    and "wi_ok (wi[t := Some pg']) (log @ [p])"
proof -
  obtain i where i: "free_slot n (aHash pg) (walHash p) = Some (Some i)" "i < HASHTABLE_NSLOT"
    "tab_ok t (pg\<lparr>aPgno := (aPgno pg)[length (wal_slice t log) := p], aHash := (aHash pg)[i := word_of_nat (Suc (length (wal_slice t log)))]\<rparr>)
      (wal_slice t log @ [p])"
    using tab_add [OF tab assms(2) n] .
  show thesis
    by (rule that [OF i(1) _ refl wi_ok_push [OF ok p t i(3)]]) (use i(2) tab in \<open>simp add: tab_ok_def slots_ok_def\<close>)
qed

text \<open>
  Adding a frame: the one after the log, or the one after the last valid frame when others follow it that
  were never committed; these are then forgotten.
\<close>

definition next_frame :: "Wal \<Rightarrow> u32 list \<Rightarrow> nat \<Rightarrow> bool" where
  "next_frame w log f \<longleftrightarrow> f = Suc (length log) \<or> f = Suc (unat (mxFrame (wal_hdr w))) \<and> f \<le> length log"

lemma slice_before: "f \<le> Suc (length log) \<Longrightarrow> 0 < f \<Longrightarrow> length (wal_slice (walFramePage f) (take (f - 1) log)) = f - 1 - walZero (walFramePage f)"
  using walZero_framePage [of f] unfolding length_wal_slice by (auto simp: min_def)

lemma wi_ok_trim:
  assumes ok: "wi_ok wi log" and "m \<le> length log" and m: "m = 0 \<or> m = walZero (Suc (walFramePage m))"
  shows "wi_ok wi (take m log)"
proof (cases "m = 0")
  case True
  then show ?thesis using ok by (simp add: wi_ok_def)
next
  case False
  let ?t = "walFramePage m"
  have "log \<noteq> []" using False assms(2) by auto
  then obtain pg where pg: "?t < length wi" "wi ! ?t = Some pg" "tab_ok ?t pg (wal_slice ?t log)"
    using wi_ok_page [OF ok _ walFramePage_mono [OF assms(2)]] by blast
  have "m - walZero ?t = npage ?t" using m False unfolding walZero_Suc by linarith
  then have "take (m - walZero ?t) (wal_slice ?t log) = wal_slice ?t log" by (simp add: wal_slice_def)
  then have "wi_ok (wi[?t := Some pg]) (take m log)" using False assms(2) pg(3) by (intro wi_ok_cut [OF ok]) simp_all
  then show ?thesis using pg(2) by (metis list_update_id)
qed

text \<open>The page of the frame is mapped. It is the first of its page, which is zeroed, or a later one.\<close>

lemma append_first:
  assumes ok': "wi_ok wi' log" and nxt: "next_frame w log f" and p: "p \<noteq> 0" "f < 2 ^ 32"
    and get: "walHashGet e w (walFramePage f) = (SQLITE_OK, Some pg, walZero (walFramePage f), w\<lparr>apWiData := wi', readOnly := ro\<rparr>)"
    and pg: "walFramePage f < length wi'" "wi' ! walFramePage f = Some pg" and first: "f - walZero (walFramePage f) = 1"
  obtains wi2 where "walIndexAppend e w f p = Some (SQLITE_OK, w\<lparr>apWiData := wi2, readOnly := ro\<rparr>)" and "wi_ok wi2 (take (f - 1) log @ [p])"
proof -
  let ?t = "walFramePage f"
  let ?log = "take (f - 1) log"
  have f: "0 < f" "f \<le> Suc (length log)" using nxt by (auto simp: next_frame_def)
  have z: "walZero ?t < f" "f \<le> walZero ?t + npage ?t" using walZero_framePage [OF f(1)] .
  have lt: "Suc (length ?log) < 2 ^ 32" "?t = walFramePage (Suc (length ?log))" using f p by simp_all
  have shape: "page_shape ?t pg" using ok' pg unfolding wi_ok_def by blast
  let ?zero = "zero_page ?t"
  have zero: "pg\<lparr>aPgno := replicate (length (aPgno pg)) 0, aHash := replicate (length (aHash pg)) 0\<rparr> = ?zero"
    using shape by (simp add: page_shape_def zero_page_def)
  have nil: "wal_slice ?t ?log = []" using slice_before [OF f(2,1)] first by simp
  have "f - 1 = 0 \<or> f - 1 = walZero (Suc (walFramePage (f - 1)))"
  proof (cases "f - 1 = 0")
    case False
    have "walZero ?t = f - 1" using first z by simp
    moreover have "?t = Suc (walFramePage (f - 1))"
      using walFramePage_iff [of "f - 1" "?t - 1"] calculation False npage_bounds [of "?t - 1"] walZero_Suc [of "?t - 1"]
      by (cases ?t) (auto simp: walZero_def)
    ultimately show ?thesis by simp
  qed simp
  then have cut: "wi_ok wi' ?log" using f by (intro wi_ok_trim [OF ok']) simp_all
  have "tab_ok ?t ?zero (wal_slice ?t ?log)" "length (wal_slice ?t ?log) < npage ?t"
    using zero_page_ok [of ?t] npage_bounds [of ?t] unfolding nil by simp_all
  then obtain i pg' where i: "free_slot 1 (aHash ?zero) (walHash p) = Some (Some i)" "i < length (aHash ?zero)"
    "pg' = ?zero\<lparr>aPgno := (aPgno ?zero)[length (wal_slice ?t ?log) := p], aHash := (aHash ?zero)[i := word_of_nat (Suc (length (wal_slice ?t ?log)))]\<rparr>"
    "wi_ok (wi'[?t := Some pg']) (?log @ [p])"
    using free_slot_push [OF _ _ cut p(1) lt pg(1), of ?zero 1] nil by auto
  have "0 < npage ?t" using npage_bounds [of ?t] by simp
  then have "walIndexAppend e w f p = Some (SQLITE_OK, w\<lparr>apWiData := wi'[?t := Some pg'], readOnly := ro\<rparr>)"
    using get pg first zero i(1-3) [unfolded nil] by (simp add: walIndexAppend_def Let_def set_page_def rd_def) (simp add: zero_page_def)
  then show thesis using i(4) by (rule that)
qed

lemma append_later:
  assumes ok: "wi_ok (apWiData w) log" and ok': "wi_ok wi' log" and nxt: "next_frame w log f" and p: "p \<noteq> 0" "f < 2 ^ 32"
    and get: "walHashGet e w (walFramePage f) = (SQLITE_OK, Some pg, walZero (walFramePage f), w\<lparr>apWiData := wi', readOnly := ro\<rparr>)"
    and pg: "walFramePage f < length wi'" "wi' ! walFramePage f = Some pg" and False: "f - walZero (walFramePage f) \<noteq> 1"
  obtains wi2 where "walIndexAppend e w f p = Some (SQLITE_OK, w\<lparr>apWiData := wi2, readOnly := ro\<rparr>)" and "wi_ok wi2 (take (f - 1) log @ [p])"
proof -
  let ?t = "walFramePage f"
  let ?log = "take (f - 1) log"
  let ?w = "w\<lparr>apWiData := wi', readOnly := ro\<rparr>"
  have f: "0 < f" "f \<le> Suc (length log)" using nxt by (auto simp: next_frame_def)
  have z: "walZero ?t < f" "f \<le> walZero ?t + npage ?t" using walZero_framePage [OF f(1)] .
  have len: "length ?log = f - 1" using f by simp
  have sl: "length (wal_slice ?t ?log) = f - 1 - walZero ?t" using slice_before [OF f(2,1)] .
  have idx: "Suc (f - 1 - walZero ?t) = f - walZero ?t" "f - 1 - walZero ?t < npage ?t" using z by auto
  have lt: "Suc (length ?log) < 2 ^ 32" "?t = walFramePage (Suc (length ?log))" using f p len by simp_all
  have shape: "page_shape ?t pg" using ok' pg unfolding wi_ok_def by blast
  have later: "f - 1 > walZero ?t" "f - 1 \<le> length log" using False z f by auto
  have same: "walFramePage (f - 1) = ?t" using later z walFramePage_iff [of "f - 1" ?t] by (auto simp: walZero_Suc)
  have "log \<noteq> []" using later by auto
  have tab: "tab_ok ?t pg (wal_slice ?t log)"
    using wi_ok_page [OF ok' \<open>log \<noteq> []\<close>, of ?t] walFramePage_mono [OF later(2)] same pg(2) by (metis option.inject)
  have at: "aPgno pg = wal_slice ?t log @ replicate (npage ?t - length (wal_slice ?t log)) 0" using tab by (simp add: tab_ok_def)
  obtain pg' wi2 where clean: "aPgno pg ! (f - walZero ?t - 1) = 0 \<and> wi2 = wi' \<and> pg' = pg
      \<or> aPgno pg ! (f - walZero ?t - 1) \<noteq> 0 \<and> walCleanupHash e ?w = Some (?w\<lparr>apWiData := wi2\<rparr>)"
    "wi_ok wi2 ?log" "wi2 ! ?t = Some pg'" "?t < length wi2"
  proof (cases "f = Suc (length log)")
    case True
    then have "aPgno pg ! (f - walZero ?t - 1) = 0" using sl idx(2) later unfolding at by (simp add: nth_append)
    then show thesis using that [of wi' pg] ok' pg True by simp
  next
    case False
    then have mx: "f = Suc (unat (mxFrame (wal_hdr w)))" "f \<le> length log" using nxt by (auto simp: next_frame_def)
    let ?m = "unat (mxFrame (wal_hdr w))"
    have k: "f - walZero ?t - 1 < length (wal_slice ?t log)" using mx(2) idx(2) later unfolding length_wal_slice by linarith
    have "log ! (f - 1) \<in> set log" using mx(2) f(1) by simp
    then have "aPgno pg ! (f - walZero ?t - 1) \<noteq> 0"
      using ok nth_wal_slice [OF k] k later unfolding at wi_ok_def by (auto simp: nth_append)
    moreover obtain wi2 where wi2: "walCleanupHash e ?w = Some (?w\<lparr>apWiData := wi2\<rparr>)" "wi_ok wi2 (take ?m log)"
      "?m = 0 \<or> (\<exists>pg. wi' ! walFramePage ?m = Some pg \<and> wi2 = wi'[walFramePage ?m := Some (clean_page (?m - walZero (walFramePage ?m)) pg)])"
      using cleanup_ok [of ?w log e] ok' mx by auto
    moreover have "walFramePage ?m = ?t" "?m \<noteq> 0" using same later mx(1) by auto
    ultimately show thesis using that [of wi2] pg mx(1) by auto
  qed
  have "tab_ok ?t pg' (wal_slice ?t ?log)"
    using wi_ok_page [OF clean(2), of ?t] same later clean(3) len by (metis length_0_conv less_nat_zero_code option.inject order_refl)
  then obtain i pg2 where i: "free_slot (f - walZero ?t) (aHash pg') (walHash p) = Some (Some i)" "i < length (aHash pg')"
    "pg2 = pg'\<lparr>aPgno := (aPgno pg')[length (wal_slice ?t ?log) := p], aHash := (aHash pg')[i := word_of_nat (Suc (length (wal_slice ?t ?log)))]\<rparr>"
    "wi_ok (wi2[?t := Some pg2]) (?log @ [p])"
    using free_slot_push [OF _ _ clean(2) p(1) lt clean(4), of pg' "f - walZero ?t"] sl idx by auto
  have "f - walZero ?t - 1 < length (aPgno pg)" "f - walZero ?t - 1 < length (aPgno pg')"
    using shape clean(2-4) idx(2) unfolding wi_ok_def page_shape_def by auto
  then have "walIndexAppend e w f p = Some (SQLITE_OK, w\<lparr>apWiData := wi2[?t := Some pg2], readOnly := ro\<rparr>)"
    using clean(1)
  proof (elim disjE conjE)
    assume "aPgno pg ! (f - walZero ?t - 1) = 0" "wi2 = wi'" "pg' = pg"
    then show ?thesis using get pg False i(1-3) sl idx \<open>f - walZero ?t - 1 < length (aPgno pg)\<close>
      by (simp add: walIndexAppend_def Let_def set_page_def rd_def)
  next
    assume "aPgno pg ! (f - walZero ?t - 1) \<noteq> 0" "walCleanupHash e ?w = Some (?w\<lparr>apWiData := wi2\<rparr>)"
    then show ?thesis
      using get pg False clean(3) i(1-3) sl idx \<open>f - walZero ?t - 1 < length (aPgno pg)\<close> \<open>f - walZero ?t - 1 < length (aPgno pg')\<close>
      by (simp add: walIndexAppend_def Let_def set_page_def rd_def)
  qed
  then show thesis using i(4) by (rule that)
qed

lemma append_ok:
  assumes ok: "wi_ok (apWiData w) log" and env: "env_ok e" "writeLock w" and nxt: "next_frame w log f" and p: "p \<noteq> 0" "f < 2 ^ 32"
  obtains rc wi' ro where "walIndexAppend e w f p = Some (rc, w\<lparr>apWiData := wi', readOnly := ro\<rparr>)"
    and "rc = SQLITE_OK \<Longrightarrow> wi_ok wi' (take (f - 1) log @ [p])" and "rc \<noteq> SQLITE_OK \<Longrightarrow> wi_ok wi' log"
    and "rc = fst (walHashGet e w (walFramePage f))"
proof -
  let ?t = "walFramePage f"
  obtain rc q wi' ro where get: "walHashGet e w ?t = (rc, q, walZero ?t, w\<lparr>apWiData := wi', readOnly := ro\<rparr>)"
    and ext: "wi_extends (apWiData w) wi'"
    and okget: "rc = SQLITE_OK \<Longrightarrow> \<exists>pg. q = Some pg \<and> page_shape ?t pg \<and> ?t < length wi' \<and> wi' ! ?t = Some pg
      \<or> (\<exists>pg. q = Some pg \<and> ?t < length (apWiData w) \<and> apWiData w ! ?t = Some pg \<and> wi' = apWiData w)"
    using hash_get [OF env] by metis
  note ok' = wi_ok_extends [OF ok ext]
  show thesis
  proof (cases "rc = SQLITE_OK")
    case False
    then show thesis using get ok' by (intro that [of rc ro wi']) (simp_all add: walIndexAppend_def)
  next
    case True
    then obtain pg where "q = Some pg" and pg: "?t < length wi'" "wi' ! ?t = Some pg" using okget by blast
    then have get: "walHashGet e w ?t = (SQLITE_OK, Some pg, walZero ?t, w\<lparr>apWiData := wi', readOnly := ro\<rparr>)" using get True by simp
    then show thesis
      using append_first [OF ok' nxt p get pg] append_later [OF ok ok' nxt p get pg] that get by (cases "f - walZero ?t = 1") (metis fst_conv)+
  qed
qed

section \<open>The page of a frame, and going back\<close>

lemma frame_pgno:
  assumes ok: "wi_ok (apWiData w) log" and f: "0 < f" "f \<le> length log"
  shows "walFramePgno w f = Some (log ! (f - 1))"
proof -
  let ?t = "walFramePage f"
  have z: "walZero ?t < f" "f \<le> walZero ?t + npage ?t" using walZero_framePage [OF f(1)] .
  have ne: "log \<noteq> []" using f by auto
  obtain pg where pg: "?t < length (apWiData w)" "apWiData w ! ?t = Some pg" "tab_ok ?t pg (wal_slice ?t log)"
    using wi_ok_page [OF ok ne walFramePage_mono [OF f(2)]] .
  have k: "f - 1 - walZero ?t < length (wal_slice ?t log)" using z f unfolding length_wal_slice by linarith
  have "rd (aPgno pg) (f - 1 - walZero ?t) = Some (log ! (f - 1))"
    using pg(3) k nth_wal_slice [OF k] z(1) by (auto simp: tab_ok_def rd_def nth_append)
  moreover have "(f - 1 - HASHTABLE_NPAGE_ONE) mod HASHTABLE_NPAGE = f - 1 - walZero ?t" if "?t \<noteq> 0"
  proof -
    obtain u where u: "?t = Suc u" using \<open>?t \<noteq> 0\<close> by (cases ?t) auto
    have "walZero ?t = HASHTABLE_NPAGE_ONE + u * HASHTABLE_NPAGE" "npage ?t = HASHTABLE_NPAGE" by (simp_all add: u walZero_def npage_def)
    then have "f - 1 - HASHTABLE_NPAGE_ONE = (f - 1 - walZero ?t) + u * HASHTABLE_NPAGE" "f - 1 - walZero ?t < HASHTABLE_NPAGE"
      using z by linarith+
    then show ?thesis by simp
  qed
  moreover have "walZero ?t = 0" if "?t = 0" using that by (simp add: walZero_def)
  ultimately show ?thesis using pg(1,2) f by (cases "?t = 0") (simp_all add: walFramePgno_def Let_def rd_def [of "apWiData w"])
qed

lemma undo_loop_ok:
  assumes ok: "wi_ok (apWiData w) log"
  shows "f + n \<le> length log \<Longrightarrow> \<exists>rc ps. undo_loop xUndo w (Suc f) n = Some (rc, ps)
    \<and> ((\<forall>p. xUndo p = SQLITE_OK) \<longrightarrow> rc = SQLITE_OK \<and> ps = take n (drop f log))"
proof (induction n arbitrary: f)
  case (Suc n)
  have p: "walFramePgno w (Suc f) = Some (log ! f)" using frame_pgno [OF ok, of "Suc f"] Suc(2) by simp
  have d: "drop f log = log ! f # drop (Suc f) log" using Suc(2) by (simp add: Cons_nth_drop_Suc)
  obtain rc ps where "undo_loop xUndo w (Suc (Suc f)) n = Some (rc, ps)"
    "(\<forall>p. xUndo p = SQLITE_OK) \<longrightarrow> rc = SQLITE_OK \<and> ps = take n (drop (Suc f) log)" using Suc(1) [of "Suc f"] Suc(2) by auto
  then show ?case using p by (auto simp: d)
qed simp

section \<open>A writer and its steps\<close>

text \<open>
  The state of the holder of the write lock: the index holds the log, the shared header the last committed
  frame, the private header the last frame of the transaction.
\<close>

definition committed :: "Wal \<Rightarrow> nat" where
  "committed w = unat (mxFrame (aHdr0 w))"

definition wal_rep :: "Wal \<Rightarrow> u32 list \<Rightarrow> bool" where
  "wal_rep w log \<longleftrightarrow> wi_ok (apWiData w) log \<and> writeLock w
     \<and> committed w \<le> unat (mxFrame (wal_hdr w)) \<and> unat (mxFrame (wal_hdr w)) \<le> length log"

text \<open>
  What can happen: frames are published, with or without a commit; the transaction is rolled back, as a
  whole or to a savepoint of its own; the writer dies and another one reads the shared header.
\<close>

inductive wal_step :: "Wal \<Rightarrow> Wal \<Rightarrow> bool" where
  frames: "\<forall>f. env_ok (es f) \<Longrightarrow> 0 \<notin> set pgnos \<Longrightarrow> pgnos \<noteq> [] \<or> nExtra = 0 \<Longrightarrow>
    unat (mxFrame (wal_hdr w)) + length pgnos + nExtra < 2 ^ 32 \<Longrightarrow>
    publish_frames es w pgnos nExtra szPage nTruncate isCommit = Some (rc, w') \<Longrightarrow> wal_step w w'"
| undo: "sqlite3WalUndo e xUndo w = Some (rc, ps, w') \<Longrightarrow> wal_step w w'"
| savepoint: "committed w \<le> unat (fst d) \<Longrightarrow> snd (snd (snd d)) = nCkpt w \<Longrightarrow>
    sqlite3WalSavepointUndo e w d = Some (d', w') \<Longrightarrow> wal_step w w'"
| writer: "walIndexTryHdr (aHdr0 w) (aHdr1 w) w = (False, changed, w') \<Longrightarrow> wal_step w w'"

lemma append_frames_ok:
  assumes "\<forall>f. env_ok (es f)"
  shows "wi_ok (apWiData w) log \<Longrightarrow> writeLock w \<Longrightarrow> next_frame w log (Suc f) \<Longrightarrow> 0 \<notin> set ps \<Longrightarrow> f + length ps < 2 ^ 32 \<Longrightarrow>
    \<exists>rc g wi ro log'. append_frames es w f ps = Some (rc, g, w\<lparr>apWiData := wi, readOnly := ro\<rparr>)
      \<and> wi_ok wi log' \<and> take f log' = take f log \<and> f \<le> length log'
      \<and> (rc = SQLITE_OK \<longrightarrow> g = f + length ps \<and> log' = (if ps = [] then log else take f log @ ps))"
proof (induction ps arbitrary: w log f)
  case Nil
  then have "f \<le> length log" by (auto simp: next_frame_def)
  then show ?case using Nil by (intro exI [of _ SQLITE_OK] exI [of _ f] exI [of _ "apWiData w"] exI [of _ "readOnly w"] exI [of _ log]) simp
next
  case (Cons p ps)
  have f: "f \<le> length log" using Cons(4) by (auto simp: next_frame_def)
  have p: "p \<noteq> 0" "Suc f < 2 ^ 32" using Cons(5,6) by auto
  obtain rc wi ro where a: "walIndexAppend (es (Suc f)) w (Suc f) p = Some (rc, w\<lparr>apWiData := wi, readOnly := ro\<rparr>)"
    "rc = SQLITE_OK \<Longrightarrow> wi_ok wi (take f log @ [p])" "rc \<noteq> SQLITE_OK \<Longrightarrow> wi_ok wi log"
    using append_ok [OF Cons(2) spec [OF assms, of "Suc f"] Cons(3,4) p] unfolding diff_Suc_1 by blast
  show ?case
  proof (cases "rc = SQLITE_OK")
    case False
    then show ?thesis using a f
      by (intro exI [of _ rc] exI [of _ "Suc f"] exI [of _ wi] exI [of _ ro] exI [of _ log]) simp
  next
    case True
    let ?log = "take f log @ [p]"
    have nxt: "next_frame (w\<lparr>apWiData := wi, readOnly := ro\<rparr>) ?log (Suc (Suc f))" using f by (simp add: next_frame_def)
    let ?w = "w\<lparr>apWiData := wi, readOnly := ro\<rparr>"
    have "\<exists>rc g wi' ro log'. append_frames es ?w (Suc f) ps = Some (rc, g, ?w\<lparr>apWiData := wi', readOnly := ro\<rparr>)
        \<and> wi_ok wi' log' \<and> take (Suc f) log' = take (Suc f) ?log \<and> Suc f \<le> length log'
        \<and> (rc = SQLITE_OK \<longrightarrow> g = Suc f + length ps \<and> log' = (if ps = [] then ?log else take (Suc f) ?log @ ps))"
      using Cons(3,5,6) a(2) [OF True] by (intro Cons(1) nxt) simp_all
    then obtain rc' g wi' ro' log' where b: "append_frames es ?w (Suc f) ps = Some (rc', g, w\<lparr>apWiData := wi', readOnly := ro'\<rparr>)"
      "wi_ok wi' log'" "take (Suc f) log' = take (Suc f) ?log" "Suc f \<le> length log'"
      "rc' = SQLITE_OK \<longrightarrow> g = Suc f + length ps \<and> log' = (if ps = [] then ?log else take (Suc f) ?log @ ps)"
      by (elim exE conjE) (rule that, simp_all)
    have "take f log' = take f log" using arg_cong [OF b(3), of "take f"] f by (simp add: min_absorb1)
    moreover have "append_frames es w f (p # ps) = append_frames es ?w (Suc f) ps" using a(1) True by simp
    moreover have "rc' = SQLITE_OK \<longrightarrow> g = f + length (p # ps) \<and> log' = take f log @ p # ps" using b(5) f by simp
    ultimately show ?thesis using b(1,2,4) by (intro exI [of _ rc'] exI [of _ g] exI [of _ wi'] exI [of _ ro'] exI [of _ log']) simp
  qed
qed

lemma publish_ok:
  assumes rep: "wal_rep w log" and env: "\<forall>f. env_ok (es f)" and ps: "0 \<notin> set pgnos" "pgnos \<noteq> [] \<or> nExtra = 0"
    and small: "unat (mxFrame (wal_hdr w)) + length pgnos + nExtra < 2 ^ 32"
  obtains rc w' log' where "publish_frames es w pgnos nExtra szPage nTruncate isCommit = Some (rc, w')" and "wal_rep w' log'"
    and "take (unat (mxFrame (wal_hdr w))) log' = take (unat (mxFrame (wal_hdr w))) log"
    and "committed w' = (if rc = SQLITE_OK \<and> isCommit then unat (mxFrame (wal_hdr w')) else committed w)"
    and "unat (mxFrame (wal_hdr w')) = (if rc = SQLITE_OK then unat (mxFrame (wal_hdr w)) + length pgnos + nExtra else unat (mxFrame (wal_hdr w)))"
    and "rc = SQLITE_OK \<Longrightarrow> pgnos \<noteq> [] \<Longrightarrow> log' = take (unat (mxFrame (wal_hdr w))) log @ pgnos @ replicate nExtra (last pgnos)"
    and "readLock w' = readLock w" and "bShmUnreliable w' = bShmUnreliable w" and "minFrame w' = minFrame w"
proof -
  let ?m = "unat (mxFrame (wal_hdr w))"
  let ?ps = "pgnos @ replicate nExtra (last pgnos)"
  have ok: "wi_ok (apWiData w) log" "writeLock w" "committed w \<le> ?m" "?m \<le> length log" using rep by (simp_all add: wal_rep_def)
  have nz: "0 \<notin> set ?ps" using ps by (cases "pgnos = []") (auto dest: last_in_set)
  have nxt: "next_frame w log (Suc ?m)" using ok(4) by (auto simp: next_frame_def)
  obtain rc g wi ro log' where a: "append_frames es w ?m ?ps = Some (rc, g, w\<lparr>apWiData := wi, readOnly := ro\<rparr>)"
    "wi_ok wi log'" "take ?m log' = take ?m log" "?m \<le> length log'"
    "rc = SQLITE_OK \<longrightarrow> g = ?m + length ?ps \<and> log' = (if ?ps = [] then log else take ?m log @ ?ps)"
    using append_frames_ok [OF env ok(1,2) nxt nz] small by auto
  show thesis
  proof (cases "rc = SQLITE_OK")
    case False
    then show thesis using a ok
      by (intro that [of rc "w\<lparr>apWiData := wi, readOnly := ro\<rparr>" log']) (simp_all add: publish_frames_def wal_rep_def committed_def)
  next
    case True
    let ?h = "(wal_hdr w)\<lparr>hdr_szPage := word_of_nat ((szPage AND 0xff00) OR drop_bit 16 szPage), mxFrame := word_of_nat g\<rparr>"
    let ?h2 = "if isCommit then ?h\<lparr>iChange := iChange ?h + 1, nPage := nTruncate\<rparr> else ?h"
    let ?w1 = "w\<lparr>apWiData := wi, readOnly := ro, wal_hdr := ?h2\<rparr>"
    let ?w = "if isCommit then walIndexWriteHdr ?w1 else ?w1"
    have g: "g = ?m + length pgnos + nExtra" "g \<le> length log'" "g < 2 ^ 32" using True a(5) small ok(4) by (auto split: if_splits)
    have u: "unat (word_of_nat g :: u32) = g" using g(3) by (simp add: unat_of_nat)
    have eq: "publish_frames es w pgnos nExtra szPage nTruncate isCommit = Some (rc, ?w)"
      using a(1) True by (simp add: publish_frames_def Let_def)
    have "unat (mxFrame (wal_hdr ?w)) = g" "committed ?w = (if isCommit then g else committed w)" "apWiData ?w = wi" "writeLock ?w"
      "readLock ?w = readLock w" "bShmUnreliable ?w = bShmUnreliable w" "minFrame ?w = minFrame w"
      using u ok(2) by (simp_all add: walIndexWriteHdr_def Let_def committed_def)
    then show thesis using a(2-5) True g ok(3,4) by (intro that [OF eq, of log']) (auto simp: wal_rep_def)
  qed
qed

lemma undo_ok:
  assumes rep: "wal_rep w log"
  obtains rc ps w' log' where "sqlite3WalUndo e xUndo w = Some (rc, ps, w')" and "wal_rep w' log'"
    and "take (committed w) log' = take (committed w) log" and "committed w' = committed w" and "wal_hdr w' = aHdr0 w"
    and "(\<forall>p. xUndo p = SQLITE_OK) \<longrightarrow> rc = SQLITE_OK \<and> ps = take (unat (mxFrame (wal_hdr w)) - committed w) (drop (committed w) log)"
proof -
  let ?m = "unat (mxFrame (wal_hdr w))"
  let ?w = "w\<lparr>wal_hdr := aHdr0 w\<rparr>"
  have ok: "wi_ok (apWiData ?w) log" "writeLock w" "committed w \<le> ?m" "?m \<le> length log" using rep by (simp_all add: wal_rep_def)
  obtain rc ps where u: "undo_loop xUndo ?w (Suc (committed w)) (?m - committed w) = Some (rc, ps)"
    "(\<forall>p. xUndo p = SQLITE_OK) \<longrightarrow> rc = SQLITE_OK \<and> ps = take (?m - committed w) (drop (committed w) log)"
    using undo_loop_ok [OF ok(1), of "committed w" "?m - committed w" xUndo] ok(3,4) by auto
  show thesis
  proof (cases "?m = committed w")
    case True
    then have "sqlite3WalUndo e xUndo w = Some (rc, ps, ?w)" using u ok(2) by (simp add: sqlite3WalUndo_def Let_def committed_def)
    moreover have "wal_rep ?w log" using ok True by (simp add: wal_rep_def committed_def)
    ultimately show thesis using u by (intro that [of rc ps ?w log]) (simp_all add: committed_def)
  next
    case False
    obtain wi where wi: "walCleanupHash e ?w = Some (?w\<lparr>apWiData := wi\<rparr>)" "wi_ok wi (take (committed w) log)"
      using cleanup_ok [OF ok(1), of e] ok(3,4) by (auto simp: committed_def)
    then have "sqlite3WalUndo e xUndo w = Some (rc, ps, ?w\<lparr>apWiData := wi\<rparr>)"
      using u ok(2) False by (simp add: sqlite3WalUndo_def Let_def committed_def)
    moreover have "wal_rep (?w\<lparr>apWiData := wi\<rparr>) (take (committed w) log)" using wi ok by (simp add: wal_rep_def committed_def)
    ultimately show thesis using u by (intro that [of rc ps "?w\<lparr>apWiData := wi\<rparr>" "take (committed w) log"]) (simp_all add: committed_def)
  qed
qed

lemma savepoint_ok:
  assumes rep: "wal_rep w log" and d: "committed w \<le> unat (fst d)" "snd (snd (snd d)) = nCkpt w"
  obtains w' log' where "sqlite3WalSavepointUndo e w d = Some (d, w')" and "wal_rep w' log'" and "committed w' = committed w"
    and "take (unat (fst d)) log' = take (unat (fst d)) log"
    and "unat (mxFrame (wal_hdr w')) = min (unat (fst d)) (unat (mxFrame (wal_hdr w)))"
proof -
  obtain d0 d1 d2 d3 where dd: "d = (d0, d1, d2, d3)" by (cases d)
  have ok: "wi_ok (apWiData w) log" "writeLock w" "committed w \<le> unat (mxFrame (wal_hdr w))" "unat (mxFrame (wal_hdr w)) \<le> length log"
    using rep by (simp_all add: wal_rep_def)
  show thesis
  proof (cases "d0 < mxFrame (wal_hdr w)")
    case False
    then show thesis using rep d
      by (intro that [of w log]) (simp_all add: sqlite3WalSavepointUndo_def dd min_def word_less_nat_alt)
  next
    case True
    let ?w = "w\<lparr>wal_hdr := (wal_hdr w)\<lparr>mxFrame := d0, aFrameCksum := (d1, d2)\<rparr>\<rparr>"
    have le: "unat d0 \<le> length log" using True ok(4) by (simp add: word_less_nat_alt)
    obtain wi where wi: "walCleanupHash e ?w = Some (?w\<lparr>apWiData := wi\<rparr>)" "wi_ok wi (take (unat d0) log)"
      using cleanup_ok [of ?w log e] ok(1) le by auto
    have "sqlite3WalSavepointUndo e w d = Some (d, ?w\<lparr>apWiData := wi\<rparr>)"
      using True wi(1) d(2) by (simp add: sqlite3WalSavepointUndo_def dd)
    moreover have "wal_rep (?w\<lparr>apWiData := wi\<rparr>) (take (unat d0) log)"
      using wi ok le d(1) by (simp add: wal_rep_def committed_def dd)
    ultimately show thesis using True
      by (intro that [of "?w\<lparr>apWiData := wi\<rparr>" "take (unat d0) log"]) (simp_all add: committed_def dd min_def word_less_nat_alt)
  qed
qed

text \<open>Every step keeps the index right and the committed frames as they are.\<close>

lemma wal_step_keeps:
  assumes "wal_step w w'" and rep: "wal_rep w log"
  shows "\<exists>log'. wal_rep w' log' \<and> committed w \<le> committed w' \<and> take (committed w) log' = take (committed w) log"
  using assms(1)
proof cases
  case (frames es pgnos nExtra szPage nTruncate isCommit rc)
  have le: "committed w \<le> unat (mxFrame (wal_hdr w))" using rep by (simp add: wal_rep_def)
  obtain log' where "wal_rep w' log'" "take (unat (mxFrame (wal_hdr w))) log' = take (unat (mxFrame (wal_hdr w))) log"
    "committed w' = (if rc = SQLITE_OK \<and> isCommit then unat (mxFrame (wal_hdr w')) else committed w)"
    "unat (mxFrame (wal_hdr w')) = (if rc = SQLITE_OK then unat (mxFrame (wal_hdr w)) + length pgnos + nExtra else unat (mxFrame (wal_hdr w)))"
    by (rule publish_ok [OF rep frames(1-4), of szPage nTruncate isCommit]) (use frames(5) in auto)
  moreover have "take (committed w) log' = take (committed w) log"
    using arg_cong [OF calculation(2), of "take (committed w)"] le by (simp add: min_absorb1)
  ultimately show ?thesis using le by (intro exI [of _ log']) auto
next
  case (undo e xUndo rc ps)
  then show ?thesis using undo_ok [OF rep, of e xUndo] by (metis option.inject prod.inject order_refl)
next
  case (savepoint d e d')
  then obtain log' where "wal_rep w' log'" "committed w' = committed w" "take (unat (fst d)) log' = take (unat (fst d)) log"
    using savepoint_ok [OF rep savepoint(1,2), of e] by (metis option.inject prod.inject)
  moreover have "take (committed w) log' = take (committed w) log"
    using arg_cong [OF calculation(3), of "take (committed w)"] savepoint(1) by (simp add: min_absorb1)
  ultimately show ?thesis by (intro exI [of _ log']) simp
next
  case (writer changed)
  then show ?thesis using rep
    by (intro exI [of _ log]) (auto simp: walIndexTryHdr_def wal_rep_def committed_def split: if_splits)
qed

section \<open>Readers\<close>

text \<open>
  A connection that reads: it shares the pages, and has a header of its own that ends at \<open>hi\<close>; the frames
  before \<open>lo\<close> are in the database. \<open>reader_find\<close> is what it finds.
\<close>

definition reader :: "Wal \<Rightarrow> u32 \<Rightarrow> u32 \<Rightarrow> Wal" where
  "reader w lo hi = w\<lparr>readLock := 1, minFrame := lo, wal_hdr := (wal_hdr w)\<lparr>mxFrame := hi\<rparr>\<rparr>"

definition reader_find :: "wal_env \<Rightarrow> Wal \<Rightarrow> u32 \<Rightarrow> u32 \<Rightarrow> u32 \<Rightarrow> nat option" where
  "reader_find e w lo hi p = (case sqlite3WalFindFrame e (reader w lo hi) p of Some (Inr f, _) \<Rightarrow> Some f | _ \<Rightarrow> None)"

lemma reader_find_latest:
  assumes "wal_rep w log" and "unat hi \<le> length log"
  shows "reader_find e w lo hi p = Some (latest log (unat lo) (unat hi) p)"
  using find_frame_latest [of "reader w lo hi" log e p] assms by (simp add: reader_find_def reader_def wal_rep_def)

interpretation wal_index: frame_index wal_rep committed "\<lambda>w hi p. reader_find e w lo (word_of_nat hi) p" wal_step "unat lo" for e lo
proof unfold_locales
  fix w log
  assume rep: "wal_rep w log"
  show "committed w \<le> length log" using rep by (simp add: wal_rep_def)
  fix hi p
  assume hi: "hi \<le> committed w"
  have "committed w < 2 ^ 32" using unsigned_less [of "mxFrame (aHdr0 w)"] by (simp add: committed_def)
  then have "hi < 2 ^ 32" using hi by simp
  then have "unat (word_of_nat hi :: u32) = hi" by (simp add: unat_of_nat)
  then show "reader_find e w lo (word_of_nat hi) p = Some (latest log (unat lo) hi p)"
    using reader_find_latest [OF rep, of "word_of_nat hi" e lo p] hi rep by (simp add: wal_rep_def)
next
  fix w w' log
  assume "wal_rep w log" and "wal_step w w'"
  then show "\<exists>log'. wal_rep w' log' \<and> committed w \<le> committed w' \<and> take (committed w) log' = take (committed w) log"
    by (rule wal_step_keeps [rotated])
qed

section \<open>Properties\<close>

text \<open>A fresh index in the memory of the connection, and what it looks like with one frame of page 5.\<close>

definition fresh_hdr :: WalIndexHdr where
  "fresh_hdr = \<lparr>iVersion = 0, hdr_unused = 0, iChange = 0, hdr_isInit = 0, bigEndCksum = 0, hdr_szPage = 0, mxFrame = 0, nPage = 0,
     aFrameCksum = (0, 0), aSalt = replicate 8 0, aCksum = (0, 0)\<rparr>"

definition fresh_wal :: Wal where
  "fresh_wal = \<lparr>apWiData = [Some (zero_page 0)], aHdr0 = fresh_hdr, aHdr1 = fresh_hdr,
     ckptInfo = \<lparr>nBackfill = 0, aReadMark = replicate 5 0, nBackfillAttempted = 0\<rparr>, wal_szPage = 4096, readLock = 1,
     exclusiveMode = WAL_HEAPMEMORY_MODE, writeLock = True, readOnly = 0, bShmUnreliable = False, wal_hdr = fresh_hdr,
     minFrame = 1, iReCksum = 0, nCkpt = 0\<rparr>"

definition fresh_env :: wal_env where
  "fresh_env = \<lparr>e_realloc = (\<lambda>_. True), e_zero = (\<lambda>_. True), e_map = (\<lambda>t _. (SQLITE_OK, Some (zero_page t)))\<rparr>"

lemma fresh_wal_rep: "wal_rep fresh_wal []" "env_ok fresh_env"
  by (simp_all add: wal_rep_def wi_ok_def fresh_wal_def fresh_hdr_def committed_def env_ok_def fresh_env_def zero_page_shape)

lemma fresh_map: "fst (walHashGet e fresh_wal (walFramePage 1)) = SQLITE_OK"
  using hash_get_mapped [of 0 fresh_wal "zero_page 0" e] by (simp add: fresh_wal_def walFramePage_eq)

lemma one_frame:
  obtains wi where "wi_ok wi [5]"
  using append_ok [OF _ fresh_wal_rep(2), of fresh_wal "[]" 1 5] fresh_wal_rep(1) fresh_map [of fresh_env]
  by (auto simp: wal_rep_def next_frame_def)

text \<open>A state whose log is a frame of page 5; \<open>c\<close> is how many frames are committed.\<close>

lemma one_frame_rep:
  assumes "c \<le> 1"
  obtains w where "wal_rep w [5]" "mxFrame (wal_hdr w) = 1" "mxFrame (aHdr0 w) = c"
proof (rule one_frame)
  fix wi
  assume wi: "wi_ok wi [5]"
  have c: "unat c \<le> 1" using assms unat_1 by (metis word_le_nat_alt)
  show thesis
    by (rule that [of "fresh_wal\<lparr>apWiData := wi, wal_hdr := fresh_hdr\<lparr>mxFrame := 1\<rparr>, aHdr0 := fresh_hdr\<lparr>mxFrame := c\<rparr>\<rparr>"])
       (use wi c in \<open>simp_all add: wal_rep_def committed_def fresh_wal_def\<close>)
qed

text \<open>
  C1: looking a page up in the hash tables finds what the linear search of the code's own assertion finds: the
  newest frame of the page from \<open>minFrame\<close> up to the last frame of the reader's header, zero if there is none. It
  succeeds whatever the environment answers, and changes nothing.
\<close>

theorem find_frame_is_linear_search:
  assumes "wi_ok (apWiData w) log" and "unat (mxFrame (wal_hdr w)) \<le> length log" and "readLock w \<noteq> 0 \<or> bShmUnreliable w"
  shows "sqlite3WalFindFrame e w p = Some (Inr (latest log (unat (minFrame w)) (unat (mxFrame (wal_hdr w))) p), w)"
  by (rule find_frame_latest [OF assms])

theorem find_frame_is_linear_search_witness:
  "\<exists>w. mxFrame (wal_hdr w) = 1 \<and> sqlite3WalFindFrame fresh_env w 5 = Some (Inr 1, w)"
proof -
  obtain wi where "wi_ok wi [5]" using one_frame .
  then have "sqlite3WalFindFrame fresh_env (reader (fresh_wal\<lparr>apWiData := wi\<rparr>) 1 1) 5 = Some (Inr 1, reader (fresh_wal\<lparr>apWiData := wi\<rparr>) 1 1)"
    using find_frame_is_linear_search [of "reader (fresh_wal\<lparr>apWiData := wi\<rparr>) 1 1" "[5]" fresh_env 5] by (simp add: reader_def)
  then show ?thesis by (intro exI [of _ "reader (fresh_wal\<lparr>apWiData := wi\<rparr>) 1 1"]) (simp add: reader_def)
qed

text \<open>
  C2: adding the frame after the log, or after the last valid frame where a writer that died has left others, makes
  the index hold the log up to there with the new page. The only error is the one of mapping the page; the hash table is
  never found corrupt, and after an error the index still holds the log.
\<close>

theorem index_append_extends_log:
  assumes "wi_ok (apWiData w) log" and "env_ok e" and "writeLock w" and "next_frame w log f" and "p \<noteq> 0" and "f < 2 ^ 32"
  shows "\<exists>rc w'. walIndexAppend e w f p = Some (rc, w') \<and> rc = fst (walHashGet e w (walFramePage f))
    \<and> wi_ok (apWiData w') (if rc = SQLITE_OK then take (f - 1) log @ [p] else log) \<and> wal_hdr w' = wal_hdr w"
proof -
  obtain rc wi' ro where "walIndexAppend e w f p = Some (rc, w\<lparr>apWiData := wi', readOnly := ro\<rparr>)"
    "rc = SQLITE_OK \<Longrightarrow> wi_ok wi' (take (f - 1) log @ [p])" "rc \<noteq> SQLITE_OK \<Longrightarrow> wi_ok wi' log" "rc = fst (walHashGet e w (walFramePage f))"
    using append_ok [OF assms(1-6)] by blast
  then show ?thesis by (intro exI [of _ rc] exI [of _ "w\<lparr>apWiData := wi', readOnly := ro\<rparr>"]) simp
qed

theorem index_append_extends_log_witness:
  "\<exists>w'. walIndexAppend fresh_env fresh_wal 1 5 = Some (SQLITE_OK, w') \<and> wi_ok (apWiData w') [5]"
  using index_append_extends_log [of fresh_wal "[]" fresh_env 1 5] fresh_wal_rep fresh_map [of fresh_env]
  by (auto simp: wal_rep_def next_frame_def)

text \<open>
  C3: a reader is isolated. Whatever the writers do after the reader took its header, publishing frames with or
  without a commit or with an error half-way, rolling back, going back to savepoints, dying and being replaced,
  the reader finds every page where it found it before.
\<close>

theorem reader_sees_snapshot:
  assumes "wal_step\<^sup>*\<^sup>* w w'" and "wal_rep w log" and "unat hi \<le> committed w"
  shows "reader_find e w' lo hi p = reader_find e w lo hi p"
  using wal_index.snapshot [OF assms, of e lo p] by simp

text \<open>A committed frame of page 5, and a rollback after it.\<close>

theorem reader_sees_snapshot_witness:
  "\<exists>w w'. wal_step w w' \<and> committed w = 1 \<and> (\<forall>e lo. reader_find e w' lo 1 5 = reader_find e w lo 1 5)"
proof -
  obtain w where w: "wal_rep w [5]" "mxFrame (aHdr0 w) = 1" using one_frame_rep [of 1] by blast
  obtain rc ps w' where "sqlite3WalUndo fresh_env (\<lambda>_. 0) w = Some (rc, ps, w')" using undo_ok [OF w(1)] by metis
  then have "wal_step w w'" by (rule wal_step.undo)
  then show ?thesis using reader_sees_snapshot [of w w' "[5]" 1] w by (intro exI [of _ w] exI [of _ w']) (auto simp: committed_def)
qed

text \<open>
  C4: rolling a transaction back restores the committed header and index: the callback gets the pages of exactly the
  frames that were not committed, in order, and every page is then found where it was before the transaction.
\<close>

theorem undo_restores_committed:
  assumes "wal_rep w log" and "\<forall>p. xUndo p = SQLITE_OK"
  shows "\<exists>w' log'. sqlite3WalUndo e xUndo w = Some (SQLITE_OK, take (unat (mxFrame (wal_hdr w)) - committed w) (drop (committed w) log), w')
    \<and> wal_hdr w' = aHdr0 w \<and> wal_rep w' log'
    \<and> (\<forall>e' lo p. reader_find e' w' lo (mxFrame (wal_hdr w')) p = Some (latest log (unat lo) (committed w) p))"
proof -
  obtain rc ps w' log' where u: "sqlite3WalUndo e xUndo w = Some (rc, ps, w')" "wal_rep w' log'" "take (committed w) log' = take (committed w) log"
    "committed w' = committed w" "wal_hdr w' = aHdr0 w"
    "(\<forall>p. xUndo p = SQLITE_OK) \<longrightarrow> rc = SQLITE_OK \<and> ps = take (unat (mxFrame (wal_hdr w)) - committed w) (drop (committed w) log)"
    using undo_ok [OF assms(1)] .
  have "reader_find e' w' lo (mxFrame (wal_hdr w')) p = Some (latest log (unat lo) (committed w) p)" for e' lo p
    using reader_find_latest [OF u(2), of "mxFrame (wal_hdr w')" e' lo p] wal_index.latest_take [OF order_refl u(3)] u(2,5)
    by (simp add: wal_rep_def committed_def)
  then show ?thesis using u assms(2) by auto
qed

text \<open>A frame of page 5 that was not committed.\<close>

theorem undo_restores_committed_witness:
  "\<exists>w w'. sqlite3WalUndo fresh_env (\<lambda>_. SQLITE_OK) w = Some (SQLITE_OK, [5], w') \<and> mxFrame (wal_hdr w') = 0"
proof -
  obtain w where w: "wal_rep w [5]" "mxFrame (wal_hdr w) = 1" "mxFrame (aHdr0 w) = 0" using one_frame_rep [of 0] by auto
  obtain w' where "sqlite3WalUndo fresh_env (\<lambda>_. SQLITE_OK) w = Some (SQLITE_OK, take (1 - 0) (drop 0 [5]), w')" "wal_hdr w' = aHdr0 w"
    using undo_restores_committed [OF w(1), of "\<lambda>_. SQLITE_OK" fresh_env] w(2,3) by (auto simp: committed_def)
  then show ?thesis using w(3) by (intro exI [of _ w] exI [of _ w']) simp
qed

end
