(* ===== verification/WalIter.thy ===== *)
theory WalIter
  imports WalIndexFacts
begin

text \<open>
  The iterator of the checkpoint (\<^verbatim>\<open>src/wal.c\<close>): the newest frame of every page, in the order of the page numbers.
  Each page of the index is sorted by a bottom-up merge sort that works in place, on an array of slots; a list
  of the sort is an offset into that array and a length. Pairs of pages are merged as the iterator goes.

  Every access to the arrays is checked, the array of the 13 sublists and the temporary buffer included.
\<close>

section \<open>Merging\<close>

type_synonym sublist = "nat \<times> nat"

definition sub_elems :: "u16 list \<Rightarrow> sublist \<Rightarrow> u16 list option" where
  "sub_elems a s = (if fst s + snd s \<le> length a then Some (take (snd s) (drop (fst s) a)) else None)"

definition page_key :: "u32 list \<Rightarrow> u16 \<Rightarrow> u32 option" where
  "page_key aContent s = rd aContent (unat s)"

text \<open>The loop that writes \<^verbatim>\<open>aTmp\<close>, on what is left of both lists.\<close>

function merge_loop :: "u32 list \<Rightarrow> u16 list \<Rightarrow> u16 list \<Rightarrow> u16 list option" where
  "merge_loop c ls rs =
     (if ls = [] \<and> rs = [] then Some []
      else do {
        left \<leftarrow> (if ls = [] then Some False
                 else if rs = [] then Some True
                 else do { x \<leftarrow> page_key c (hd ls); y \<leftarrow> page_key c (hd rs); Some (x < y) });
        let logpage = (if left then hd ls else hd rs);
        let ls' = (if left then tl ls else ls);
        let rs' = (if left then rs else tl rs);
        dbpage \<leftarrow> page_key c logpage;
        same \<leftarrow> (if ls' = [] then Some False else map_option (\<lambda>x. x = dbpage) (page_key c (hd ls')));
        map_option ((#) logpage) (merge_loop c (if same then tl ls' else ls') rs') })"
  by pat_completeness auto
termination
  by (relation "measure (\<lambda>(c, ls, rs). length ls + length rs)") (auto simp: neq_Nil_conv split: if_splits)

declare merge_loop.simps [simp del]

text \<open>\<^verbatim>\<open>aTmp\<close> has room for \<open>nTmp\<close> slots. The result replaces the left list.\<close>

definition walMerge :: "u32 list \<Rightarrow> nat \<Rightarrow> u16 list \<Rightarrow> sublist \<Rightarrow> sublist \<Rightarrow> (u16 list \<times> sublist) option" where
  "walMerge c nTmp a left right =
     do {
       ls \<leftarrow> sub_elems a left;
       rs \<leftarrow> sub_elems a right;
       out \<leftarrow> merge_loop c ls rs;
       if length out \<le> nTmp then do { a \<leftarrow> wrs a (fst left) out; Some (a, (fst left, length out)) } else None }"

section \<open>Sorting\<close>

text \<open>Adding one list to the 13 sublists, as in adding one to a binary number.\<close>

function carry :: "u32 list \<Rightarrow> nat \<Rightarrow> nat \<Rightarrow> nat \<Rightarrow> u16 list \<Rightarrow> sublist list \<Rightarrow> sublist \<Rightarrow> (u16 list \<times> sublist list \<times> sublist \<times> nat) option" where
  "carry c nTmp iList iSub a aSub aMerge =
     (if \<not> iSub < length aSub then None
      else if bit iList iSub
      then do {
        (a, aMerge) \<leftarrow> walMerge c nTmp a (aSub ! iSub) aMerge;
        carry c nTmp iList (iSub + 1) a aSub aMerge }
      else Some (a, aSub[iSub := aMerge], aMerge, iSub))"
  by pat_completeness auto
termination
  by (relation "measure (\<lambda>(c, nTmp, iList, iSub, a, aSub, aMerge). length aSub - iSub)") auto

declare carry.simps [simp del]

fun merge_sort_loop :: "u32 list \<Rightarrow> nat \<Rightarrow> nat \<Rightarrow> nat \<Rightarrow> u16 list \<Rightarrow> sublist list \<Rightarrow> sublist \<times> nat \<Rightarrow> (u16 list \<times> sublist list \<times> sublist \<times> nat) option" where
  "merge_sort_loop c nTmp iList 0 a aSub (aMerge, iSub) = Some (a, aSub, aMerge, iSub)"
| "merge_sort_loop c nTmp iList (Suc n) a aSub (aMerge, iSub) =
     do {
       (a, aSub, aMerge, iSub) \<leftarrow> carry c nTmp iList 0 a aSub (iList, 1);
       merge_sort_loop c nTmp (iList + 1) n a aSub (aMerge, iSub) }"

text \<open>The sublists that are left, from \<open>iSub\<close> on.\<close>

fun final_loop :: "u32 list \<Rightarrow> nat \<Rightarrow> nat \<Rightarrow> nat \<Rightarrow> nat \<Rightarrow> u16 list \<Rightarrow> sublist list \<Rightarrow> sublist \<Rightarrow> (u16 list \<times> sublist) option" where
  "final_loop c nTmp nList iSub 0 a aSub aMerge = Some (a, aMerge)"
| "final_loop c nTmp nList iSub (Suc n) a aSub aMerge =
     do {
       (a, aMerge) \<leftarrow> (if bit nList iSub then do { p \<leftarrow> rd aSub iSub; walMerge c nTmp a p aMerge } else Some (a, aMerge));
       final_loop c nTmp nList (iSub + 1) n a aSub aMerge }"

definition walMergesort :: "u32 list \<Rightarrow> nat \<Rightarrow> u16 list \<Rightarrow> (u16 list \<times> nat) option" where
  "walMergesort c nTmp aList =
     do {
       (a, aSub, aMerge, iSub) \<leftarrow> merge_sort_loop c nTmp 0 (length aList) aList (replicate 13 (0, 0)) ((0, 0), 0);
       (a, aMerge) \<leftarrow> final_loop c nTmp (length aList) (iSub + 1) (13 - (iSub + 1)) a aSub aMerge;
       if fst aMerge = 0 then Some (a, snd aMerge) else None }"

section \<open>The iterator\<close>

record WalSegment =
  iNext :: nat
  aIndex :: "u16 list"
  seg_aPgno :: "u32 list"
  nEntry :: nat
  seg_iZero :: nat

record WalIterator =
  iPrior :: u32
  aSegment :: "WalSegment list"

text \<open>
  \<^verbatim>\<open>walIteratorInit\<close>. Each segment has a part of the allocated block for its slots, with room for as many
  as it has entries; a part is an array of its own here. \<open>ok1\<close>, \<open>ok2\<close> are the answers of the allocator.
\<close>

fun init_segments :: "wal_env \<Rightarrow> Wal \<Rightarrow> nat \<Rightarrow> nat \<Rightarrow> nat \<Rightarrow> nat \<Rightarrow> WalSegment list \<Rightarrow> (nat \<times> WalSegment list \<times> Wal) option" where
  "init_segments e w iLast nSegment i 0 segs = Some (SQLITE_OK, segs, w)"
| "init_segments e w iLast nSegment i (Suc n) segs =
     (let (rc, p, iZero, w) = walHashGet e w i
      in if rc \<noteq> SQLITE_OK then Some (rc, segs, w)
         else do {
           pg \<leftarrow> p;
           let nEnt = (if i + 1 = nSegment then iLast - iZero else length (aPgno pg));
           (index, nEnt) \<leftarrow> walMergesort (aPgno pg) (if iLast > HASHTABLE_NPAGE then HASHTABLE_NPAGE else iLast) (map word_of_nat [0..<nEnt]);
           let seg = \<lparr>iNext = 0, aIndex = index, seg_aPgno = aPgno pg, nEntry = nEnt, seg_iZero = iZero + 1\<rparr>;
           segs \<leftarrow> wr segs i seg;
           init_segments e w iLast nSegment (i + 1) n segs })"

definition walIteratorInit :: "bool \<Rightarrow> bool \<Rightarrow> wal_env \<Rightarrow> Wal \<Rightarrow> nat \<Rightarrow> (nat \<times> WalIterator option \<times> Wal) option" where
  "walIteratorInit ok1 ok2 e w nBack =
     (let iLast = unat (mxFrame (wal_hdr w));
          nSegment = walFramePage iLast + 1;
          first = walFramePage (nBack + 1)
      in if \<not> ok1 \<or> \<not> ok2 then Some (SQLITE_NOMEM, None, w)
         else do {
           (rc, segs, w) \<leftarrow> init_segments e w iLast nSegment first (nSegment - first)
             (replicate nSegment \<lparr>iNext = 0, aIndex = [], seg_aPgno = [], nEntry = 0, seg_iZero = 0\<rparr>);
           if rc \<noteq> SQLITE_OK then Some (rc, None, w)
           else Some (SQLITE_OK, Some \<lparr>iPrior = 0, aSegment = segs\<rparr>, w) })"

text \<open>
  The loop over one segment: it skips the pages up to \<open>iMin\<close>. The result is the new position and the page
  found there with its frame.
\<close>

function seg_next :: "u32 \<Rightarrow> WalSegment \<Rightarrow> nat \<Rightarrow> (nat \<times> (u32 \<times> nat) option) option" where
  "seg_next iMin seg i =
     (if \<not> i < nEntry seg then Some (i, None)
      else do {
        s \<leftarrow> rd (aIndex seg) i;
        iPg \<leftarrow> rd (seg_aPgno seg) (unat s);
        if iPg > iMin then Some (i, Some (iPg, seg_iZero seg + unat s))
        else seg_next iMin seg (i + 1) })"
  by pat_completeness auto
termination
  by (relation "measure (\<lambda>(iMin, seg, i). nEntry seg - i)") auto

declare seg_next.simps [simp del]

text \<open>The segments from \<open>n - 1\<close> down to 0; \<open>iFrame\<close> is only set when a page is found.\<close>

fun next_loop :: "u32 \<Rightarrow> nat \<Rightarrow> WalSegment list \<Rightarrow> u32 \<Rightarrow> nat option \<Rightarrow> (WalSegment list \<times> u32 \<times> nat option) option" where
  "next_loop iMin 0 segs iRet iFrame = Some (segs, iRet, iFrame)"
| "next_loop iMin (Suc n) segs iRet iFrame =
     do {
       seg \<leftarrow> rd segs n;
       (i, found) \<leftarrow> seg_next iMin seg (iNext seg);
       let segs = segs[n := seg\<lparr>iNext := i\<rparr>];
       (case found of
          Some (iPg, f) \<Rightarrow> if iPg < iRet then next_loop iMin n segs iPg (Some f) else next_loop iMin n segs iRet iFrame
        | None \<Rightarrow> next_loop iMin n segs iRet iFrame) }"

text \<open>Whether the iterator is at its end, the page, the frame, the iterator.\<close>

definition walIteratorNext :: "WalIterator \<Rightarrow> (bool \<times> u32 \<times> nat option \<times> WalIterator) option" where
  "walIteratorNext p =
     do {
       (segs, iRet, iFrame) \<leftarrow> next_loop (iPrior p) (length (aSegment p)) (aSegment p) 0xFFFFFFFF None;
       Some (iRet = 0xFFFFFFFF, iRet, iFrame, p\<lparr>iPrior := iRet, aSegment := segs\<rparr>) }"

text \<open>What the loop of the checkpoint sees in \<open>n\<close> calls.\<close>

fun iterate :: "nat \<Rightarrow> WalIterator \<Rightarrow> (u32 \<times> nat option) list option" where
  "iterate 0 p = Some []"
| "iterate (Suc n) p =
     do {
       (done, pg, f, p) \<leftarrow> walIteratorNext p;
       if done then Some [] else map_option ((#) (pg, f)) (iterate n p) }"

end
