(* ===== verification/WalSortFacts.thy ===== *)
theory WalSortFacts
  imports WalIter
begin

text \<open>
  The in-place merge sort gives, for a page of the index, the newest position of every page number, in the order of
  the page numbers. A sublist stands for a range of positions and lies in the same range of the array;
  the 13 sublists stand for the binary digits of the number of positions done.
\<close>

section \<open>Merging lists of positions\<close>

text \<open>The merge without the checks. Of two positions with the same page the one of the right list is kept.\<close>

fun mrg :: "(u16 \<Rightarrow> u32) \<Rightarrow> u16 list \<Rightarrow> u16 list \<Rightarrow> u16 list" where
  "mrg k [] rs = rs"
| "mrg k (l # ls) [] = l # ls"
| "mrg k (l # ls) (r # rs) =
     (if k l < k r then l # mrg k ls (r # rs) else r # mrg k (if k l = k r then ls else l # ls) rs)"

definition key_of :: "u32 list \<Rightarrow> u16 \<Rightarrow> u32" where
  "key_of c s = c ! unat s"

definition slot_keys_ok :: "u32 list \<Rightarrow> u16 list \<Rightarrow> bool" where
  "slot_keys_ok c xs \<longleftrightarrow> sorted_wrt (<) (map (key_of c) xs) \<and> (\<forall>s \<in> set xs. unat s < length c)"

lemma slot_keys_ok_Cons: "slot_keys_ok c (x # xs) \<longleftrightarrow> slot_keys_ok c xs \<and> unat x < length c \<and> (\<forall>y \<in> set xs. key_of c x < key_of c y)"
  by (auto simp: slot_keys_ok_def)

lemma content_key: "unat s < length c \<Longrightarrow> page_key c s = Some (key_of c s)"
  by (simp add: page_key_def rd_def key_of_def)

lemma merge_loop_Nil: "slot_keys_ok c rs \<Longrightarrow> merge_loop c [] rs = Some rs"
  by (induction rs) (simp_all add: merge_loop.simps [of _ "[]"] content_key slot_keys_ok_Cons)

lemma merge_loop_Nil2: "slot_keys_ok c ls \<Longrightarrow> merge_loop c ls [] = Some ls"
proof (induction ls)
  case (Cons l ls)
  then show ?case by (cases ls) (auto simp: merge_loop.simps [of _ "_ # _"] content_key slot_keys_ok_Cons Let_def)
qed (simp add: merge_loop.simps)

lemma merge_loop_mrg: "slot_keys_ok c ls \<Longrightarrow> slot_keys_ok c rs \<Longrightarrow> merge_loop c ls rs = Some (mrg (key_of c) ls rs)"
proof (induction "key_of c" ls rs rule: mrg.induct)
  case (3 l ls r rs)
  show ?case
  proof (cases "key_of c l < key_of c r")
    case True
    moreover have "page_key c (hd ls) = Some (key_of c (hd ls)) \<and> key_of c (hd ls) \<noteq> key_of c l" if "ls \<noteq> []"
      using 3(3) that by (cases ls) (auto simp: slot_keys_ok_Cons content_key)
    ultimately show ?thesis using 3
      by (cases "ls = []") (simp_all add: merge_loop.simps [of _ "_ # _"] content_key slot_keys_ok_Cons)
  next
    case False
    then show ?thesis using 3
      by (cases "key_of c l = key_of c r") (simp_all add: merge_loop.simps [of _ "_ # _"] content_key slot_keys_ok_Cons)
  qed
qed (simp_all add: merge_loop_Nil merge_loop_Nil2)

lemma mrg_set:
  "sorted_wrt (<) (map k ls) \<Longrightarrow> sorted_wrt (<) (map k rs) \<Longrightarrow> set (mrg k ls rs) = set rs \<union> {l \<in> set ls. k l \<notin> k ` set rs}"
proof (induction k ls rs rule: mrg.induct)
  case (3 k l ls r rs)
  then show ?case by (auto split: if_splits simp: image_iff)
qed auto

lemma mrg_sorted:
  "sorted_wrt (<) (map k ls) \<Longrightarrow> sorted_wrt (<) (map k rs) \<Longrightarrow> sorted_wrt (<) (map k (mrg k ls rs))"
proof (induction k ls rs rule: mrg.induct)
  case (3 k l ls r rs)
  then show ?case by (auto simp: mrg_set)
qed auto

lemma mrg_length: "length (mrg k ls rs) \<le> length ls + length rs"
  by (induction k ls rs rule: mrg.induct) (auto split: if_splits)

section \<open>The newest positions of a range\<close>

definition newest :: "u32 list \<Rightarrow> nat \<Rightarrow> nat \<Rightarrow> nat set" where
  "newest c lo hi = {j. lo \<le> j \<and> j < hi \<and> (\<forall>i. j < i \<and> i < hi \<longrightarrow> c ! i \<noteq> c ! j)}"

definition seg_ok :: "u32 list \<Rightarrow> u16 list \<Rightarrow> nat \<Rightarrow> nat \<Rightarrow> bool" where
  "seg_ok c xs lo hi \<longleftrightarrow> slot_keys_ok c xs \<and> unat ` set xs = newest c lo hi"

lemma newest_key: "lo \<le> j \<Longrightarrow> j < hi \<Longrightarrow> \<exists>i \<in> newest c lo hi. c ! i = c ! j"
proof (induction "hi - j" arbitrary: j rule: less_induct)
  case less
  show ?case
  proof (cases "\<exists>i. j < i \<and> i < hi \<and> c ! i = c ! j")
    case True
    then obtain i where "j < i" "i < hi" "c ! i = c ! j" by blast
    then show ?thesis using less(1) [of i] less(2,3) by auto
  next
    case False
    then have "j \<in> newest c lo hi" using less(2,3) by (auto simp: newest_def)
    then show ?thesis by blast
  qed
qed

lemma newest_split:
  assumes "lo \<le> mid" and "mid \<le> hi"
  shows "newest c lo hi = newest c mid hi \<union> {j \<in> newest c lo mid. \<forall>i \<in> newest c mid hi. c ! i \<noteq> c ! j}"
proof (intro set_eqI iffI)
  fix x
  assume "x \<in> newest c lo hi"
  then show "x \<in> newest c mid hi \<union> {j \<in> newest c lo mid. \<forall>i \<in> newest c mid hi. c ! i \<noteq> c ! j}"
    using assms by (cases "mid \<le> x") (auto simp: newest_def)
next
  fix x
  assume x: "x \<in> newest c mid hi \<union> {j \<in> newest c lo mid. \<forall>i \<in> newest c mid hi. c ! i \<noteq> c ! j}"
  show "x \<in> newest c lo hi"
  proof (cases "mid \<le> x")
    case True
    then show ?thesis using x assms(1) by (auto simp: newest_def)
  next
    case False
    then have *: "x \<in> newest c lo mid" "\<And>i. i \<in> newest c mid hi \<Longrightarrow> c ! i \<noteq> c ! x" using x by (auto simp: newest_def)
    have "c ! i \<noteq> c ! x" if "x < i" "i < hi" for i
    proof (cases "i < mid")
      case True
      then show ?thesis using *(1) that by (simp add: newest_def)
    next
      case False
      then show ?thesis using *(2) newest_key [of mid i hi c] that by (metis not_le)
    qed
    then show ?thesis using *(1) assms(2) by (auto simp: newest_def)
  qed
qed

lemma image_filter: "f ` {x \<in> A. P (f x)} = {y \<in> f ` A. P y}"
  by blast

lemma seg_ok_mrg:
  assumes l: "seg_ok c ls lo mid" and r: "seg_ok c rs mid hi" and "lo \<le> mid" "mid \<le> hi"
  shows "seg_ok c (mrg (key_of c) ls rs) lo hi"
proof -
  have s: "sorted_wrt (<) (map (key_of c) ls)" "sorted_wrt (<) (map (key_of c) rs)" using l r by (simp_all add: seg_ok_def slot_keys_ok_def)
  note set = mrg_set [OF s]
  have "{l \<in> set ls. c ! unat l \<notin> (\<lambda>s. c ! unat s) ` set rs} = {l \<in> set ls. \<forall>i \<in> unat ` set rs. c ! i \<noteq> c ! unat l}"
    by (force simp: image_iff)
  then have "unat ` set (mrg (key_of c) ls rs) = unat ` set rs \<union> {j \<in> unat ` set ls. \<forall>i \<in> unat ` set rs. c ! i \<noteq> c ! j}"
    unfolding set key_of_def image_Un using image_filter [of unat "set ls" "\<lambda>j. \<forall>i \<in> unat ` set rs. c ! i \<noteq> c ! j"] by simp
  moreover have "unat ` set ls = newest c lo mid" "unat ` set rs = newest c mid hi" using l r by (simp_all add: seg_ok_def)
  ultimately have "unat ` set (mrg (key_of c) ls rs) = newest c lo hi" by (simp only: newest_split [OF assms(3,4)])
  moreover have "slot_keys_ok c (mrg (key_of c) ls rs)" using mrg_sorted [OF s] l r unfolding slot_keys_ok_def set seg_ok_def by auto
  ultimately show ?thesis by (simp add: seg_ok_def)
qed

lemma seg_ok_single: "i < length c \<Longrightarrow> i < 65536 \<Longrightarrow> seg_ok c [word_of_nat i] i (Suc i)"
  by (auto simp: seg_ok_def slot_keys_ok_def newest_def unat_of_nat)

section \<open>Sublists of the array\<close>

definition sub_ok :: "u32 list \<Rightarrow> u16 list \<Rightarrow> sublist \<Rightarrow> nat \<Rightarrow> nat \<Rightarrow> bool" where
  "sub_ok c a s lo hi \<longleftrightarrow> fst s = lo \<and> lo + snd s \<le> hi \<and> hi \<le> length a \<and> seg_ok c (take (snd s) (drop lo a)) lo hi"

lemma sub_ok_frame:
  assumes "sub_ok c a s lo hi" and "length b = length a" and "\<And>i. lo \<le> i \<Longrightarrow> i < hi \<Longrightarrow> b ! i = a ! i"
  shows "sub_ok c b s lo hi"
proof -
  have "take (snd s) (drop lo b) = take (snd s) (drop lo a)"
    using assms by (intro nth_equalityI) (auto simp: sub_ok_def)
  then show ?thesis using assms(1,2) by (simp add: sub_ok_def)
qed

lemma walMerge_ok:
  assumes l: "sub_ok c a s lo mid" and r: "sub_ok c a t mid hi" and tmp: "hi - lo \<le> nTmp"
  obtains b u where "walMerge c nTmp a s t = Some (b, u)" and "sub_ok c b u lo hi" and "length b = length a"
    and "\<And>i. i < length a \<Longrightarrow> i < lo \<or> hi \<le> i \<Longrightarrow> b ! i = a ! i"
proof -
  let ?ls = "take (snd s) (drop lo a)"
  let ?rs = "take (snd t) (drop mid a)"
  let ?out = "mrg (key_of c) ?ls ?rs"
  let ?b = "take lo a @ ?out @ drop (lo + length ?out) a"
  have b: "fst s = lo" "lo + snd s \<le> mid" "mid \<le> length a" "fst t = mid" "mid + snd t \<le> hi" "hi \<le> length a" using l r by (simp_all add: sub_ok_def)
  have seg: "seg_ok c ?out lo hi" using l r b by (intro seg_ok_mrg [of c ?ls lo mid ?rs hi]) (simp_all add: sub_ok_def)
  have len: "length ?out \<le> hi - lo" using mrg_length [of "key_of c" ?ls ?rs] b by simp
  have "merge_loop c ?ls ?rs = Some ?out" using l r by (intro merge_loop_mrg) (simp_all add: sub_ok_def seg_ok_def)
  then have "walMerge c nTmp a s t = Some (?b, (lo, length ?out))"
    using b len tmp by (simp add: walMerge_def sub_elems_def)
  moreover have "sub_ok c ?b (lo, length ?out) lo hi" using b len seg by (simp add: sub_ok_def)
  moreover have "length ?b = length a" using b len by simp
  moreover have "?b ! i = a ! i" if "i < length a" "i < lo \<or> hi \<le> i" for i
    using that b len by (auto simp: nth_append min_def)
  ultimately show thesis by (rule that)
qed

section \<open>Binary digits\<close>

definition bin_off :: "nat \<Rightarrow> nat \<Rightarrow> nat" where
  "bin_off k i = (i div 2 ^ Suc k) * 2 ^ Suc k"

lemma bit_div: "bit i k \<longleftrightarrow> odd (i div 2 ^ k)" for i :: nat
  by (rule bit_iff_odd)

lemma div_Suc: "i div 2 ^ Suc k = (i div 2 ^ k) div 2" for i :: nat
  by (simp add: div_mult2_eq [symmetric] mult.commute)

lemma bin_off_set: "bit i k \<Longrightarrow> bin_off k i + 2 ^ k = (i div 2 ^ k) * 2 ^ k"
  unfolding bit_div bin_off_def div_Suc by (elim oddE) simp

lemma bin_off_clear: "\<not> bit i k \<Longrightarrow> bin_off k i = (i div 2 ^ k) * 2 ^ k"
  unfolding bit_div bin_off_def div_Suc by (simp add: dvd_div_mult_self [of 2] mult.assoc [symmetric])

text \<open>What adding one does to the digits, when the ones below \<open>s\<close> are set and that of \<open>s\<close> is not.\<close>

lemma add_one_digits:
  assumes "i + 1 = (i div 2 ^ s) * 2 ^ s + 2 ^ s" and "\<not> bit i s"
  shows "bit (i + 1) s" and "k < s \<Longrightarrow> \<not> bit (i + 1) k" and "s < k \<Longrightarrow> bit (i + 1) k = bit i k"
    and "s \<le> k \<Longrightarrow> bin_off k (i + 1) = bin_off k i"
proof -
  obtain q where q: "i div 2 ^ s = 2 * q" using assms(2) unfolding bit_div by (auto elim: evenE)
  have i: "i + 1 = (2 * q + 1) * 2 ^ s" using assms(1) unfolding q by (simp add: algebra_simps)
  have "(i + 1) div 2 ^ s = 2 * q + 1" unfolding i by simp
  then show "bit (i + 1) s" by (simp add: bit_div)
  have up: "(i + 1) div 2 ^ k = i div 2 ^ k" if "s < k" for k
  proof -
    from that obtain d where k: "k = Suc s + d" using less_imp_Suc_add by auto
    have "(i + 1) div 2 ^ Suc s = i div 2 ^ Suc s" unfolding div_Suc \<open>(i + 1) div 2 ^ s = 2 * q + 1\<close> q by simp
    then show ?thesis unfolding k power_add div_mult2_eq by simp
  qed
  then show "s < k \<Longrightarrow> bit (i + 1) k = bit i k" by (simp only: bit_div)
  show "s \<le> k \<Longrightarrow> bin_off k (i + 1) = bin_off k i" using up [of "Suc k"] by (simp add: bin_off_def del: power_Suc)
  assume "k < s"
  then obtain d where s: "s = Suc k + d" using less_imp_Suc_add by auto
  have "(i + 1) div 2 ^ k = (2 * q + 1) * (2 * 2 ^ d)" unfolding i s power_add by (simp add: algebra_simps)
  then show "\<not> bit (i + 1) k" by (simp add: bit_div)
qed

lemma bit_bound: "i < 2 ^ n \<Longrightarrow> n \<le> k \<Longrightarrow> \<not> bit i k" for i :: nat
  using less_le_trans [of i "2 ^ n" "2 ^ k"] power_increasing [of n k "2 :: nat"] by (simp add: bit_div)

section \<open>Sorting\<close>

text \<open>The sublists of the digits from \<open>s\<close> on.\<close>

definition subs_ok :: "u32 list \<Rightarrow> u16 list \<Rightarrow> sublist list \<Rightarrow> nat \<Rightarrow> nat \<Rightarrow> bool" where
  "subs_ok c a aSub i s \<longleftrightarrow> length aSub = 13 \<and> (\<forall>k. s \<le> k \<and> k < 13 \<and> bit i k \<longrightarrow> sub_ok c a (aSub ! k) (bin_off k i) (bin_off k i + 2 ^ k))"

lemma subs_ok_frame:
  assumes "subs_ok c a aSub i s" and "length b = length a" and "\<And>j. j < length a \<Longrightarrow> j < lo \<or> hi \<le> j \<Longrightarrow> b ! j = a ! j"
    and "\<And>k. s' \<le> k \<Longrightarrow> bit i k \<Longrightarrow> bin_off k i + 2 ^ k \<le> lo" and "s \<le> s'"
  shows "subs_ok c b aSub i s'"
  unfolding subs_ok_def
proof (intro conjI allI impI)
  fix k
  assume k: "s' \<le> k \<and> k < 13 \<and> bit i k"
  then have ok: "sub_ok c a (aSub ! k) (bin_off k i) (bin_off k i + 2 ^ k)" using assms(1,5) by (simp add: subs_ok_def)
  show "sub_ok c b (aSub ! k) (bin_off k i) (bin_off k i + 2 ^ k)"
  proof (rule sub_ok_frame [OF ok assms(2)])
    fix j
    assume "bin_off k i \<le> j" "j < bin_off k i + 2 ^ k"
    moreover have "bin_off k i + 2 ^ k \<le> lo" using assms(4) k by blast
    ultimately show "b ! j = a ! j" using ok by (intro assms(3)) (auto simp: sub_ok_def)
  qed
qed (use assms(1) in \<open>simp add: subs_ok_def\<close>)

lemma bin_off_below: "s \<le> k \<Longrightarrow> bit i k \<Longrightarrow> bin_off k i + 2 ^ k \<le> (i div 2 ^ s) * 2 ^ s"
proof -
  assume "s \<le> k" "bit i k"
  then have off: "bin_off k i + 2 ^ k = (i div 2 ^ k) * 2 ^ k" by (simp add: bin_off_set)
  obtain d where k: "k = s + d" using \<open>s \<le> k\<close> le_Suc_ex by blast
  have "(i div 2 ^ k) * 2 ^ k = ((i div 2 ^ s) div 2 ^ d * 2 ^ d) * 2 ^ s" unfolding k power_add div_mult2_eq by simp
  also have "\<dots> \<le> (i div 2 ^ s) * 2 ^ s" by (rule mult_le_mono1) (rule div_times_less_eq_dividend)
  finally show ?thesis using off by simp
qed

text \<open>\<open>idle\<close>: the positions from \<open>i\<close> on are still where they were.\<close>

definition idle :: "u16 list \<Rightarrow> nat \<Rightarrow> bool" where
  "idle a i \<longleftrightarrow> (\<forall>j. i \<le> j \<and> j < length a \<longrightarrow> a ! j = word_of_nat j)"

lemma carry_ok:
  assumes i: "i < 2 ^ 12" "i < length a" and tmp: "length a \<le> nTmp"
  shows "s \<le> 12 \<Longrightarrow> i + 1 = (i div 2 ^ s) * 2 ^ s + 2 ^ s \<Longrightarrow> subs_ok c b aSub i s \<Longrightarrow> length b = length a \<Longrightarrow> idle b (i + 1) \<Longrightarrow>
      sub_ok c b m ((i div 2 ^ s) * 2 ^ s) (i + 1) \<Longrightarrow>
    \<exists>b' m' t. carry c nTmp i s b aSub m = Some (b', aSub[t := m'], m', t) \<and> t \<le> 12 \<and> length b' = length a \<and> idle b' (i + 1)
      \<and> i + 1 = (i div 2 ^ t) * 2 ^ t + 2 ^ t \<and> \<not> bit i t \<and> subs_ok c b' aSub i t \<and> sub_ok c b' m' (bin_off t i) (i + 1)"
proof (induction "12 - s" arbitrary: s b m)
  case 0
  then have "s = 12" by simp
  then have "\<not> bit i s" using bit_bound [OF i(1)] by simp
  then show ?case using 0 \<open>s = 12\<close>
    by (intro exI [of _ b] exI [of _ m] exI [of _ 12]) (simp add: carry.simps [of c nTmp i 12] subs_ok_def bin_off_clear)
next
  case (Suc x)
  show ?case
  proof (cases "bit i s")
    case False
    then show ?thesis using Suc(3-8)
      by (intro exI [of _ b] exI [of _ m] exI [of _ s]) (simp add: carry.simps [of c nTmp i s] subs_ok_def bin_off_clear)
  next
    case True
    have s: "s < 12" using Suc(2) by simp
    have left: "sub_ok c b (aSub ! s) (bin_off s i) ((i div 2 ^ s) * 2 ^ s)"
      unfolding bin_off_set [OF True, symmetric] using Suc(5) True s by (simp add: subs_ok_def)
    have off: "bin_off s i = (i div 2 ^ Suc s) * 2 ^ Suc s" by (simp add: bin_off_def)
    have le: "i + 1 - bin_off s i \<le> nTmp" using i(2) tmp by linarith
    obtain b1 u where u: "walMerge c nTmp b (aSub ! s) m = Some (b1, u)" "sub_ok c b1 u (bin_off s i) (i + 1)" "length b1 = length b"
      "\<And>j. j < length b \<Longrightarrow> j < bin_off s i \<or> i + 1 \<le> j \<Longrightarrow> b1 ! j = b ! j"
      using walMerge_ok [OF left Suc(8) le] by blast
    have "subs_ok c b1 aSub i (Suc s)"
      by (rule subs_ok_frame [OF Suc(5) u(3) u(4)]) (use bin_off_below [of "Suc s" _ i] off in auto)
    moreover have "idle b1 (i + 1)" using Suc(7) u(3,4) by (simp add: idle_def)
    moreover have "i + 1 = (i div 2 ^ Suc s) * 2 ^ Suc s + 2 ^ Suc s" using Suc(4) bin_off_set [OF True] off by simp
    moreover have "sub_ok c b1 u ((i div 2 ^ Suc s) * 2 ^ Suc s) (i + 1)" using u(2) off by simp
    moreover have "carry c nTmp i s b aSub m = carry c nTmp i (Suc s) b1 aSub u"
      using True u(1) s Suc(5) by (simp add: carry.simps [of c nTmp i s] subs_ok_def)
    ultimately show ?thesis using Suc(1) [of "Suc s" b1 u] Suc(2,6) u(3) s by auto
  qed
qed

text \<open>After the positions before \<open>i\<close>: the last list is the one of the lowest digit.\<close>

definition sort_inv :: "u32 list \<Rightarrow> u16 list \<Rightarrow> sublist list \<Rightarrow> nat \<Rightarrow> sublist \<Rightarrow> nat \<Rightarrow> bool" where
  "sort_inv c a aSub i m t \<longleftrightarrow> subs_ok c a aSub i 0 \<and> idle a i
     \<and> (0 < i \<longrightarrow> t \<le> 12 \<and> sub_ok c a m (bin_off t i) i)"

lemma sort_step:
  assumes inv: "sort_inv c a aSub i m t" and i: "i < 2 ^ 12" "i < length a" and tmp: "length a \<le> nTmp" and len: "length a \<le> length c"
  obtains b aSub' m' t' where "carry c nTmp i 0 a aSub (i, 1) = Some (b, aSub', m', t')" and "sort_inv c b aSub' (i + 1) m' t'" and "length b = length a"
proof -
  have "take 1 (drop i a) = [word_of_nat i]"
    using inv i(2) by (simp add: sort_inv_def idle_def take_Suc hd_drop_conv_nth)
  then have one: "sub_ok c a (i, 1) ((i div 2 ^ 0) * 2 ^ 0) (i + 1)"
    using seg_ok_single [of i c] i len by (simp add: sub_ok_def)
  obtain b m' t' where b: "carry c nTmp i 0 a aSub (i, 1) = Some (b, aSub[t' := m'], m', t')" "t' \<le> 12" "length b = length a" "idle b (i + 1)"
    "i + 1 = (i div 2 ^ t') * 2 ^ t' + 2 ^ t'" "\<not> bit i t'" "subs_ok c b aSub i t'" "sub_ok c b m' (bin_off t' i) (i + 1)"
    using carry_ok [OF i tmp, of 0 c a aSub "(i, 1)"] inv one by (auto simp: sort_inv_def idle_def)
  note digits = add_one_digits [OF b(5,6)]
  have "bin_off t' (i + 1) + 2 ^ t' = i + 1" using bin_off_clear [OF b(6)] b(5) digits(4) [of t'] by simp
  then have "subs_ok c b (aSub[t' := m']) (i + 1) 0"
    using b(2,7,8) digits unfolding subs_ok_def
    by (auto simp: nth_list_update) (metis linorder_neqE_nat order.strict_implies_order)+
  then have "sort_inv c b (aSub[t' := m']) (i + 1) m' t'" using b(2,4,8) digits(4) [of t'] by (simp add: sort_inv_def)
  with b(1,3) show thesis by (intro that)
qed

lemma merge_sort_loop_ok:
  assumes "length a \<le> nTmp" and "length a \<le> length c" and "length a \<le> 2 ^ 12"
  shows "i + n = length a \<Longrightarrow> length b = length a \<Longrightarrow> sort_inv c b aSub i m t \<Longrightarrow>
    \<exists>b' aSub' m' t'. merge_sort_loop c nTmp i n b aSub (m, t) = Some (b', aSub', m', t') \<and> length b' = length a \<and> sort_inv c b' aSub' (length a) m' t'"
proof (induction n arbitrary: i b aSub m t)
  case (Suc n)
  obtain b1 aSub1 m1 t1 where "carry c nTmp i 0 b aSub (i, 1) = Some (b1, aSub1, m1, t1)" "sort_inv c b1 aSub1 (i + 1) m1 t1" "length b1 = length b"
    by (rule sort_step [OF Suc(4), of nTmp]) (use Suc(2,3) assms in simp_all)
  then show ?case using Suc(1) [of "i + 1" b1 aSub1 m1 t1] Suc(2,3) by auto
qed auto

lemma final_loop_ok:
  assumes tmp: "length a \<le> nTmp"
  shows "t + n = 13 \<Longrightarrow> length b = length a \<Longrightarrow> subs_ok c b aSub (length a) t \<Longrightarrow> sub_ok c b m ((length a div 2 ^ t) * 2 ^ t) (length a) \<Longrightarrow>
    \<exists>b' m'. final_loop c nTmp (length a) t n b aSub m = Some (b', m') \<and> length b' = length a \<and> sub_ok c b' m' ((length a div 2 ^ 13) * 2 ^ 13) (length a)"
proof (induction n arbitrary: t b m)
  case (Suc n)
  let ?N = "length a"
  show ?case
  proof (cases "bit ?N t")
    case False
    have "subs_ok c b aSub ?N (Suc t)" using Suc(4) by (simp add: subs_ok_def)
    moreover have "sub_ok c b m ((?N div 2 ^ Suc t) * 2 ^ Suc t) ?N"
      using Suc(5) by (simp only: bin_off_clear [OF False, symmetric] bin_off_def)
    ultimately show ?thesis using Suc(1) [of "Suc t" b m] Suc(2,3) False by simp
  next
    case True
    have left: "sub_ok c b (aSub ! t) (bin_off t ?N) ((?N div 2 ^ t) * 2 ^ t)" and aSub: "rd aSub t = Some (aSub ! t)"
      unfolding bin_off_set [OF True, symmetric] using Suc(2,4) True by (simp_all add: subs_ok_def rd_def)
    have off: "bin_off t ?N = (?N div 2 ^ Suc t) * 2 ^ Suc t" by (simp add: bin_off_def)
    have le: "?N - bin_off t ?N \<le> nTmp" using tmp by linarith
    obtain b1 u where u: "walMerge c nTmp b (aSub ! t) m = Some (b1, u)" "sub_ok c b1 u (bin_off t ?N) ?N" "length b1 = length b"
      "\<And>j. j < length b \<Longrightarrow> j < bin_off t ?N \<or> ?N \<le> j \<Longrightarrow> b1 ! j = b ! j"
      using walMerge_ok [OF left Suc(5) le] by blast
    have "subs_ok c b1 aSub ?N (Suc t)"
      by (rule subs_ok_frame [OF Suc(4) u(3) u(4)]) (use bin_off_below [of "Suc t" _ ?N] off in auto)
    then show ?thesis using Suc(1) [of "Suc t" b1 u] Suc(2,3) True aSub u off by auto
  qed
qed auto

lemma walMergesort_ok:
  assumes "0 < n" and "n \<le> 2 ^ 12" and "n \<le> nTmp" and "n \<le> length c"
  obtains a k where "walMergesort c nTmp (map word_of_nat [0..<n]) = Some (a, k)" and "length a = n" and "k \<le> n" and "seg_ok c (take k a) 0 n"
proof -
  let ?a = "map word_of_nat [0..<n] :: u16 list"
  let ?z = "replicate 13 (0, 0) :: sublist list"
  have "sort_inv c ?a ?z 0 (0, 0) 0" by (simp add: sort_inv_def subs_ok_def idle_def)
  then obtain b aSub m t where b: "merge_sort_loop c nTmp 0 n ?a ?z ((0, 0), 0) = Some (b, aSub, m, t)" "length b = n" "sort_inv c b aSub n m t"
    using merge_sort_loop_ok [of ?a nTmp c 0 n ?a ?z "(0, 0)" 0] assms by auto
  have "subs_ok c b aSub n (Suc t)" "t \<le> 12" "sub_ok c b m ((n div 2 ^ Suc t) * 2 ^ Suc t) n"
    using b(3) assms(1) by (simp_all add: sort_inv_def subs_ok_def bin_off_def)
  then obtain d u where d: "final_loop c nTmp n (Suc t) (13 - Suc t) b aSub m = Some (d, u)" "length d = n" "sub_ok c d u ((n div 2 ^ 13) * 2 ^ 13) n"
    using final_loop_ok [of b nTmp "Suc t" "13 - Suc t" b c aSub m] b(2) assms(3) by auto
  have z: "n div 2 ^ 13 = 0" using assms(2) by simp
  have "walMergesort c nTmp ?a = Some (d, snd u)" using b(1) d(1,3) z by (simp add: walMergesort_def sub_ok_def)
  moreover have "snd u \<le> n" "seg_ok c (take (snd u) d) 0 n" using d(3) z by (simp_all add: sub_ok_def)
  ultimately show thesis using d(2) by (intro that)
qed

end
