(* ===== verification/WalIterFacts.thy ===== *)
theory WalIterFacts
  imports WalSortFacts
begin

text \<open>
  The iterator of the checkpoint visits the pages of the log in ascending order, each with its newest frame. A
  segment is a sorted list of pairs of a page and a frame; the calls merge these lists.
\<close>

section \<open>A segment\<close>

definition seg_pairs :: "WalSegment \<Rightarrow> (u32 \<times> nat) list" where
  "seg_pairs seg = map (\<lambda>s. (seg_aPgno seg ! unat s, seg_iZero seg + unat s)) (take (nEntry seg) (aIndex seg))"

definition seg_valid :: "WalSegment \<Rightarrow> bool" where
  "seg_valid seg \<longleftrightarrow> nEntry seg \<le> length (aIndex seg) \<and> (\<forall>s \<in> set (take (nEntry seg) (aIndex seg)). unat s < length (seg_aPgno seg))
     \<and> sorted_wrt (<) (map fst (seg_pairs seg))"

definition seg_pages :: "WalSegment \<Rightarrow> u32 set" where
  "seg_pages seg = fst ` set (seg_pairs seg)"

text \<open>What lies before the position has been visited.\<close>

definition seg_at :: "u32 \<Rightarrow> WalSegment \<Rightarrow> bool" where
  "seg_at iMin seg \<longleftrightarrow> (\<forall>j < iNext seg. j < nEntry seg \<longrightarrow> fst (seg_pairs seg ! j) \<le> iMin)"

lemma length_seg_pairs: "seg_valid seg \<Longrightarrow> length (seg_pairs seg) = nEntry seg"
  by (simp add: seg_pairs_def seg_valid_def)

lemma seg_pairs_next [simp]: "seg_pairs (seg\<lparr>iNext := i\<rparr>) = seg_pairs seg" "seg_valid (seg\<lparr>iNext := i\<rparr>) = seg_valid seg"
  "seg_pages (seg\<lparr>iNext := i\<rparr>) = seg_pages seg"
  by (simp_all add: seg_pairs_def seg_valid_def seg_pages_def)

lemma seg_step:
  assumes "seg_valid seg" and "i < nEntry seg"
  shows "seg_next iMin seg i = (if fst (seg_pairs seg ! i) > iMin then Some (i, Some (seg_pairs seg ! i)) else seg_next iMin seg (i + 1))"
proof -
  have "take (nEntry seg) (aIndex seg) ! i \<in> set (take (nEntry seg) (aIndex seg))" using assms by (intro nth_mem) (simp add: seg_valid_def)
  then have "unat (aIndex seg ! i) < length (seg_aPgno seg)" using assms by (simp add: seg_valid_def)
  then show ?thesis using assms by (simp add: seg_next.simps [of iMin seg i] rd_def seg_pairs_def seg_valid_def)
qed

lemma seg_next_ok:
  assumes valid: "seg_valid seg"
  shows "(\<forall>j < i. j < nEntry seg \<longrightarrow> fst (seg_pairs seg ! j) \<le> iMin) \<Longrightarrow>
    \<exists>k. seg_next iMin seg i = Some (k, if k < nEntry seg then Some (seg_pairs seg ! k) else None)
      \<and> (\<forall>j < k. j < nEntry seg \<longrightarrow> fst (seg_pairs seg ! j) \<le> iMin) \<and> (k < nEntry seg \<longrightarrow> iMin < fst (seg_pairs seg ! k))"
proof (induction "nEntry seg - i" arbitrary: i)
  case 0
  then show ?case by (intro exI [of _ i]) (simp add: seg_next.simps [of iMin seg i])
next
  case (Suc x)
  then have i: "i < nEntry seg" by simp
  show ?case
  proof (cases "fst (seg_pairs seg ! i) > iMin")
    case True
    then show ?thesis using seg_step [OF valid i] Suc(3) i by (intro exI [of _ i]) simp
  next
    case False
    then have "\<forall>j < i + 1. j < nEntry seg \<longrightarrow> fst (seg_pairs seg ! j) \<le> iMin" using Suc(3) by (auto simp: less_Suc_eq)
    then show ?thesis using Suc(1) [of "i + 1"] Suc(2) seg_step [OF valid i] False by auto
  qed
qed

text \<open>The pair that is found has the least page above the last one.\<close>

lemma seg_next_least:
  assumes valid: "seg_valid seg" and at: "seg_at iMin seg"
  obtains k where "seg_next iMin seg (iNext seg) = Some (k, None)" and "seg_at iMin (seg\<lparr>iNext := k\<rparr>)" and "\<forall>p \<in> seg_pages seg. p \<le> iMin"
  | k p f where "seg_next iMin seg (iNext seg) = Some (k, Some (p, f))" and "seg_at iMin (seg\<lparr>iNext := k\<rparr>)" and "(p, f) \<in> set (seg_pairs seg)"
      and "iMin < p" and "\<forall>q \<in> seg_pages seg. iMin < q \<longrightarrow> p \<le> q"
proof -
  obtain k where k: "seg_next iMin seg (iNext seg) = Some (k, if k < nEntry seg then Some (seg_pairs seg ! k) else None)"
    "\<forall>j < k. j < nEntry seg \<longrightarrow> fst (seg_pairs seg ! j) \<le> iMin" "k < nEntry seg \<longrightarrow> iMin < fst (seg_pairs seg ! k)"
    using seg_next_ok [OF valid, of "iNext seg" iMin] at by (auto simp: seg_at_def)
  have at': "seg_at iMin (seg\<lparr>iNext := k\<rparr>)" using k(2) by (simp add: seg_at_def)
  note len = length_seg_pairs [OF valid]
  show thesis
  proof (cases "k < nEntry seg")
    case False
    then have "\<forall>p \<in> seg_pages seg. p \<le> iMin" using k(2) len by (auto simp: seg_pages_def in_set_conv_nth) (metis fst_conv leI less_le_trans)
    then show thesis using that(1) [of k] k(1) at' False by simp
  next
    case True
    obtain p f where pf: "seg_pairs seg ! k = (p, f)" by (cases "seg_pairs seg ! k")
    have "p \<le> fst (seg_pairs seg ! j)" if "j < nEntry seg" "iMin < fst (seg_pairs seg ! j)" for j
    proof -
      have "k \<le> j" using k(2) that by (meson not_le)
      then show ?thesis using valid that(1) pf len sorted_wrt_nth_less [of "(<)" "map fst (seg_pairs seg)" k j]
        by (cases "k = j") (auto simp: seg_valid_def)
    qed
    then have "\<forall>q \<in> seg_pages seg. iMin < q \<longrightarrow> p \<le> q" using len by (auto simp: seg_pages_def in_set_conv_nth) (metis fst_conv)
    moreover have "(p, f) \<in> set (seg_pairs seg)" using True len pf by (metis nth_mem)
    ultimately show thesis using that(2) [of k p f] k at' True pf by simp
  qed
qed

section \<open>All segments\<close>

definition segs_ok :: "u32 \<Rightarrow> WalSegment list \<Rightarrow> bool" where
  "segs_ok iMin segs \<longleftrightarrow> (\<forall>seg \<in> set segs. seg_valid seg \<and> seg_at iMin seg)"

text \<open>\<open>newest_pair segs n p f\<close>: among the first \<open>n\<close> segments, the last one that has the page says frame \<open>f\<close>.\<close>

definition newest_pair :: "(u32 \<times> nat) list list \<Rightarrow> nat \<Rightarrow> u32 \<Rightarrow> nat \<Rightarrow> bool" where
  "newest_pair ps n p f \<longleftrightarrow> (\<exists>k < n. (p, f) \<in> set (ps ! k) \<and> (\<forall>j. k < j \<and> j < n \<longrightarrow> p \<notin> fst ` set (ps ! j)))"

lemma newest_pair_Suc:
  assumes "newest_pair ps n p f" and "p \<notin> fst ` set (ps ! n)"
  shows "newest_pair ps (Suc n) p f"
proof -
  obtain k where "k < n" "(p, f) \<in> set (ps ! k)" "\<forall>j. k < j \<and> j < n \<longrightarrow> p \<notin> fst ` set (ps ! j)"
    using assms(1) unfolding newest_pair_def by blast
  then show ?thesis using assms(2) unfolding newest_pair_def by (intro exI [of _ k]) (auto simp: less_Suc_eq)
qed

lemma next_loop_ok:
  "n \<le> length segs \<Longrightarrow> segs_ok iMin segs \<Longrightarrow>
    \<exists>segs' r f. next_loop iMin n segs iRet iFrame = Some (segs', r, f) \<and> segs_ok iMin segs' \<and> map seg_pairs segs' = map seg_pairs segs
      \<and> r \<le> iRet \<and> (\<forall>k < n. \<forall>p \<in> seg_pages (segs ! k). iMin < p \<longrightarrow> r \<le> p)
      \<and> (r = iRet \<and> f = iFrame \<or> r < iRet \<and> iMin < r \<and> (\<exists>g. f = Some g \<and> newest_pair (map seg_pairs segs) n r g))"
proof (induction n arbitrary: segs iRet iFrame)
  case (Suc n)
  let ?seg = "segs ! n"
  have n: "n < length segs" using Suc(2) by simp
  then have seg: "seg_valid ?seg" "seg_at iMin ?seg" using Suc(3) by (simp_all add: segs_ok_def)
  have upd: "segs_ok iMin (segs[n := ?seg\<lparr>iNext := k\<rparr>])" "map seg_pairs (segs[n := ?seg\<lparr>iNext := k\<rparr>]) = map seg_pairs segs"
    if "seg_at iMin (?seg\<lparr>iNext := k\<rparr>)" for k
  proof -
    show "segs_ok iMin (segs[n := ?seg\<lparr>iNext := k\<rparr>])"
      using Suc(3) seg that set_update_subset_insert [of segs n "?seg\<lparr>iNext := k\<rparr>"] unfolding segs_ok_def by auto
    show "map seg_pairs (segs[n := ?seg\<lparr>iNext := k\<rparr>]) = map seg_pairs segs" using n by (simp add: map_update list_update_same_conv)
  qed
  have pages: "seg_pages (segs[n := ?seg\<lparr>iNext := k\<rparr>] ! j) = seg_pages (segs ! j)" if "j < n" for j k using that by simp
  have grow: "newest_pair (map seg_pairs segs) n r g \<Longrightarrow> r \<notin> seg_pages ?seg \<Longrightarrow> newest_pair (map seg_pairs segs) (Suc n) r g" for r g
    using n by (intro newest_pair_Suc) (simp_all add: seg_pages_def)
  from seg show ?case
  proof (cases rule: seg_next_least)
    case (1 k)
    obtain segs' r f where ih: "next_loop iMin n (segs[n := ?seg\<lparr>iNext := k\<rparr>]) iRet iFrame = Some (segs', r, f)" "segs_ok iMin segs'"
      "map seg_pairs segs' = map seg_pairs segs" "r \<le> iRet" "\<forall>j < n. \<forall>p \<in> seg_pages (segs ! j). iMin < p \<longrightarrow> r \<le> p"
      "r = iRet \<and> f = iFrame \<or> r < iRet \<and> iMin < r \<and> (\<exists>g. f = Some g \<and> newest_pair (map seg_pairs segs) n r g)"
      using Suc(1) [of "segs[n := ?seg\<lparr>iNext := k\<rparr>]" iRet iFrame] upd [OF 1(2)] pages [of _ k] n by auto
    have "next_loop iMin (Suc n) segs iRet iFrame = Some (segs', r, f)" using 1(1) n ih(1) by (simp add: rd_def)
    moreover have "\<forall>j < Suc n. \<forall>p \<in> seg_pages (segs ! j). iMin < p \<longrightarrow> r \<le> p" using ih(5) 1(3) by (auto simp: less_Suc_eq)
    ultimately show ?thesis using ih(2-4,6) grow [of r] 1(3) by (intro exI [of _ segs'] exI [of _ r] exI [of _ f]) (auto simp: not_le [symmetric])
  next
    case (2 k p g)
    let ?segs = "segs[n := ?seg\<lparr>iNext := k\<rparr>]"
    let ?ret = "if p < iRet then p else iRet"
    let ?fr = "if p < iRet then Some g else iFrame"
    obtain segs' r f where ih: "next_loop iMin n ?segs ?ret ?fr = Some (segs', r, f)" "segs_ok iMin segs'"
      "map seg_pairs segs' = map seg_pairs segs" "r \<le> ?ret" "\<forall>j < n. \<forall>q \<in> seg_pages (segs ! j). iMin < q \<longrightarrow> r \<le> q"
      "r = ?ret \<and> f = ?fr \<or> r < ?ret \<and> iMin < r \<and> (\<exists>g. f = Some g \<and> newest_pair (map seg_pairs segs) n r g)"
      using Suc(1) [of ?segs ?ret ?fr] upd [OF 2(2)] pages [of _ k] n by auto
    have step: "next_loop iMin (Suc n) segs iRet iFrame = Some (segs', r, f)" using 2(1) n ih(1) by (simp add: rd_def split: if_splits)
    have le: "r \<le> p" "r \<le> iRet" using ih(4) by (auto split: if_splits)
    have min: "\<forall>j < Suc n. \<forall>q \<in> seg_pages (segs ! j). iMin < q \<longrightarrow> r \<le> q" using ih(5) 2(5) le(1) by (auto simp: less_Suc_eq)
    have here: "newest_pair (map seg_pairs segs) (Suc n) p g" using 2(3) n by (auto simp: newest_pair_def)
    have "r \<notin> seg_pages ?seg" if "r < ?ret" "iMin < r" using that 2(5) by (auto split: if_splits)
    then have "r = iRet \<and> f = iFrame \<or> r < iRet \<and> iMin < r \<and> (\<exists>g. f = Some g \<and> newest_pair (map seg_pairs segs) (Suc n) r g)"
      using ih(6) grow here 2(4) by (auto split: if_splits)
    then show ?thesis using step ih(2,3) le(2) min by (intro exI [of _ segs'] exI [of _ r] exI [of _ f]) simp
  qed
qed simp

section \<open>The whole run\<close>

definition pages_above :: "(u32 \<times> nat) list list \<Rightarrow> u32 \<Rightarrow> u32 set" where
  "pages_above ps q = {p. q < p \<and> (\<exists>k < length ps. p \<in> fst ` set (ps ! k))}"

lemma finite_pages_above: "finite (pages_above ps q)"
proof -
  have "pages_above ps q \<subseteq> (\<Union>k < length ps. fst ` set (ps ! k))" by (auto simp: pages_above_def)
  then show ?thesis by (rule finite_subset) simp
qed

lemma pages_above_next:
  assumes "q < m" and "\<And>p. p \<in> pages_above ps q \<Longrightarrow> m \<le> p"
  shows "pages_above ps q - {m} = pages_above ps m"
proof (intro set_eqI iffI)
  fix p
  assume p: "p \<in> pages_above ps q - {m}"
  then have "m < p" using assms(2) [of p] by (auto simp: order_less_le)
  with p show "p \<in> pages_above ps m" by (simp add: pages_above_def)
next
  fix p
  assume "p \<in> pages_above ps m"
  with assms(1) show "p \<in> pages_above ps q - {m}" by (auto simp: pages_above_def)
qed

lemma segs_ok_mono: "segs_ok q segs \<Longrightarrow> q \<le> r \<Longrightarrow> segs_ok r segs"
  unfolding segs_ok_def seg_at_def by (meson order_trans)

lemma iterator_next_ok:
  assumes ok: "segs_ok (iPrior it) (aSegment it)" and max: "0xFFFFFFFF \<notin> pages_above (map seg_pairs (aSegment it)) (iPrior it)"
  defines "ps \<equiv> map seg_pairs (aSegment it)" and "P \<equiv> pages_above (map seg_pairs (aSegment it)) (iPrior it)"
  obtains it' where "walIteratorNext it = Some (True, 0xFFFFFFFF, None, it')" and "P = {}"
  | g it' where "walIteratorNext it = Some (False, Min P, Some g, it')" and "P \<noteq> {}" and "newest_pair ps (length ps) (Min P) g"
      and "iPrior it' = Min P" and "segs_ok (Min P) (aSegment it')" and "map seg_pairs (aSegment it') = ps"
proof -
  obtain segs r f where loop: "next_loop (iPrior it) (length (aSegment it)) (aSegment it) 0xFFFFFFFF None = Some (segs, r, f)"
    "segs_ok (iPrior it) segs" "map seg_pairs segs = ps" "r \<le> 0xFFFFFFFF"
    "\<forall>k < length (aSegment it). \<forall>p \<in> seg_pages (aSegment it ! k). iPrior it < p \<longrightarrow> r \<le> p"
    "r = 0xFFFFFFFF \<and> f = None \<or> r < 0xFFFFFFFF \<and> iPrior it < r \<and> (\<exists>g. f = Some g \<and> newest_pair ps (length ps) r g)"
    using next_loop_ok [OF order_refl ok, of "0xFFFFFFFF" None] unfolding ps_def by auto
  have least: "\<forall>p \<in> P. r \<le> p" using loop(5) unfolding P_def by (force simp: pages_above_def seg_pages_def)
  have fin: "finite P" unfolding P_def by (rule finite_pages_above)
  from loop(6) show thesis
  proof (elim disjE conjE exE)
    assume r: "r = 0xFFFFFFFF" "f = None"
    have "P = {}"
    proof (rule ccontr)
      assume "P \<noteq> {}"
      then obtain p where "p \<in> P" by blast
      then have "0xFFFFFFFF \<le> p" using least r by simp
      moreover have "(0xFFFFFFFF :: u32) = - 1" by simp
      then have "p \<le> 0xFFFFFFFF" using word_n1_ge [of p] by (simp only:)
      ultimately show False using max \<open>p \<in> P\<close> unfolding P_def by simp
    qed
    then show thesis using that(1) loop(1) r by (simp add: walIteratorNext_def)
  next
    fix g
    assume r: "r < 0xFFFFFFFF" "iPrior it < r" "f = Some g" "newest_pair ps (length ps) r g"
    have "r \<in> P" using r(2,4) unfolding P_def ps_def by (force simp: pages_above_def newest_pair_def)
    then have "Min P = r" using least fin by (intro Min_eqI) auto
    moreover have "r \<noteq> 0xFFFFFFFF" by (rule less_imp_neq) (rule r(1))
    ultimately show thesis using that(2) [of g "it\<lparr>iPrior := r, aSegment := segs\<rparr>"] loop(1-3) r \<open>r \<in> P\<close> segs_ok_mono [OF loop(2), of r]
      by (auto simp: walIteratorNext_def)
  qed
qed

text \<open>\<open>n\<close> calls give the first \<open>n\<close> pages in ascending order, each with its newest frame.\<close>

lemma iterate_ok:
  assumes max: "\<And>p. p \<in> pages_above ps q \<Longrightarrow> p \<noteq> 0xFFFFFFFF" and frame: "\<And>p g. newest_pair ps (length ps) p g \<Longrightarrow> F p = g"
  shows "segs_ok (iPrior it) (aSegment it) \<Longrightarrow> map seg_pairs (aSegment it) = ps \<Longrightarrow> q \<le> iPrior it \<Longrightarrow>
    iterate n it = Some (map (\<lambda>p. (p, Some (F p))) (take n (sorted_list_of_set (pages_above ps (iPrior it)))))"
proof (induction n arbitrary: it)
  case (Suc n)
  let ?P = "pages_above ps (iPrior it)"
  have "?P \<subseteq> pages_above ps q" using Suc(4) by (auto simp: pages_above_def)
  then have m: "0xFFFFFFFF \<notin> pages_above (map seg_pairs (aSegment it)) (iPrior it)" using max Suc(3) by auto
  from Suc(2) m show ?case
  proof (cases rule: iterator_next_ok)
    case (1 it')
    then show ?thesis using Suc(3) by simp
  next
    case (2 g it')
    have ne: "?P \<noteq> {}" "newest_pair ps (length ps) (Min ?P) g" using 2(2,3) by (simp_all add: Suc(3))
    have "iPrior it < Min ?P" using Min_in [OF finite_pages_above ne(1)] by (simp add: pages_above_def)
    then have le: "q \<le> Min ?P" using Suc(4) by simp
    have "?P - {Min ?P} = pages_above ps (Min ?P)"
      using Min_le [OF finite_pages_above] \<open>iPrior it < Min ?P\<close> by (intro pages_above_next) auto
    then have "sorted_list_of_set ?P = Min ?P # sorted_list_of_set (pages_above ps (Min ?P))"
      using sorted_list_of_set_nonempty [OF finite_pages_above ne(1)] by simp
    moreover have "iterate n it' = Some (map (\<lambda>p. (p, Some (F p))) (take n (sorted_list_of_set (pages_above ps (Min ?P)))))"
      using Suc(1) [of it'] 2(4-6) le by (simp add: Suc(3))
    ultimately show ?thesis using 2(1) frame [OF ne(2)] by (simp add: Suc(3))
  qed
qed simp

section \<open>Building the iterator\<close>

text \<open>\<open>seg_of\<close>: the segment holds the newest frames of the page \<open>t\<close> of the index, up to the last frame.\<close>

definition seg_of :: "u32 list \<Rightarrow> nat \<Rightarrow> nat \<Rightarrow> (u32 \<times> nat) list \<Rightarrow> bool" where
  "seg_of log iLast t ps \<longleftrightarrow> set ps = {(log ! j, Suc j) | j. walZero t \<le> j \<and> j < min iLast (walZero (Suc t))
     \<and> (\<forall>i. j < i \<and> i < min iLast (walZero (Suc t)) \<longrightarrow> log ! i \<noteq> log ! j)}"

lemma seg_of_sorted:
  assumes ok: "seg_ok c (take k a) 0 n" and c: "\<And>j. j < n \<Longrightarrow> c ! j = log ! (walZero t + j)" and n: "n = min iLast (walZero (Suc t)) - walZero t"
    and k: "k \<le> length a"
  defines "seg \<equiv> \<lparr>iNext = 0, aIndex = a, seg_aPgno = c, nEntry = k, seg_iZero = walZero t + 1\<rparr>"
  shows "seg_valid seg \<and> seg_at q seg \<and> seg_of log iLast t (seg_pairs seg)"
proof -
  have keys: "slot_keys_ok c (take k a)" and elems: "unat ` set (take k a) = newest c 0 n" using ok by (simp_all add: seg_ok_def)
  have "map fst (seg_pairs seg) = map (key_of c) (take k a)" by (simp add: seg_pairs_def seg_def key_of_def [abs_def])
  then have "seg_valid seg" using keys k by (simp add: seg_valid_def slot_keys_ok_def) (simp add: seg_def)
  moreover have "seg_at q seg" by (simp add: seg_at_def seg_def)
  moreover have "set (seg_pairs seg) = (\<lambda>j. (c ! j, Suc (walZero t + j))) ` newest c 0 n"
    unfolding elems [symmetric] image_image by (simp add: seg_pairs_def seg_def)
  then have "seg_of log iLast t (seg_pairs seg)"
    unfolding seg_of_def
  proof (rule trans, intro set_eqI iffI)
    let ?z = "walZero t"
    fix x
    assume "x \<in> (\<lambda>j. (c ! j, Suc (?z + j))) ` newest c 0 n"
    then obtain j where j: "x = (c ! j, Suc (?z + j))" "j < n" "\<forall>i. j < i \<and> i < n \<longrightarrow> c ! i \<noteq> c ! j" by (auto simp: newest_def)
    have "log ! i \<noteq> log ! (?z + j)" if "?z + j < i" "i < min iLast (walZero (Suc t))" for i
      using j(3) c [of "i - ?z"] c [OF j(2)] that n by (metis add_diff_inverse_nat diff_less_mono less_diff_conv2 not_less add.commute le_add1 less_le_trans less_imp_le)
    then show "x \<in> {(log ! j, Suc j) | j. ?z \<le> j \<and> j < min iLast (walZero (Suc t)) \<and> (\<forall>i. j < i \<and> i < min iLast (walZero (Suc t)) \<longrightarrow> log ! i \<noteq> log ! j)}"
      using j(1,2) c [OF j(2)] n by (intro CollectI exI [of _ "?z + j"]) auto
  next
    let ?z = "walZero t"
    fix x
    assume "x \<in> {(log ! j, Suc j) | j. ?z \<le> j \<and> j < min iLast (walZero (Suc t)) \<and> (\<forall>i. j < i \<and> i < min iLast (walZero (Suc t)) \<longrightarrow> log ! i \<noteq> log ! j)}"
    then obtain j where j: "x = (log ! j, Suc j)" "?z \<le> j" "j < min iLast (walZero (Suc t))"
      "\<forall>i. j < i \<and> i < min iLast (walZero (Suc t)) \<longrightarrow> log ! i \<noteq> log ! j" by blast
    have jn: "j - ?z < n" using j(2,3) n by linarith
    have "c ! i \<noteq> c ! (j - ?z)" if "j - ?z < i" "i < n" for i
    proof -
      have "j < ?z + i" "?z + i < min iLast (walZero (Suc t))" using that j(2) n by linarith+
      then show ?thesis using j(2) j(4) c [OF that(2)] c [OF jn] by simp
    qed
    then have "j - ?z \<in> newest c 0 n" using jn by (simp add: newest_def)
    then show "x \<in> (\<lambda>j. (c ! j, Suc (?z + j))) ` newest c 0 n" using j(1,2) c [OF jn] by (intro image_eqI [of _ _ "j - ?z"]) simp_all
  qed
  ultimately show ?thesis by blast
qed

lemma init_segments_ok:
  assumes ok: "wi_ok (apWiData w) log" and last: "0 < iLast" "iLast \<le> length log"
  defines "S \<equiv> walFramePage iLast + 1"
  shows "i + n = S \<Longrightarrow> length segs = S \<Longrightarrow>
    \<exists>segs'. init_segments e w iLast S i n segs = Some (SQLITE_OK, segs', w) \<and> length segs' = S \<and> (\<forall>t < i. segs' ! t = segs ! t)
      \<and> (\<forall>t. i \<le> t \<and> t < S \<longrightarrow> seg_valid (segs' ! t) \<and> seg_at 0 (segs' ! t) \<and> seg_of log iLast t (seg_pairs (segs' ! t)))"
proof (induction n arbitrary: i segs)
  case (Suc n)
  have "log \<noteq> []" using last by auto
  have i: "i \<le> walFramePage iLast" using Suc(2) by (simp add: S_def)
  obtain pg where pg: "i < length (apWiData w)" "apWiData w ! i = Some pg" "tab_ok i pg (wal_slice i log)"
    by (rule wi_ok_page [OF ok \<open>log \<noteq> []\<close> le_trans [OF i walFramePage_mono [OF last(2)]]])
  let ?nEnt = "if i + 1 = S then iLast - walZero i else length (aPgno pg)"
  have len: "length (aPgno pg) = npage i" using tab_ok_shape [OF pg(3)] by (simp add: page_shape_def)
  have nEnt: "?nEnt = min iLast (walZero (Suc i)) - walZero i" "0 < ?nEnt"
  proof -
    have "walZero i < iLast \<and> iLast \<le> walZero (Suc i)" if "i + 1 = S"
      using that walZero_framePage [OF last(1)] by (simp add: S_def walZero_Suc)
    moreover have "walZero (Suc i) < iLast" if "i + 1 \<noteq> S" using below_framePage [of i iLast] that i by (simp add: S_def)
    ultimately show "?nEnt = min iLast (walZero (Suc i)) - walZero i" "0 < ?nEnt" using len npage_bounds [of i] by (auto simp: walZero_Suc)
  qed
  have at: "aPgno pg ! j = log ! (walZero i + j)" if "j < ?nEnt" for j
  proof -
    have "j < length (wal_slice i log)" using that nEnt(1) last(2) unfolding length_wal_slice walZero_Suc by linarith
    then show ?thesis using pg(3) nth_wal_slice [of j i log] by (simp add: tab_ok_def nth_append)
  qed
  have small: "?nEnt \<le> 2 ^ 12" "?nEnt \<le> length (aPgno pg)" "?nEnt \<le> iLast"
    using nEnt(1) npage_bounds [of i] len by (simp_all add: walZero_Suc)
  have tmp: "?nEnt \<le> (if iLast > HASHTABLE_NPAGE then HASHTABLE_NPAGE else iLast)" using small by (simp add: HASHTABLE_NPAGE_def)
  obtain a k where a: "walMergesort (aPgno pg) (if iLast > HASHTABLE_NPAGE then HASHTABLE_NPAGE else iLast) (map word_of_nat [0..<?nEnt]) = Some (a, k)"
    "length a = ?nEnt" "k \<le> ?nEnt" "seg_ok (aPgno pg) (take k a) 0 ?nEnt"
    using walMergesort_ok [OF nEnt(2) small(1) tmp small(2)] by blast
  let ?seg = "\<lparr>iNext = 0, aIndex = a, seg_aPgno = aPgno pg, nEntry = k, seg_iZero = walZero i + 1\<rparr>"
  have seg: "seg_valid ?seg \<and> seg_at 0 ?seg \<and> seg_of log iLast i (seg_pairs ?seg)"
    using a(2,3) by (intro seg_of_sorted [OF a(4) at nEnt(1)]) simp_all
  have "init_segments e w iLast S i (Suc n) segs = init_segments e w iLast S (i + 1) n (segs[i := ?seg])"
    using hash_get_mapped [OF pg(1,2), of e] a(1) Suc(2,3) by (simp add: Let_def)
  moreover obtain segs' where "init_segments e w iLast S (i + 1) n (segs[i := ?seg]) = Some (SQLITE_OK, segs', w)" "length segs' = S"
    "\<forall>t < i + 1. segs' ! t = segs[i := ?seg] ! t"
    "\<forall>t. i + 1 \<le> t \<and> t < S \<longrightarrow> seg_valid (segs' ! t) \<and> seg_at 0 (segs' ! t) \<and> seg_of log iLast t (seg_pairs (segs' ! t))"
    using Suc(1) [of "i + 1" "segs[i := ?seg]"] Suc(2,3) by auto
  moreover have "seg_valid (segs' ! t) \<and> seg_at 0 (segs' ! t) \<and> seg_of log iLast t (seg_pairs (segs' ! t))" if "i \<le> t \<and> t < S" for t
    using calculation(4,5) seg that Suc(2,3) by (cases "t = i") auto
  ultimately show ?case by (intro exI [of _ segs']) auto
qed auto

lemma seg_of_covers:
  assumes "seg_of log iLast t ps"
  shows "walZero t \<le> j \<Longrightarrow> j < min iLast (walZero (Suc t)) \<Longrightarrow> log ! j \<in> fst ` set ps"
proof (induction "iLast - j" arbitrary: j rule: less_induct)
  case less
  show ?case
  proof (cases "\<exists>i. j < i \<and> i < min iLast (walZero (Suc t)) \<and> log ! i = log ! j")
    case True
    then obtain i where i: "j < i" "i < min iLast (walZero (Suc t))" "log ! i = log ! j" by blast
    moreover have "log ! i \<in> fst ` set ps" using i(1,2) less(2) by (intro less(1)) auto
    ultimately show ?thesis by simp
  next
    case False
    then have "(log ! j, Suc j) \<in> set ps" using assms less(2,3) unfolding seg_of_def by blast
    then show ?thesis by force
  qed
qed

text \<open>The pairs of all segments, from the segment \<open>first\<close> on, are the pages with their newest frames.\<close>

definition all_segs :: "u32 list \<Rightarrow> nat \<Rightarrow> nat \<Rightarrow> (u32 \<times> nat) list list \<Rightarrow> bool" where
  "all_segs log iLast first ps \<longleftrightarrow> length ps = walFramePage iLast + 1 \<and> (\<forall>t < first. t < length ps \<longrightarrow> ps ! t = [])
     \<and> (\<forall>t. first \<le> t \<and> t < length ps \<longrightarrow> seg_of log iLast t (ps ! t))"

lemma all_segs_cover:
  assumes segs: "all_segs log iLast first ps" and j: "walZero first \<le> j" "j < iLast"
  obtains t where "t = walFramePage (Suc j)" and "t < length ps" and "first \<le> t" and "log ! j \<in> fst ` set (ps ! t)"
proof -
  let ?t = "walFramePage (Suc j)"
  have z: "walZero ?t \<le> j" "j < walZero (Suc ?t)" using walZero_framePage [of "Suc j"] by (simp_all add: walZero_Suc)
  have t: "?t < length ps" using walFramePage_mono [of "Suc j" iLast] j(2) segs by (simp add: all_segs_def)
  have "first \<le> ?t"
  proof (rule ccontr)
    assume "\<not> first \<le> ?t"
    then show False using walZero_mono [of "Suc ?t" first] z(2) j(1) by simp
  qed
  moreover have "log ! j \<in> fst ` set (ps ! ?t)"
    using segs t calculation z j(2) by (intro seg_of_covers [of log iLast ?t]) (auto simp: all_segs_def)
  ultimately show thesis using t by (intro that) simp_all
qed

lemma newest_pair_latest:
  assumes segs: "all_segs log iLast first ps" and new: "newest_pair ps (length ps) p f"
  shows "latest log (Suc (walZero first)) iLast p = f \<and> 0 < f"
proof -
  obtain k where k: "k < length ps" "(p, f) \<in> set (ps ! k)" "\<forall>j. k < j \<and> j < length ps \<longrightarrow> p \<notin> fst ` set (ps ! j)"
    using new unfolding newest_pair_def by blast
  have first: "first \<le> k" using segs k(1,2) unfolding all_segs_def by (metis empty_iff empty_set not_le)
  then have "seg_of log iLast k (ps ! k)" using segs k(1) by (simp add: all_segs_def)
  then obtain j where j: "p = log ! j" "f = Suc j" "walZero k \<le> j" "j < min iLast (walZero (Suc k))"
    "\<forall>i. j < i \<and> i < min iLast (walZero (Suc k)) \<longrightarrow> log ! i \<noteq> log ! j"
    using k(2) unfolding seg_of_def by blast
  have lo: "walZero first \<le> j" using walZero_mono [OF first] j(3) by simp
  have "log ! i \<noteq> p" if i: "j < i" "i < iLast" for i
  proof (cases "i < walZero (Suc k)")
    case True
    then show ?thesis using j(1,5) i by simp
  next
    case False
    have "walZero first \<le> i" using lo i(1) by simp
    then obtain t where t: "t = walFramePage (Suc i)" "t < length ps" "log ! i \<in> fst ` set (ps ! t)"
      by (rule all_segs_cover [OF segs _ i(2)])
    have "\<not> t \<le> k" using walZero_mono [of "Suc t" "Suc k"] walZero_framePage(2) [of "Suc i"] False t(1) by (auto simp: walZero_Suc)
    then have "k < t" by simp
    then show ?thesis using k(3) t(2,3) by metis
  qed
  then have "latest log (Suc (walZero first)) iLast p = Suc j" using j(1,4) lo by (intro latest_some) auto
  then show ?thesis using j(2) by simp
qed

lemma pages_are_latest:
  assumes segs: "all_segs log iLast first ps" and nz: "0 \<notin> set log" and last: "iLast \<le> length log"
  shows "pages_above ps 0 = {p. latest log (Suc (walZero first)) iLast p \<noteq> 0}"
proof (intro set_eqI iffI)
  fix p
  assume p: "p \<in> {p. latest log (Suc (walZero first)) iLast p \<noteq> 0}"
  let ?f = "latest log (Suc (walZero first)) iLast p"
  have f: "?f \<le> iLast" "Suc (walZero first) \<le> ?f" "log ! (?f - 1) = p" using latest_bounds [of log "Suc (walZero first)" iLast p] p by auto
  then have "walZero first \<le> ?f - 1" "?f - 1 < iLast" by linarith+
  then obtain t where "t < length ps" "log ! (?f - 1) \<in> fst ` set (ps ! t)" by (rule all_segs_cover [OF segs])
  moreover have "p \<in> set log" using f last nth_mem [of "?f - 1" log] by auto
  then have "0 < p" using nz by (auto simp: word_neq_0_conv [symmetric])
  ultimately show "p \<in> pages_above ps 0" unfolding f(3) pages_above_def by blast
next
  fix p
  assume "p \<in> pages_above ps 0"
  then obtain k0 where "k0 < length ps \<and> p \<in> fst ` set (ps ! k0)" by (auto simp: pages_above_def)
  then obtain k where k: "k < length ps \<and> p \<in> fst ` set (ps ! k)" "\<forall>j. j < length ps \<and> p \<in> fst ` set (ps ! j) \<longrightarrow> j \<le> k"
    using ex_has_greatest_nat [of "\<lambda>k. k < length ps \<and> p \<in> fst ` set (ps ! k)" k0 "\<lambda>k. k" "length ps"] by auto
  then obtain f where "(p, f) \<in> set (ps ! k)" by force
  then have "newest_pair ps (length ps) p f" using k unfolding newest_pair_def by (meson not_le)
  then show "p \<in> {p. latest log (Suc (walZero first)) iLast p \<noteq> 0}" using newest_pair_latest [OF segs] by fastforce
qed

section \<open>Property\<close>

text \<open>
  C5: the checkpoint sees every page that has a frame after \<open>nBack\<close> exactly once, in ascending order, each with its
  newest frame up to the last; earlier frames are only seen as far as they are in the same page of the index. The
  merge sort works in place on every page of the index without leaving an array.
\<close>

theorem iterator_visits_newest_frames:
  assumes ok: "wi_ok (apWiData w) log" and last: "unat (mxFrame (wal_hdr w)) \<le> length log" and bf: "nBack < unat (mxFrame (wal_hdr w))"
    and max: "0xFFFFFFFF \<notin> set log"
  defines "lo \<equiv> Suc (walZero (walFramePage (nBack + 1)))" and "mx \<equiv> unat (mxFrame (wal_hdr w))"
  shows "lo \<le> nBack + 1 \<and> (\<exists>it. walIteratorInit True True e w nBack = Some (SQLITE_OK, Some it, w)
    \<and> (\<forall>n. iterate n it = Some (map (\<lambda>p. (p, Some (latest log lo mx p))) (take n (sorted_list_of_set {p. latest log lo mx p \<noteq> 0})))))"
proof -
  let ?first = "walFramePage (nBack + 1)"
  let ?S = "walFramePage mx + 1"
  let ?none = "\<lparr>iNext = 0, aIndex = [], seg_aPgno = [], nEntry = 0, seg_iZero = 0\<rparr>"
  have "?first \<le> walFramePage mx" using bf by (intro walFramePage_mono) (simp add: mx_def)
  then have S: "?first + (?S - ?first) = ?S" by simp
  obtain segs where segs: "init_segments e w mx ?S ?first (?S - ?first) (replicate ?S ?none) = Some (SQLITE_OK, segs, w)" "length segs = ?S"
    "\<forall>t < ?first. segs ! t = replicate ?S ?none ! t"
    "\<forall>t. ?first \<le> t \<and> t < ?S \<longrightarrow> seg_valid (segs ! t) \<and> seg_at 0 (segs ! t) \<and> seg_of log mx t (seg_pairs (segs ! t))"
    using init_segments_ok [OF ok, of mx ?first "?S - ?first" "replicate ?S ?none" e] S last bf unfolding mx_def by auto
  let ?it = "\<lparr>iPrior = 0, aSegment = segs\<rparr>"
  let ?ps = "map seg_pairs segs"
  have none: "segs ! t = ?none" if "t < ?first" "t < ?S" for t
    by (simp only: segs(3) [rule_format, OF that(1)] nth_replicate [OF that(2)])
  have empty: "seg_valid ?none" "seg_at 0 ?none" "seg_pairs ?none = []" by (simp_all add: seg_valid_def seg_at_def seg_pairs_def)
  have "segs_ok 0 segs" unfolding segs_ok_def
  proof
    fix seg
    assume "seg \<in> set segs"
    then obtain t where "seg = segs ! t" "t < ?S" using segs(2) by (metis in_set_conv_nth)
    then show "seg_valid seg \<and> seg_at 0 seg" using segs(4) none [of t] empty(1,2) by (cases "t < ?first") auto
  qed
  moreover have all: "all_segs log mx ?first ?ps" using segs(2,4) none empty(3) by (auto simp: all_segs_def)
  have pages: "pages_above ?ps 0 = {p. latest log lo mx p \<noteq> 0}"
    unfolding lo_def using ok last by (intro pages_are_latest [OF all]) (simp_all add: wi_ok_def mx_def)
  have "p \<noteq> 0xFFFFFFFF" if "p \<in> pages_above ?ps 0" for p
    using that max latest_bounds [of log lo mx p] nth_mem [of "latest log lo mx p - 1" log] last unfolding pages mx_def lo_def by auto
  then have "iterate n ?it = Some (map (\<lambda>p. (p, Some (latest log lo mx p))) (take n (sorted_list_of_set (pages_above ?ps (iPrior ?it)))))" for n
    using newest_pair_latest [OF all] calculation unfolding lo_def by (intro iterate_ok [of ?ps 0]) auto
  moreover have "walIteratorInit True True e w nBack = Some (SQLITE_OK, Some ?it, w)"
    using segs(1) by (simp add: walIteratorInit_def Let_def mx_def [symmetric])
  moreover have "lo \<le> nBack + 1" using walZero_framePage(1) [of "nBack + 1"] by (simp add: lo_def)
  ultimately show ?thesis using pages by auto
qed

theorem iterator_visits_newest_frames_witness:
  "\<exists>w it. walIteratorInit True True fresh_env w 0 = Some (SQLITE_OK, Some it, w) \<and> iterate 3 it = Some [(5, Some 1)]"
proof -
  obtain rc wi ro where "wi_ok wi [5]"
    using append_ok [OF _ fresh_wal_rep(2), of fresh_wal "[]" 1 5] fresh_wal_rep(1) fresh_map [of fresh_env]
    by (auto simp: wal_rep_def next_frame_def)
  moreover have "{p. latest [5] (Suc (walZero (walFramePage 1))) 1 p \<noteq> 0} = {5 :: u32}"
    by (auto simp: walFramePage_eq walZero_def split: if_splits)
  ultimately show ?thesis
    using iterator_visits_newest_frames [of "reader (fresh_wal\<lparr>apWiData := wi\<rparr>) 1 1" "[5]" 0 fresh_env]
    by (fastforce simp: reader_def)
qed

end
