(* ===== verification/WalLog.thy ===== *)
theory WalLog
  imports WalIndexFacts Varint
begin

text \<open>
  The file of the write-ahead log (\<^verbatim>\<open>src/wal.c\<close>): its header, the frames with their chained checksums, and the recovery
  that rebuilds the index from the file.

  \<^item> The processor is little-endian, as those of the devices are: \<^verbatim>\<open>SQLITE_BIGENDIAN\<close> is 0.
  \<^item> A file is the list of its bytes. Whether its size can be told and what a read at an offset answers are
    arguments (\<open>rec_env\<close>), as are the locks and the allocation.
  \<^item> The content of a page is what the encryption gives; it is an argument of the functions that write a frame.
\<close>

section \<open>Frames\<close>

definition WAL_HDRSIZE :: nat where "WAL_HDRSIZE = 32"
definition WAL_FRAME_HDRSIZE :: nat where "WAL_FRAME_HDRSIZE = 24"
definition WAL_MAGIC :: u32 where "WAL_MAGIC = 0x377f0682"
definition WAL_MAX_VERSION :: u32 where "WAL_MAX_VERSION = 3007000"
definition SQLITE_BIGENDIAN :: u8 where "SQLITE_BIGENDIAN = 0"

definition walFrameOffset :: "nat \<Rightarrow> nat \<Rightarrow> nat" where
  "walFrameOffset iFrame szPage = WAL_HDRSIZE + (iFrame - 1) * (szPage + WAL_FRAME_HDRSIZE)"

definition set_cksum :: "Wal \<Rightarrow> u32 \<times> u32 \<Rightarrow> Wal" where
  "set_cksum w c = w\<lparr>wal_hdr := (wal_hdr w)\<lparr>aFrameCksum := c\<rparr>\<rparr>"

definition frame_cksum :: "Wal \<Rightarrow> u8 list \<Rightarrow> u8 list \<Rightarrow> u32 \<times> u32" where
  "frame_cksum w aFrame aData =
     (let native = (bigEndCksum (wal_hdr w) = SQLITE_BIGENDIAN);
          c = walChecksumBytes native (take 8 aFrame) (aFrameCksum (wal_hdr w))
      in walChecksumBytes native (take (wal_szPage w) aData) c)"

text \<open>The 24 bytes of the header of the frame, and the log with the checksum moved on.\<close>

definition walEncodeFrame :: "Wal \<Rightarrow> u32 \<Rightarrow> u32 \<Rightarrow> u8 list \<Rightarrow> u8 list \<times> Wal" where
  "walEncodeFrame w iPage nTruncate aData =
     (let a = sqlite3Put4byte iPage @ sqlite3Put4byte nTruncate
      in if iReCksum w = 0 then
           let c = frame_cksum w a aData
           in (a @ aSalt (wal_hdr w) @ sqlite3Put4byte (fst c) @ sqlite3Put4byte (snd c), set_cksum w c)
         else (a @ replicate 16 0, w))"

text \<open>
  The page and the size of the database when the frame is valid. The checksum moves on also when it turns out
  wrong.
\<close>

definition walDecodeFrame :: "Wal \<Rightarrow> u8 list \<Rightarrow> u8 list \<Rightarrow> ((u32 \<times> u32) option \<times> Wal) option" where
  "walDecodeFrame w aData aFrame =
     (if take 8 (drop 8 aFrame) \<noteq> aSalt (wal_hdr w) then Some (None, w)
      else do {
        pgno \<leftarrow> sqlite3Get4byte aFrame;
        if pgno = 0 then Some (None, w)
        else do {
          let c = frame_cksum w aFrame aData;
          let w = set_cksum w c;
          c1 \<leftarrow> sqlite3Get4byte (drop 16 aFrame);
          c2 \<leftarrow> sqlite3Get4byte (drop 20 aFrame);
          if fst c \<noteq> c1 \<or> snd c \<noteq> c2 then Some (None, w)
          else do { nTruncate \<leftarrow> sqlite3Get4byte (drop 4 aFrame); Some (Some (pgno, nTruncate), w) } } })"

section \<open>Writing\<close>

text \<open>\<^verbatim>\<open>walWriteHeader\<close>: the 32 bytes, and the log. \<open>rnd\<close> are the eight random bytes of the first salt.\<close>

definition walWriteHeader :: "u8 list \<Rightarrow> Wal \<Rightarrow> nat \<Rightarrow> u8 list \<times> Wal" where
  "walWriteHeader rnd w szPage =
     (let h = (if nCkpt w = 0 then (wal_hdr w)\<lparr>aSalt := rnd\<rparr> else wal_hdr w);
          a = sqlite3Put4byte (WAL_MAGIC OR ucast SQLITE_BIGENDIAN) @ sqlite3Put4byte WAL_MAX_VERSION
            @ sqlite3Put4byte (word_of_nat szPage) @ sqlite3Put4byte (nCkpt w) @ aSalt h;
          c = walChecksumBytes True a (0, 0)
      in (a @ sqlite3Put4byte (fst c) @ sqlite3Put4byte (snd c),
          w\<lparr>wal_szPage := szPage, wal_hdr := h\<lparr>bigEndCksum := SQLITE_BIGENDIAN, aFrameCksum := c\<rparr>\<rparr>))"

text \<open>
  How \<^verbatim>\<open>sqlite3WalFrames\<close> begins a log, in the version of the app (\<^verbatim>\<open>SQLITE_WCDB_IMPROVED_CHECKPOINT\<close>): the header is written when
  the log was restarted just now (\<open>pChange\<close>) or when the file is too small to have one. The result is what to
  write at the start of the file, if anything.
\<close>

definition begin_log :: "u8 list \<Rightarrow> bool \<Rightarrow> nat \<Rightarrow> nat \<Rightarrow> Wal \<Rightarrow> u8 list option \<times> Wal" where
  "begin_log rnd pChange nSize szPage w =
     (if mxFrame (wal_hdr w) = 0 then
        if pChange \<or> nSize < WAL_HDRSIZE then (let (a, w) = walWriteHeader rnd w szPage in (Some a, w))
        else if wal_szPage w = 0 then (None, w\<lparr>wal_szPage := szPage\<rparr>)
        else (None, w)
      else (None, w))"

text \<open>A frame as the file gets it: header and page.\<close>

definition walWriteOneFrame :: "Wal \<Rightarrow> u32 \<times> u32 \<times> u8 list \<Rightarrow> u8 list \<times> Wal" where
  "walWriteOneFrame w f =
     (let (pgno, nTruncate, pData) = f; (a, w) = walEncodeFrame w pgno nTruncate pData in (a @ pData, w))"

fun write_frames :: "Wal \<Rightarrow> (u32 \<times> u32 \<times> u8 list) list \<Rightarrow> u8 list \<times> Wal" where
  "write_frames w [] = ([], w)"
| "write_frames w (f # fs) = (let (a, w) = walWriteOneFrame w f; (b, w) = write_frames w fs in (a @ b, w))"

section \<open>Recovery\<close>

record rec_env =
  r_lock1 :: nat
  r_lock2 :: nat
  r_size :: nat
  r_read :: "nat \<Rightarrow> nat"
  r_malloc :: bool
  r_map :: "nat \<Rightarrow> wal_env"

definition zero_hdr :: WalIndexHdr where
  "zero_hdr = \<lparr>iVersion = 0, hdr_unused = 0, iChange = 0, hdr_isInit = 0, bigEndCksum = 0, hdr_szPage = 0, mxFrame = 0, nPage = 0,
     aFrameCksum = (0, 0), aSalt = replicate 8 0, aCksum = (0, 0)\<rparr>"

text \<open>
  The loop over the frames; there are \<open>n\<close> more in the file. \<open>ck\<close> is the checksum after the last commit.
\<close>

fun recover_loop :: "rec_env \<Rightarrow> u8 list \<Rightarrow> nat \<Rightarrow> nat \<Rightarrow> nat \<Rightarrow> Wal \<Rightarrow> u32 \<times> u32 \<Rightarrow> (nat \<times> Wal \<times> (u32 \<times> u32)) option" where
  "recover_loop e file szPage 0 iFrame w ck = Some (SQLITE_OK, w, ck)"
| "recover_loop e file szPage (Suc n) iFrame w ck =
     do {
       let iFrame = iFrame + 1;
       let iOffset = walFrameOffset iFrame szPage;
       let a = take (szPage + WAL_FRAME_HDRSIZE) (drop iOffset file);
       if r_read e iOffset \<noteq> SQLITE_OK then Some (r_read e iOffset, w, ck)
       else do {
         (valid, w) \<leftarrow> walDecodeFrame w (drop WAL_FRAME_HDRSIZE a) a;
         (case valid of
            None \<Rightarrow> Some (SQLITE_OK, w, ck)
          | Some (pgno, nTruncate) \<Rightarrow> do {
              (rc, w) \<leftarrow> walIndexAppend (r_map e iFrame) w iFrame pgno;
              if rc \<noteq> SQLITE_OK then Some (rc, w, ck)
              else if nTruncate \<noteq> 0 then
                recover_loop e file szPage n iFrame
                  (w\<lparr>wal_hdr := (wal_hdr w)\<lparr>mxFrame := word_of_nat iFrame, nPage := nTruncate,
                     hdr_szPage := word_of_nat ((szPage AND 0xff00) OR drop_bit 16 szPage)\<rparr>\<rparr>)
                  (aFrameCksum (wal_hdr w))
              else recover_loop e file szPage n iFrame w ck }) } }"

text \<open>How reading the header ends: with an error that is returned at once, at \<^verbatim>\<open>finished\<close>, or with the frames to read.\<close>

datatype hdr_read = Hdr_error nat | Hdr_finished nat | Hdr_ok nat

definition read_header :: "rec_env \<Rightarrow> u8 list \<Rightarrow> Wal \<Rightarrow> (hdr_read \<times> Wal \<times> (u32 \<times> u32)) option" where
  "read_header e file w =
     (if r_read e 0 \<noteq> SQLITE_OK then Some (Hdr_error (r_read e 0), w, (0, 0))
      else do {
        let a = take WAL_HDRSIZE file;
        magic \<leftarrow> sqlite3Get4byte a;
        sz \<leftarrow> sqlite3Get4byte (drop 8 a);
        let szPage = unat sz;
        if magic AND 0xFFFFFFFE \<noteq> WAL_MAGIC \<or> szPage AND (szPage - 1) \<noteq> 0 \<or> szPage > 65536 \<or> szPage < 512
        then Some (Hdr_finished SQLITE_OK, w, (0, 0))
        else do {
          k \<leftarrow> sqlite3Get4byte (drop 12 a);
          let be = ucast (magic AND 1);
          let c = walChecksumBytes (be = SQLITE_BIGENDIAN) (take 24 a) (0, 0);
          let w = w\<lparr>wal_szPage := szPage, nCkpt := k,
                    wal_hdr := (wal_hdr w)\<lparr>bigEndCksum := be, aSalt := take 8 (drop 16 a), aFrameCksum := c\<rparr>\<rparr>;
          c1 \<leftarrow> sqlite3Get4byte (drop 24 a);
          c2 \<leftarrow> sqlite3Get4byte (drop 28 a);
          if fst c \<noteq> c1 \<or> snd c \<noteq> c2 then Some (Hdr_finished SQLITE_OK, w, (0, 0))
          else do {
            version \<leftarrow> sqlite3Get4byte (drop 4 a);
            if version \<noteq> WAL_MAX_VERSION then Some (Hdr_finished SQLITE_CANTOPEN, w, c)
            else if \<not> r_malloc e then Some (Hdr_error SQLITE_NOMEM, w, c)
            else Some (Hdr_ok szPage, w, c) } } })"

text \<open>At \<^verbatim>\<open>finished\<close>: the header is published and the checkpoint information is reset.\<close>

definition recover_finish :: "u32 \<Rightarrow> Wal \<Rightarrow> u32 \<times> u32 \<Rightarrow> Wal" where
  "recover_finish nBackFill w ck =
     (let w = walIndexWriteHdr (set_cksum w ck);
          mx = mxFrame (wal_hdr w);
          marks = 0 # (if mx \<noteq> 0 then mx else READMARK_NOT_USED) # replicate 3 READMARK_NOT_USED
      in w\<lparr>ckptInfo := \<lparr>nBackfill = (if nBackFill \<le> mx then nBackFill else 0), aReadMark = marks, nBackfillAttempted = mx\<rparr>\<rparr>)"

definition walIndexRecover :: "rec_env \<Rightarrow> u8 list \<Rightarrow> u32 \<Rightarrow> Wal \<Rightarrow> (nat \<times> Wal) option" where
  "walIndexRecover e file nBackFill w =
     (if r_lock1 e \<noteq> SQLITE_OK then Some (r_lock1 e, w)
      else if r_lock2 e \<noteq> SQLITE_OK then Some (r_lock2 e, w)
      else
        let w = w\<lparr>wal_hdr := zero_hdr\<rparr>
        in if r_size e \<noteq> SQLITE_OK then Some (r_size e, w)
           else do {
             (rc, w, ck) \<leftarrow>
               (if length file > WAL_HDRSIZE then do {
                  (r, w, ck) \<leftarrow> read_header e file w;
                  (case r of
                     Hdr_error rc \<Rightarrow> Some (Inl rc, w, ck)
                   | Hdr_finished rc \<Rightarrow> Some (Inr rc, w, ck)
                   | Hdr_ok szPage \<Rightarrow> do {
                       (rc, w, ck) \<leftarrow> recover_loop e file szPage ((length file - WAL_HDRSIZE) div (szPage + WAL_FRAME_HDRSIZE)) 0 w ck;
                       Some (Inr rc, w, ck) }) }
                else Some (Inr SQLITE_OK, w, (0, 0)));
             (case rc of
                Inl rc \<Rightarrow> Some (rc, w)
              | Inr rc \<Rightarrow> Some (rc, if rc = SQLITE_OK then recover_finish nBackFill w ck else w)) })"

end
