(* ===== verification/WalLogFacts.thy ===== *)
theory WalLogFacts
  imports WalLog
begin

text \<open>
  A log that was cut off anywhere is recovered to its last complete transaction, and can be continued from there. The
  app's version of the code has a case in which it cannot: a file that is too short to hold a frame but long
  enough to hold a header.
\<close>

section \<open>One frame\<close>

lemma length_put4 [simp]: "length (sqlite3Put4byte v) = 4"
  by (simp add: sqlite3Put4byte_def)

lemma put4_parts:
  "take 4 (sqlite3Put4byte v @ r) = sqlite3Put4byte v" "drop 4 (sqlite3Put4byte v @ r) = r"
  by simp_all

text \<open>What two logs must share for their checksums to agree.\<close>

definition same_chain :: "Wal \<Rightarrow> Wal \<Rightarrow> bool" where
  "same_chain v w \<longleftrightarrow> bigEndCksum (wal_hdr v) = bigEndCksum (wal_hdr w) \<and> aSalt (wal_hdr v) = aSalt (wal_hdr w)
     \<and> aFrameCksum (wal_hdr v) = aFrameCksum (wal_hdr w) \<and> wal_szPage v = wal_szPage w"

lemma same_chain_refl [simp]: "same_chain w w"
  by (simp add: same_chain_def)

lemma same_chain_set: "same_chain v w \<Longrightarrow> same_chain (set_cksum v c) (set_cksum w c)"
  by (simp add: same_chain_def set_cksum_def)

lemma frame_cksum_cong: "same_chain v w \<Longrightarrow> take 8 a = take 8 b \<Longrightarrow> frame_cksum v a d = frame_cksum w b d"
  by (simp add: same_chain_def frame_cksum_def)

definition frame_ok :: "nat \<Rightarrow> u32 \<times> u32 \<times> u8 list \<Rightarrow> bool" where
  "frame_ok szPage f \<longleftrightarrow> fst f \<noteq> 0 \<and> length (snd (snd f)) = szPage"

lemma encode_frame:
  assumes "iReCksum v = 0" and "length (aSalt (wal_hdr v)) = 8"
  obtains a c where "walEncodeFrame v p t d = (a, set_cksum v c)" and "length a = 24"
    and "a = sqlite3Put4byte p @ sqlite3Put4byte t @ aSalt (wal_hdr v) @ sqlite3Put4byte (fst c) @ sqlite3Put4byte (snd c)"
    and "c = frame_cksum v a d"
proof -
  let ?a = "sqlite3Put4byte p @ sqlite3Put4byte t"
  let ?c = "frame_cksum v ?a d"
  let ?b = "sqlite3Put4byte p @ sqlite3Put4byte t @ aSalt (wal_hdr v) @ sqlite3Put4byte (fst ?c) @ sqlite3Put4byte (snd ?c)"
  have "walEncodeFrame v p t d = (?b, set_cksum v ?c)" using assms(1) by (simp add: walEncodeFrame_def Let_def)
  moreover have "?c = frame_cksum v ?b d" by (rule frame_cksum_cong) simp_all
  ultimately show thesis using assms(2) by (intro that [of ?b ?c]) simp_all
qed

lemma decode_encoded:
  assumes chain: "same_chain v w" and re: "iReCksum v = 0" and salt: "length (aSalt (wal_hdr v)) = 8" and p: "p \<noteq> 0"
    and enc: "walEncodeFrame v p t d = (a, v')"
  shows "walDecodeFrame w d (a @ d) = Some (Some (p, t), set_cksum w (aFrameCksum (wal_hdr v'))) \<and> length a = 24
    \<and> v' = set_cksum v (aFrameCksum (wal_hdr v'))"
proof -
  obtain b c where b: "walEncodeFrame v p t d = (b, set_cksum v c)" "length b = 24"
    "b = sqlite3Put4byte p @ sqlite3Put4byte t @ aSalt (wal_hdr v) @ sqlite3Put4byte (fst c) @ sqlite3Put4byte (snd c)"
    "c = frame_cksum v b d" using encode_frame [OF re salt] .
  have a: "a = b" "v' = set_cksum v c" using b(1) enc by simp_all
  have c: "frame_cksum w (a @ d) d = c"
    using frame_cksum_cong [OF chain, of b "a @ d" d] b(2,4) a(1) by simp
  have s: "aSalt (wal_hdr w) = aSalt (wal_hdr v)" using chain by (simp add: same_chain_def)
  have at: "take 8 (drop 8 (a @ d)) = aSalt (wal_hdr v)" "sqlite3Get4byte (a @ d) = Some p" "sqlite3Get4byte (drop 4 (a @ d)) = Some t"
    "sqlite3Get4byte (drop 16 (a @ d)) = Some (fst c)" "sqlite3Get4byte (drop 20 (a @ d)) = Some (snd c)"
    using salt by (simp_all add: a(1) b(3) get4_put4)
  have "walDecodeFrame w d (a @ d) = Some (Some (p, t), set_cksum w c)"
    unfolding walDecodeFrame_def at s c using p by (simp add: Let_def)
  then show ?thesis using a b(2) by (simp add: set_cksum_def)
qed

section \<open>Writing many frames\<close>

lemma write_frames_append:
  "write_frames w (fs @ gs) = (let (a, w) = write_frames w fs; (b, w) = write_frames w gs in (a @ b, w))"
  by (induction fs arbitrary: w) (simp_all add: Let_def split: prod.splits)

lemma write_frames_len:
  assumes "iReCksum w = 0" and "length (aSalt (wal_hdr w)) = 8"
  shows "\<forall>f \<in> set fs. frame_ok sz f \<Longrightarrow> \<exists>c. length (fst (write_frames w fs)) = length fs * (sz + 24) \<and> snd (write_frames w fs) = set_cksum w c"
  using assms
proof (induction fs arbitrary: w)
  case Nil
  then show ?case by (intro exI [of _ "aFrameCksum (wal_hdr w)"]) (simp add: set_cksum_def)
next
  case (Cons f fs)
  obtain p t d where f: "f = (p, t, d)" by (cases f)
  obtain a c where a: "walEncodeFrame w p t d = (a, set_cksum w c)" "length a = 24" using encode_frame [OF Cons(3,4)] by metis
  obtain c' where "length (fst (write_frames (set_cksum w c) fs)) = length fs * (sz + 24)" "snd (write_frames (set_cksum w c) fs) = set_cksum (set_cksum w c) c'"
    using Cons(1) [of "set_cksum w c"] Cons(2-4) by (auto simp: set_cksum_def)
  moreover have "length d = sz" using Cons(2) f by (simp add: frame_ok_def)
  ultimately show ?case using a by (intro exI [of _ c']) (simp add: f walWriteOneFrame_def case_prod_beta set_cksum_def)
qed

lemma write_frames_cong:
  "same_chain v w \<Longrightarrow> iReCksum v = 0 \<Longrightarrow> iReCksum w = 0 \<Longrightarrow> fst (write_frames v fs) = fst (write_frames w fs)"
proof (induction fs arbitrary: v w)
  case (Cons f fs)
  obtain p t d where f: "f = (p, t, d)" by (cases f)
  have "walEncodeFrame v p t d = (fst (walEncodeFrame w p t d), set_cksum v (frame_cksum w (sqlite3Put4byte p @ sqlite3Put4byte t) d))"
    using Cons(2-4) frame_cksum_cong [OF Cons(2) refl, of "sqlite3Put4byte p @ sqlite3Put4byte t" d]
    by (simp add: walEncodeFrame_def Let_def same_chain_def)
  moreover have "snd (walEncodeFrame w p t d) = set_cksum w (frame_cksum w (sqlite3Put4byte p @ sqlite3Put4byte t) d)"
    using Cons(4) by (simp add: walEncodeFrame_def Let_def)
  ultimately show ?case
    using Cons(1) [OF same_chain_set [OF Cons(2)]] Cons(3,4) by (simp add: f walWriteOneFrame_def case_prod_beta set_cksum_def)
qed simp

section \<open>The frames that are committed\<close>

definition commit_size :: "u32 \<times> u32 \<times> u8 list \<Rightarrow> u32" where
  "commit_size f = fst (snd f)"

definition committed_part :: "(u32 \<times> u32 \<times> u8 list) list \<Rightarrow> (u32 \<times> u32 \<times> u8 list) list" where
  "committed_part fs = rev (dropWhile (\<lambda>f. commit_size f = 0) (rev fs))"

definition db_size :: "(u32 \<times> u32 \<times> u8 list) list \<Rightarrow> u32" where
  "db_size fs = (if committed_part fs = [] then 0 else commit_size (last (committed_part fs)))"

lemma committed_part_Nil: "committed_part [] = []"
  by (simp add: committed_part_def)

lemma committed_part_snoc: "committed_part (fs @ [f]) = (if commit_size f = 0 then committed_part fs else fs @ [f])"
  by (simp add: committed_part_def)

lemma committed_part_prefix: "\<exists>gs. fs = committed_part fs @ gs \<and> (\<forall>g \<in> set gs. commit_size g = 0)"
proof -
  let ?P = "\<lambda>f. commit_size f = 0"
  have "rev fs = takeWhile ?P (rev fs) @ dropWhile ?P (rev fs)" by simp
  then have "fs = committed_part fs @ rev (takeWhile ?P (rev fs))" unfolding committed_part_def by (metis rev_append rev_rev_ident)
  then show ?thesis by (intro exI [of _ "rev (takeWhile ?P (rev fs))"]) (auto dest: set_takeWhileD)
qed

section \<open>Reading the frames back\<close>

text \<open>An environment in which pages of the index can be mapped.\<close>

definition env_always :: "wal_env \<Rightarrow> bool" where
  "env_always e \<longleftrightarrow> env_ok e \<and> (\<forall>t. e_realloc e t \<and> e_zero e t \<and> (\<forall>b. fst (e_map e t b) = SQLITE_OK))"

lemma env_always_get: "env_always e \<Longrightarrow> fst (walHashGet e w t) = SQLITE_OK"
  by (auto simp: env_always_def walHashGet_def walIndexPage_def walIndexPageRealloc_def Let_def result_codes split: prod.splits)
    (metis fst_conv)+

text \<open>The state of the recovery after the frames \<open>dn\<close> of a log that was begun in the state \<open>v\<close>.\<close>

definition rec_inv :: "Wal \<Rightarrow> (u32 \<times> u32 \<times> u8 list) list \<Rightarrow> Wal \<Rightarrow> u32 \<times> u32 \<Rightarrow> bool" where
  "rec_inv v dn w ck \<longleftrightarrow> same_chain (snd (write_frames v dn)) w \<and> wi_ok (apWiData w) (map fst dn) \<and> writeLock w
     \<and> mxFrame (wal_hdr w) = word_of_nat (length (committed_part dn)) \<and> nPage (wal_hdr w) = db_size dn
     \<and> ck = aFrameCksum (wal_hdr (snd (write_frames v (committed_part dn)))) \<and> iReCksum w = 0"

lemma rec_step:
  assumes inv: "rec_inv v dn w ck" and v: "iReCksum v = 0" "length (aSalt (wal_hdr v)) = 8" "wal_szPage v = sz"
    and ok: "\<forall>g \<in> set dn. frame_ok sz g" "frame_ok sz f" and e: "\<forall>f. env_always (r_map e f)" "\<forall>x. r_read e x = SQLITE_OK"
    and small: "Suc (length dn) < 2 ^ 32"
    and bytes: "take (sz + 24) (drop (walFrameOffset (Suc (length dn)) sz) file) = fst (walWriteOneFrame (snd (write_frames v dn)) f)"
  obtains w' ck' where "recover_loop e file sz (Suc n) (length dn) w ck = recover_loop e file sz n (Suc (length dn)) w' ck'"
    and "rec_inv v (dn @ [f]) w' ck'"
proof -
  obtain p t d where f: "f = (p, t, d)" by (cases f)
  let ?v = "snd (write_frames v dn)"
  obtain c where vc: "?v = set_cksum v c" using write_frames_len [OF v(1,2) ok(1)] by auto
  then have re: "iReCksum ?v = 0" and salt: "length (aSalt (wal_hdr ?v)) = 8" using v by (simp_all add: set_cksum_def)
  obtain a v' where enc: "walEncodeFrame ?v p t d = (a, v')" by (cases "walEncodeFrame ?v p t d")
  have inv': "same_chain ?v w" "wi_ok (apWiData w) (map fst dn)" "writeLock w" "iReCksum w = 0" using inv by (simp_all add: rec_inv_def)
  have p: "p \<noteq> 0" using ok(2) by (simp add: f frame_ok_def)
  let ?w = "set_cksum w (aFrameCksum (wal_hdr v'))"
  note dec = decode_encoded [OF inv'(1) re salt p enc]
  have chain: "same_chain v' ?w" using same_chain_set [OF inv'(1)] dec by metis
  have one: "walWriteOneFrame ?v f = (a @ d, v')" by (simp add: f walWriteOneFrame_def enc)
  have step: "snd (write_frames v (dn @ [f])) = v'" by (simp add: write_frames_append case_prod_beta one Let_def)
  have "next_frame ?w (map fst dn) (Suc (length dn))" by (simp add: next_frame_def)
  moreover have "wi_ok (apWiData ?w) (map fst dn)" "writeLock ?w" "env_ok (r_map e (Suc (length dn)))"
    using inv' e(1) by (simp_all add: set_cksum_def env_always_def)
  ultimately obtain rc wi ro where app: "walIndexAppend (r_map e (Suc (length dn))) ?w (Suc (length dn)) p = Some (rc, ?w\<lparr>apWiData := wi, readOnly := ro\<rparr>)"
    "rc = SQLITE_OK \<Longrightarrow> wi_ok wi (take (Suc (length dn) - 1) (map fst dn) @ [p])" "rc = fst (walHashGet (r_map e (Suc (length dn))) ?w (walFramePage (Suc (length dn))))"
    using append_ok [of ?w "map fst dn" "r_map e (Suc (length dn))" "Suc (length dn)" p] p small by metis
  have rc: "rc = SQLITE_OK" using app(3) env_always_get e(1) by simp
  then have wi: "wi_ok wi (map fst (dn @ [f]))" using app(2) by (simp add: f)
  let ?w1 = "?w\<lparr>apWiData := wi, readOnly := ro\<rparr>"
  let ?w2 = "?w1\<lparr>wal_hdr := (wal_hdr ?w1)\<lparr>mxFrame := word_of_nat (Suc (length dn)), nPage := t,
      hdr_szPage := word_of_nat ((sz AND 0xff00) OR drop_bit 16 sz)\<rparr>\<rparr>"
  have loop: "recover_loop e file sz (Suc n) (length dn) w ck =
      (if t \<noteq> 0 then recover_loop e file sz n (Suc (length dn)) ?w2 (aFrameCksum (wal_hdr ?w1)) else recover_loop e file sz n (Suc (length dn)) ?w1 ck)"
    using bytes one dec e(2) app(1) rc by (simp add: WAL_FRAME_HDRSIZE_def)
  have size: "commit_size f = t" by (simp add: f commit_size_def)
  have chain1: "same_chain (snd (write_frames v (dn @ [f]))) ?w1" "same_chain (snd (write_frames v (dn @ [f]))) ?w2"
    using chain by (simp_all add: step same_chain_def)
  have last: "aFrameCksum (wal_hdr ?w1) = aFrameCksum (wal_hdr (snd (write_frames v (dn @ [f]))))" by (simp add: step set_cksum_def)
  show thesis
  proof (cases "t = 0")
    case True
    have "rec_inv v (dn @ [f]) ?w1 ck"
      using inv wi chain1(1) unfolding rec_inv_def by (simp add: committed_part_snoc size True db_size_def set_cksum_def)
    then show thesis using that loop True by simp
  next
    case False
    have "rec_inv v (dn @ [f]) ?w2 (aFrameCksum (wal_hdr ?w1))"
      using inv wi chain1(2) last unfolding rec_inv_def by (simp add: committed_part_snoc size False db_size_def set_cksum_def)
    then show thesis using that loop False by simp
  qed
qed

lemma rec_loop:
  assumes v: "iReCksum v = 0" "length (aSalt (wal_hdr v)) = 8" "wal_szPage v = sz"
    and ok: "\<forall>g \<in> set fs. frame_ok sz g" and e: "\<forall>f. env_always (r_map e f)" "\<forall>x. r_read e x = SQLITE_OK"
    and small: "length fs < 2 ^ 32" and h: "length h = 32"
  shows "fs = dn @ todo \<Longrightarrow> rec_inv v dn w ck \<Longrightarrow>
    \<exists>w' ck'. recover_loop e (h @ fst (write_frames v fs) @ rest) sz (length todo) (length dn) w ck = Some (SQLITE_OK, w', ck') \<and> rec_inv v fs w' ck'"
proof (induction todo arbitrary: dn w ck)
  case (Cons f todo)
  let ?file = "h @ fst (write_frames v fs) @ rest"
  let ?v = "snd (write_frames v dn)"
  have okd: "\<forall>g \<in> set dn. frame_ok sz g" "frame_ok sz f" using ok Cons(2) by auto
  obtain c where len: "length (fst (write_frames v dn)) = length dn * (sz + 24)" "?v = set_cksum v c"
    using write_frames_len [OF v(1,2) okd(1)] by auto
  obtain x where x: "fst (write_frames v fs) = fst (write_frames v dn) @ fst (walWriteOneFrame ?v f) @ x"
    unfolding Cons(2) by (simp add: write_frames_append case_prod_beta Let_def)
  have one: "length (fst (walWriteOneFrame ?v f)) = sz + 24"
    using write_frames_len [of ?v "[f]" sz] v okd(2) len(2) by (auto simp: set_cksum_def case_prod_beta Let_def)
  have "take (sz + 24) (drop (walFrameOffset (Suc (length dn)) sz) ?file) = fst (walWriteOneFrame ?v f)"
    using h len(1) one by (simp add: x walFrameOffset_def WAL_HDRSIZE_def WAL_FRAME_HDRSIZE_def)
  then obtain w' ck' where "recover_loop e ?file sz (Suc (length todo)) (length dn) w ck = recover_loop e ?file sz (length todo) (Suc (length dn)) w' ck'"
    "rec_inv v (dn @ [f]) w' ck'"
    using rec_step [OF Cons(3) v okd e, of ?file "length todo"] small Cons(2) by auto
  then show ?case using Cons(1) [of "dn @ [f]" w' ck'] Cons(2) by simp
qed auto

section \<open>The header\<close>

definition page_size_ok :: "nat \<Rightarrow> bool" where
  "page_size_ok sz \<longleftrightarrow> sz AND (sz - 1) = 0 \<and> 512 \<le> sz \<and> sz \<le> 65536"

lemma write_header:
  fixes sz :: nat
  assumes "nCkpt v = 0 \<Longrightarrow> length rnd = 8" and "nCkpt v \<noteq> 0 \<Longrightarrow> length (aSalt (wal_hdr v)) = 8"
  defines "salt \<equiv> if nCkpt v = 0 then rnd else aSalt (wal_hdr v)"
  defines "a \<equiv> sqlite3Put4byte WAL_MAGIC @ sqlite3Put4byte WAL_MAX_VERSION @ sqlite3Put4byte (word_of_nat sz) @ sqlite3Put4byte (nCkpt v) @ salt"
  defines "c \<equiv> walChecksumBytes True a (0, 0)"
  shows "fst (walWriteHeader rnd v sz) = a @ sqlite3Put4byte (fst c) @ sqlite3Put4byte (snd c)" and "length a = 24" and "length salt = 8"
    and "wal_szPage (snd (walWriteHeader rnd v sz)) = sz" and "iReCksum (snd (walWriteHeader rnd v sz)) = iReCksum v"
    and "aSalt (wal_hdr (snd (walWriteHeader rnd v sz))) = salt" and "bigEndCksum (wal_hdr (snd (walWriteHeader rnd v sz))) = 0"
    and "aFrameCksum (wal_hdr (snd (walWriteHeader rnd v sz))) = c"
proof -
  have "WAL_MAGIC OR ucast SQLITE_BIGENDIAN = WAL_MAGIC" by (simp add: SQLITE_BIGENDIAN_def)
  then show "fst (walWriteHeader rnd v sz) = a @ sqlite3Put4byte (fst c) @ sqlite3Put4byte (snd c)"
    "aFrameCksum (wal_hdr (snd (walWriteHeader rnd v sz))) = c"
    by (simp_all add: walWriteHeader_def Let_def a_def c_def salt_def)
  show "length salt = 8" using assms(1,2) by (simp add: salt_def)
  then show "length a = 24" by (simp add: a_def)
qed (simp_all add: walWriteHeader_def Let_def salt_def SQLITE_BIGENDIAN_def)

lemma magic_tests: "WAL_MAGIC AND 0xFFFFFFFE = WAL_MAGIC" "ucast (WAL_MAGIC AND 1) = (0 :: u8)"
  by (simp_all add: WAL_MAGIC_def)

lemma read_written_header:
  assumes hdr: "nCkpt v = 0 \<Longrightarrow> length rnd = 8" "nCkpt v \<noteq> 0 \<Longrightarrow> length (aSalt (wal_hdr v)) = 8" and sz: "page_size_ok sz"
    and e: "r_read e 0 = SQLITE_OK" "r_malloc e"
  defines "v' \<equiv> snd (walWriteHeader rnd v sz)"
  shows "read_header e (fst (walWriteHeader rnd v sz) @ x) w =
    Some (Hdr_ok sz, w\<lparr>wal_szPage := sz, nCkpt := nCkpt v,
        wal_hdr := (wal_hdr w)\<lparr>bigEndCksum := 0, aSalt := aSalt (wal_hdr v'), aFrameCksum := aFrameCksum (wal_hdr v')\<rparr>\<rparr>, aFrameCksum (wal_hdr v'))"
proof -
  note h = write_header [OF hdr]
  let ?salt = "if nCkpt v = 0 then rnd else aSalt (wal_hdr v)"
  let ?a = "sqlite3Put4byte WAL_MAGIC @ sqlite3Put4byte WAL_MAX_VERSION @ sqlite3Put4byte (word_of_nat sz) @ sqlite3Put4byte (nCkpt v) @ ?salt"
  let ?c = "walChecksumBytes True ?a (0, 0)"
  let ?f = "?a @ sqlite3Put4byte (fst ?c) @ sqlite3Put4byte (snd ?c)"
  have len: "length ?f = 32" using h(2) by simp
  have t: "take WAL_HDRSIZE (?f @ x) = ?f" using len by (simp add: WAL_HDRSIZE_def)
  have u: "unat (word_of_nat sz :: u32) = sz" using sz by (simp add: page_size_ok_def unat_of_nat)
  have at: "sqlite3Get4byte ?f = Some WAL_MAGIC" "sqlite3Get4byte (drop 8 ?f) = Some (word_of_nat sz)" "sqlite3Get4byte (drop 12 ?f) = Some (nCkpt v)"
    "sqlite3Get4byte (drop 4 ?f) = Some WAL_MAX_VERSION" "take 24 ?f = ?a" "take 8 (drop 16 ?f) = ?salt"
    "sqlite3Get4byte (drop 24 ?f) = Some (fst ?c)" "sqlite3Get4byte (drop 28 ?f) = Some (snd ?c)"
    using h(2,3) get4_put4 [of _ "[]"] by (simp_all add: get4_put4)
  have "read_header e (?f @ x) w = Some (Hdr_ok sz, w\<lparr>wal_szPage := sz, nCkpt := nCkpt v,
        wal_hdr := (wal_hdr w)\<lparr>bigEndCksum := 0, aSalt := ?salt, aFrameCksum := ?c\<rparr>\<rparr>, ?c)"
    unfolding read_header_def t Let_def at using sz e
    by (simp add: u page_size_ok_def magic_tests SQLITE_BIGENDIAN_def)
  then show ?thesis using h(1,6,8) by (simp add: v'_def)
qed

section \<open>The whole recovery\<close>

text \<open>Nothing goes wrong in the environment.\<close>

definition rec_env_ok :: "rec_env \<Rightarrow> bool" where
  "rec_env_ok e \<longleftrightarrow> r_lock1 e = SQLITE_OK \<and> r_lock2 e = SQLITE_OK \<and> r_size e = SQLITE_OK \<and> (\<forall>x. r_read e x = SQLITE_OK)
     \<and> r_malloc e \<and> (\<forall>f. env_always (r_map e f))"

lemma recover_finish_hdr:
  "mxFrame (wal_hdr (recover_finish b w ck)) = mxFrame (wal_hdr w)" "aHdr0 (recover_finish b w ck) = wal_hdr (recover_finish b w ck)"
  "nPage (wal_hdr (recover_finish b w ck)) = nPage (wal_hdr w)" "aFrameCksum (wal_hdr (recover_finish b w ck)) = ck"
  "aSalt (wal_hdr (recover_finish b w ck)) = aSalt (wal_hdr w)" "bigEndCksum (wal_hdr (recover_finish b w ck)) = bigEndCksum (wal_hdr w)"
  "apWiData (recover_finish b w ck) = apWiData w" "writeLock (recover_finish b w ck) = writeLock w"
  "wal_szPage (recover_finish b w ck) = wal_szPage w" "iReCksum (recover_finish b w ck) = iReCksum w"
  by (simp_all add: recover_finish_def walIndexWriteHdr_def set_cksum_def Let_def)

lemma same_chain_write: "same_chain v w \<Longrightarrow> iReCksum v = 0 \<Longrightarrow> iReCksum w = 0 \<Longrightarrow> same_chain (snd (write_frames v fs)) (snd (write_frames w fs))"
proof (induction fs arbitrary: v w)
  case (Cons f fs)
  obtain p t d where f: "f = (p, t, d)" by (cases f)
  have "snd (walEncodeFrame v p t d) = set_cksum v (frame_cksum w (sqlite3Put4byte p @ sqlite3Put4byte t) d)"
    "snd (walEncodeFrame w p t d) = set_cksum w (frame_cksum w (sqlite3Put4byte p @ sqlite3Put4byte t) d)"
    using Cons(3,4) frame_cksum_cong [OF Cons(2) refl, of "sqlite3Put4byte p @ sqlite3Put4byte t" d]
    by (simp_all add: walEncodeFrame_def Let_def)
  then show ?case
    using Cons(1) [OF same_chain_set [OF Cons(2)]] Cons(3,4) by (simp add: f walWriteOneFrame_def case_prod_beta set_cksum_def)
qed simp

text \<open>A log with all its frames complete, and bytes after them that are less than one more.\<close>

lemma recover_frames:
  assumes hdr: "nCkpt v = 0 \<Longrightarrow> length rnd = 8" "nCkpt v \<noteq> 0 \<Longrightarrow> length (aSalt (wal_hdr v)) = 8" and sz: "page_size_ok sz" and re: "iReCksum v = 0"
    and ok: "\<forall>f \<in> set fs. frame_ok sz f" "length fs < 2 ^ 32" and e: "rec_env_ok e"
    and w: "wi_ok (apWiData w) []" "writeLock w" "iReCksum w = 0"
    and rest: "length rest < sz + 24" and long: "fs \<noteq> [] \<or> rest \<noteq> []"
  defines "v' \<equiv> snd (walWriteHeader rnd v sz)"
  obtains w' where "walIndexRecover e (fst (walWriteHeader rnd v sz) @ fst (write_frames v' fs) @ rest) b w = Some (SQLITE_OK, w')"
    and "wal_rep w' (map fst fs)" and "committed w' = length (committed_part fs)" and "wal_hdr w' = aHdr0 w'"
    and "nPage (wal_hdr w') = db_size fs" and "same_chain (snd (write_frames v' (committed_part fs))) w'" and "iReCksum w' = 0"
proof -
  note h = write_header [OF hdr]
  let ?h = "fst (walWriteHeader rnd v sz)"
  let ?file = "?h @ fst (write_frames v' fs) @ rest"
  have hl: "length ?h = 32" using h(2) by (simp add: h(1))
  have v': "iReCksum v' = 0" "length (aSalt (wal_hdr v')) = 8" "wal_szPage v' = sz" using h(3-6) re by (simp_all add: v'_def)
  obtain c where len: "length (fst (write_frames v' fs)) = length fs * (sz + 24)" "snd (write_frames v' fs) = set_cksum v' c"
    using write_frames_len [OF v'(1,2) ok(1)] by auto
  have n: "(length ?file - WAL_HDRSIZE) div (sz + WAL_FRAME_HDRSIZE) = length fs"
    using hl len(1) rest by (simp add: WAL_HDRSIZE_def WAL_FRAME_HDRSIZE_def)
  have pos: "length ?file > WAL_HDRSIZE"
    using hl len(1) long by (cases fs) (auto simp: WAL_HDRSIZE_def)
  let ?w0 = "w\<lparr>wal_hdr := zero_hdr\<rparr>"
  let ?w1 = "?w0\<lparr>wal_szPage := sz, nCkpt := nCkpt v,
      wal_hdr := (wal_hdr ?w0)\<lparr>bigEndCksum := 0, aSalt := aSalt (wal_hdr v'), aFrameCksum := aFrameCksum (wal_hdr v')\<rparr>\<rparr>"
  have rh: "read_header e ?file ?w0 = Some (Hdr_ok sz, ?w1, aFrameCksum (wal_hdr v'))"
    using read_written_header [OF hdr sz, of e] e unfolding v'_def rec_env_ok_def by blast
  have "bigEndCksum (wal_hdr v') = 0" using h(7) by (simp add: v'_def)
  then have "rec_inv v' [] ?w1 (aFrameCksum (wal_hdr v'))"
    using w v' by (simp add: rec_inv_def same_chain_def committed_part_Nil db_size_def zero_hdr_def)
  then obtain w2 ck where w2: "recover_loop e ?file sz (length fs) 0 ?w1 (aFrameCksum (wal_hdr v')) = Some (SQLITE_OK, w2, ck)" "rec_inv v' fs w2 ck"
    using rec_loop [OF v' ok(1) _ _ ok(2) hl, of e "[]" fs ?w1 "aFrameCksum (wal_hdr v')" rest] e by (auto simp: rec_env_ok_def)
  let ?w' = "recover_finish b w2 ck"
  have run: "walIndexRecover e ?file b w = Some (SQLITE_OK, ?w')"
    using e pos rh n w2(1) unfolding walIndexRecover_def Let_def rec_env_ok_def by simp
  obtain gs where gs: "fs = committed_part fs @ gs" using committed_part_prefix by metis
  have le: "length (committed_part fs) \<le> length fs" using arg_cong [OF gs, of length] by simp
  then have u: "unat (word_of_nat (length (committed_part fs)) :: u32) = length (committed_part fs)" using ok(2) by (simp add: unat_of_nat)
  have inv: "wi_ok (apWiData w2) (map fst fs)" "writeLock w2" "iReCksum w2 = 0" "mxFrame (wal_hdr w2) = word_of_nat (length (committed_part fs))"
    "nPage (wal_hdr w2) = db_size fs" "ck = aFrameCksum (wal_hdr (snd (write_frames v' (committed_part fs))))" "same_chain (snd (write_frames v' fs)) w2"
    using w2(2) by (simp_all add: rec_inv_def)
  obtain d where d: "snd (write_frames v' (committed_part fs)) = set_cksum v' d"
    using write_frames_len [OF v'(1,2), of "committed_part fs" sz] ok(1) gs by (metis Un_iff set_append)
  have "same_chain (snd (write_frames v' (committed_part fs))) ?w'"
    using inv(6,7) by (simp add: same_chain_def recover_finish_hdr d len(2) set_cksum_def)
  moreover have "wal_rep ?w' (map fst fs)" "committed ?w' = length (committed_part fs)"
    using inv u le by (simp_all add: wal_rep_def committed_def recover_finish_hdr)
  ultimately show thesis using run inv by (intro that [of ?w']) (simp_all add: recover_finish_hdr)
qed

lemma recover_short:
  assumes "length bs \<le> WAL_HDRSIZE" and "rec_env_ok e" and "wi_ok (apWiData w) []" "writeLock w"
  shows "walIndexRecover e bs b w = Some (SQLITE_OK, recover_finish b (w\<lparr>wal_hdr := zero_hdr\<rparr>) (0, 0))"
    and "wal_rep (recover_finish b (w\<lparr>wal_hdr := zero_hdr\<rparr>) (0, 0)) []"
  using assms
  by (simp_all add: walIndexRecover_def rec_env_ok_def Let_def wal_rep_def committed_def recover_finish_hdr)
    (simp_all add: zero_hdr_def)

text \<open>Cutting a list of blocks.\<close>

lemma cut_frames:
  assumes "iReCksum v = 0" and "length (aSalt (wal_hdr v)) = 8" and "\<forall>f \<in> set fs. frame_ok sz f"
  obtains rest where "take c (fst (write_frames v fs)) = fst (write_frames v (take (c div (sz + 24)) fs)) @ rest" and "length rest < sz + 24"
    and "rest = [] \<Longrightarrow> take c (fst (write_frames v fs)) \<noteq> [] \<Longrightarrow> take (c div (sz + 24)) fs \<noteq> []"
proof -
  let ?n = "c div (sz + 24)"
  let ?all = "fst (write_frames v fs)"
  have split: "?all = fst (write_frames v (take ?n fs)) @ fst (write_frames (snd (write_frames v (take ?n fs))) (drop ?n fs))"
    using write_frames_append [of v "take ?n fs" "drop ?n fs"] by (simp add: case_prod_beta Let_def)
  have ok: "\<forall>f \<in> set (take ?n fs). frame_ok sz f" using assms(3) by (auto dest: in_set_takeD)
  have len: "length (fst (write_frames v (take ?n fs))) = min (length fs) ?n * (sz + 24)" "length ?all = length fs * (sz + 24)"
    using write_frames_len [OF assms(1,2) ok] write_frames_len [OF assms] by auto
  have c: "?n * (sz + 24) \<le> c" "c < ?n * (sz + 24) + (sz + 24)" using dividend_less_div_times [of "sz + 24" c] by simp_all
  let ?rest = "drop (length (fst (write_frames v (take ?n fs)))) (take c ?all)"
  have "length (fst (write_frames v (take ?n fs))) \<le> c"
    using len(1) c(1) by (metis le_trans min.cobounded2 mult_le_mono1)
  then have "take c ?all = fst (write_frames v (take ?n fs)) @ ?rest" by (subst (1 2) split) simp
  moreover have "length ?rest < sz + 24"
  proof (cases "?n \<le> length fs")
    case True
    then show ?thesis using len c by (simp add: min_absorb2)
  next
    case False
    then show ?thesis using len by (simp add: min_absorb1)
  qed
  moreover have "take ?n fs \<noteq> []" if "?rest = []" "take c ?all \<noteq> []"
  proof
    assume "take ?n fs = []"
    then show False using calculation(1) that by (metis append_Nil fst_conv write_frames.simps(1))
  qed
  ultimately show thesis by (rule that)
qed

section \<open>Properties\<close>

text \<open>
  C6: a log that the crash of the machine cut off after any number of bytes is recovered to its last complete
  transaction: the complete frames are in the index, the valid ones are those up to the last commit,
  and the size of the database is the one of that commit. If more than the header was left, the frames
  written next continue the file as if the rest had never been written.
\<close>

theorem crash_recovers_last_commit:
  fixes sz c :: nat
  assumes hdr: "nCkpt v = 0 \<Longrightarrow> length rnd = 8" "nCkpt v \<noteq> 0 \<Longrightarrow> length (aSalt (wal_hdr v)) = 8" and sz: "page_size_ok sz" and re: "iReCksum v = 0"
    and ok: "\<forall>f \<in> set fs. frame_ok sz f" "length fs < 2 ^ 32" and e: "rec_env_ok e"
    and w: "wi_ok (apWiData w) []" "writeLock w" "iReCksum w = 0"
  defines "h \<equiv> fst (walWriteHeader rnd v sz)" and "v' \<equiv> snd (walWriteHeader rnd v sz)"
  defines "torn \<equiv> take c (h @ fst (write_frames v' fs))"
  defines "kept \<equiv> take ((length torn - 32) div (sz + 24)) fs"
  shows "\<exists>w'. walIndexRecover e torn b w = Some (SQLITE_OK, w') \<and> wal_rep w' (map fst kept) \<and> wal_hdr w' = aHdr0 w'
    \<and> committed w' = length (committed_part kept) \<and> nPage (wal_hdr w') = db_size kept
    \<and> (32 < length torn \<longrightarrow> (\<forall>gs. fst (write_frames v' (committed_part kept @ gs)) = fst (write_frames v' (committed_part kept)) @ fst (write_frames w' gs)))"
proof (cases "32 < length torn")
  case False
  then have "kept = []" by (simp add: kept_def)
  then show ?thesis using recover_short [OF _ e w(1,2), of torn b] False
    by (intro exI [of _ "recover_finish b (w\<lparr>wal_hdr := zero_hdr\<rparr>) (0, 0)"])
      (simp add: WAL_HDRSIZE_def committed_part_Nil db_size_def committed_def recover_finish_hdr zero_hdr_def)
next
  case True
  note hw = write_header [OF hdr]
  have hl: "length h = 32" using hw(2) by (simp add: h_def hw(1))
  have v': "iReCksum v' = 0" "length (aSalt (wal_hdr v')) = 8" using hw(3-6) re by (simp_all add: v'_def)
  have torn: "torn = h @ take (c - 32) (fst (write_frames v' fs))" using True hl by (simp add: torn_def)
  obtain rest where rest: "take (length torn - 32) (fst (write_frames v' fs)) = fst (write_frames v' kept) @ rest" "length rest < sz + 24"
    "rest = [] \<Longrightarrow> take (length torn - 32) (fst (write_frames v' fs)) \<noteq> [] \<Longrightarrow> kept \<noteq> []"
    using cut_frames [OF v' ok(1), of "length torn - 32"] unfolding kept_def by metis
  have same: "take (length torn - 32) (fst (write_frames v' fs)) = take (c - 32) (fst (write_frames v' fs))" using torn hl by (cases "length (fst (write_frames v' fs)) \<le> c - 32") (simp_all add: min_def)
  have bytes: "torn = h @ fst (write_frames v' kept) @ rest" using torn rest(1) same by simp
  have "take (length torn - 32) (fst (write_frames v' fs)) \<noteq> []" using True torn same hl by auto
  then have long: "kept \<noteq> [] \<or> rest \<noteq> []" using rest(3) by blast
  have okk: "\<forall>f \<in> set kept. frame_ok sz f" "length kept < 2 ^ 32" using ok by (auto simp: kept_def dest: in_set_takeD)
  obtain w' where w': "walIndexRecover e torn b w = Some (SQLITE_OK, w')" "wal_rep w' (map fst kept)" "committed w' = length (committed_part kept)"
    "wal_hdr w' = aHdr0 w'" "nPage (wal_hdr w') = db_size kept" "same_chain (snd (write_frames v' (committed_part kept))) w'" "iReCksum w' = 0"
    using recover_frames [OF hdr sz re okk e w rest(2) long, of b] unfolding bytes h_def v'_def by metis
  obtain ks where "kept = committed_part kept @ ks" using committed_part_prefix by metis
  then have "\<forall>f \<in> set (committed_part kept). frame_ok sz f" using okk(1) by (metis Un_iff set_append)
  then have "iReCksum (snd (write_frames v' (committed_part kept))) = 0"
    using write_frames_len [OF v'] v'(1) by (metis (no_types, lifting) set_cksum_def Wal.select_convs(13) Wal.surjective Wal.update_convs(11))
  then have "fst (write_frames v' (committed_part kept @ gs)) = fst (write_frames v' (committed_part kept)) @ fst (write_frames w' gs)" for gs
    using write_frames_cong [OF w'(6) _ w'(7), of gs] by (simp add: write_frames_append case_prod_beta Let_def)
  then show ?thesis using w' by blast
qed

definition calm_env :: rec_env where
  "calm_env = \<lparr>r_lock1 = 0, r_lock2 = 0, r_size = 0, r_read = (\<lambda>_. 0), r_malloc = True, r_map = (\<lambda>_. fresh_env)\<rparr>"

lemma calm_env_ok: "rec_env_ok calm_env"
  using fresh_wal_rep(2) by (simp add: rec_env_ok_def calm_env_def env_always_def SQLITE_OK_def fresh_env_def)

lemma fresh_wal_start: "wi_ok (apWiData fresh_wal) []" "writeLock fresh_wal" "iReCksum fresh_wal = 0" "nCkpt fresh_wal = 0" "wal_szPage fresh_wal = 4096"
  using fresh_wal_rep(1) by (simp_all add: wal_rep_def fresh_wal_def)

lemma page_size_4096: "page_size_ok 4096"
  unfolding page_size_ok_def by simp

text \<open>A transaction of two frames, of which the second was written only in part.\<close>

theorem crash_recovers_last_commit_witness:
  "\<exists>w'. walIndexRecover calm_env
      (take 4200 (fst (walWriteHeader (replicate 8 1) fresh_wal 4096)
        @ fst (write_frames (snd (walWriteHeader (replicate 8 1) fresh_wal 4096)) [(1, 1, replicate 4096 7), (2, 2, replicate 4096 8)])))
      0 fresh_wal = Some (SQLITE_OK, w')"
  using crash_recovers_last_commit [of fresh_wal "replicate 8 1" 4096 "[(1, 1, replicate 4096 7), (2, 2, replicate 4096 8)]" calm_env fresh_wal 4200 0]
    fresh_wal_start page_size_4096 calm_env_ok
  by (simp add: frame_ok_def) blast

text \<open>
  C7: a file that holds a header and no frame, as a crash right after the header leaves it, is neither read by the
  recovery (it asks for more than 32 bytes) nor rewritten by the next transaction (the app's version asks for fewer than 32).
  So the frames of that transaction do not fit the header, and after another crash no transaction is
  recovered, however many have been committed.
\<close>

theorem header_only_log_loses_commits:
  fixes sz :: nat
  assumes hdr: "nCkpt v = 0 \<Longrightarrow> length rnd = 8" "nCkpt v \<noteq> 0 \<Longrightarrow> length (aSalt (wal_hdr v)) = 8" and sz: "page_size_ok sz"
    and salt: "aSalt (wal_hdr (snd (walWriteHeader rnd v sz))) \<noteq> replicate 8 0"
    and e: "rec_env_ok e" and w: "wi_ok (apWiData w) []" "writeLock w" "iReCksum w = 0" "wal_szPage w = 0 \<or> wal_szPage w = sz"
    and u: "wi_ok (apWiData u) []" "writeLock u" and ok: "\<forall>f \<in> set fs. frame_ok sz f"
  defines "h \<equiv> fst (walWriteHeader rnd v sz)"
  shows "\<exists>w1 w2 u'. walIndexRecover e h b w = Some (SQLITE_OK, w1) \<and> begin_log rnd' False (length h) sz w1 = (None, w2) \<and> wal_szPage w2 = sz
    \<and> walIndexRecover e (h @ fst (write_frames w2 fs)) b' u = Some (SQLITE_OK, u') \<and> committed u' = 0"
proof -
  note hw = write_header [OF hdr]
  have hl: "length h = 32" using hw(2) by (simp add: h_def hw(1))
  let ?w1 = "recover_finish b (w\<lparr>wal_hdr := zero_hdr\<rparr>) (0, 0)"
  have r1: "walIndexRecover e h b w = Some (SQLITE_OK, ?w1)" using recover_short(1) [OF _ e w(1,2), of h b] hl by (simp add: WAL_HDRSIZE_def)
  have "begin_log rnd' False (length h) sz ?w1 = (None, if wal_szPage w = 0 then ?w1\<lparr>wal_szPage := sz\<rparr> else ?w1)"
    using hl by (simp add: begin_log_def recover_finish_hdr WAL_HDRSIZE_def zero_hdr_def)
  then obtain w2 where b1: "begin_log rnd' False (length h) sz ?w1 = (None, w2)" and sz2: "wal_szPage w2 = sz"
    and z: "aSalt (wal_hdr w2) = replicate 8 0" "iReCksum w2 = 0"
    using w(3,4) that by (cases "wal_szPage w = 0") (auto simp: recover_finish_hdr zero_hdr_def)
  let ?bytes = "h @ fst (write_frames w2 fs)"
  have "\<exists>u'. walIndexRecover e ?bytes b' u = Some (SQLITE_OK, u') \<and> committed u' = 0"
  proof (cases fs)
    case Nil
    then show ?thesis using recover_short(1) [OF _ e u, of ?bytes b'] hl
      by (simp add: WAL_HDRSIZE_def committed_def recover_finish_hdr zero_hdr_def)
  next
    case (Cons f gs)
    obtain p t d where f: "f = (p, t, d)" by (cases f)
    have l8: "length (aSalt (wal_hdr w2)) = 8" using z(1) by simp
    obtain a c where a: "walEncodeFrame w2 p t d = (a, set_cksum w2 c)" "length a = 24"
      "a = sqlite3Put4byte p @ sqlite3Put4byte t @ aSalt (wal_hdr w2) @ sqlite3Put4byte (fst c) @ sqlite3Put4byte (snd c)"
      using encode_frame [OF z(2) l8, of p t d] by blast
    have d: "length d = sz" using ok Cons f by (simp add: frame_ok_def)
    obtain x where x: "?bytes = h @ a @ d @ x" using a(1) by (simp add: Cons f walWriteOneFrame_def case_prod_beta Let_def)
    let ?u0 = "u\<lparr>wal_hdr := zero_hdr\<rparr>"
    let ?v' = "snd (walWriteHeader rnd v sz)"
    have e0: "r_read e 0 = SQLITE_OK" "r_malloc e" using e by (simp_all add: rec_env_ok_def)
    have "read_header e ?bytes ?u0 = Some (Hdr_ok sz, ?u0\<lparr>wal_szPage := sz, nCkpt := nCkpt v,
        wal_hdr := (wal_hdr ?u0)\<lparr>bigEndCksum := 0, aSalt := aSalt (wal_hdr ?v'), aFrameCksum := aFrameCksum (wal_hdr ?v')\<rparr>\<rparr>, aFrameCksum (wal_hdr ?v'))"
      unfolding x h_def by (rule read_written_header [OF hdr sz e0])
    then obtain u1 where rh: "read_header e ?bytes ?u0 = Some (Hdr_ok sz, u1, aFrameCksum (wal_hdr ?v'))" "aSalt (wal_hdr u1) = aSalt (wal_hdr ?v')"
      "mxFrame (wal_hdr u1) = 0"
      by (rule that) (simp_all add: zero_hdr_def)
    have frame: "take (sz + WAL_FRAME_HDRSIZE) (drop (walFrameOffset 1 sz) ?bytes) = a @ d"
      using hl a(2) d by (simp add: x walFrameOffset_def WAL_HDRSIZE_def WAL_FRAME_HDRSIZE_def)
    have "take 8 (drop 8 (a @ d)) = replicate 8 0" using z(1) by (simp add: a(3))
    then have dec: "walDecodeFrame u1 (drop WAL_FRAME_HDRSIZE (a @ d)) (a @ d) = Some (None, u1)"
      using salt rh(2) by (simp add: walDecodeFrame_def)
    have "0 < (length ?bytes - WAL_HDRSIZE) div (sz + WAL_FRAME_HDRSIZE)"
      using hl a(2) d unfolding x by (simp add: WAL_HDRSIZE_def WAL_FRAME_HDRSIZE_def div_greater_zero_iff)
    then obtain n where n: "(length ?bytes - WAL_HDRSIZE) div (sz + WAL_FRAME_HDRSIZE) = Suc n" using gr0_implies_Suc by blast
    have "recover_loop e fb sz (Suc n) 0 u1 k = Some (SQLITE_OK, u1, k)"
      if "take (sz + WAL_FRAME_HDRSIZE) (drop (walFrameOffset 1 sz) fb) = a @ d" for fb k
      using that dec e by (simp add: rec_env_ok_def)
    then have "recover_loop e ?bytes sz (Suc n) 0 u1 (aFrameCksum (wal_hdr ?v')) = Some (SQLITE_OK, u1, aFrameCksum (wal_hdr ?v'))"
      using frame by blast
    moreover have "length ?bytes > WAL_HDRSIZE" using hl a(2) unfolding x by (simp add: WAL_HDRSIZE_def)
    ultimately have "walIndexRecover e ?bytes b' u = Some (SQLITE_OK, recover_finish b' u1 (aFrameCksum (wal_hdr ?v')))"
      using e rh(1) n unfolding walIndexRecover_def Let_def rec_env_ok_def by simp
    then show ?thesis using rh(3) by (simp add: committed_def recover_finish_hdr)
  qed
  then show ?thesis using r1 b1 sz2 by blast
qed

theorem header_only_log_loses_commits_witness:
  "\<exists>w1 w2 u'. walIndexRecover calm_env (fst (walWriteHeader (replicate 8 1) fresh_wal 4096)) 0 fresh_wal = Some (SQLITE_OK, w1)
    \<and> walIndexRecover calm_env (fst (walWriteHeader (replicate 8 1) fresh_wal 4096) @ fst (write_frames w2 [(1, 1, replicate 4096 7)])) 0 fresh_wal
        = Some (SQLITE_OK, u') \<and> committed u' = 0"
  using header_only_log_loses_commits [of fresh_wal "replicate 8 1" 4096 calm_env fresh_wal fresh_wal "[(1, 1, replicate 4096 7)]" 0 "[]" 0]
    write_header(6) [of fresh_wal "replicate 8 1" 4096] fresh_wal_start page_size_4096 calm_env_ok
  by (simp add: frame_ok_def) blast

end
