(* ===== verification/Spec2Isabelle.thy ===== *)
theory Spec2Isabelle
  imports Varint CType HashRep UtfText NumFacts Complete TokFacts RowSetFacts BitvecFacts RecordFacts LikeFacts RecCmpFacts Prng
    WalIterFacts WalLogFacts
begin

text \<open>
  \<^bold>\<open>The program.\<close> The repository is an iOS app with its libraries. Its C code is an SQLite with
  encryption, built for the app in \<^verbatim>\<open>src/SwiftApp/Pods/WCDBOptimizedSQLCipher\<close>; the paths below are
  relative to that directory. The development models the parts of it that turn bytes into values and
  back, the containers that the rest is built on, and the write-ahead log. The compile-time options are those of the pod:
  no debugging code (\<^verbatim>\<open>NDEBUG\<close>), \<^verbatim>\<open>SQLITE_ENABLE_API_ARMOR\<close>, \<^verbatim>\<open>SQLITE_UNTESTABLE\<close>, \<^verbatim>\<open>SQLITE_OMIT_SHARED_CACHE\<close>, ASCII.
  Where the code has a portable and a compiler-specific branch, the portable one is modelled.

  \<^bold>\<open>Conventions.\<close> A C integer is a word of its width, or an \<open>int\<close> or \<open>nat\<close> where the code cannot
  overflow or where the overflow check is written out. A buffer is the list of its bytes and a pointer
  into it is a suffix or an index; every access is checked and an access outside is \<open>None\<close>. A string
  that ends in a NUL is the list of the bytes before it. Error codes and early returns are values of
  the result. The memory allocator is an argument: a list of answers (\<open>mem\<close>) or a function from sizes to
  blocks. Loops are structural recursions or functions with a termination proof.

  \<^bold>\<open>Foundations.\<close>
  \<^item> \<open>Prelude\<close>: the word types, bit-by-bit equality of words, properties of all bytes by evaluation,
    checked reads and writes, C strings, the outcome of the allocator.
  \<^item> \<open>Interfaces\<close>: the contracts between components as locales. \<open>byte_codec\<close> is a self-delimiting
    encoding (interpreted in \<open>Varint\<close>); \<open>char_codec\<close> a character encoding (three interpretations in
    \<open>UtfText\<close>); \<open>assoc_map\<close> a map with normalised keys and its histories (\<open>HashRep\<close>, \<open>BitvecFacts\<close>).
    \<open>frame_index\<close>, in \<open>WalIndex\<close>, is what the readers of the log rely on (\<open>WalIndexFacts\<close>).
  \<^item> \<open>Collation\<close>: the contract of a comparison function, the locale \<open>collation\<close>, with lexical and numeric orders,
    interpreted for bytes, BINARY and NOCASE in \<open>CompareFacts\<close>.

  \<^bold>\<open>Components.\<close>
  \<^item> \<open>Varint\<close> (\<^verbatim>\<open>src/util.c\<close>): \<^verbatim>\<open>sqlite3PutVarint\<close>, the unrolled \<^verbatim>\<open>sqlite3GetVarint\<close> on two 32-bit halves,
    \<^verbatim>\<open>sqlite3GetVarint32\<close>, \<^verbatim>\<open>sqlite3VarintLen\<close>, the four-byte integers. Lemmas: the reader computes the base-128 value
    of the format, reading undoes writing, the 32-bit reader saturates.
  \<^item> \<open>CType\<close> (\<^verbatim>\<open>src/global.c\<close>, \<^verbatim>\<open>src/util.c\<close>): the two character tables, the classification macros,
    case-insensitive comparison, dequoting, hexadecimal text.
  \<^item> \<open>Hash\<close>, \<open>HashRep\<close> (\<^verbatim>\<open>src/hash.c\<close>): the table on an explicit store of doubly linked elements. The
    invariant relates store, list and buckets to a list of pairs; every operation keeps it, and a
    lookup gives what the last operation on the key left.
  \<^item> \<open>Utf\<close>, \<open>UtfText\<close> (\<^verbatim>\<open>src/utf.c\<close>, \<^verbatim>\<open>src/vdbemem.c\<close>): the character macros of UTF-8 and both UTF-16, the
    translation of a string value inside its allocated block, the byte-order mark, counting.
  \<^item> \<open>UtilNum\<close>, \<open>NumFacts\<close> (\<^verbatim>\<open>src/util.c\<close>): text to integers, arithmetic with overflow detection, where
    every intermediate result is checked to be in range, and the planner's logarithms.
  \<^item> \<open>Complete\<close> (\<^verbatim>\<open>src/complete.c\<close>): the scanner and the eight-state machine of \<^verbatim>\<open>sqlite3_complete\<close>, against a
    grammar of complete texts.
  \<^item> \<open>Keyword\<close>, \<open>KeywordFacts\<close> (\<^verbatim>\<open>keywordhash.h\<close>, \<^verbatim>\<open>parse.h\<close>): the perfect hash with its packed text is a
    lookup in the list of the 136 keywords.
  \<^item> \<open>Tokenize\<close>, \<open>TokFacts\<close> (\<^verbatim>\<open>src/tokenize.c\<close>): \<^verbatim>\<open>sqlite3GetToken\<close> and the loop of \<^verbatim>\<open>sqlite3RunParser\<close>. The
    generated parser is a parameter: a function that may answer anything.
  \<^item> \<open>RowSet\<close>, \<open>RowSetFacts\<close> (\<^verbatim>\<open>src/rowset.c\<close>): insertion, the merge sort with forty buckets, the balanced
    trees. A rowset refines a set and the set of earlier batches.
  \<^item> \<open>Bitvec\<close>, \<open>BitvecFacts\<close> (\<^verbatim>\<open>src/bitvec.c\<close>): the three representations of a sparse bitmap as a nested
    datatype. Every probe of the hash table ends, every operation refines the set.
  \<^item> \<open>RecordFmt\<close>, \<open>RecordFacts\<close> (\<^verbatim>\<open>src/vdbeaux.c\<close>, \<^verbatim>\<open>src/vdbe.c\<close>): serial types, \<^verbatim>\<open>OP_MakeRecord\<close>,
    \<^verbatim>\<open>sqlite3VdbeRecordUnpack\<close>. A record holds the values it was made of, for every content of the
    registers; unpacking any bytes stays inside the buffer and its padding.
  \<^item> \<open>Like\<close>, \<open>LikeFacts\<close> (\<^verbatim>\<open>src/func.c\<close>): \<^verbatim>\<open>patternCompare\<close> with its searches and early exits computes the
    plain definition of a match on characters.
  \<^item> \<open>RecCmp\<close>, \<open>DblFacts\<close>, \<open>CompareFacts\<close>, \<open>RecCmpFacts\<close> (\<^verbatim>\<open>src/main.c\<close>, \<^verbatim>\<open>src/vdbeaux.c\<close>): the collating functions, the
    comparison of values and of a record with an unpacked key. An integer and a double are compared exactly;
    the record comparison is the lexical order of the values, and both fast versions agree with it; RTRIM is
    an order only on texts without control characters. A double is the sign, exponent and fraction of its bits; the branch for an eight-byte
    \<^verbatim>\<open>long double\<close> is modelled. The theorems are about texts in the encoding of their collating sequence.
  \<^item> \<open>Prng\<close> (\<^verbatim>\<open>src/random.c\<close>): the generator of random bytes, with saving and restoring. The array stays a
    permutation, and the stream does not depend on how it is cut into calls.
  \<^item> \<open>WalIndex\<close>, \<open>WalTables\<close>, \<open>WalIndexFacts\<close> (\<^verbatim>\<open>src/wal.c\<close>): the index of the write-ahead log. \<open>Wal\<close> is the
    connection of the C struct with the shared pages and the two copies of the shared header. The invariant relates the
    hash tables to the list of the page numbers of the frames; a lookup is the linear search of that list, and the
    steps of the writers (publishing, rolling back, savepoints, a writer taking over) keep the snapshot of a reader.
  \<^item> \<open>WalIter\<close>, \<open>WalSortFacts\<close>, \<open>WalIterFacts\<close>: the iterator of the checkpoint with its merge sort in place
    visits each page once, in order, with its newest frame.
  \<^item> \<open>WalLog\<close>, \<open>WalLogFacts\<close>: the file of the log, its chained checksums, and \<^verbatim>\<open>walIndexRecover\<close>: a log cut off
    anywhere is recovered to its last complete transaction, except that a log of only a header is not replaced,
    so that what is committed after it is lost. The options \<^verbatim>\<open>SQLITE_WCDB\<close> and
    \<^verbatim>\<open>SQLITE_WCDB_IMPROVED_CHECKPOINT\<close> of the pod are on.

  \<^bold>\<open>How they interact.\<close> The tokenizer calls the keyword recogniser and the character tables; records
  call the varints and the buffer routines of string values; the hash table folds its keys with the
  character tables; the pattern matcher reads characters with the UTF-8 reader; the log writes its numbers with
  the four-byte integers, and recovery fills the index. The theories import
  each other accordingly, and the properties rest on the facts of the imported theories.

  \<^bold>\<open>Bounds and fuel.\<close> \<open>bv_set\<close> recurses with the fuel 16: each level divides the 32-bit size by the 62
  sub-bitmaps, so four levels reach the smallest size; with the calls that turn a table into sub-bitmaps the recursion is at
  most nine calls deep, and \<open>bitvec_set_returns\<close> proves that the fuel is never
  used up. The other loops need no fuel. The lengths of records and values are bounded by \<open>2 ^ 30\<close>, the
  largest length the library can be built for, and those of the texts of the fast comparison by \<open>10 ^ 9\<close>, the
  default of \<^verbatim>\<open>SQLITE_MAX_LENGTH\<close>. Frame numbers are below \<open>2 ^ 32\<close>, the range of \<^verbatim>\<open>u32\<close>. What the file system and the
  allocator answer to the log is an argument (\<open>wal_env\<close>, \<open>rec_env\<close>), one answer for each call.

  \<^bold>\<open>Not modelled.\<close> The b-tree, the pager and the page cache, which depend on the file system
  and its order of effects; of the log the locks, the copying of a checkpoint and the restart of the log, frames that a transaction
  overwrites, padding and syncing, and weak memory; the virtual machine other than record building; the parser tables,
  which are generated; name resolution, planning and code generation, left out for their size; floating-point
  text conversion and printing, which use a \<^verbatim>\<open>long double\<close> of no fixed format; dates, which use the
  system clock; encryption, whose library is not in the repository; full-text search and the other
  extensions. The rest of the repository is Swift and Objective-C or headers of binary frameworks.
\<close>

end
